(* ===== verification/Prelude.thy ===== *)
theory Prelude
  imports Main "HOL-Library.Word"
begin

unbundle bit_operations_syntax

text \<open>
  Shared vocabulary of the development: the machine types, Rust's \<open>Result\<close> as a sum with
  \<open>and_then\<close> for the \<open>?\<close> operator, slices and checked reads, and the little-endian
  encoding of integers. Lemmas that every component uses are declared \<open>[simp]\<close> or collected
  in \<open>range_simps\<close> (slices, reads at a position) and \<open>le_simps\<close> (little-endian values).
\<close>

named_theorems range_simps "reads of a list at a position, slices of appends"
named_theorems le_simps "little-endian encodings"

type_synonym byte = "8 word"
type_synonym u16 = "16 word"
type_synonym u32 = "32 word"
type_synonym u64 = "64 word"
type_synonym bytes = "byte list"

section \<open>Results\<close>

text \<open>
  Rust's \<open>Result<T, E>\<close> is \<open>'e + 'a\<close>: \<open>Inl\<close> is \<open>Err\<close>, \<open>Inr\<close> is \<open>Ok\<close>. The early return of
  the \<open>?\<close> operator is \<open>and_then\<close>.
\<close>

fun and_then :: "'e + 'a \<Rightarrow> ('a \<Rightarrow> 'e + 'b) \<Rightarrow> 'e + 'b" where
  "and_then (Inl e) f = Inl e"
| "and_then (Inr x) f = f x"

lemma and_then_cong [fundef_cong]:
  "m = m' \<Longrightarrow> (\<And>x. m' = Inr x \<Longrightarrow> f x = g x) \<Longrightarrow> and_then m f = and_then m' g"
  by (cases m') auto

lemma and_then_Inr_iff: "and_then m f = Inr y \<longleftrightarrow> (\<exists>x. m = Inr x \<and> f x = Inr y)"
  by (cases m) auto

lemma and_then_Inl_iff:
  "and_then m f = Inl e \<longleftrightarrow> m = Inl e \<or> (\<exists>x. m = Inr x \<and> f x = Inl e)"
  by (cases m) auto

lemma and_then_assoc [simp]:
  "and_then (and_then m f) g = and_then m (\<lambda>x. and_then (f x) g)"
  by (cases m) auto

lemma and_then_if: "and_then (if c then m else n) f = (if c then and_then m f else and_then n f)"
  by simp

text \<open>\<open>Option::ok_or\<close>.\<close>

definition ok_or :: "'a option \<Rightarrow> 'e \<Rightarrow> 'e + 'a" where
  "ok_or x e = (case x of None \<Rightarrow> Inl e | Some v \<Rightarrow> Inr v)"

lemma ok_or_simps [simp]: "ok_or None e = Inl e" "ok_or (Some v) e = Inr v"
  by (simp_all add: ok_or_def)

lemma ok_or_Inr_iff: "ok_or x e = Inr v \<longleftrightarrow> x = Some v"
  by (cases x) auto

text \<open>
  \<open>outcome E P r\<close>: an error of \<open>r\<close> satisfies \<open>E\<close>, a value satisfies \<open>P\<close>. Its rules walk through
  the operations of a fallible routine like a weakest precondition.
\<close>

named_theorems outcome_simps "outcomes of the result combinators"

definition outcome :: "('e \<Rightarrow> bool) \<Rightarrow> ('a \<Rightarrow> bool) \<Rightarrow> 'e + 'a \<Rightarrow> bool" where
  "outcome E P r = (case r of Inl e \<Rightarrow> E e | Inr x \<Rightarrow> P x)"

lemma outcome_Inl [outcome_simps]: "outcome E P (Inl e) = E e"
  by (simp add: outcome_def)

lemma outcome_Inr [outcome_simps]: "outcome E P (Inr x) = P x"
  by (simp add: outcome_def)

lemma outcome_and_then [outcome_simps]:
  "outcome E P (and_then m f) = outcome E (\<lambda>x. outcome E P (f x)) m"
  by (cases m) (simp_all add: outcome_def)

lemma outcome_ok_or [outcome_simps]:
  "outcome E P (ok_or x e) = (case x of None \<Rightarrow> E e | Some v \<Rightarrow> P v)"
  by (cases x) (simp_all add: outcome_def)

lemma outcome_iff: "outcome E P r \<longleftrightarrow> (\<forall>e. r = Inl e \<longrightarrow> E e) \<and> (\<forall>x. r = Inr x \<longrightarrow> P x)"
  by (cases r) (auto simp: outcome_def)

lemma outcome_mono:
  "outcome E P r \<Longrightarrow> (\<And>x. r = Inr x \<Longrightarrow> P x \<Longrightarrow> Q x) \<Longrightarrow> outcome E Q r"
  by (auto simp: outcome_iff)

lemma outcome_if [outcome_simps]:
  "outcome E P (if c then m else n) \<longleftrightarrow> (c \<longrightarrow> outcome E P m) \<and> (\<not> c \<longrightarrow> outcome E P n)"
  by simp

text \<open>The same as introduction rules, for goals where the intermediate facts are needed by name.\<close>

named_theorems outcome_intros "introduction rules for outcomes"

lemma outcome_bind:
  "outcome E Q m \<Longrightarrow> (\<And>x. m = Inr x \<Longrightarrow> Q x \<Longrightarrow> outcome E P (f x)) \<Longrightarrow> outcome E P (and_then m f)"
  by (cases m) (auto simp: outcome_simps)

lemma outcome_bind_ok_or [outcome_intros]:
  "(x = None \<Longrightarrow> E e) \<Longrightarrow> (\<And>v. x = Some v \<Longrightarrow> outcome E P (f v)) \<Longrightarrow>
     outcome E P (and_then (ok_or x e) f)"
  by (cases x) (auto simp: outcome_simps)

lemma outcome_ifI [outcome_intros]:
  "(c \<Longrightarrow> outcome E P m) \<Longrightarrow> (\<not> c \<Longrightarrow> outcome E P n) \<Longrightarrow> outcome E P (if c then m else n)"
  by simp

lemma outcome_prod [outcome_intros]:
  "(\<And>a b. x = (a, b) \<Longrightarrow> outcome E P (f a b)) \<Longrightarrow> outcome E P (case x of (a, b) \<Rightarrow> f a b)"
  by (cases x) auto

lemma outcome_InlI [outcome_intros]: "E e \<Longrightarrow> outcome E P (Inl e)"
  by (simp add: outcome_simps)

lemma outcome_InrI [outcome_intros]: "P x \<Longrightarrow> outcome E P (Inr x)"
  by (simp add: outcome_simps)

section \<open>The address-sized integers\<close>

text \<open>
  \<open>usize\<close> and \<open>u64\<close> offsets are natural numbers; the target is 64-bit, so both have the same
  range. Where the code guards an addition (\<open>checked_add\<close>, \<open>saturating_add\<close>), so does the model.
  A Rust slice never has more than \<open>isize::MAX\<close> elements, which is \<open>fits\<close>.
\<close>

definition usize_max :: nat where "usize_max = 2 ^ 64 - 1"

definition checked_add :: "nat \<Rightarrow> nat \<Rightarrow> nat option" where
  "checked_add a b = (if a + b \<le> usize_max then Some (a + b) else None)"

definition checked_mul :: "nat \<Rightarrow> nat \<Rightarrow> nat option" where
  "checked_mul a b = (if a * b \<le> usize_max then Some (a * b) else None)"

definition sat_add :: "nat \<Rightarrow> nat \<Rightarrow> nat" where
  "sat_add a b = min (a + b) usize_max"

definition sat_mul :: "nat \<Rightarrow> nat \<Rightarrow> nat" where
  "sat_mul a b = min (a * b) usize_max"

definition fits :: "'a list \<Rightarrow> bool" where
  "fits xs \<longleftrightarrow> length xs < 2 ^ 63"

lemma checked_add_Some_iff: "checked_add a b = Some c \<longleftrightarrow> c = a + b \<and> a + b \<le> usize_max"
  by (auto simp: checked_add_def)

lemma checked_add_fits: "a + b \<le> 2 ^ 63 \<Longrightarrow> checked_add a b = Some (a + b)"
  by (simp add: checked_add_def usize_max_def)

lemma sat_add_fits: "a + b \<le> 2 ^ 63 \<Longrightarrow> sat_add a b = a + b"
  by (simp add: sat_add_def usize_max_def)

section \<open>Slices and checked reads\<close>

text \<open>
  \<open>slice_of xs a b\<close> is \<open>xs[a..b]\<close> for a range that is known to lie inside; \<open>get_range\<close> and
  \<open>get_at\<close> are Rust's checked \<open>get\<close>.
\<close>

definition slice_of :: "'a list \<Rightarrow> nat \<Rightarrow> nat \<Rightarrow> 'a list" where
  "slice_of xs a b = take (b - a) (drop a xs)"

definition get_range :: "'a list \<Rightarrow> nat \<Rightarrow> nat \<Rightarrow> 'a list option" where
  "get_range xs a b = (if a \<le> b \<and> b \<le> length xs then Some (slice_of xs a b) else None)"

definition get_at :: "'a list \<Rightarrow> nat \<Rightarrow> 'a option" where
  "get_at xs i = (if i < length xs then Some (xs ! i) else None)"

lemma length_slice [simp]: "length (slice_of xs a b) = min (b - a) (length xs - a)"
  by (simp add: slice_of_def)

lemma slice_same [simp]: "slice_of xs a a = []"
  by (simp add: slice_of_def)

lemma slice_nth [simp]: "a + i < b \<Longrightarrow> a + i < length xs \<Longrightarrow> slice_of xs a b ! i = xs ! (a + i)"
  by (simp add: slice_of_def)

lemma slice_0 [simp]: "slice_of xs 0 b = take b xs"
  by (simp add: slice_of_def)

lemma slice_full: "length xs \<le> b \<Longrightarrow> slice_of xs a b = drop a xs"
  by (simp add: slice_of_def)

lemma slice_append_slice: "a \<le> b \<Longrightarrow> b \<le> c \<Longrightarrow> slice_of xs a b @ slice_of xs b c = slice_of xs a c"
proof -
  assume "a \<le> b" "b \<le> c"
  then have "take (c - a) (drop a xs) = take (b - a) (drop a xs) @ take (c - b) (drop (b - a) (drop a xs))"
    by (metis diff_add_inverse2 le_add_diff_inverse2 Nat.add_diff_assoc add.commute take_add)
  then show ?thesis using \<open>a \<le> b\<close> by (simp add: slice_of_def add.commute)
qed

lemma take_append_slice: "a \<le> b \<Longrightarrow> take a xs @ slice_of xs a b = take b xs"
  using slice_append_slice [of 0 a b xs] by simp

lemma slice_append_drop: "a \<le> b \<Longrightarrow> slice_of xs a b @ drop b xs = drop a xs"
  unfolding slice_of_def
  by (metis append_take_drop_id drop_drop le_add_diff_inverse2)

lemma slice_Suc: "a < b \<Longrightarrow> a < length xs \<Longrightarrow> slice_of xs a b = xs ! a # slice_of xs (Suc a) b"
  unfolding slice_of_def
  by (metis Cons_nth_drop_Suc Suc_diff_Suc take_Suc_Cons)

lemma slice_eq_iff:
  assumes "a + n \<le> length xs" and "b + n \<le> length xs"
  shows "slice_of xs a (a + n) = slice_of xs b (b + n) \<longleftrightarrow> (\<forall>i<n. xs ! (a + i) = xs ! (b + i))"
  using assms by (auto simp: list_eq_iff_nth_eq)

lemma slice_append_left: "b \<le> length xs \<Longrightarrow> slice_of (xs @ ys) a b = slice_of xs a b"
  by (simp add: slice_of_def)

lemma get_at_Some_iff: "get_at xs i = Some x \<longleftrightarrow> i < length xs \<and> x = xs ! i"
  by (auto simp: get_at_def)

lemma get_range_Some_iff:
  "get_range xs a b = Some ys \<longleftrightarrow> a \<le> b \<and> b \<le> length xs \<and> ys = slice_of xs a b"
  by (auto simp: get_range_def)

text \<open>
  Reading where the rest of the input is known: if the input from position \<open>p\<close> on is
  \<open>ys @ zs\<close>, a read of \<open>length ys\<close> elements yields \<open>ys\<close> and leaves \<open>zs\<close>.
\<close>

lemma get_at_drop [range_simps]: "drop p xs = y # ys \<Longrightarrow> get_at xs p = Some y"
  by (metis get_at_def drop_eq_Nil2 linorder_not_le list.distinct(1) list.sel(1) hd_drop_conv_nth)

lemma nth_drop_Cons [range_simps]: "drop p xs = y # ys \<Longrightarrow> xs ! p = y"
  by (metis drop_eq_Nil2 linorder_not_le list.distinct(1) list.sel(1) hd_drop_conv_nth)

lemma drop_Cons_less [range_simps]: "drop p xs = y # ys \<Longrightarrow> p < length xs"
  by (metis drop_eq_Nil2 linorder_not_le list.distinct(1))

lemma drop_append_step: "drop p xs = ys @ zs \<Longrightarrow> drop (p + length ys) xs = zs"
  by (metis add.commute append_eq_conv_conj drop_drop)

lemma drop_Cons_step [range_simps]: "drop p xs = y # ys \<Longrightarrow> drop (Suc p) xs = ys"
  by (metis drop_Suc list.sel(3) tl_drop)

lemma slice_drop: "drop p xs = ys @ zs \<Longrightarrow> slice_of xs p (p + length ys) = ys"
  by (simp add: slice_of_def)

lemma drop_append_le:
  assumes "drop p xs = ys @ zs" and "p \<le> length xs"
  shows "p + length ys \<le> length xs"
proof -
  have "length (drop p xs) = length ys + length zs" using assms(1) by simp
  then show ?thesis using assms(2) by simp
qed

lemma get_range_drop:
  "drop p xs = ys @ zs \<Longrightarrow> p \<le> length xs \<Longrightarrow> get_range xs p (p + length ys) = Some ys"
  by (simp add: get_range_def slice_drop drop_append_le)

section \<open>Adjacent ranges\<close>

text \<open>\<open>tiled a xs b\<close>: the (start, length) ranges \<open>xs\<close> follow each other from \<open>a\<close> to \<open>b\<close> without a gap.\<close>

fun tiled :: "nat \<Rightarrow> (nat \<times> nat) list \<Rightarrow> nat \<Rightarrow> bool" where
  "tiled a [] b \<longleftrightarrow> a = b"
| "tiled a (r # rs) b \<longleftrightarrow> fst r = a \<and> tiled (a + snd r) rs b"

lemma tiled_append: "tiled a (xs @ ys) c \<longleftrightarrow> (\<exists>b. tiled a xs b \<and> tiled b ys c)"
  by (induction xs arbitrary: a) auto

lemma tiled_snoc: "tiled a (xs @ [r]) c \<longleftrightarrow> tiled a xs (fst r) \<and> c = fst r + snd r"
  by (auto simp: tiled_append)

lemma tiled_sum: "tiled a xs b \<Longrightarrow> b = a + sum_list (map snd xs)"
  by (induction xs arbitrary: a) fastforce+

section \<open>Little-endian integers\<close>

fun le_nat :: "bytes \<Rightarrow> nat" where
  "le_nat [] = 0"
| "le_nat (b # bs) = unat b + 256 * le_nat bs"

fun nat_le :: "nat \<Rightarrow> nat \<Rightarrow> bytes" where
  "nat_le 0 v = []"
| "nat_le (Suc k) v = word_of_nat (v mod 256) # nat_le k (v div 256)"

lemma length_nat_le [simp]: "length (nat_le k v) = k"
  by (induction k arbitrary: v) auto

lemma unat_byte_less [simp]: "unat (b :: byte) < 256"
  by (rule order.strict_trans2 [OF unsigned_less]) simp

lemma unat_word_of_nat_byte [simp]: "unat (word_of_nat (v mod 256) :: byte) = v mod 256"
  by (simp add: unat_of_nat)

lemma le_nat_nat_le [le_simps]: "le_nat (nat_le k v) = v mod 256 ^ k"
  by (induction k arbitrary: v) (simp_all add: mod_mult2_eq)

lemma le_nat_less: "le_nat bs < 256 ^ length bs"
proof (induction bs)
  case (Cons b bs)
  have "unat b < 256" by simp
  moreover have "Suc (le_nat bs) \<le> 256 ^ length bs" using Cons by simp
  ultimately have "unat b + 256 * le_nat bs < 256 * Suc (le_nat bs)" by simp
  also have "256 * Suc (le_nat bs) \<le> 256 * 256 ^ length bs" using Cons by (intro mult_le_mono2) simp
  finally show ?case by simp
qed simp

lemma nat_le_le_nat [le_simps]: "nat_le (length bs) (le_nat bs) = bs"
  by (induction bs) auto

lemma le_nat_append: "le_nat (xs @ ys) = le_nat xs + 256 ^ length xs * le_nat ys"
  by (induction xs) (auto simp: algebra_simps)

text \<open>Rust's \<open>to_le_bytes\<close> and \<open>from_le_bytes\<close> at the widths the code uses.\<close>

definition u16_to_le :: "u16 \<Rightarrow> bytes" where "u16_to_le v = nat_le 2 (unat v)"
definition u32_to_le :: "u32 \<Rightarrow> bytes" where "u32_to_le v = nat_le 4 (unat v)"
definition u64_to_le :: "u64 \<Rightarrow> bytes" where "u64_to_le v = nat_le 8 (unat v)"
definition u16_from_le :: "bytes \<Rightarrow> u16" where "u16_from_le bs = word_of_nat (le_nat bs)"
definition u32_from_le :: "bytes \<Rightarrow> u32" where "u32_from_le bs = word_of_nat (le_nat bs)"
definition u64_from_le :: "bytes \<Rightarrow> u64" where "u64_from_le bs = word_of_nat (le_nat bs)"

lemma length_to_le [simp]:
  "length (u16_to_le v) = 2" "length (u32_to_le w) = 4" "length (u64_to_le x) = 8"
  by (simp_all add: u16_to_le_def u32_to_le_def u64_to_le_def)

lemma from_to_le [simp]:
  "u16_from_le (u16_to_le v) = v" "u32_from_le (u32_to_le w) = w" "u64_from_le (u64_to_le x) = x"
proof -
  have "unat v < 256 ^ 2" "unat w < 256 ^ 4" "unat x < 256 ^ 8"
    by (rule order.strict_trans2 [OF unsigned_less], simp)+
  then show "u16_from_le (u16_to_le v) = v" "u32_from_le (u32_to_le w) = w"
    "u64_from_le (u64_to_le x) = x"
    by (simp_all add: u16_to_le_def u32_to_le_def u64_to_le_def u16_from_le_def u32_from_le_def
        u64_from_le_def le_nat_nat_le)
qed

lemma to_from_le:
  "length bs = 2 \<Longrightarrow> u16_to_le (u16_from_le bs) = bs"
  "length bs = 4 \<Longrightarrow> u32_to_le (u32_from_le bs) = bs"
  "length bs = 8 \<Longrightarrow> u64_to_le (u64_from_le bs) = bs"
  using le_nat_less [of bs] nat_le_le_nat [of bs]
  by (simp_all add: u16_to_le_def u32_to_le_def u64_to_le_def u16_from_le_def u32_from_le_def
      u64_from_le_def unat_of_nat)

lemma xor_eq_0_imp_eq:
  fixes a b :: "'a::len word"
  assumes "a XOR b = 0"
  shows "a = b"
proof -
  have "b = (a XOR b) XOR b" using assms by simp
  also have "\<dots> = a" by (simp add: xor.assoc)
  finally show ?thesis by simp
qed

text \<open>The bits of a little-endian value are the bits of its bytes.\<close>

lemma bit_le_nat: "bit (le_nat bs) n \<longleftrightarrow> n div 8 < length bs \<and> bit (bs ! (n div 8)) (n mod 8)"
proof (induction bs arbitrary: n)
  case Nil
  then show ?case by simp
next
  case (Cons b bs)
  have split: "bit (unat b + 256 * le_nat bs) n = (if n < 8 then bit (unat b) n else bit (le_nat bs) (n - 8))"
  proof -
    have "unat b + 256 * le_nat bs = unat b + push_bit 8 (le_nat bs)"
      by (simp add: push_bit_eq_mult)
    also have "\<dots> = unat b OR push_bit 8 (le_nat bs)"
      by (rule disjunctive_add) (auto simp: bit_push_bit_iff bit_unsigned_iff dest: bit_imp_le_length)
    finally have "bit (unat b + 256 * le_nat bs) n = (bit (unat b) n \<or> 8 \<le> n \<and> bit (le_nat bs) (n - 8))"
      by (simp add: bit_or_iff bit_push_bit_iff)
    moreover have "bit (unat b) n \<Longrightarrow> n < 8"
      using bit_imp_le_length [of b n] by (simp add: bit_unsigned_iff)
    ultimately show ?thesis by auto
  qed
  show ?case
  proof (cases "n < 8")
    case True
    then show ?thesis using split by (simp add: bit_unsigned_iff)
  next
    case False
    then obtain m where m: "n = m + 8" using le_Suc_ex [of 8 n] by (auto simp: add.commute)
    then have "n div 8 = Suc (m div 8)" "n mod 8 = m mod 8" by simp_all
    then show ?thesis using split Cons.IH [of m] m by simp
  qed
qed

end
