(* ===== verification/Errors.thy ===== *)
theory Errors
  imports Prelude
begin

text \<open>
  The error values of \<open>src/error.rs\<close>. \<open>error\<close> has the constructors of \<open>Error\<close>; where the source
  carries a formatted message, the model carries a constructor that names it (the numbers printed
  inside a message are not kept). \<open>Panic\<close> is not a value of the source's type: it stands for a
  Rust panic (an index out of range, a failed \<open>unwrap\<close>, an arithmetic underflow), so that the
  absence of panics can be stated as a property. \<open>Unending\<close> stands for a computation that does not
  return: a loop that outlives its fuel, or a thread that waits for a message nobody will send.
\<close>

datatype decode_error =
    InvalidMagic | InvalidLevel | Truncated | CrcMismatch | RandomizedBlock | InvalidHuffman
  | InvalidBlock | BlockOverflow

datatype lz4_reason =
    TruncatedField | TruncatedDescriptor | UnsupportedVersion | ReservedBits | UnsupportedBlockSizeCode
  | TruncatedContentSize | ExternalDictionary | TruncatedHeaderChecksum | DescriptorRange
  | HeaderChecksum | BlockSize | BlockExceedsFrame | SkippableExceedsInput | TruncatedLength
  | LengthOverflow | OffsetExceedsHistory | OffsetExceedsDictionary | LiteralsExceedBlock
  | OutputExceedsMaximum | TruncatedOffset | MatchLengthOverflow | BlockChecksum | DecodedOverflow
  | LegacyFrame | WrongMagic | TooManyFrames | ContentSize | ContentChecksum | NoFrames

datatype config_reason =
    ReservationExceedsLimit | PipelineFull | NothingPending | WorkerStopped | WorkerPanicked
  | DecoderStopped | StagedWorkerStopped | LevelRange | MemoryLimitZero | MemoryLimitTooSmall
  | TooManyMarkers | OffsetOverflow

datatype gzip_reason =
    TooManyMembers | TrailerOverflow | TruncatedTrailer nat | Crc32Mismatch nat | SizeMismatch nat
  | GzipDecodedOverflow | NoMembers | ChunkBudget | BackReference nat nat | UnavailableHistory
  | DeflateEnd | DeflateStart | TrailingDeflate nat | NoBoundary nat | HeaderOverflow | TruncatedHeader nat
  | MissingMagic nat | CompressionMethod nat | ReservedFlags nat | TruncatedExtraLength nat
  | TruncatedExtra nat | TruncatedText nat | UnterminatedText nat | TruncatedHeaderCrc nat
  | HeaderCrcMismatch nat | ReservedBlockType nat | LengthComplement nat | DistanceSymbol nat
  | LiteralSymbol nat | RepeatWithoutPrevious nat | CodeLengthSymbol nat | NoEndOfBlock nat
  | RepeatExceedsTable nat | CodeLengthTooLong | Oversubscribed | EmptyTable nat | InvalidCode nat
  | TruncatedCode nat | EndOfDeflate nat | Unaligned nat | DeflateOverflow | TruncatedStored nat

datatype index_reason =
    IndexHeader | IndexChecksum | IndexMagic | IndexVersion | SourceIdentity | CountOverflow | CountMismatch
  | SourceOverflow | BlocksNotContiguous | BlockRange | BlockStream | IndexDecodedOverflow | BlockOrder
  | DecodedSize | StreamRecord | StreamCountOverflow | StreamRange | WrongStream | StreamSizeOverflow
  | StreamsDoNotCover | IndexOffset | IndexTruncated

datatype zip_reason =
    PathNotUtf8 | UnsafePath | EmptyPath | UnsupportedEntry | PathTooLong | LocalExtraTooLarge | CentralExtraTooLarge
  | CompressedNeedsZip64 | EntryNeedsZip64 | DuplicatePath | CentralTruncated | CentralExceedsArchive
  | DuplicateNames | ArchiveUnreadable | EncryptedEntry | UnsafeEntryPath | EmptyEntryPath | EntryNotLocated
  | EntryRangeOverflow | EntryRangeExceeds | DecodedLengthOverflow | OutputLimitExceeded
  | DuplicateEntryPath | NonDirectoryAncestor | OverlappingData | StoredSizesDiffer | UnsupportedMethod
  | EntrySizeMismatch | EntryCrcMismatch | EntryDecode | AbsoluteTarget | EscapingTarget | TargetTooLarge

datatype format_reason =
    UnknownFormat | FormatMismatch | ArchiveFormat | ReaderFormat

datatype io_kind =
    BrokenPipe | InvalidInput | InvalidData | WriteZero | OtherIo

datatype error =
    InvalidBitCount nat
  | InvalidBitOffset nat nat
  | UnexpectedEof nat nat nat
  | InvalidStreamHeader
  | InvalidGzip gzip_reason
  | InvalidLz4 lz4_reason
  | InvalidZip zip_reason
  | UnsupportedFormat format_reason
  | Decode nat decode_error
  | InvalidIndex index_reason
  | InvalidConfiguration config_reason
  | Io io_kind
  | Panic
  | Unending

text \<open>Checked indexing: \<open>xs[i]\<close> panics out of range.\<close>

definition index :: "'a list \<Rightarrow> nat \<Rightarrow> error + 'a" where
  "index xs i = ok_or (get_at xs i) Panic"

text \<open>Slicing: \<open>&xs[a..b]\<close> panics out of range.\<close>

definition index_range :: "'a list \<Rightarrow> nat \<Rightarrow> nat \<Rightarrow> error + 'a list" where
  "index_range xs a b = ok_or (get_range xs a b) Panic"

lemma index_less [simp]: "i < length xs \<Longrightarrow> index xs i = Inr (xs ! i)"
  by (simp add: index_def get_at_def)

lemma index_range_le [simp]:
  "a \<le> b \<Longrightarrow> b \<le> length xs \<Longrightarrow> index_range xs a b = Inr (slice_of xs a b)"
  by (simp add: index_range_def get_range_def)

text \<open>\<open>safely P r\<close>: the computation does not panic, and a value it returns satisfies \<open>P\<close>.\<close>

abbreviation safely :: "('a \<Rightarrow> bool) \<Rightarrow> error + 'a \<Rightarrow> bool" where
  "safely P r \<equiv> outcome (\<lambda>e. e \<noteq> Panic) P r"

lemma safely_index [outcome_simps]: "safely P (index xs i) \<longleftrightarrow> i < length xs \<and> P (xs ! i)"
  by (auto simp: index_def get_at_def outcome_simps)

lemma safely_index_range [outcome_simps]:
  "safely P (index_range xs a b) \<longleftrightarrow> a \<le> b \<and> b \<le> length xs \<and> P (slice_of xs a b)"
  by (auto simp: index_range_def get_range_def outcome_simps)

end
