(* ===== verification/History.thy ===== *)
theory History
  imports Errors
begin

text \<open>
  \<open>src/history.rs\<close>: the overlapping copy of LZ77 decoders. \<open>extend_match\<close> is the source's
  four-way routine (plain copy, run of one value, two copies, doubling loop); \<open>copy_bytes\<close> is the
  byte-by-byte reference the source's test compares it with, and \<open>extend_match_copy_bytes\<close> is
  their equivalence.
\<close>

section \<open>The code\<close>

text \<open>\<open>slice::copy_within(a..b, dest)\<close>: the range is read before it is written.\<close>

definition copy_within :: "'a list \<Rightarrow> nat \<Rightarrow> nat \<Rightarrow> nat \<Rightarrow> 'a list" where
  "copy_within xs a b dest = take dest xs @ slice_of xs a b @ drop (dest + (b - a)) xs"

text \<open>
  The \<open>while copied < length\<close> loop. Its first iteration has \<open>copied = distance\<close>, which is
  positive; the second conjunct only makes the recursion well-founded for arguments the code never
  passes.
\<close>

function extend_loop :: "nat \<Rightarrow> nat \<Rightarrow> 'a list \<Rightarrow> nat \<Rightarrow> 'a list" where
  "extend_loop original len output copied =
     (if copied < len \<and> 0 < copied
      then (let count = min copied (len - copied)
            in extend_loop original len
                 (copy_within output original (original + count) (original + copied))
                 (copied + count))
      else output)"
  by pat_completeness auto
termination
  by (relation "measure (\<lambda>(original, len, output, copied). len - copied)") auto

declare extend_loop.simps [simp del]

definition extend_match :: "'a list \<Rightarrow> nat \<Rightarrow> nat \<Rightarrow> error + 'a list" where
  "extend_match output distance len =
     (let original = length output in
      if distance > original \<or> (distance = 0 \<and> 0 < len) then Inl Panic
      else if distance \<ge> len
      then Inr (output @ slice_of output (original - distance) (original - distance + len))
      else if distance = 1 then Inr (output @ replicate len (output ! (original - 1)))
      else if len \<le> distance * 2
      then (let output = output @ slice_of output (original - distance) original
            in Inr (output @ slice_of output original (original + len - distance)))
      else (let output = output @ replicate len (output ! (original - distance));
                output = copy_within output (original - distance) original original
            in Inr (extend_loop original len output distance)))"

section \<open>The reference\<close>

fun copy_bytes :: "'a list \<Rightarrow> nat \<Rightarrow> nat \<Rightarrow> 'a list" where
  "copy_bytes output distance 0 = output"
| "copy_bytes output distance (Suc n) =
     copy_bytes (output @ [output ! (length output - distance)]) distance n"

text \<open>The copied part is the last \<open>distance\<close> elements repeated.\<close>

definition periodic :: "'a list \<Rightarrow> nat \<Rightarrow> nat \<Rightarrow> 'a list" where
  "periodic output distance n = map (\<lambda>i. output ! (length output - distance + i mod distance)) [0..<n]"

lemma length_periodic [simp]: "length (periodic out d n) = n"
  by (simp add: periodic_def)

lemma periodic_nth [simp]: "i < n \<Longrightarrow> periodic out d n ! i = out ! (length out - d + i mod d)"
  by (simp add: periodic_def)

lemma copy_bytes_snoc:
  "copy_bytes out d (Suc n) =
     copy_bytes out d n @ [copy_bytes out d n ! (length (copy_bytes out d n) - d)]"
proof (induction n arbitrary: out)
  case 0
  show ?case by simp
next
  case (Suc n)
  have "copy_bytes out d (Suc (Suc n)) = copy_bytes (out @ [out ! (length out - d)]) d (Suc n)"
    by (rule copy_bytes.simps(2))
  also note Suc.IH
  finally show ?case by (simp only: copy_bytes.simps(2))
qed

lemma copy_bytes_periodic:
  assumes "0 < d" and "d \<le> length out"
  shows "copy_bytes out d n = out @ periodic out d n"
proof (induction n)
  case 0
  then show ?case by (simp add: periodic_def)
next
  case (Suc n)
  let ?xs = "out @ periodic out d n"
  have "?xs ! (length ?xs - d) = out ! (length out - d + n mod d)"
  proof (cases "n < d")
    case True
    then show ?thesis using assms by (simp add: nth_append)
  next
    case False
    then have "(n - d) mod d = n mod d" by (simp add: le_mod_geq)
    moreover have "length ?xs - d = length out + (n - d)" using False assms by simp
    ultimately show ?thesis using False assms by (simp add: nth_append)
  qed
  then show ?case
    by (simp only: copy_bytes_snoc Suc.IH) (simp add: periodic_def)
qed

lemma length_copy_bytes [simp]: "length (copy_bytes out d n) = length out + n"
  by (induction n arbitrary: out) simp_all

lemma copy_bytes_add: "copy_bytes out d (m + n) = copy_bytes (copy_bytes out d m) d n"
  by (induction m arbitrary: out) simp_all

section \<open>Equivalence\<close>

lemma length_copy_within:
  "dest + (b - a) \<le> length xs \<Longrightarrow> b \<le> length xs \<Longrightarrow> a \<le> b \<Longrightarrow>
     length (copy_within xs a b dest) = length xs"
  by (simp add: copy_within_def)

lemma copy_within_nth:
  assumes "dest + (b - a) \<le> length xs" and "b \<le> length xs" and "a \<le> b" and "i < length xs"
  shows "copy_within xs a b dest ! i =
    (if dest \<le> i \<and> i < dest + (b - a) then xs ! (a + (i - dest)) else xs ! i)"
proof -
  consider "i < dest" | "dest \<le> i" "i < dest + (b - a)" | "dest + (b - a) \<le> i" by linarith
  then show ?thesis
  proof cases
    case 1
    then show ?thesis using assms by (simp add: copy_within_def nth_append)
  next
    case 2
    then have "i - dest < b - a" by simp
    with 2 show ?thesis using assms by (simp add: copy_within_def nth_append min_def)
  next
    case 3
    let ?pre = "take dest xs @ slice_of xs a b"
    have "length (slice_of xs a b) = b - a" "length (take dest xs) = dest" using assms by auto
    then have "length ?pre = dest + (b - a)" by simp
    then have "(?pre @ drop (dest + (b - a)) xs) ! i = xs ! i"
      using 3 assms by (simp only: nth_append) simp
    then show ?thesis using 3 by (simp add: copy_within_def)
  qed
qed

text \<open>
  Loop invariant: the part before \<open>original\<close> is the old output, the next \<open>copied\<close> elements are
  periodic, and \<open>copied\<close> is a multiple of the distance until the loop ends.
\<close>

definition extend_inv :: "'a list \<Rightarrow> nat \<Rightarrow> nat \<Rightarrow> 'a list \<Rightarrow> nat \<Rightarrow> bool" where
  "extend_inv old d n output copied \<longleftrightarrow>
     length output = length old + n \<and> d \<le> copied \<and> copied \<le> n \<and> (d dvd copied \<or> copied = n) \<and>
     take (length old + copied) output = old @ periodic old d copied"

lemma extend_inv_step:
  assumes inv: "extend_inv old d n output copied" and less: "copied < n" and d: "0 < d"
  defines "count \<equiv> min copied (n - copied)"
  shows "extend_inv old d n
    (copy_within output (length old) (length old + count) (length old + copied)) (copied + count)"
proof -
  let ?o = "length old"
  let ?out' = "copy_within output ?o (?o + count) (?o + copied)"
  from inv have len: "length output = ?o + n" and dvd: "d dvd copied" and le: "d \<le> copied"
    and tk: "take (?o + copied) output = old @ periodic old d copied"
    using less by (auto simp: extend_inv_def)
  have nth: "output ! i = (old @ periodic old d copied) ! i" if "i < ?o + copied" for i
    using that tk by (metis nth_take)
  have cnt: "count \<le> copied" "copied + count \<le> n" using less by (auto simp: count_def)
  have len': "length ?out' = ?o + n"
    using len cnt by (subst length_copy_within) auto
  have per: "?out' ! i = (old @ periodic old d (copied + count)) ! i" if i: "i < ?o + (copied + count)" for i
  proof (cases "i < ?o + copied")
    case True
    have "?out' ! i = output ! i" using True len cnt by (subst copy_within_nth) auto
    also have "\<dots> = (old @ periodic old d copied) ! i" using True by (rule nth)
    also have "\<dots> = (old @ periodic old d (copied + count)) ! i" using True by (simp add: nth_append)
    finally show ?thesis .
  next
    case False
    then obtain j where j: "i = ?o + copied + j" using le_Suc_ex by (metis linorder_not_less)
    then have jc: "j < count" using i by simp
    have "?out' ! i = output ! (?o + j)" using j jc len cnt by (subst copy_within_nth) auto
    also have "\<dots> = old ! (?o - d + j mod d)"
      using jc cnt by (subst nth) (auto simp: nth_append)
    also have "j mod d = (copied + j) mod d" using dvd by (metis mod_add_left_eq dvd_imp_mod_0 add_0)
    finally show ?thesis using i j by (simp add: nth_append)
  qed
  have "take (?o + (copied + count)) ?out' = old @ periodic old d (copied + count)"
  proof (rule nth_equalityI)
    show "length (take (?o + (copied + count)) ?out') = length (old @ periodic old d (copied + count))"
      using len' cnt by simp
  next
    fix i assume "i < length (take (?o + (copied + count)) ?out')"
    then show "take (?o + (copied + count)) ?out' ! i = (old @ periodic old d (copied + count)) ! i"
      using per by simp
  qed
  moreover have "d dvd copied + count \<or> copied + count = n"
    using dvd by (auto simp: count_def min_def)
  ultimately show ?thesis
    using len' cnt le by (auto simp: extend_inv_def)
qed

lemma extend_loop_correct:
  assumes "extend_inv old d n output copied" and "0 < d"
  shows "extend_loop (length old) n output copied = old @ periodic old d n"
  using assms
proof (induction "length old" n "output" copied rule: extend_loop.induct)
  case (1 n out copied)
  show ?case
  proof (cases "copied < n")
    case True
    have pos: "0 < copied" using 1(2,3) by (auto simp: extend_inv_def)
    show ?thesis
      using True pos 1(1) [OF _ refl] extend_inv_step [OF 1(2) True 1(3)] 1(3)
      by (subst extend_loop.simps) (simp add: Let_def)
  next
    case False
    then have "copied = n" using 1(2) by (simp add: extend_inv_def)
    then have "out = old @ periodic old d n"
      using 1(2) by (metis extend_inv_def take_all_iff order_refl)
    then show ?thesis using False by (subst extend_loop.simps) simp
  qed
qed

lemma periodic_same: "n \<le> d \<Longrightarrow> d \<le> length out \<Longrightarrow> 0 < d \<Longrightarrow>
  periodic out d n = slice_of out (length out - d) (length out - d + n)"
  by (rule nth_equalityI) auto

lemma extend_match_periodic:
  assumes "0 < d" and "d \<le> length out"
  shows "extend_match out d n = Inr (out @ periodic out d n)"
proof -
  let ?o = "length out"
  consider "n \<le> d" | "d < n" "d = 1" | "d < n" "d \<noteq> 1" "n \<le> d * 2" | "d * 2 < n" "d \<noteq> 1"
    using assms by linarith
  then show ?thesis
  proof cases
    case 1
    then show ?thesis using assms by (simp add: extend_match_def periodic_same Let_def)
  next
    case 2
    have "replicate n (out ! (?o - 1)) = periodic out d n"
      using 2 assms by (intro nth_equalityI) auto
    then show ?thesis using 2 assms by (auto simp: extend_match_def Let_def)
  next
    case 3
    let ?o1 = "out @ slice_of out (?o - d) ?o"
    have "?o1 @ slice_of ?o1 ?o (?o + n - d) = out @ periodic out d n"
    proof (rule nth_equalityI)
      show "length (?o1 @ slice_of ?o1 ?o (?o + n - d)) = length (out @ periodic out d n)"
        using 3 assms by simp
    next
      fix i assume "i < length (?o1 @ slice_of ?o1 ?o (?o + n - d))"
      then have i: "i < ?o + n" using 3 assms by simp
      consider "i < ?o" | "?o \<le> i" "i < ?o + d" | "?o + d \<le> i" by linarith
      then show "(?o1 @ slice_of ?o1 ?o (?o + n - d)) ! i = (out @ periodic out d n) ! i"
      proof cases
        case 1
        then show ?thesis by (simp add: nth_append)
      next
        case 2
        then show ?thesis using i 3 assms by (simp add: nth_append)
      next
        case c3: 3
        then obtain j where j: "i = ?o + d + j" using le_Suc_ex by blast
        then have "j < d" using i 3 by simp
        then show ?thesis using i j 3 assms by (simp add: nth_append min_def)
      qed
    qed
    then show ?thesis using 3 assms by (simp add: extend_match_def Let_def)
  next
    case 4
    let ?o1 = "out @ replicate n (out ! (?o - d))"
    let ?o2 = "copy_within ?o1 (?o - d) ?o ?o"
    have "take (?o + d) ?o2 = out @ periodic out d d"
    proof (rule nth_equalityI)
      show "length (take (?o + d) ?o2) = length (out @ periodic out d d)"
        using 4 assms by (simp add: length_copy_within)
    next
      fix i assume "i < length (take (?o + d) ?o2)"
      then have i: "i < ?o + d" using 4 assms by (simp add: length_copy_within)
      then have "?o2 ! i = (if ?o \<le> i then ?o1 ! (?o - d + (i - ?o)) else ?o1 ! i)"
        using 4 assms by (subst copy_within_nth) auto
      then show "take (?o + d) ?o2 ! i = (out @ periodic out d d) ! i"
        using i assms by (auto simp: nth_append)
    qed
    then have "extend_inv out d n ?o2 d"
      using 4 assms by (auto simp: extend_inv_def length_copy_within)
    from extend_loop_correct [OF this] 4 assms show ?thesis
      by (simp add: extend_match_def Let_def)
  qed
qed

lemma extend_match_copy:
  "0 < d \<Longrightarrow> d \<le> length out \<Longrightarrow> extend_match out d n = Inr (copy_bytes out d n)"
  by (simp add: extend_match_periodic copy_bytes_periodic)

text \<open>A prefix the copy never reaches, and the part of a copy that does not overlap itself.\<close>

lemma copy_bytes_prefix:
  "d \<le> length ys \<Longrightarrow> 0 < d \<Longrightarrow> copy_bytes (xs @ ys) d n = xs @ copy_bytes ys d n"
proof (induction n arbitrary: ys)
  case (Suc n)
  have "(xs @ ys) ! (length (xs @ ys) - d) = ys ! (length ys - d)"
    using Suc.prems by (subst nth_append) auto
  then have "copy_bytes (xs @ ys) d (Suc n) = copy_bytes (xs @ (ys @ [ys ! (length ys - d)])) d n"
    by simp
  also have "\<dots> = xs @ copy_bytes (ys @ [ys ! (length ys - d)]) d n"
    using Suc.prems by (intro Suc.IH) auto
  finally show ?case by simp
qed simp

lemma copy_bytes_short:
  "n \<le> d \<Longrightarrow> d \<le> length out \<Longrightarrow> 0 < d \<Longrightarrow>
     copy_bytes out d n = out @ slice_of out (length out - d) (length out - d + n)"
  by (simp add: copy_bytes_periodic periodic_same)

section \<open>Properties\<close>

text \<open>C16. The four-way overlapping copy (plain copy, run of one value, two copies, doubling loop)
  is the byte-by-byte copy, for every distance into the existing output and every length.\<close>

theorem extend_match_reference:
  assumes "0 < distance" and "distance \<le> length out"
  shows "extend_match out distance n = Inr (copy_bytes out distance n)"
  using assms by (rule extend_match_copy)

theorem extend_match_reference_witness:
  "extend_match [1, 2, 3 :: nat] 2 7 = Inr [1, 2, 3, 2, 3, 2, 3, 2, 3, 2]"
  using extend_match_reference [of 2 "[1, 2, 3 :: nat]" 7] by (simp add: numeral_eq_Suc)

end
