(* ===== verification/Match_Finder.thy ===== *)
theory Match_Finder
  imports History
begin

text \<open>
  \<open>src/matchfinder.rs\<close>: the word-at-a-time common-prefix scan \<open>match_length\<close>, the one-slot table
  \<open>LatestMatch\<close> and the chained table \<open>HashChain\<close>. The tables keep 32-bit positions with
  \<open>NONE = u32::MAX\<close> as the empty slot; the \<open>HASH_SIZE\<close>-element vectors are functions from slots.
  The contract the compressors rely on is \<open>valid_match\<close>: a reported match really repeats earlier
  input, so that an LZ77 decoder that copies it restores the input (\<open>copy_bytes_valid_match\<close>).
\<close>

section \<open>match_length\<close>

definition trailing_zeros :: "u64 \<Rightarrow> nat" where
  "trailing_zeros w = length (takeWhile (\<lambda>i. \<not> bit w i) [0..<64])"

function match_length_tail :: "bytes \<Rightarrow> nat \<Rightarrow> nat \<Rightarrow> nat \<Rightarrow> nat \<Rightarrow> nat" where
  "match_length_tail bytes left right limit len =
     (if len < limit \<and> bytes ! (left + len) = bytes ! (right + len)
      then match_length_tail bytes left right limit (len + 1)
      else len)"
  by pat_completeness auto
termination
  by (relation "measure (\<lambda>(bytes, left, right, limit, len). limit - len)") auto

function match_length_words :: "bytes \<Rightarrow> nat \<Rightarrow> nat \<Rightarrow> nat \<Rightarrow> nat \<Rightarrow> nat" where
  "match_length_words bytes left right limit len =
     (if len + 8 \<le> limit
      then (let a = u64_from_le (slice_of bytes (left + len) (left + len + 8));
                b = u64_from_le (slice_of bytes (right + len) (right + len + 8));
                different = a XOR b
            in if different \<noteq> 0 then len + trailing_zeros different div 8
               else match_length_words bytes left right limit (len + 8))
      else match_length_tail bytes left right limit len)"
  by pat_completeness auto
termination
  by (relation "measure (\<lambda>(bytes, left, right, limit, len). limit - len)") auto

declare match_length_tail.simps [simp del] match_length_words.simps [simp del]

definition match_length :: "bytes \<Rightarrow> nat \<Rightarrow> nat \<Rightarrow> nat \<Rightarrow> nat" where
  "match_length bytes left right limit = match_length_words bytes left right limit 0"

text \<open>The specification: the longest common prefix, up to the limit.\<close>

definition common_prefix :: "bytes \<Rightarrow> nat \<Rightarrow> nat \<Rightarrow> nat \<Rightarrow> nat \<Rightarrow> bool" where
  "common_prefix bytes left right limit n \<longleftrightarrow>
     n \<le> limit \<and> (\<forall>i<n. bytes ! (left + i) = bytes ! (right + i)) \<and>
     (n < limit \<longrightarrow> bytes ! (left + n) \<noteq> bytes ! (right + n))"

lemma common_prefixI_extend:
  assumes "common_prefix bytes (left + k) (right + k) (limit - k) n"
    and "\<forall>i<k. bytes ! (left + i) = bytes ! (right + i)" and "k \<le> limit"
  shows "common_prefix bytes left right limit (k + n)"
  unfolding common_prefix_def
proof (intro conjI allI impI)
  show "k + n \<le> limit" using assms unfolding common_prefix_def by linarith
next
  fix i assume "i < k + n"
  then show "bytes ! (left + i) = bytes ! (right + i)"
  proof (cases "i < k")
    case False
    then obtain j where "i = k + j" by (metis le_Suc_ex linorder_not_less)
    then show ?thesis using \<open>i < k + n\<close> assms(1) by (simp add: common_prefix_def add.assoc)
  qed (use assms(2) in auto)
next
  assume "k + n < limit"
  then show "bytes ! (left + (k + n)) \<noteq> bytes ! (right + (k + n))"
    using assms(1) by (auto simp: common_prefix_def add.assoc)
qed

lemma match_length_tail_correct:
  assumes "\<forall>i<len. bytes ! (left + i) = bytes ! (right + i)" and "len \<le> limit"
  shows "common_prefix bytes left right limit (match_length_tail bytes left right limit len)"
  using assms
proof (induction bytes left right limit len rule: match_length_tail.induct)
  case (1 bytes left right limit len)
  show ?case
  proof (cases "len < limit \<and> bytes ! (left + len) = bytes ! (right + len)")
    case True
    then have "\<forall>i<len + 1. bytes ! (left + i) = bytes ! (right + i)"
      using 1(2) by (auto simp: less_Suc_eq)
    with 1(1) [OF True] True show ?thesis by (subst match_length_tail.simps) simp
  next
    case False
    with 1(2,3) show ?thesis
      by (subst match_length_tail.simps) (auto simp: common_prefix_def)
  qed
qed

lemma bit_u64_from_le:
  "length bs = 8 \<Longrightarrow> bit (u64_from_le bs) n \<longleftrightarrow> n < 64 \<and> bit (bs ! (n div 8)) (n mod 8)"
  by (auto simp: u64_from_le_def bit_of_nat_iff bit_le_nat)

lemma trailing_zeros_bit:
  assumes "w \<noteq> 0"
  shows "trailing_zeros w < 64" and "bit w (trailing_zeros w)"
    and "\<And>i. i < trailing_zeros w \<Longrightarrow> \<not> bit w i"
proof -
  let ?P = "\<lambda>i. \<not> bit w i"
  obtain k where k: "bit w k" using assms bit_eq_iff [of w 0] by auto
  then have k64: "k < 64" using bit_imp_le_length [of w k] by simp
  then have "k \<in> set [0..<64]" by simp
  with k have "takeWhile ?P [0..<64] \<noteq> [0..<64]"
    by (metis takeWhile_eq_all_conv)
  then show less: "trailing_zeros w < 64"
    unfolding trailing_zeros_def
    by (metis length_takeWhile_le length_upt linorder_not_le minus_nat.diff_0 order_antisym_conv
        takeWhile_eq_take take_all)
  show "bit w (trailing_zeros w)"
    using nth_length_takeWhile [of ?P "[0..<64]"] less by (simp add: trailing_zeros_def)
  fix i assume i: "i < trailing_zeros w"
  then have "takeWhile ?P [0..<64] ! i = i"
    using less by (simp add: trailing_zeros_def takeWhile_nth)
  then show "\<not> bit w i"
    using i nth_mem [of i "takeWhile ?P [0..<64]"]
    by (metis set_takeWhileD trailing_zeros_def)
qed

lemma first_different_byte:
  assumes xs: "length xs = 8" and ys: "length ys = 8"
    and diff: "u64_from_le xs XOR u64_from_le ys \<noteq> 0"
  defines "k \<equiv> trailing_zeros (u64_from_le xs XOR u64_from_le ys) div 8"
  shows "k < 8" and "xs ! k \<noteq> ys ! k" and "\<And>i. i < k \<Longrightarrow> xs ! i = ys ! i"
proof -
  let ?w = "u64_from_le xs XOR u64_from_le ys"
  let ?t = "trailing_zeros ?w"
  note tz = trailing_zeros_bit [OF diff]
  show "k < 8" using tz(1) by (simp add: k_def)
  have bit: "bit ?w n \<longleftrightarrow> n < 64 \<and> bit (xs ! (n div 8)) (n mod 8) \<noteq> bit (ys ! (n div 8)) (n mod 8)" for n
    using xs ys by (auto simp: bit_xor_iff bit_u64_from_le)
  show "xs ! k \<noteq> ys ! k" using tz(2) bit [of ?t] unfolding k_def by metis
  fix i assume i: "i < k"
  show "xs ! i = ys ! i"
  proof (rule bit_eqI)
    fix n assume "possible_bit TYPE(8 word) n"
    then have n: "n < 8" by (simp add: possible_bit_word)
    then have "8 * i + n < ?t" using i by (simp add: k_def)
    from tz(3) [OF this] have "\<not> bit ?w (8 * i + n)" .
    moreover have "8 * i + n < 64" using \<open>8 * i + n < ?t\<close> tz(1) by simp
    moreover have "(8 * i + n) div 8 = i" "(8 * i + n) mod 8 = n" using n by simp_all
    ultimately show "bit (xs ! i) n = bit (ys ! i) n" using bit [of "8 * i + n"] by simp
  qed
qed

lemma match_length_words_correct:
  assumes "left + limit \<le> length bytes" and "right + limit \<le> length bytes"
    and "\<forall>i<len. bytes ! (left + i) = bytes ! (right + i)" and "len \<le> limit"
  shows "common_prefix bytes left right limit (match_length_words bytes left right limit len)"
  using assms
proof (induction bytes left right limit len rule: match_length_words.induct)
  case (1 bytes left right limit len)
  let ?xs = "slice_of bytes (left + len) (left + len + 8)"
  let ?ys = "slice_of bytes (right + len) (right + len + 8)"
  let ?w = "u64_from_le ?xs XOR u64_from_le ?ys"
  show ?case
  proof (cases "len + 8 \<le> limit")
    case False
    then show ?thesis
      using match_length_tail_correct [OF 1(4,5)] by (subst match_length_words.simps) simp
  next
    case le: True
    have lens: "length ?xs = 8" "length ?ys = 8" using le 1(2,3) by simp_all
    have nths: "?xs ! i = bytes ! (left + len + i)" "?ys ! i = bytes ! (right + len + i)" if "i < 8" for i
      using that le 1(2,3) by simp_all
    show ?thesis
    proof (cases "?w = 0")
      case False
      note fd = first_different_byte [OF lens False]
      have "common_prefix bytes (left + len) (right + len) (limit - len) (trailing_zeros ?w div 8)"
        unfolding common_prefix_def using fd le nths by (auto dest: order.strict_trans)
      from common_prefixI_extend [OF this 1(4,5)] False le show ?thesis
        by (subst match_length_words.simps) simp
    next
      case True
      then have "u64_from_le ?xs = u64_from_le ?ys"
        by (rule xor_eq_0_imp_eq)
      then have "?xs = ?ys" using to_from_le(3) lens by metis
      have "\<forall>i<len + 8. bytes ! (left + i) = bytes ! (right + i)"
      proof (intro allI impI)
        fix i assume "i < len + 8"
        show "bytes ! (left + i) = bytes ! (right + i)"
        proof (cases "i < len")
          case False
          then obtain j where "i = len + j" "j < 8" using \<open>i < len + 8\<close>
            by (metis add_less_cancel_left le_Suc_ex linorder_not_less)
          then show ?thesis using nths [of j] \<open>?xs = ?ys\<close> by (simp add: add.assoc)
        qed (use 1(4) in auto)
      qed
      with 1(1) [OF le refl refl refl] 1(2,3) True le show ?thesis
        by (subst match_length_words.simps) simp
    qed
  qed
qed

lemma match_length_common_prefix:
  "left + limit \<le> length bytes \<Longrightarrow> right + limit \<le> length bytes \<Longrightarrow>
     common_prefix bytes left right limit (match_length bytes left right limit)"
  unfolding match_length_def by (rule match_length_words_correct) auto

lemma common_prefix_le: "common_prefix bytes left right limit n \<Longrightarrow> n \<le> limit"
  by (simp add: common_prefix_def)

lemma common_prefix_ge:
  assumes "common_prefix bytes left right limit n"
    and "\<forall>i<k. bytes ! (left + i) = bytes ! (right + i)" and "k \<le> limit"
  shows "k \<le> n"
proof (rule ccontr)
  assume "\<not> k \<le> n"
  then show False using assms by (auto simp: common_prefix_def)
qed

section \<open>The tables\<close>

definition NONE :: u32 where "NONE = - 1"

record latest_match =
  lm_head :: "nat \<Rightarrow> u32"
  lm_window :: nat

definition latest_new :: "nat \<Rightarrow> latest_match" where
  "latest_new window = \<lparr>lm_head = (\<lambda>_. NONE), lm_window = window\<rparr>"

definition latest_hash :: "bytes \<Rightarrow> nat \<Rightarrow> nat" where
  "latest_hash bytes position =
     (let value = u32_from_le (slice_of bytes position (position + 4))
      in unat (drop_bit 16 (value * 0x9e3779b1)))"

definition latest_insert_and_find :: "latest_match \<Rightarrow> bytes \<Rightarrow> nat \<Rightarrow> nat option \<times> latest_match" where
  "latest_insert_and_find f bytes position =
     (if position + 4 > length bytes then (None, f)
      else (let slot = latest_hash bytes position;
                candidate = lm_head f slot;
                f = f\<lparr>lm_head := (lm_head f)(slot := word_of_nat position)\<rparr>
            in if candidate = NONE then (None, f)
               else if position - unat candidate \<le> lm_window f \<and>
                 slice_of bytes (unat candidate) (unat candidate + 4)
                   = slice_of bytes position (position + 4)
               then (Some (unat candidate), f) else (None, f)))"

definition latest_insert :: "latest_match \<Rightarrow> bytes \<Rightarrow> nat \<Rightarrow> latest_match" where
  "latest_insert f bytes position =
     (if position + 4 \<le> length bytes
      then f\<lparr>lm_head := (lm_head f)(latest_hash bytes position := word_of_nat position)\<rparr> else f)"

record hash_chain =
  hc_head :: "nat \<Rightarrow> u32"
  hc_previous :: "(nat \<Rightarrow> u32) option"
  hc_window :: nat

definition chain_new :: "nat \<Rightarrow> nat \<Rightarrow> nat \<Rightarrow> hash_chain" where
  "chain_new input_len window max_chain =
     \<lparr>hc_head = (\<lambda>_. NONE), hc_previous = (if max_chain > 1 then Some (\<lambda>_. NONE) else None),
      hc_window = window\<rparr>"

definition chain_hash :: "bytes \<Rightarrow> nat \<Rightarrow> nat" where
  "chain_hash bytes position =
     (let value = push_bit 16 (ucast (bytes ! position)) OR push_bit 8 (ucast (bytes ! (position + 1)))
            OR ucast (bytes ! (position + 2)) :: u32
      in unat (drop_bit 16 (value * 0x1e35a7bd)))"

definition chain_insert :: "hash_chain \<Rightarrow> bytes \<Rightarrow> nat \<Rightarrow> hash_chain" where
  "chain_insert c bytes position =
     (if position + 2 \<ge> length bytes then c
      else (let slot = chain_hash bytes position;
                c = (case hc_previous c of None \<Rightarrow> c
                     | Some previous \<Rightarrow>
                         c\<lparr>hc_previous := Some (previous(position := hc_head c slot))\<rparr>)
            in c\<lparr>hc_head := (hc_head c)(slot := word_of_nat position)\<rparr>))"

text \<open>
  The search loop of \<open>best_match\<close>; its state is the candidate, the best length and distance so
  far and the number of candidates searched. \<open>try_candidate\<close> is the loop's comparison of one
  candidate with the best so far.
\<close>

definition try_candidate :: "bytes \<Rightarrow> nat \<Rightarrow> nat \<Rightarrow> nat \<Rightarrow> nat \<Rightarrow> nat \<Rightarrow> nat \<times> nat" where
  "try_candidate bytes position limit candidate_position best_length best_distance =
     (if bytes ! candidate_position = bytes ! position \<and>
         get_at bytes (candidate_position + best_length) = get_at bytes (position + best_length)
      then (let len = match_length bytes candidate_position position limit
            in if len > best_length then (len, position - candidate_position)
               else (best_length, best_distance))
      else (best_length, best_distance))"

function best_loop ::
  "hash_chain \<Rightarrow> bytes \<Rightarrow> nat \<Rightarrow> nat \<Rightarrow> nat \<Rightarrow> nat \<Rightarrow> u32 \<Rightarrow> nat \<Rightarrow> nat \<Rightarrow> nat \<Rightarrow> nat \<times> nat" where
  "best_loop c bytes position minimum limit max_chain candidate best_length best_distance searched =
     (if candidate \<noteq> NONE \<and> unat candidate \<ge> minimum \<and> searched < max_chain
      then (let new = try_candidate bytes position limit (unat candidate) best_length best_distance
            in if fst new > best_length \<and> fst new = limit then new
               else if searched + 1 \<ge> max_chain then new
               else best_loop c bytes position minimum limit max_chain
                 (case hc_previous c of None \<Rightarrow> NONE | Some previous \<Rightarrow> previous (unat candidate))
                 (fst new) (snd new) (searched + 1))
      else (best_length, best_distance))"
  by pat_completeness auto
termination
  by (relation "measure (\<lambda>(c, bytes, position, minimum, limit, max_chain, candidate, bl, bd, searched).
    max_chain - searched)") auto

declare best_loop.simps [simp del]

definition best_match :: "hash_chain \<Rightarrow> bytes \<Rightarrow> nat \<Rightarrow> nat \<Rightarrow> nat \<Rightarrow> nat \<Rightarrow> nat \<times> nat" where
  "best_match c bytes position max_length min_length max_chain =
     (if position + min_length > length bytes \<or> min_length < 3 then (0, 0)
      else (let candidate = hc_head c (chain_hash bytes position);
                minimum = position - hc_window c;
                limit = min (length bytes - position) max_length;
                (best_length, best_distance) =
                  best_loop c bytes position minimum limit max_chain candidate (min_length - 1) 0 0
            in if best_length \<ge> min_length then (best_length, best_distance) else (0, 0)))"

section \<open>Recorded positions are earlier positions\<close>

text \<open>
  The contract both tables give the compressors: if every recorded position is below \<open>p\<close>, then
  after inserting \<open>p\<close> every recorded position is below \<open>p + 1\<close>; so scanning forward never reports
  a candidate at or after the current position.
\<close>

locale position_table =
  fixes insert :: "'t \<Rightarrow> bytes \<Rightarrow> nat \<Rightarrow> 't"
    and below :: "'t \<Rightarrow> nat \<Rightarrow> bool"
  assumes below_mono: "below t p \<Longrightarrow> p \<le> q \<Longrightarrow> below t q"
    and below_insert: "below t p \<Longrightarrow> p < 2 ^ 32 - 1 \<Longrightarrow> below (insert t bytes p) (Suc p)"
begin

lemma below_insert_later:
  assumes "below t p" and "p \<le> r" and "r < q" and "q < 2 ^ 32"
  shows "below (insert t bytes r) q"
proof -
  have "below t r" using assms(1,2) by (rule below_mono)
  then have "below (insert t bytes r) (Suc r)" using assms(3,4) by (intro below_insert) auto
  then show ?thesis using assms(3) by (intro below_mono [of _ "Suc r" q]) auto
qed

lemma below_insert_range:
  "below t a \<Longrightarrow> a \<le> b \<Longrightarrow> b < 2 ^ 32 \<Longrightarrow> below (foldl (\<lambda>t r. insert t bytes r) t [a..<b]) b"
proof (induction "b - a" arbitrary: a t)
  case 0
  then show ?case by simp
next
  case (Suc n)
  then have "[a..<b] = a # [Suc a..<b]" by (simp add: upt_conv_Cons)
  moreover have "below (insert t bytes a) (Suc a)"
    using Suc(2,3,5) by (intro below_insert) auto
  ultimately show ?case using Suc(1) [of "Suc a" "insert t bytes a"] Suc(2-5) by simp
qed

end

definition recorded_below :: "u32 \<Rightarrow> nat \<Rightarrow> bool" where
  "recorded_below v p \<longleftrightarrow> v = NONE \<or> unat v < p"

definition latest_below :: "latest_match \<Rightarrow> nat \<Rightarrow> bool" where
  "latest_below f p \<longleftrightarrow> (\<forall>s. recorded_below (lm_head f s) p)"

definition chain_below :: "hash_chain \<Rightarrow> nat \<Rightarrow> bool" where
  "chain_below c p \<longleftrightarrow> (\<forall>s. recorded_below (hc_head c s) p) \<and>
     (\<forall>previous. hc_previous c = Some previous \<longrightarrow> (\<forall>q. recorded_below (previous q) q))"

lemma recorded_below_mono: "recorded_below v p \<Longrightarrow> p \<le> q \<Longrightarrow> recorded_below v q"
  by (auto simp: recorded_below_def)

lemma unat_position [simp]: "p < 2 ^ 32 \<Longrightarrow> unat (word_of_nat p :: u32) = p"
  by (simp add: unat_of_nat)

lemma recorded_below_position: "p < 2 ^ 32 - 1 \<Longrightarrow> recorded_below (word_of_nat p) (Suc p)"
  by (simp add: recorded_below_def)

lemma latest_below_new [simp]: "latest_below (latest_new w) p"
  by (simp add: latest_below_def latest_new_def recorded_below_def)

lemma chain_below_new [simp]: "chain_below (chain_new n w m) p"
  by (simp add: chain_below_def chain_new_def recorded_below_def)

interpretation latest: position_table latest_insert latest_below
proof
  fix t p q assume "latest_below t p" "p \<le> q"
  then show "latest_below t q" by (auto simp: latest_below_def intro: recorded_below_mono)
next
  fix t p bytes assume *: "latest_below t p" "p < 2 ^ 32 - 1"
  then show "latest_below (latest_insert t bytes p) (Suc p)"
    using recorded_below_position [of p]
    by (auto simp: latest_below_def latest_insert_def intro: recorded_below_mono)
qed

interpretation chain: position_table chain_insert chain_below
proof
  fix t p q assume "chain_below t p" "p \<le> q"
  then show "chain_below t q" by (auto simp: chain_below_def intro: recorded_below_mono)
next
  fix t p bytes assume *: "chain_below t p" "p < 2 ^ 32 - 1"
  then show "chain_below (chain_insert t bytes p) (Suc p)"
    using recorded_below_position [of p]
    by (auto simp: chain_below_def chain_insert_def Let_def intro: recorded_below_mono
        split: option.splits)
qed

section \<open>Reported matches repeat earlier input\<close>

definition valid_match :: "bytes \<Rightarrow> nat \<Rightarrow> nat \<Rightarrow> nat \<Rightarrow> bool" where
  "valid_match bytes p d n \<longleftrightarrow>
     0 < d \<and> d \<le> p \<and> p + n \<le> length bytes \<and> (\<forall>i<n. bytes ! (p - d + i) = bytes ! (p + i))"

lemma copy_bytes_valid_match:
  "valid_match bytes p d n \<Longrightarrow> copy_bytes (take p bytes) d n = take (p + n) bytes"
proof (induction n)
  case 0
  then show ?case by simp
next
  case (Suc n)
  then have v: "valid_match bytes p d n" and le: "p + Suc n \<le> length bytes" and d: "0 < d" "d \<le> p"
    and eq: "bytes ! (p - d + n) = bytes ! (p + n)"
    by (auto simp: valid_match_def)
  have "copy_bytes (take p bytes) d (Suc n) =
      take (p + n) bytes @ [take (p + n) bytes ! (p + n - d)]"
    using Suc.IH [OF v] le by (simp only: copy_bytes_snoc) simp
  also have "take (p + n) bytes ! (p + n - d) = bytes ! (p + n)"
    using le d eq by simp
  also have "take (p + n) bytes @ [bytes ! (p + n)] = take (p + Suc n) bytes"
    using le by (simp add: take_Suc_conv_app_nth)
  finally show ?case .
qed

lemma valid_match_back:
  assumes "valid_match bytes p d n" and "0 < p - d" and "bytes ! (p - 1) = bytes ! (p - d - 1)"
  shows "valid_match bytes (p - 1) d (n + 1)"
  unfolding valid_match_def
proof (intro conjI allI impI)
  show "0 < d" "d \<le> p - 1" "p - 1 + (n + 1) \<le> length bytes"
    using assms by (auto simp: valid_match_def)
  fix i assume i: "i < n + 1"
  show "bytes ! (p - 1 - d + i) = bytes ! (p - 1 + i)"
  proof (cases i)
    case 0
    then show ?thesis using assms(3) by (simp add: diff_commute)
  next
    case (Suc k)
    then have "bytes ! (p - d + k) = bytes ! (p + k)"
      using assms(1) i unfolding valid_match_def by (metis Suc_eq_plus1 Suc_less_eq)
    moreover have "p - 1 - d + i = p - d + k" "p - 1 + i = p + k" using Suc assms(2) by auto
    ultimately show ?thesis by simp
  qed
qed

lemma valid_match_common_prefix:
  assumes "common_prefix bytes c p limit n" and "c < p" and "p + limit \<le> length bytes"
  shows "valid_match bytes p (p - c) n"
  using assms by (auto simp: valid_match_def common_prefix_def)

lemma common_prefix_commute: "common_prefix bytes c p limit n \<longleftrightarrow> common_prefix bytes p c limit n"
  by (auto simp: common_prefix_def)

lemma latest_find_below:
  assumes "latest_below f p" and "p < 2 ^ 32 - 1"
  shows "latest_below (snd (latest_insert_and_find f bytes p)) (Suc p)"
proof -
  have "latest_below f (Suc p)" using assms(1) by (rule latest.below_mono) simp
  moreover have "latest_below (latest_insert f bytes p) (Suc p)"
    using assms by (rule latest.below_insert)
  moreover have "snd (latest_insert_and_find f bytes p) \<in> {f, latest_insert f bytes p}"
    by (auto simp: latest_insert_and_find_def latest_insert_def Let_def)
  ultimately show ?thesis by auto
qed

lemma latest_find_sound:
  assumes "latest_insert_and_find f bytes p = (Some c, f')"
  shows "p - c \<le> lm_window f" and "\<forall>i<4. bytes ! (c + i) = bytes ! (p + i)"
    and "c + 4 \<le> length bytes" and "p + 4 \<le> length bytes" and "latest_below f p \<Longrightarrow> c < p"
proof -
  note d = assms [unfolded latest_insert_and_find_def Let_def]
  have p: "p + 4 \<le> length bytes" and sl: "slice_of bytes c (c + 4) = slice_of bytes p (p + 4)"
    and w: "p - c \<le> lm_window f"
    and c: "c = unat (lm_head f (latest_hash bytes p))" "lm_head f (latest_hash bytes p) \<noteq> NONE"
    using d by (auto split: if_splits)
  show "p - c \<le> lm_window f" "p + 4 \<le> length bytes" by fact+
  have "length (slice_of bytes c (c + 4)) = 4" using p sl by simp
  then show le: "c + 4 \<le> length bytes" by simp
  show "\<forall>i<4. bytes ! (c + i) = bytes ! (p + i)"
    using sl slice_eq_iff [OF le p] by simp
  show "latest_below f p \<Longrightarrow> c < p"
    using c by (auto simp: latest_below_def recorded_below_def)
qed

text \<open>The loop keeps: nothing found yet, or the best so far is a valid match longer than \<open>m\<close>.\<close>

definition best_ok :: "bytes \<Rightarrow> nat \<Rightarrow> nat \<Rightarrow> nat \<Rightarrow> nat \<Rightarrow> nat \<times> nat \<Rightarrow> bool" where
  "best_ok bytes p minimum limit m r \<longleftrightarrow>
     r = (m, 0) \<or> valid_match bytes p (snd r) (fst r) \<and> fst r \<le> limit \<and> snd r \<le> p - minimum \<and> m < fst r"

lemma try_candidate_ok:
  assumes "best_ok bytes p minimum limit m (bl, bd)" and "cp < p" and "minimum \<le> cp"
    and "p + limit \<le> length bytes"
  shows "best_ok bytes p minimum limit m (try_candidate bytes p limit cp bl bd)"
proof -
  let ?n = "match_length bytes cp p limit"
  have "common_prefix bytes cp p limit ?n"
    using assms by (intro match_length_common_prefix) auto
  then have "valid_match bytes p (p - cp) ?n" "?n \<le> limit"
    using assms by (auto intro: valid_match_common_prefix common_prefix_le)
  moreover have "m \<le> bl" using assms(1) by (auto simp: best_ok_def)
  ultimately show ?thesis
    using assms by (auto simp: try_candidate_def Let_def best_ok_def)
qed

lemma best_loop_ok:
  assumes "chain_below c q" and "q \<le> p" and "recorded_below candidate q"
    and "p + limit \<le> length bytes" and "best_ok bytes p minimum limit m (bl, bd)"
  shows "best_ok bytes p minimum limit m
    (best_loop c bytes p minimum limit max_chain candidate bl bd searched)"
  using assms
proof (induction c bytes p minimum limit max_chain candidate bl bd searched rule: best_loop.induct)
  case (1 c bytes p minimum limit max_chain candidate bl bd searched)
  let ?new = "try_candidate bytes p limit (unat candidate) bl bd"
  let ?next = "case hc_previous c of None \<Rightarrow> NONE | Some previous \<Rightarrow> previous (unat candidate)"
  show ?case
  proof (cases "candidate \<noteq> NONE \<and> unat candidate \<ge> minimum \<and> searched < max_chain")
    case False
    then show ?thesis using 1(6) by (subst best_loop.simps) auto
  next
    case True
    then have cp: "unat candidate < q" using 1(4) by (simp add: recorded_below_def)
    then have new: "best_ok bytes p minimum limit m ?new"
      using 1(3,5,6) True by (intro try_candidate_ok) auto
    have "recorded_below ?next (unat candidate)"
      using 1(2) by (auto simp: chain_below_def recorded_below_def split: option.splits)
    then have nx: "recorded_below ?next q" using cp by (auto intro: recorded_below_mono)
    show ?thesis
      using True new 1(1) [OF True refl _ _ 1(2,3) nx 1(5)]
      by (subst best_loop.simps) (auto simp: Let_def)
  qed
qed

lemma best_match_sound:
  assumes "chain_below c p" and "best_match c bytes p max_length min_length max_chain = (n, d)"
  shows "n = 0 \<and> d = 0 \<or>
    min_length \<le> n \<and> n \<le> max_length \<and> d \<le> hc_window c \<and> valid_match bytes p d n"
proof (cases "p + min_length > length bytes \<or> min_length < 3")
  case False
  let ?limit = "min (length bytes - p) max_length"
  let ?r = "best_loop c bytes p (p - hc_window c) ?limit max_chain (hc_head c (chain_hash bytes p))
    (min_length - 1) 0 0"
  have "best_ok bytes p (p - hc_window c) ?limit (min_length - 1) ?r"
    using assms(1) False
    by (intro best_loop_ok [of c p]) (auto simp: chain_below_def best_ok_def)
  then show ?thesis
    using assms(2) False by (auto simp: best_match_def Let_def best_ok_def split: prod.splits if_splits)
qed (use assms(2) in \<open>auto simp: best_match_def\<close>)

section \<open>Properties\<close>

text \<open>C17. The word-at-a-time scan returns exactly the longest common prefix within the limit: it
  stops at the limit or at the first differing byte, which the trailing zeros of the XOR locate.\<close>

theorem match_length_longest:
  assumes "left + limit \<le> length bytes" and "right + limit \<le> length bytes"
  shows "common_prefix bytes left right limit (match_length bytes left right limit)"
  using assms by (rule match_length_common_prefix)

theorem match_length_longest_witness:
  "common_prefix [1, 2, 3, 4, 5, 6, 7, 8, 9, 1, 2, 3, 4, 5, 6, 7, 8, 0] 0 9 9
     (match_length [1, 2, 3, 4, 5, 6, 7, 8, 9, 1, 2, 3, 4, 5, 6, 7, 8, 0] 0 9 9)"
  by (rule match_length_longest) simp_all

text \<open>C18. On a table whose recorded positions are below the current one, a match reported by
  \<open>HashChain::best_match\<close> repeats earlier input, is within the requested bounds and reaches no
  further back than the window.\<close>

theorem best_match_valid:
  assumes "chain_below c p" and "best_match c bytes p max_length min_length max_chain = (n, d)"
  shows "n = 0 \<and> d = 0 \<or>
    min_length \<le> n \<and> n \<le> max_length \<and> d \<le> hc_window c \<and> valid_match bytes p d n"
  using assms by (rule best_match_sound)

theorem best_match_valid_witness:
  "\<exists>n d. best_match (chain_new 4 100 4) [1, 2, 3, 4] 1 3 3 4 = (n, d) \<and>
     (n = 0 \<and> d = 0 \<or> 3 \<le> n \<and> n \<le> 3 \<and> d \<le> hc_window (chain_new 4 100 4) \<and>
       valid_match [1, 2, 3, 4] 1 d n)"
proof -
  obtain n d where b: "best_match (chain_new 4 100 4) [1, 2, 3, 4] 1 3 3 4 = (n, d)" by fastforce
  then show ?thesis using best_match_valid [OF chain_below_new b] by blast
qed

end
