(* ===== verification/Lz4_Block.thy ===== *)
theory Lz4_Block
  imports Match_Finder
begin

text \<open>
  The LZ4 block codec: \<open>compress_block\<close> of \<open>src/lz4_encode.rs\<close> (the fast matcher with skip
  acceleration, the chained matcher of the high levels) and \<open>decompress_block\<close> of \<open>src/lz4.rs\<close>.
  Proved: every block the encoder produces decodes to its input (\<open>decompress_compress_block\<close>),
  and on arbitrary bytes the decoder never panics and never exceeds its output limit.
\<close>

section \<open>Encoder\<close>

text \<open>Levels outside 1 to 9 are rejected by \<open>EncodeOptions::validate\<close> before this is reached.\<close>

definition lz4_chain_depth :: "nat \<Rightarrow> nat" where
  "lz4_chain_depth level =
     (if level \<le> 6 then 1 else if level = 7 then 4 else if level = 8 then 16 else 64)"

definition LZ4_WINDOW :: nat where "LZ4_WINDOW = 65535"

function write_length :: "bytes \<Rightarrow> nat \<Rightarrow> bytes" where
  "write_length out len =
     (if len \<ge> 255 then write_length (out @ [255]) (len - 255) else out @ [word_of_nat len])"
  by pat_completeness auto
termination
  by (relation "measure snd") auto

declare write_length.simps [simp del]

definition write_sequence :: "bytes \<Rightarrow> bytes \<Rightarrow> nat \<Rightarrow> nat \<Rightarrow> bytes" where
  "write_sequence out literals distance match_len =
     (let literal_nibble = min (length literals) 15;
          match_base = match_len - 4;
          match_nibble = min match_base 15;
          out = out @ [word_of_nat (push_bit 4 literal_nibble OR match_nibble)];
          out = (if length literals \<ge> 15 then write_length out (length literals - 15) else out);
          out = out @ literals;
          out = out @ u16_to_le (word_of_nat distance)
      in if match_base \<ge> 15 then write_length out (match_base - 15) else out)"

definition write_last_literals :: "bytes \<Rightarrow> bytes \<Rightarrow> bytes" where
  "write_last_literals out literals =
     (let literal_nibble = min (length literals) 15;
          out = out @ [word_of_nat (push_bit 4 literal_nibble)];
          out = (if length literals \<ge> 15 then write_length out (length literals - 15) else out)
      in out @ literals)"

text \<open>The \<open>while\<close> that grows a match backwards over pending literals.\<close>

fun extend_back :: "bytes \<Rightarrow> nat \<Rightarrow> nat \<Rightarrow> nat \<Rightarrow> nat \<Rightarrow> nat \<times> nat" where
  "extend_back input anchor 0 candidate len = (0, len)"
| "extend_back input anchor (Suc p) candidate len =
     (if Suc p > anchor \<and> candidate > 0 \<and> input ! p = input ! (candidate - 1)
      then extend_back input anchor p (candidate - 1) (len + 1)
      else (Suc p, len))"

lemma extend_back_end: "extend_back input anchor p c n = (p', n') \<Longrightarrow> p' + n' = p + n"
  by (induction input anchor p c n rule: extend_back.induct) (auto split: if_splits)

lemma extend_back_le: "extend_back input anchor p c n = (p', n') \<Longrightarrow> p' \<le> p \<and> n \<le> n'"
  by (induction input anchor p c n rule: extend_back.induct) (fastforce split: if_splits)+

text \<open>A reported candidate agrees on four bytes, so the match has at least four and the scan advances.\<close>

lemma match_length_words_ge: "len \<le> match_length_words bytes left right limit len"
proof (induction bytes left right limit len rule: match_length_words.induct)
  case (1 bytes left right limit len)
  have tail: "n \<le> match_length_tail bytes left right limit n" for n
    by (induction bytes left right limit n rule: match_length_tail.induct)
      (subst match_length_tail.simps, auto)
  show ?case
  proof (cases "len + 8 \<le> limit")
    case False
    then show ?thesis using tail by (simp add: match_length_words.simps [of bytes left])
  next
    case True
    with 1 [OF True refl refl refl] show ?thesis
      by (auto simp: match_length_words.simps [of bytes left right limit len] Let_def)
  qed
qed

lemma trailing_zeros_ge:
  assumes "w \<noteq> 0" and "\<And>i. i < k \<Longrightarrow> \<not> bit w i"
  shows "k \<le> trailing_zeros w"
  using trailing_zeros_bit(2) [OF assms(1)] assms(2) by (meson linorder_not_le)

lemma match_length_ge_4:
  assumes eq: "\<forall>i<4. bytes ! (l + i) = bytes ! (r + i)" and "4 \<le> limit"
    and "l + 4 \<le> length bytes" and "r + 4 \<le> length bytes"
  shows "4 \<le> match_length bytes l r limit"
proof (cases "8 \<le> limit")
  case False
  then have "match_length bytes l r limit = match_length_tail bytes l r limit 0"
    by (simp add: match_length_def match_length_words.simps)
  then have "common_prefix bytes l r limit (match_length bytes l r limit)"
    using match_length_tail_correct [of 0 bytes l r limit] by simp
  then show ?thesis using eq assms(2) by (rule common_prefix_ge)
next
  case True
  let ?xs = "slice_of bytes l (l + 8)" and ?ys = "slice_of bytes r (r + 8)"
  let ?w = "u64_from_le ?xs XOR u64_from_le ?ys"
  have bits: "\<not> bit ?w i" if "i < 32" for i
  proof -
    from that have k: "i div 8 < 4" by auto
    then have "?xs ! (i div 8) = ?ys ! (i div 8)" "i div 8 < length ?xs" "i div 8 < length ?ys"
      using assms by simp_all
    then show ?thesis
      by (simp only: bit_xor_iff u64_from_le_def bit_of_nat_iff bit_le_nat simp_thms)
  qed
  show ?thesis
  proof (cases "?w = 0")
    case False
    from trailing_zeros_ge [OF False, of 32] bits have "4 \<le> trailing_zeros ?w div 8" by simp
    then show ?thesis using True False
      by (simp add: match_length_def match_length_words.simps [of bytes l r limit 0])
  next
    case z: True
    have "8 \<le> match_length_words bytes l r limit 8" by (rule match_length_words_ge)
    then show ?thesis using True z
      by (simp add: match_length_def match_length_words.simps [of bytes l r limit 0])
  qed
qed

text \<open>
  One probe of each matcher: the start of the match after growing it backwards, its distance and
  its length, or nothing, together with the updated table.
\<close>

definition fast_find ::
  "latest_match \<Rightarrow> bytes \<Rightarrow> nat \<Rightarrow> nat \<Rightarrow> (nat \<times> nat \<times> nat) option \<times> latest_match" where
  "fast_find finder input anchor position =
     (let max_length = length input - position - 5 in
      case latest_insert_and_find finder input position of
        (None, finder) \<Rightarrow> (None, finder)
      | (Some candidate, finder) \<Rightarrow>
          (let distance = position - candidate;
               len = match_length input position candidate max_length;
               (start, len) = extend_back input anchor position candidate len
           in (Some (start, distance, len), finder)))"

definition high_find ::
  "nat \<Rightarrow> hash_chain \<Rightarrow> bytes \<Rightarrow> nat \<Rightarrow> nat \<Rightarrow> (nat \<times> nat \<times> nat) option \<times> hash_chain" where
  "high_find max_chain finder input anchor position =
     (let max_length = length input - position - 5;
          (len, distance) = best_match finder input position max_length 4 max_chain
      in if len = 0 then (None, chain_insert finder input position)
         else (let candidate = position - distance;
                   (start, len) = extend_back input anchor position candidate len
               in (Some (start, distance, len), finder)))"

lemma fast_find_advances:
  assumes "fast_find finder input anchor position = (Some (start, d, len), f')"
    and "position + 12 \<le> length input"
  shows "position < start + len"
proof -
  obtain c n where f: "latest_insert_and_find finder input position = (Some c, f')"
    and n: "n = match_length input position c (length input - position - 5)"
    and e: "extend_back input anchor position c n = (start, len)"
    using assms(1) by (auto simp: fast_find_def Let_def split: prod.splits option.splits)
  have "4 \<le> n" unfolding n
    using latest_find_sound [OF f] assms(2) by (intro match_length_ge_4) auto
  then show ?thesis using extend_back_end [OF e] by simp
qed

lemma high_find_advances:
  assumes "high_find max_chain finder input anchor position = (Some (start, d, len), f')"
  shows "position < start + len"
  using assms extend_back_end
  by (fastforce simp: high_find_def Let_def split: prod.splits if_splits)

function fast_loop :: "bytes \<Rightarrow> latest_match \<Rightarrow> nat \<Rightarrow> nat \<Rightarrow> bytes \<Rightarrow> bytes \<times> nat" where
  "fast_loop input finder anchor position out =
     (if position + 12 \<le> length input
      then (case fast_find finder input anchor position of
          (None, finder) \<Rightarrow>
            fast_loop input finder anchor (position + (1 + (position - anchor) div 2 ^ 6)) out
        | (Some (start, distance, len), finder) \<Rightarrow>
            (let out = write_sequence out (slice_of input anchor start) distance len;
                 stop = start + len;
                 finder = (if stop \<ge> 2 then latest_insert finder input (stop - 2) else finder)
             in fast_loop input finder stop stop out))
      else (out, anchor))"
  by pat_completeness auto
termination
  by (relation "measure (\<lambda>(input, finder, anchor, position, out). length input - position)")
    (auto dest: fast_find_advances [OF sym])

function high_loop :: "nat \<Rightarrow> bytes \<Rightarrow> hash_chain \<Rightarrow> nat \<Rightarrow> nat \<Rightarrow> bytes \<Rightarrow> bytes \<times> nat" where
  "high_loop max_chain input finder anchor position out =
     (if position + 12 \<le> length input
      then (case high_find max_chain finder input anchor position of
          (None, finder) \<Rightarrow> high_loop max_chain input finder anchor (position + 1) out
        | (Some (start, distance, len), finder) \<Rightarrow>
            (let out = write_sequence out (slice_of input anchor start) distance len;
                 stop = start + len;
                 finder = (if stop \<ge> 2 then chain_insert finder input (stop - 2) else finder)
             in high_loop max_chain input finder stop stop out))
      else (out, anchor))"
  by pat_completeness auto
termination
  by (relation "measure (\<lambda>(max_chain, input, finder, anchor, position, out). length input - position)")
    (auto dest: high_find_advances [OF sym])

declare fast_loop.simps [simp del] high_loop.simps [simp del]

definition compress_block_fast :: "bytes \<Rightarrow> bytes" where
  "compress_block_fast input =
     (let (out, anchor) = fast_loop input (latest_new LZ4_WINDOW) 0 0 []
      in write_last_literals out (drop anchor input))"

definition compress_block_high :: "bytes \<Rightarrow> nat \<Rightarrow> bytes" where
  "compress_block_high input level =
     (let max_chain = lz4_chain_depth level;
          (out, anchor) = high_loop max_chain input (chain_new (length input) LZ4_WINDOW max_chain) 0 0 []
      in write_last_literals out (drop anchor input))"

definition compress_block :: "bytes \<Rightarrow> nat \<Rightarrow> bytes" where
  "compress_block input level =
     (if level \<le> 6 then compress_block_fast input else compress_block_high input level)"

section \<open>Decoder\<close>

function read_length_loop :: "bytes \<Rightarrow> nat \<Rightarrow> nat \<Rightarrow> error + nat \<times> nat" where
  "read_length_loop input position len =
     (case get_at input position of
        None \<Rightarrow> Inl (InvalidLz4 TruncatedLength)
      | Some extra \<Rightarrow>
          (case checked_add len (unat extra) of
             None \<Rightarrow> Inl (InvalidLz4 LengthOverflow)
           | Some len \<Rightarrow>
               if extra \<noteq> 255 then Inr (len, position + 1)
               else read_length_loop input (position + 1) len))"
  by pat_completeness auto
termination
  by (relation "measure (\<lambda>(input, position, len). length input - position)")
    (auto simp: get_at_Some_iff)

declare read_length_loop.simps [simp del]

text \<open>\<open>read_length\<close> returns the length and the new position.\<close>

definition read_length :: "bytes \<Rightarrow> nat \<Rightarrow> nat \<Rightarrow> error + nat \<times> nat" where
  "read_length input position initial =
     (if initial \<noteq> 15 then Inr (initial, position) else read_length_loop input position initial)"

definition copy_match :: "bytes \<Rightarrow> bytes \<Rightarrow> nat \<Rightarrow> nat \<Rightarrow> error + bytes" where
  "copy_match out dictionary offset len =
     (if offset = 0 \<or> offset > length dictionary + length out
      then Inl (InvalidLz4 OffsetExceedsHistory)
      else (let dictionary_needed = offset - length out in
        if dictionary_needed \<noteq> 0
        then (if dictionary_needed > length dictionary then Inl (InvalidLz4 OffsetExceedsDictionary)
              else (let start = length dictionary - dictionary_needed;
                        taken = min len dictionary_needed;
                        out = out @ slice_of dictionary start (start + taken);
                        len = len - taken
                    in if len \<noteq> 0 then extend_match out offset len else Inr out))
        else if len \<noteq> 0 then extend_match out offset len else Inr out))"

lemma read_length_loop_advances:
  "read_length_loop input position len = Inr (n, p) \<Longrightarrow> position < p \<and> len \<le> n \<and> p \<le> length input"
proof (induction input position len rule: read_length_loop.induct)
  case (1 input position len)
  from 1(2) obtain extra len' where e: "get_at input position = Some extra"
    and l: "checked_add len (unat extra) = Some len'"
    and r: "(if extra \<noteq> 255 then Inr (len', position + 1)
      else read_length_loop input (position + 1) len') = Inr (n, p)"
    by (simp add: read_length_loop.simps [of input position len] split: option.splits)
  then have "len \<le> len'" "position < length input"
    by (auto simp: checked_add_Some_iff get_at_Some_iff)
  with 1(1) [OF e l] r show ?case by (fastforce split: if_splits)
qed

lemma read_length_advances: "read_length input position i = Inr (n, p) \<Longrightarrow> position \<le> p"
  by (auto simp: read_length_def split: if_splits dest: read_length_loop_advances)

text \<open>\<open>checked_add(..).filter(|&end| end <= limit)\<close>.\<close>

definition end_within :: "nat \<Rightarrow> nat \<Rightarrow> nat \<Rightarrow> nat option" where
  "end_within position len limit =
     (case checked_add position len of None \<Rightarrow> None | Some e \<Rightarrow> if e \<le> limit then Some e else None)"

lemma end_within_Some_iff:
  "end_within p n l = Some e \<longleftrightarrow> e = p + n \<and> p + n \<le> l \<and> p + n \<le> usize_max"
  by (auto simp: end_within_def checked_add_def split: option.splits if_splits)

function decompress_loop :: "bytes \<Rightarrow> bytes \<Rightarrow> nat \<Rightarrow> nat \<Rightarrow> bytes \<Rightarrow> error + bytes" where
  "decompress_loop input dictionary max_output position out =
     (if position < length input
      then (let token = input ! position; position = position + 1 in
        and_then (read_length input position (unat (drop_bit 4 token))) (\<lambda>(literal_len, position).
        and_then (ok_or (end_within position literal_len (length input)) (InvalidLz4 LiteralsExceedBlock))
          (\<lambda>literal_end.
        if end_within (length out) literal_len max_output = None
        then Inl (InvalidLz4 OutputExceedsMaximum)
        else (let out = out @ slice_of input position literal_end; position = literal_end in
          if position = length input then Inr out
          else
            and_then (ok_or (get_range input position (sat_add position 2)) (InvalidLz4 TruncatedOffset))
              (\<lambda>offset_bytes. let position = position + 2; offset = unat (u16_from_le offset_bytes) in
            and_then (read_length input position (unat (token AND 15))) (\<lambda>(len, position).
            and_then (ok_or (checked_add len 4) (InvalidLz4 MatchLengthOverflow)) (\<lambda>match_len.
            if end_within (length out) match_len max_output = None
            then Inl (InvalidLz4 OutputExceedsMaximum)
            else and_then (copy_match out dictionary offset match_len) (\<lambda>out.
              decompress_loop input dictionary max_output position out))))))))
      else Inr out)"
  by pat_completeness auto
termination
  by (relation "measure (\<lambda>(input, dictionary, max_output, position, out). length input - position)")
    (auto dest!: read_length_advances simp: ok_or_Inr_iff end_within_Some_iff)

declare decompress_loop.simps [simp del]

definition decompress_block :: "bytes \<Rightarrow> bytes \<Rightarrow> nat \<Rightarrow> error + bytes" where
  "decompress_block input dictionary max_output = decompress_loop input dictionary max_output 0 []"

section \<open>What the encoder writes\<close>

lemma write_length_app: "write_length out n = out @ write_length [] n"
proof (induction n arbitrary: out rule: less_induct)
  case (less n)
  show ?case
  proof (cases "n \<ge> 255")
    case True
    have "write_length out n = write_length (out @ [255]) (n - 255)"
      using True by (simp add: write_length.simps [of out])
    also have "\<dots> = (out @ [255]) @ write_length [] (n - 255)"
      using True by (intro less) simp
    also have "\<dots> = out @ write_length [255] (n - 255)"
      using less [of "n - 255" "[255]"] True by simp
    also have "write_length [255] (n - 255) = write_length [] n"
      using True by (simp add: write_length.simps [of "[]" n])
    finally show ?thesis .
  qed (simp add: write_length.simps)
qed

lemma length_write_length: "length (write_length [] n) \<le> n + 1"
proof (induction n rule: less_induct)
  case (less n)
  show ?case
  proof (cases "n \<ge> 255")
    case True
    have "write_length [] n = [255] @ write_length [] (n - 255)"
      using True write_length_app [of "[255]"] by (simp add: write_length.simps [of "[]" n])
    then show ?thesis using less [of "n - 255"] True by simp
  qed (simp add: write_length.simps)
qed

lemma write_length_Nil:
  "write_length [] n = (if n \<ge> 255 then 255 # write_length [] (n - 255) else [word_of_nat n])"
  using write_length_app [of "[255]" "n - 255"] by (simp add: write_length.simps [of "[]" n])

lemma read_write_length:
  assumes "drop position input = write_length [] n @ rest" and "initial + n \<le> usize_max"
  shows "read_length_loop input position initial = Inr (initial + n, position + length (write_length [] n))"
  using assms
proof (induction n arbitrary: position initial rule: less_induct)
  case (less n)
  show ?case
  proof (cases "n \<ge> 255")
    case True
    then have w: "write_length [] n = 255 # write_length [] (n - 255)" by (simp add: write_length_Nil)
    then have d: "drop position input = 255 # write_length [] (n - 255) @ rest" using less(2) by simp
    have "read_length_loop input (position + 1) (initial + 255)
        = Inr (initial + 255 + (n - 255), position + 1 + length (write_length [] (n - 255)))"
      using True less(3) drop_Cons_step [OF d] by (intro less(1)) auto
    then show ?thesis
      using True w less(3) get_at_drop [OF d]
      by (simp add: read_length_loop.simps [of input position] checked_add_def)
  next
    case False
    then have d: "drop position input = word_of_nat n # rest" and w: "write_length [] n = [word_of_nat n]"
      using less(2) by (simp_all add: write_length_Nil)
    have u: "unat (word_of_nat n :: byte) = n" using False by (simp add: unat_of_nat)
    then have "(word_of_nat n :: byte) \<noteq> 255" using False by auto
    then show ?thesis
      using w u less(3) get_at_drop [OF d]
      by (simp add: read_length_loop.simps [of input position] checked_add_def)
  qed
qed

text \<open>A length field: the nibble, then the extension bytes.\<close>

definition length_ext :: "nat \<Rightarrow> bytes" where
  "length_ext n = (if n \<ge> 15 then write_length [] (n - 15) else [])"

lemma read_length_ext:
  assumes "drop position input = length_ext n @ rest" and "n \<le> usize_max"
  shows "read_length input position (min n 15) = Inr (n, position + length (length_ext n))"
proof (cases "n \<ge> 15")
  case True
  then show ?thesis
    using assms read_write_length [of position input "n - 15" rest 15]
    by (simp add: read_length_def length_ext_def)
qed (simp add: read_length_def length_ext_def)

lemma write_ext: "(if n \<ge> 15 then write_length out (n - 15) else out) = out @ length_ext n"
  using write_length_app [of out "n - 15"] by (simp add: length_ext_def)

lemma write_sequence_eq:
  "write_sequence out literals d n = out @ word_of_nat (push_bit 4 (min (length literals) 15) OR min (n - 4) 15)
     # length_ext (length literals) @ literals @ u16_to_le (word_of_nat d) @ length_ext (n - 4)"
  by (simp only: write_sequence_def Let_def write_ext append.assoc append_Cons append_Nil)

lemma write_last_literals_eq:
  "write_last_literals out literals = out @ word_of_nat (push_bit 4 (min (length literals) 15))
     # length_ext (length literals) @ literals"
  by (simp only: write_last_literals_def Let_def write_ext append.assoc append_Cons append_Nil)

lemma token_nibbles:
  assumes "a < 16" and "b < 16"
  defines "t \<equiv> word_of_nat (push_bit 4 a OR b) :: byte"
  shows "unat (drop_bit 4 t) = a" and "unat (t AND 15) = b"
proof -
  have "take_bit 4 b = b" using assms(2) by (simp add: take_bit_nat_eq_self)
  then have b: "bit b n \<Longrightarrow> n < 4" for n by (metis bit_take_bit_iff)
  have "push_bit 4 a + b = push_bit 4 a OR b"
    by (intro disjunctive_add) (auto simp: bit_push_bit_iff dest: b)
  then have "t = word_of_nat (16 * a + b)" by (simp add: t_def push_bit_eq_mult mult.commute)
  then have u: "unat t = 16 * a + b"
    using assms(1,2) by (simp only: unat_of_nat) simp
  have "unat (drop_bit 4 t) = drop_bit 4 (unat t)" by (rule unat_drop_bit_eq)
  also have "\<dots> = a" using assms(2) u by (simp add: drop_bit_eq_div)
  finally show "unat (drop_bit 4 t) = a" .
  have "t AND 15 = take_bit 4 t" by (simp add: take_bit_eq_mask mask_eq_exp_minus_1)
  then have "unat (t AND 15) = take_bit 4 (unat t)" by (simp only: unsigned_take_bit_eq)
  also have "\<dots> = b" using u assms(2) by (simp add: take_bit_eq_mod)
  finally show "unat (t AND 15) = b" .
qed

section \<open>Round trip\<close>

lemma copy_match_no_dictionary:
  "0 < d \<Longrightarrow> d \<le> length out \<Longrightarrow> copy_match out [] d n = Inr (copy_bytes out d n)"
  by (cases n) (simp_all add: copy_match_def extend_match_copy)

lemma decompress_sequence:
  assumes d: "drop position input = write_sequence [] literals distance n @ rest"
    and rest: "rest \<noteq> []" and n: "4 \<le> n" and dist: "0 < distance" "distance < 2 ^ 16"
    and hist: "distance \<le> length out + length literals"
    and limit: "length out + length literals + n \<le> limit" and fits: "length input < 2 ^ 63" "limit < 2 ^ 63"
  shows "decompress_loop input [] limit position out =
    decompress_loop input [] limit (position + length (write_sequence [] literals distance n))
      (copy_bytes (out @ literals) distance n)"
proof -
  let ?l = "length literals"
  let ?t = "word_of_nat (push_bit 4 (min ?l 15) OR min (n - 4) 15) :: byte"
  let ?off = "u16_to_le (word_of_nat distance)"
  let ?p1 = "position + 1" and ?p2 = "position + 1 + length (length_ext ?l)"
  let ?p3 = "?p2 + ?l" and ?p4 = "?p2 + ?l + 2"
  have d0: "drop position input = ?t # length_ext ?l @ literals @ ?off @ length_ext (n - 4) @ rest"
    using d by (simp add: write_sequence_eq)
  have d1: "drop ?p1 input = length_ext ?l @ literals @ ?off @ length_ext (n - 4) @ rest"
    using drop_Cons_step [OF d0] by simp
  have d2: "drop ?p2 input = literals @ ?off @ length_ext (n - 4) @ rest"
    by (rule drop_append_step [OF d1])
  have d3: "drop ?p3 input = ?off @ length_ext (n - 4) @ rest"
    by (rule drop_append_step [OF d2])
  have d4: "drop ?p4 input = length_ext (n - 4) @ rest"
    using drop_append_step [OF d3] by simp
  have len: "length input = ?p4 + length (length_ext (n - 4)) + length rest"
  proof -
    have "length (drop ?p4 input) = length (length_ext (n - 4)) + length rest" using d4 by simp
    moreover have "drop ?p4 input \<noteq> []" using d4 rest by simp
    ultimately show ?thesis by simp
  qed
  have tok: "input ! position = ?t" "position < length input"
    using nth_drop_Cons [OF d0] drop_Cons_less [OF d0] by simp_all
  have nib: "unat (drop_bit 4 ?t) = min ?l 15" "unat (?t AND 15) = min (n - 4) 15"
    by (rule token_nibbles; simp)+
  have r1: "read_length input ?p1 (min ?l 15) = Inr (?l, ?p2)"
    using read_length_ext [OF d1] len fits by (simp add: usize_max_def)
  have e1: "end_within ?p2 ?l (length input) = Some ?p3"
    using len fits by (simp add: end_within_Some_iff usize_max_def)
  have e2: "end_within (length out) ?l limit \<noteq> None"
    using limit fits by (simp add: end_within_Some_iff usize_max_def)
  have sl: "slice_of input ?p2 ?p3 = literals" by (rule slice_drop [OF d2])
  have g: "get_range input ?p3 (sat_add ?p3 2) = Some ?off"
    using get_range_drop [OF d3] len fits by (simp add: sat_add_fits)
  have off: "unat (u16_from_le ?off) = distance"
    using dist(2) by (simp add: unat_of_nat)
  have r2: "read_length input ?p4 (min (n - 4) 15) = Inr (n - 4, ?p4 + length (length_ext (n - 4)))"
    using read_length_ext [OF d4] limit fits by (simp add: usize_max_def)
  have c: "checked_add (n - 4) 4 = Some n" using n limit fits by (simp add: checked_add_fits)
  have e3: "end_within (length (out @ literals)) n limit \<noteq> None"
    using limit fits by (simp add: end_within_Some_iff usize_max_def)
  have cm: "copy_match (out @ literals) [] distance n = Inr (copy_bytes (out @ literals) distance n)"
    using dist(1) hist by (intro copy_match_no_dictionary) auto
  have lw: "position + length (write_sequence [] literals distance n) = ?p4 + length (length_ext (n - 4))"
    by (simp add: write_sequence_eq)
  have ne: "?p3 \<noteq> length input" using len by simp
  show ?thesis
    by (simp only: lw decompress_loop.simps [of input "[]" limit position out] Let_def tok nib r1 e1 e2
        e3 sl ne g off r2 c cm and_then.simps ok_or_simps prod.case if_True if_False)
qed

lemma decompress_last_literals:
  assumes d: "drop position input = write_last_literals [] literals"
    and limit: "length out + length literals \<le> limit" and fits: "length input < 2 ^ 63" "limit < 2 ^ 63"
  shows "decompress_loop input [] limit position out = Inr (out @ literals)"
proof -
  let ?l = "length literals"
  let ?t = "word_of_nat (push_bit 4 (min ?l 15)) :: byte"
  let ?p1 = "position + 1" and ?p2 = "position + 1 + length (length_ext ?l)"
  let ?p3 = "?p2 + ?l"
  have d0: "drop position input = ?t # length_ext ?l @ literals @ []"
    using d by (simp add: write_last_literals_eq)
  have d1: "drop ?p1 input = length_ext ?l @ literals @ []"
    using drop_Cons_step [OF d0] by simp
  have d2: "drop ?p2 input = literals @ []" by (rule drop_append_step [OF d1])
  have tok: "input ! position = ?t" "position < length input"
    using nth_drop_Cons [OF d0] drop_Cons_less [OF d0] by simp_all
  have len: "length input = ?p3"
  proof -
    have "length (drop position input) = 1 + length (length_ext ?l) + ?l" using d0 by simp
    then show ?thesis using tok(2) by simp
  qed
  have nib: "unat (drop_bit 4 ?t) = min ?l 15"
    using token_nibbles(1) [of "min ?l 15" 0] by simp
  have r1: "read_length input ?p1 (min ?l 15) = Inr (?l, ?p2)"
    using read_length_ext [OF d1] len fits by (simp add: usize_max_def)
  have e1: "end_within ?p2 ?l (length input) = Some ?p3"
    using len fits by (simp add: end_within_Some_iff usize_max_def)
  have e2: "end_within (length out) ?l limit \<noteq> None"
    using limit fits by (simp add: end_within_Some_iff usize_max_def)
  have sl: "slice_of input ?p2 ?p3 = literals" using slice_drop [OF d2] by simp
  have eq: "(?p3 = length input) = True" using len by simp
  show ?thesis
    by (simp only: decompress_loop.simps [of input "[]" limit position out] Let_def tok nib r1 e1 e2
        sl eq and_then.simps ok_or_simps prod.case if_True if_False)
qed

text \<open>
  \<open>emits out plain\<close>: whatever follows, a decoder that has read \<open>out\<close> has produced \<open>plain\<close> and goes
  on behind it. This is the invariant of both compression loops.
\<close>

definition emits :: "bytes \<Rightarrow> bytes \<Rightarrow> bool" where
  "emits out plain \<longleftrightarrow> (\<forall>rest limit. rest \<noteq> [] \<longrightarrow> length (out @ rest) < 2 ^ 63 \<longrightarrow> limit < 2 ^ 63 \<longrightarrow>
     length plain \<le> limit \<longrightarrow>
     decompress_loop (out @ rest) [] limit 0 [] = decompress_loop (out @ rest) [] limit (length out) plain)"

lemma emits_Nil [simp]: "emits [] []"
  by (simp add: emits_def)

lemma emits_sequence:
  assumes em: "emits out (take anchor input)" and a: "anchor \<le> start"
    and v: "valid_match input start d n" and n: "4 \<le> n" and d: "d < 2 ^ 16"
  shows "emits (write_sequence out (slice_of input anchor start) d n) (take (start + n) input)"
  unfolding emits_def
proof (intro allI impI)
  fix rest :: bytes and limit
  let ?lits = "slice_of input anchor start"
  let ?seq = "write_sequence [] ?lits d n"
  assume rest: "rest \<noteq> []" and fit: "length (write_sequence out ?lits d n @ rest) < 2 ^ 63"
    and limit: "limit < 2 ^ 63" and le: "length (take (start + n) input) \<le> limit"
  have le_in: "start + n \<le> length input" and d0: "0 < d" "d \<le> start" using v by (auto simp: valid_match_def)
  have w: "write_sequence out ?lits d n = out @ ?seq" by (simp add: write_sequence_eq)
  have "decompress_loop (out @ ?seq @ rest) [] limit 0 [] =
      decompress_loop (out @ ?seq @ rest) [] limit (length out) (take anchor input)"
    using em rest fit limit le a le_in unfolding emits_def w by simp
  also have "\<dots> = decompress_loop (out @ ?seq @ rest) [] limit (length out + length ?seq)
      (copy_bytes (take anchor input @ ?lits) d n)"
    using rest n d0 d a le le_in limit fit unfolding w by (intro decompress_sequence) auto
  also have "copy_bytes (take anchor input @ ?lits) d n = take (start + n) input"
    using a v by (simp add: take_append_slice copy_bytes_valid_match)
  finally show "decompress_loop (write_sequence out ?lits d n @ rest) [] limit 0 [] =
      decompress_loop (write_sequence out ?lits d n @ rest) [] limit
        (length (write_sequence out ?lits d n)) (take (start + n) input)"
    by (simp add: w)
qed

lemma emits_last:
  assumes em: "emits out (take anchor input)" and "length input \<le> limit" and "limit < 2 ^ 63"
    and "length (write_last_literals out (drop anchor input)) < 2 ^ 63"
  shows "decompress_block (write_last_literals out (drop anchor input)) [] limit = Inr input"
proof -
  let ?last = "write_last_literals [] (drop anchor input)"
  have w: "write_last_literals out (drop anchor input) = out @ ?last"
    by (simp add: write_last_literals_eq)
  have "?last \<noteq> []" by (simp add: write_last_literals_eq)
  then have "decompress_loop (out @ ?last) [] limit 0 [] =
      decompress_loop (out @ ?last) [] limit (length out) (take anchor input)"
    using assms unfolding emits_def w by simp
  also have "\<dots> = Inr (take anchor input @ drop anchor input)"
    using assms unfolding w by (intro decompress_last_literals) auto
  finally show ?thesis by (simp add: decompress_block_def w)
qed

text \<open>The encoder's output is never longer than the input plus its token overhead, so it fits too.\<close>

lemma length_length_ext: "length (length_ext n) \<le> n"
  using length_write_length [of "n - 15"] by (cases "15 \<le> n") (auto simp: length_ext_def)

lemma length_write_sequence:
  assumes "4 \<le> n"
  shows "length (write_sequence out lits d n) \<le> length out + 2 * length lits + n"
  using length_length_ext [of "length lits"] length_length_ext [of "n - 4"] assms
  by (simp add: write_sequence_eq)

section \<open>The contract between the block encoders and their matchers\<close>

text \<open>
  Both compression loops probe a matcher at each position. The contract: with every recorded
  position below the current one, a reported match is a valid repetition of earlier input within
  the 16-bit offset range, starts at or after the pending literals, ends beyond the probed position
  and inside the input, and the table stays usable further on.
\<close>

locale block_matcher = position_table insert below
  for insert :: "'f \<Rightarrow> bytes \<Rightarrow> nat \<Rightarrow> 'f" and below :: "'f \<Rightarrow> nat \<Rightarrow> bool" +
  fixes find :: "'f \<Rightarrow> bytes \<Rightarrow> nat \<Rightarrow> nat \<Rightarrow> (nat \<times> nat \<times> nat) option \<times> 'f"
  assumes find_match:
      "find f input anchor p = (Some (start, d, n), f') \<Longrightarrow> below f p \<Longrightarrow> anchor \<le> p \<Longrightarrow>
         p + 12 \<le> length input \<Longrightarrow> length input < 2 ^ 32 - 1 \<Longrightarrow>
         anchor \<le> start \<and> p + 4 \<le> start + n \<and> 4 \<le> n \<and> d < 2 ^ 16 \<and> valid_match input start d n"
    and find_below:
      "find f input anchor p = (r, f') \<Longrightarrow> below f p \<Longrightarrow> p < 2 ^ 32 - 1 \<Longrightarrow> below f' (Suc p)"
begin

definition loop_ok :: "bytes \<Rightarrow> 'f \<Rightarrow> nat \<Rightarrow> nat \<Rightarrow> bytes \<Rightarrow> bool" where
  "loop_ok input f anchor p out \<longleftrightarrow> below f p \<and> anchor \<le> p \<and> anchor \<le> length input \<and>
     emits out (take anchor input) \<and> length out \<le> 2 * anchor"

lemma loop_ok_none:
  assumes "loop_ok input f anchor p out" and "find f input anchor p = (None, f')" and "p < q"
    and "p < 2 ^ 32 - 1"
  shows "loop_ok input f' anchor q out"
proof -
  have "below f' (Suc p)" using assms by (auto simp: loop_ok_def intro: find_below)
  then have "below f' q" using assms(3) by (auto intro: below_mono)
  then show ?thesis using assms by (auto simp: loop_ok_def)
qed

text \<open>One emitted sequence: the output again decodes to the input before the new anchor.\<close>

lemma loop_ok_some:
  assumes ok: "loop_ok input f anchor p out" and find: "find f input anchor p = (Some (start, d, n), f')"
    and p: "p + 12 \<le> length input" and small: "length input < 2 ^ 32 - 1"
  defines "stop \<equiv> start + n"
  shows "loop_ok input (if stop \<ge> 2 then insert f' input (stop - 2) else f') stop stop
    (write_sequence out (slice_of input anchor start) d n)"
proof -
  have b: "below f p" and a: "anchor \<le> p" and em: "emits out (take anchor input)"
    and len: "length out \<le> 2 * anchor" using ok by (auto simp: loop_ok_def)
  note fm = find_match [OF find b a p small]
  have le: "stop \<le> length input" using fm by (simp add: valid_match_def stop_def)
  have "emits (write_sequence out (slice_of input anchor start) d n) (take stop input)"
    unfolding stop_def using fm em by (intro emits_sequence) auto
  moreover have "length (write_sequence out (slice_of input anchor start) d n) \<le> 2 * stop"
    unfolding stop_def
    using length_write_sequence [of n out "slice_of input anchor start" d] fm le len
    by (auto simp: algebra_simps)
  moreover have fb: "below f' (Suc p)" using b p small by (intro find_below [OF find]) auto
  have "below (if stop \<ge> 2 then insert f' input (stop - 2) else f') stop"
  proof -
    have "Suc p \<le> stop - 2" "2 \<le> stop" using fm by (auto simp: stop_def)
    then show ?thesis
      using fb le small by (simp, intro below_insert_later [of _ "Suc p"]) auto
  qed
  ultimately show ?thesis using le by (simp add: loop_ok_def)
qed

end

lemma extend_back_valid:
  assumes "extend_back input anchor p c n = (p', n')" and "valid_match input p d n" and "c = p - d"
    and "anchor \<le> p"
  shows "valid_match input p' d n' \<and> anchor \<le> p'"
  using assms
proof (induction input anchor p c n rule: extend_back.induct)
  case (2 input anchor p c n)
  show ?case
  proof (cases "Suc p > anchor \<and> c > 0 \<and> input ! p = input ! (c - 1)")
    case True
    then have "valid_match input (Suc p - 1) d (n + 1)"
      using 2(3,4) by (intro valid_match_back) auto
    then show ?thesis using True 2(1) [OF True] 2(2,4) by simp
  next
    case False
    then show ?thesis using 2(2-5) by auto
  qed
qed simp

interpretation fast: block_matcher latest_insert
  "\<lambda>f p. latest_below f p \<and> lm_window f = LZ4_WINDOW" fast_find
proof
  fix f p q assume "latest_below f p \<and> lm_window f = LZ4_WINDOW" "p \<le> q"
  then show "latest_below f q \<and> lm_window f = LZ4_WINDOW" by (auto intro: latest.below_mono)
next
  fix f p bytes assume "latest_below f p \<and> lm_window f = LZ4_WINDOW" "p < 2 ^ 32 - 1"
  then show "latest_below (latest_insert f bytes p) (Suc p) \<and> lm_window (latest_insert f bytes p) = LZ4_WINDOW"
    using latest.below_insert [of f p bytes] by (simp add: latest_insert_def)
next
  fix f input anchor p start d n f'
  assume find: "fast_find f input anchor p = (Some (start, d, n), f')"
    and inv: "latest_below f p \<and> lm_window f = LZ4_WINDOW" and a: "anchor \<le> p"
    and p: "p + 12 \<le> length input" and small: "length input < 2 ^ 32 - 1"
  obtain c k where f: "latest_insert_and_find f input p = (Some c, f')" and d: "d = p - c"
    and k: "k = match_length input p c (length input - p - 5)"
    and e: "extend_back input anchor p c k = (start, n)"
    using find by (auto simp: fast_find_def Let_def split: prod.splits option.splits)
  note snd = latest_find_sound [OF f]
  have c: "c < p" using snd(5) inv by simp
  have "common_prefix input p c (length input - p - 5) k"
    unfolding k using c p by (intro match_length_common_prefix) auto
  then have "common_prefix input c p (length input - p - 5) k"
    by (rule common_prefix_commute [THEN iffD1])
  then have "valid_match input p d k"
    unfolding d by (rule valid_match_common_prefix) (use c p in auto)
  then have "valid_match input start d n \<and> anchor \<le> start"
    using extend_back_valid [OF e _ _ a, of d] c d by (metis diff_diff_cancel less_imp_le)
  moreover have "4 \<le> k" unfolding k using snd p by (intro match_length_ge_4) auto
  moreover have "k \<le> n" using extend_back_le [OF e] by simp
  moreover have "d < 2 ^ 16" using snd(1) inv d by (simp add: LZ4_WINDOW_def)
  moreover have "p + k = start + n" using extend_back_end [OF e] by simp
  ultimately show "anchor \<le> start \<and> p + 4 \<le> start + n \<and> 4 \<le> n \<and> d < 2 ^ 16 \<and> valid_match input start d n"
    by simp
next
  fix f input anchor p r f'
  assume find: "fast_find f input anchor p = (r, f')"
    and inv: "latest_below f p \<and> lm_window f = LZ4_WINDOW" and p: "p < 2 ^ 32 - 1"
  then have "f' = snd (latest_insert_and_find f input p)"
    by (auto simp: fast_find_def Let_def split: prod.splits option.splits)
  moreover have "lm_window (snd (latest_insert_and_find f input p)) = lm_window f"
    by (simp add: latest_insert_and_find_def Let_def)
  ultimately show "latest_below f' (Suc p) \<and> lm_window f' = LZ4_WINDOW"
    using latest_find_below [of f p] inv p by simp
qed

lemma chain_insert_window [simp]: "hc_window (chain_insert f input p) = hc_window f"
  by (simp add: chain_insert_def Let_def split: option.splits)

interpretation high: block_matcher chain_insert
  "\<lambda>c p. chain_below c p \<and> hc_window c = LZ4_WINDOW" "high_find max_chain" for max_chain
proof
  fix f p q assume "chain_below f p \<and> hc_window f = LZ4_WINDOW" "p \<le> q"
  then show "chain_below f q \<and> hc_window f = LZ4_WINDOW" by (auto intro: chain.below_mono)
next
  fix f p bytes assume "chain_below f p \<and> hc_window f = LZ4_WINDOW" "p < 2 ^ 32 - 1"
  then show "chain_below (chain_insert f bytes p) (Suc p) \<and> hc_window (chain_insert f bytes p) = LZ4_WINDOW"
    using chain.below_insert [of f p bytes] by simp
next
  fix f input anchor p start d n f'
  assume find: "high_find max_chain f input anchor p = (Some (start, d, n), f')"
    and inv: "chain_below f p \<and> hc_window f = LZ4_WINDOW" and a: "anchor \<le> p"
    and p: "p + 12 \<le> length input" and small: "length input < 2 ^ 32 - 1"
  obtain k where b: "best_match f input p (length input - p - 5) 4 max_chain = (k, d)" and k: "k \<noteq> 0"
    and e: "extend_back input anchor p (p - d) k = (start, n)"
    using find by (auto simp: high_find_def Let_def split: prod.splits if_splits)
  have s: "4 \<le> k \<and> d \<le> LZ4_WINDOW \<and> valid_match input p d k"
    using best_match_sound [OF _ b] inv k by auto
  then have "valid_match input start d n \<and> anchor \<le> start"
    using extend_back_valid [OF e, of d] a by simp
  moreover have "k \<le> n" using extend_back_le [OF e] by simp
  moreover have "p + k = start + n" using extend_back_end [OF e] by simp
  ultimately show "anchor \<le> start \<and> p + 4 \<le> start + n \<and> 4 \<le> n \<and> d < 2 ^ 16 \<and> valid_match input start d n"
    using s by (simp add: LZ4_WINDOW_def)
next
  fix f input anchor p r f'
  assume find: "high_find max_chain f input anchor p = (r, f')"
    and inv: "chain_below f p \<and> hc_window f = LZ4_WINDOW" and p: "p < 2 ^ 32 - 1"
  then have "f' = f \<or> f' = chain_insert f input p"
    by (auto simp: high_find_def Let_def split: prod.splits if_splits)
  moreover have "chain_below f (Suc p)" using inv by (auto intro: chain.below_mono)
  moreover have "chain_below (chain_insert f input p) (Suc p)"
    using inv p by (intro chain.below_insert) auto
  ultimately show "chain_below f' (Suc p) \<and> hc_window f' = LZ4_WINDOW" using inv by auto
qed


lemma fast_loop_ok:
  assumes "fast.loop_ok input finder anchor position out" and "length input < 2 ^ 32 - 1"
    and "fast_loop input finder anchor position out = (out', anchor')"
  shows "emits out' (take anchor' input) \<and> length out' \<le> 2 * anchor' \<and> anchor' \<le> length input"
  using assms
proof (induction input finder anchor position out rule: fast_loop.induct)
  case (1 input finder anchor position out)
  show ?case
  proof (cases "position + 12 \<le> length input")
    case False
    then show ?thesis using 1(3,5) by (simp add: fast_loop.simps [of input finder] fast.loop_ok_def)
  next
    case True
    obtain r f' where r: "fast_find finder input anchor position = (r, f')" by fastforce
    show ?thesis
    proof (cases r)
      case None
      let ?q = "position + (1 + (position - anchor) div 2 ^ 6)"
      have "fast.loop_ok input f' anchor ?q out"
        using True 1(4) by (intro fast.loop_ok_none [OF 1(3) r [unfolded None]]) auto
      then show ?thesis
        using 1(1) [OF True r [symmetric] None _ 1(4)] 1(5) True r None
        by (simp add: fast_loop.simps [of input finder])
    next
      case (Some m)
      then obtain start d n where m: "r = Some (start, d, n)" "m = (start, d, n)" by (cases m) auto
      from fast.loop_ok_some [OF 1(3) r [unfolded m] True 1(4)]
      show ?thesis
        using 1(2) [OF True r [symmetric] Some m(2) [symmetric] refl refl refl refl _ 1(4)] 1(5) True r m
        by (simp add: fast_loop.simps [of input finder] Let_def)
    qed
  qed
qed

lemma high_loop_ok:
  assumes "high.loop_ok input finder anchor position out" and "length input < 2 ^ 32 - 1"
    and "high_loop max_chain input finder anchor position out = (out', anchor')"
  shows "emits out' (take anchor' input) \<and> length out' \<le> 2 * anchor' \<and> anchor' \<le> length input"
  using assms
proof (induction max_chain input finder anchor position out rule: high_loop.induct)
  case (1 max_chain input finder anchor position out)
  show ?case
  proof (cases "position + 12 \<le> length input")
    case False
    then show ?thesis using 1(3,5) by (simp add: high_loop.simps [of max_chain input finder] high.loop_ok_def)
  next
    case True
    obtain r f' where r: "high_find max_chain finder input anchor position = (r, f')" by fastforce
    show ?thesis
    proof (cases r)
      case None
      have "high.loop_ok input f' anchor (position + 1) out"
        using True 1(4) by (intro high.loop_ok_none [OF 1(3) r [unfolded None]]) auto
      then show ?thesis
        using 1(1) [OF True r [symmetric] None _ 1(4)] 1(5) True r None
        by (simp add: high_loop.simps [of max_chain input finder])
    next
      case (Some m)
      then obtain start d n where m: "r = Some (start, d, n)" "m = (start, d, n)" by (cases m) auto
      from high.loop_ok_some [OF 1(3) r [unfolded m] True 1(4)]
      show ?thesis
        using 1(2) [OF True r [symmetric] Some m(2) [symmetric] refl refl refl refl _ 1(4)] 1(5) True r m
        by (simp add: high_loop.simps [of max_chain input finder] Let_def)
    qed
  qed
qed

lemma length_write_last_literals: "length (write_last_literals out lits) \<le> length out + 2 * length lits + 1"
  using length_length_ext [of "length lits"] by (simp add: write_last_literals_eq)

lemma emits_block:
  assumes "emits out (take anchor input) \<and> length out \<le> 2 * anchor \<and> anchor \<le> length input"
    and "length input < 2 ^ 32 - 1" and "length input \<le> limit" and "limit < 2 ^ 63"
  shows "decompress_block (write_last_literals out (drop anchor input)) [] limit = Inr input"
    and "length (write_last_literals out (drop anchor input)) \<le> 2 * length input + 1"
proof -
  show le: "length (write_last_literals out (drop anchor input)) \<le> 2 * length input + 1"
    using length_write_last_literals [of out "drop anchor input"] assms(1) by auto
  show "decompress_block (write_last_literals out (drop anchor input)) [] limit = Inr input"
    using assms le by (intro emits_last) auto
qed

lemma compress_block_roundtrip:
  assumes "length input < 2 ^ 32 - 1" and "length input \<le> limit" and "limit < 2 ^ 63"
  shows "decompress_block (compress_block input level) [] limit = Inr input"
    and "length (compress_block input level) \<le> 2 * length input + 1"
proof -
  obtain out anchor where f: "fast_loop input (latest_new LZ4_WINDOW) 0 0 [] = (out, anchor)" by fastforce
  have "fast.loop_ok input (latest_new LZ4_WINDOW) 0 0 []"
    by (simp add: fast.loop_ok_def) (simp add: latest_new_def)
  note fast = emits_block [OF fast_loop_ok [OF this assms(1) f] assms]
  let ?m = "lz4_chain_depth level"
  obtain out' anchor' where h: "high_loop ?m input (chain_new (length input) LZ4_WINDOW ?m) 0 0 [] = (out', anchor')"
    by fastforce
  have "high.loop_ok input (chain_new (length input) LZ4_WINDOW ?m) 0 0 []"
    by (simp add: high.loop_ok_def) (simp add: chain_new_def)
  note high = emits_block [OF high_loop_ok [OF this assms(1) h] assms]
  show "decompress_block (compress_block input level) [] limit = Inr input"
    and "length (compress_block input level) \<le> 2 * length input + 1"
    using fast high f h by (simp_all add: compress_block_def compress_block_fast_def compress_block_high_def)
qed

section \<open>The decoder on arbitrary bytes\<close>

text \<open>
  With a dictionary the match is the byte-by-byte copy over the dictionary followed by the output,
  and an offset is rejected exactly when it reaches before both.
\<close>

lemma copy_match_eq:
  "copy_match out dictionary offset n =
     (if offset = 0 \<or> offset > length dictionary + length out then Inl (InvalidLz4 OffsetExceedsHistory)
      else Inr (drop (length dictionary) (copy_bytes (dictionary @ out) offset n)))"
proof (cases "offset = 0 \<or> offset > length dictionary + length out")
  case False
  then have o: "0 < offset" "offset \<le> length dictionary + length out" by auto
  let ?need = "offset - length out" and ?all = "dictionary @ out"
  show ?thesis
  proof (cases "offset \<le> length out")
    case True
    then have "copy_match out dictionary offset n = Inr (copy_bytes out offset n)"
      using o by (cases "n = 0") (simp_all add: copy_match_def extend_match_copy)
    then show ?thesis using o True by (simp add: copy_bytes_prefix)
  next
    case need: False
    let ?start = "length dictionary - ?need"
    have short: "copy_bytes ?all offset m = ?all @ slice_of dictionary ?start (?start + m)" if "m \<le> ?need" for m
    proof -
      have "copy_bytes ?all offset m = ?all @ slice_of ?all (length ?all - offset) (length ?all - offset + m)"
        using that o need by (intro copy_bytes_short) auto
      moreover have "length ?all - offset = ?start" using o need by simp
      moreover have "slice_of ?all ?start (?start + m) = slice_of dictionary ?start (?start + m)"
        using that o need by (intro slice_append_left) auto
      ultimately show ?thesis by (simp only:)
    qed
    show ?thesis
    proof (cases "n \<le> ?need")
      case True
      then show ?thesis using o need short [OF True] by (simp add: copy_match_def Let_def)
    next
      case more: False
      let ?out = "out @ slice_of dictionary ?start (?start + ?need)"
      have "copy_bytes ?all offset n = copy_bytes (copy_bytes ?all offset ?need) offset (n - ?need)"
        using copy_bytes_add [of ?all offset ?need "n - ?need"] more by simp
      also have "\<dots> = dictionary @ copy_bytes ?out offset (n - ?need)"
        using short [of ?need] o need by (simp add: copy_bytes_prefix)
      finally show ?thesis using o need more
        by (simp add: copy_match_def Let_def extend_match_copy)
    qed
  qed
qed (simp add: copy_match_def)

lemma copy_match_length: "copy_match out dictionary offset n = Inr out' \<Longrightarrow> length out' = length out + n"
  by (auto simp: copy_match_eq split: if_splits)

lemma read_length_loop_safe: "safely (\<lambda>(n, p). position < p) (read_length_loop input position n)"
proof (induction input position n rule: read_length_loop.induct)
  case (1 input position n)
  then show ?case
    by (subst read_length_loop.simps)
      (auto split: option.splits simp: outcome_simps elim!: outcome_mono)
qed

lemma read_length_safe: "safely (\<lambda>(n, p). position \<le> p) (read_length input position i)"
  using read_length_loop_safe [of position input i]
  by (auto simp: read_length_def outcome_simps elim!: outcome_mono)

lemma copy_match_safe: "safely (\<lambda>out'. length out' = length out + n) (copy_match out dictionary offset n)"
  by (auto simp: copy_match_eq outcome_simps)

lemma decompress_loop_safe:
  "length out \<le> max_output \<Longrightarrow>
     safely (\<lambda>out'. length out' \<le> max_output) (decompress_loop input dictionary max_output position out)"
proof (induction "length input - position" arbitrary: position out rule: less_induct)
  case less
  show ?case
  proof (cases "position < length input")
    case True
    have IH: "safely (\<lambda>out'. length out' \<le> max_output) (decompress_loop input dictionary max_output p o')"
      if "position < p" and "length o' \<le> max_output" for p o'
      using less(1) [of p o'] that True by simp
    show ?thesis
      apply (subst decompress_loop.simps)
      apply (simp only: True if_True Let_def)
      apply (rule outcome_bind [OF read_length_safe] outcome_bind [OF copy_match_safe] IH outcome_intros
          | (auto simp: end_within_Some_iff; fail))+
      done
  qed (use less(2) in \<open>simp add: decompress_loop.simps [of input] outcome_simps\<close>)
qed

section \<open>Properties\<close>

text \<open>C13. LZ4 block round trip: at every level, the block compressed from an input decodes to exactly
  that input, given room for it. The 32-bit bound is the one under which the position tables can
  hold every position; the code's blocks are at most 4 MiB.\<close>

theorem decompress_compress_block:
  assumes "length input < 2 ^ 32 - 1" and "length input \<le> limit" and "limit < 2 ^ 63"
  shows "decompress_block (compress_block input level) [] limit = Inr input"
  using assms by (rule compress_block_roundtrip)

theorem decompress_compress_block_witness:
  "decompress_block (compress_block (replicate 100 7 @ [1, 2, 3]) 9) [] 103 = Inr (replicate 100 7 @ [1, 2, 3])"
  by (rule decompress_compress_block) simp_all

text \<open>C14. On arbitrary bytes and any dictionary the block decoder never panics: it returns an LZ4 error
  or an output of at most \<open>max_output\<close> bytes.\<close>

theorem decompress_block_safe:
  "decompress_block input dictionary max_output \<noteq> Inl Panic \<and>
   (case decompress_block input dictionary max_output of
      Inl _ \<Rightarrow> True | Inr out \<Rightarrow> length out \<le> max_output)"
  using decompress_loop_safe [of "[]" max_output input dictionary 0]
  by (simp add: decompress_block_def outcome_def split: sum.splits)

text \<open>C15. A match copied with an external dictionary is the byte-by-byte copy over the dictionary
  followed by the output; it fails exactly for offset 0 and offsets that reach before both.\<close>

theorem copy_match_reference:
  "copy_match out dictionary offset n =
     (if offset = 0 \<or> offset > length dictionary + length out then Inl (InvalidLz4 OffsetExceedsHistory)
      else Inr (drop (length dictionary) (copy_bytes (dictionary @ out) offset n)))"
  by (rule copy_match_eq)

text \<open>A compressed block is at most twice its input plus one byte, whatever the level.\<close>

theorem compress_block_bound:
  assumes "length input < 2 ^ 32 - 1"
  shows "length (compress_block input level) \<le> 2 * length input + 1"
  using compress_block_roundtrip(2) [OF assms order_refl] assms by simp

theorem compress_block_bound_witness: "length (compress_block (replicate 50 0) 1) \<le> 101"
  using compress_block_bound [of "replicate 50 0" 1] by simp

end
