(* ===== verification/Options.thy ===== *)
theory Options
  imports Errors
begin

text \<open>
  \<open>EncodeOptions\<close> of \<open>src/encode.rs\<close> and \<open>DecodeOptions\<close> of \<open>src/decode.rs\<close>. The number of processors
  the system reports is the parameter \<open>available\<close> (\<open>None\<close> when it reports an error).
\<close>

definition MAX_ENCODED_BLOCK :: nat where "MAX_ENCODED_BLOCK = 900000"
definition MAX_DECODED_BLOCK :: nat where "MAX_DECODED_BLOCK = MAX_ENCODED_BLOCK div 5 * 259 + 4"

record encode_options =
  eo_threads :: nat
  eo_memory_limit :: nat
  eo_level :: "nat option"

definition encode_resolved_threads :: "nat option \<Rightarrow> encode_options \<Rightarrow> nat" where
  "encode_resolved_threads available o' =
     (if eo_threads o' \<noteq> 0 then eo_threads o' else (case available of None \<Rightarrow> 1 | Some n \<Rightarrow> n))"

definition encode_validate :: "encode_options \<Rightarrow> error + encode_options" where
  "encode_validate o' =
     (if (case eo_level o' of None \<Rightarrow> False | Some level \<Rightarrow> \<not> (1 \<le> level \<and> level \<le> 9))
      then Inl (InvalidConfiguration LevelRange)
      else if eo_memory_limit o' = 0 then Inl (InvalidConfiguration MemoryLimitZero)
      else Inr o')"

definition level_or :: "encode_options \<Rightarrow> nat \<Rightarrow> nat" where
  "level_or o' fallback = (case eo_level o' of None \<Rightarrow> fallback | Some level \<Rightarrow> level)"

record decode_options =
  do_threads :: nat
  do_memory_limit :: nat

definition decode_resolved_threads :: "nat option \<Rightarrow> decode_options \<Rightarrow> nat" where
  "decode_resolved_threads available o' =
     (if do_threads o' \<noteq> 0 then do_threads o' else (case available of None \<Rightarrow> 1 | Some n \<Rightarrow> n))"

definition decode_validate :: "decode_options \<Rightarrow> error + decode_options" where
  "decode_validate o' =
     (if do_memory_limit o' < MAX_DECODED_BLOCK then Inl (InvalidConfiguration MemoryLimitTooSmall)
      else Inr o')"

end
