(* ===== verification/Streaming.thy ===== *)
theory Streaming
  imports Errors
begin

text \<open>
  \<open>StreamingOrdered\<close> of \<open>src/pipeline.rs\<close>: the long-lived ordered worker pool the three encoders
  submit blocks to. Jobs run on a thread pool and report over a channel in any order; \<open>take_next\<close>
  hands results out in submission order. The parameter \<open>pick\<close> chooses which spawned job reports next,
  so a statement for every \<open>pick\<close> is a statement for every completion order. \<open>ordered_commit\<close> is the
  contract between the pool and an encoder that commits one result at a time.
\<close>

section \<open>The pool\<close>

text \<open>A message is the key, the reservation and the job's result; \<open>None\<close> is a job that panicked.\<close>

type_synonym 'a message = "nat \<times> nat \<times> 'a option"

record 'a streaming =
  so_spawned :: "'a message list"
  so_ready :: "nat \<Rightarrow> (nat \<times> 'a option) option"
  so_next_submit :: nat
  so_next_take :: nat
  so_reserved :: nat
  so_active :: nat
  so_max_active :: nat
  so_memory_limit :: nat

definition streaming_new :: "nat \<Rightarrow> nat \<Rightarrow> 'a streaming" where
  "streaming_new threads memory_limit =
     \<lparr>so_spawned = [], so_ready = (\<lambda>_. None), so_next_submit = 0, so_next_take = 0, so_reserved = 0,
      so_active = 0, so_max_active = max threads 1, so_memory_limit = memory_limit\<rparr>"

definition can_submit :: "'a streaming \<Rightarrow> nat \<Rightarrow> bool" where
  "can_submit p reservation \<longleftrightarrow>
     so_active p < so_max_active p \<and> reservation \<le> so_memory_limit p - so_reserved p"

definition submit :: "'a streaming \<Rightarrow> nat \<Rightarrow> 'a option \<Rightarrow> error + 'a streaming" where
  "submit p reservation job =
     (if reservation > so_memory_limit p then Inl (InvalidConfiguration ReservationExceedsLimit)
      else if \<not> can_submit p reservation then Inl (InvalidConfiguration PipelineFull)
      else (let key = so_next_submit p in
        Inr (p\<lparr>so_next_submit := so_next_submit p + 1, so_active := so_active p + 1,
               so_reserved := so_reserved p + reservation,
               so_spawned := so_spawned p @ [(key, reservation, job)]\<rparr>)))"

text \<open>The receiving loop of \<open>take_next\<close>; \<open>pick\<close> selects the spawned job whose message arrives.\<close>

type_synonym 'a schedule = "'a message list \<Rightarrow> nat"

function receive_until ::
  "'a schedule \<Rightarrow> 'a message list \<Rightarrow> (nat \<Rightarrow> (nat \<times> 'a option) option) \<Rightarrow> nat \<Rightarrow>
   error + 'a message list \<times> (nat \<Rightarrow> (nat \<times> 'a option) option)" where
  "receive_until pick spawned ready key =
     (if ready key \<noteq> None then Inr (spawned, ready)
      else if spawned = [] then Inl (InvalidConfiguration WorkerStopped)
      else (let i = pick spawned mod length spawned; m = spawned ! i
            in receive_until pick (take i spawned @ drop (Suc i) spawned)
                 (ready(fst m := Some (snd m))) key))"
  by pat_completeness auto
termination
  by (relation "measure (\<lambda>(pick, spawned, ready, key). length spawned)")
    (auto simp: min_def, metis Suc_leI length_greater_0_conv mod_less_divisor diff_Suc_less
      Suc_diff_Suc add_diff_inverse_nat leD lessI)

declare receive_until.simps [simp del]

definition take_next :: "'a schedule \<Rightarrow> 'a streaming \<Rightarrow> error + 'a \<times> 'a streaming" where
  "take_next pick p =
     (if so_next_take p \<ge> so_next_submit p then Inl (InvalidConfiguration NothingPending)
      else and_then (receive_until pick (so_spawned p) (so_ready p) (so_next_take p)) (\<lambda>(spawned, ready).
        case ready (so_next_take p) of
          None \<Rightarrow> Inl Panic
        | Some m \<Rightarrow>
            (let p = p\<lparr>so_spawned := spawned, so_ready := ready(so_next_take p := None),
                   so_next_take := so_next_take p + 1, so_active := so_active p - 1,
                   so_reserved := so_reserved p - fst m\<rparr>
             in case snd m of None \<Rightarrow> Inl (InvalidConfiguration WorkerPanicked) | Some v \<Rightarrow> Inr (v, p))))"

definition has_pending :: "'a streaming \<Rightarrow> bool" where
  "has_pending p \<longleftrightarrow> so_next_take p < so_next_submit p"

lemma take_next_advances:
  assumes "take_next pick p = Inr (v, p')"
  shows "so_next_take p' = so_next_take p + 1 \<and> so_next_submit p' = so_next_submit p \<and>
     so_next_take p < so_next_submit p"
proof -
  obtain spawned ready where less: "so_next_take p < so_next_submit p"
    and r: "receive_until pick (so_spawned p) (so_ready p) (so_next_take p) = Inr (spawned, ready)"
    using assms by (auto simp: take_next_def and_then_Inr_iff split: if_split_asm)
  obtain m where m: "ready (so_next_take p) = Some m"
    using assms less r by (cases "ready (so_next_take p)") (auto simp: take_next_def)
  show ?thesis using assms less r m by (cases "snd m") (auto simp: take_next_def)
qed

text \<open>
  The loops the encoders run around the pool: commit the next result; make room for a reservation
  by committing; submit behind that; commit everything that is pending. \<open>w\<close> is the encoder's own
  state and \<open>commit\<close> its handling of one result.
\<close>

definition commit_next ::
  "'a schedule \<Rightarrow> ('w \<Rightarrow> 'a \<Rightarrow> error + 'w) \<Rightarrow> 'a streaming \<times> 'w \<Rightarrow> error + 'a streaming \<times> 'w" where
  "commit_next pick commit = (\<lambda>(p, w).
     and_then (take_next pick p) (\<lambda>(v, p). and_then (commit w v) (\<lambda>w. Inr (p, w))))"

lemma commit_next_advances:
  assumes "commit_next pick commit pw = Inr pw'"
  shows "so_next_submit (fst pw') - so_next_take (fst pw') < so_next_submit (fst pw) - so_next_take (fst pw)"
  using assms
  by (cases pw) (auto simp: commit_next_def and_then_Inr_iff dest!: take_next_advances)

function make_room ::
  "'a schedule \<Rightarrow> ('w \<Rightarrow> 'a \<Rightarrow> error + 'w) \<Rightarrow> nat \<Rightarrow> 'a streaming \<times> 'w \<Rightarrow> error + 'a streaming \<times> 'w" where
  "make_room pick commit reservation pw =
     (if can_submit (fst pw) reservation then Inr pw
      else and_then (commit_next pick commit pw) (make_room pick commit reservation))"
  by pat_completeness auto
termination
  by (relation "measure (\<lambda>(pick, commit, reservation, pw). so_next_submit (fst pw) - so_next_take (fst pw))")
    (auto dest: commit_next_advances)

function drain ::
  "'a schedule \<Rightarrow> ('w \<Rightarrow> 'a \<Rightarrow> error + 'w) \<Rightarrow> 'a streaming \<times> 'w \<Rightarrow> error + 'a streaming \<times> 'w" where
  "drain pick commit pw =
     (if has_pending (fst pw) then and_then (commit_next pick commit pw) (drain pick commit) else Inr pw)"
  by pat_completeness auto
termination
  by (relation "measure (\<lambda>(pick, commit, pw). so_next_submit (fst pw) - so_next_take (fst pw))")
    (auto dest: commit_next_advances)

declare make_room.simps [simp del] drain.simps [simp del]

definition submit_ordered ::
  "'a schedule \<Rightarrow> ('w \<Rightarrow> 'a \<Rightarrow> error + 'w) \<Rightarrow> nat \<Rightarrow> 'a option \<Rightarrow> 'a streaming \<times> 'w \<Rightarrow>
   error + 'a streaming \<times> 'w" where
  "submit_ordered pick commit reservation job pw =
     and_then (make_room pick commit reservation pw) (\<lambda>(p, w).
     and_then (submit p reservation job) (\<lambda>p. Inr (p, w)))"

section \<open>The pool is a queue\<close>

text \<open>
  \<open>holds p q\<close>: the pool holds exactly the submitted and not yet taken jobs \<open>q\<close>, oldest first, each
  either still spawned or ready, and accounts for their reservations within its limits.
\<close>

definition outstanding ::
  "'a message list \<Rightarrow> (nat \<Rightarrow> (nat \<times> 'a option) option) \<Rightarrow> nat \<Rightarrow> (nat \<times> 'a option) list \<Rightarrow> bool" where
  "outstanding spawned ready first q \<longleftrightarrow>
     distinct (map fst spawned) \<and> (\<forall>m \<in> set spawned. ready (fst m) = None) \<and>
     (\<forall>k x. (k, x) \<in> set spawned \<or> ready k = Some x \<longleftrightarrow> first \<le> k \<and> k < first + length q \<and> q ! (k - first) = x)"

definition holds :: "'a streaming \<Rightarrow> (nat \<times> 'a option) list \<Rightarrow> bool" where
  "holds p q \<longleftrightarrow>
     so_next_submit p = so_next_take p + length q \<and> so_active p = length q \<and>
     so_reserved p = sum_list (map fst q) \<and> so_active p \<le> so_max_active p \<and>
     so_reserved p \<le> so_memory_limit p \<and> 0 < so_max_active p \<and>
     outstanding (so_spawned p) (so_ready p) (so_next_take p) q"

lemma holds_new [simp]: "holds (streaming_new threads limit) []"
  by (auto simp: holds_def streaming_new_def outstanding_def)

lemma streaming_new_limit [simp]: "so_memory_limit (streaming_new threads limit) = limit"
  by (simp add: streaming_new_def)

lemma outstanding_at:
  "outstanding spawned ready first q \<Longrightarrow>
     (k, x) \<in> set spawned \<or> ready k = Some x \<longleftrightarrow> first \<le> k \<and> k < first + length q \<and> q ! (k - first) = x"
  by (cases x) (simp add: outstanding_def)

lemma outstanding_receive:
  assumes out: "outstanding spawned ready first q" and i: "i < length spawned"
    and m: "spawned ! i = (k, x)"
  shows "outstanding (take i spawned @ drop (Suc i) spawned) (ready(k := Some x)) first q"
proof -
  let ?rest = "take i spawned @ drop (Suc i) spawned"
  have sp: "spawned = take i spawned @ (k, x) # drop (Suc i) spawned"
    using id_take_nth_drop [OF i] m by simp
  have d: "distinct (map fst spawned)" using out by (simp add: outstanding_def)
  then have dr: "distinct (map fst ?rest)" and k: "k \<notin> fst ` set ?rest"
    using arg_cong [OF sp, of "map fst"] by auto
  have set: "set spawned = insert (k, x) (set ?rest)"
    using arg_cong [OF sp, of set] by auto
  have rk: "ready k = None" using out set by (auto simp: outstanding_def)
  have eq: "(k', x') \<in> set ?rest \<or> (ready(k := Some x)) k' = Some x' \<longleftrightarrow>
      (k', x') \<in> set spawned \<or> ready k' = Some x'" for k' x'
    using rk k set by (cases "k' = k") force+
  show ?thesis
    unfolding outstanding_def eq
    using out dr k set by (auto simp: outstanding_def)
qed

lemma receive_until_ok:
  assumes "outstanding spawned ready first q" and "q \<noteq> []"
  shows "\<exists>spawned' ready'. receive_until pick spawned ready first = Inr (spawned', ready') \<and>
    outstanding spawned' ready' first q \<and> ready' first = Some (hd q)"
  using assms
proof (induction pick spawned ready first rule: receive_until.induct)
  case (1 pick spawned ready first)
  have first: "(first, hd q) \<in> set spawned \<or> ready first = Some (hd q)"
    using 1(3) by (subst outstanding_at [OF 1(2)]) (simp add: hd_conv_nth)
  show ?case
  proof (cases "ready first")
    case (Some x)
    then have "x = hd q" using outstanding_at [OF 1(2), of first x] 1(3) by (simp add: hd_conv_nth)
    then show ?thesis using Some 1(2) by (simp add: receive_until.simps)
  next
    case None
    then have ne: "spawned \<noteq> []" using first by auto
    let ?i = "pick spawned mod length spawned"
    have i: "?i < length spawned" using ne by simp
    show ?thesis
      using 1(1) [OF _ ne refl refl outstanding_receive [OF 1(2) i] 1(3)] None ne
      by (simp add: receive_until.simps [of pick spawned] Let_def del: fun_upd_apply)
  qed
qed

lemma outstanding_take:
  assumes out: "outstanding spawned ready first (x # q)" and r: "ready first = Some x"
  shows "outstanding spawned (ready(first := None)) (Suc first) q"
proof -
  have d: "distinct (map fst spawned)" "\<forall>m\<in>set spawned. ready (fst m) = None"
    using out by (auto simp: outstanding_def)
  then have "first \<notin> fst ` set spawned" using r by auto
  then have "(k, y) \<in> set spawned \<or> (ready(first := None)) k = Some y \<longleftrightarrow>
      Suc first \<le> k \<and> k < Suc first + length q \<and> q ! (k - Suc first) = y" for k y
    using outstanding_at [OF out, of k y] by (cases "k = first") (force simp: nth_Cons' Suc_le_eq)+
  then show ?thesis using d by (auto simp: outstanding_def)
qed

lemma outstanding_submit:
  assumes out: "outstanding spawned ready first q"
  shows "outstanding (spawned @ [(first + length q, x)]) ready first (q @ [x])"
proof -
  let ?n = "first + length q"
  have d: "distinct (map fst spawned)" "\<forall>m\<in>set spawned. ready (fst m) = None"
    using out by (auto simp: outstanding_def)
  have fresh: "(?n, y) \<notin> set spawned" "ready ?n \<noteq> Some y" for y
    using outstanding_at [OF out, of ?n y] by auto
  have at: "(k, y) \<in> set (spawned @ [(?n, x)]) \<or> ready k = Some y \<longleftrightarrow>
      first \<le> k \<and> k < first + length (q @ [x]) \<and> (q @ [x]) ! (k - first) = y" for k y
  proof -
    consider "k < first" | "first \<le> k" "k < ?n" | "k = ?n" | "?n < k" by linarith
    then show ?thesis
    proof cases
      case 2
      then have "k - first < length q" by linarith
      then show ?thesis using 2 outstanding_at [OF out, of k y] by (simp add: nth_append)
    next
      case 3
      then show ?thesis using fresh by auto
    qed (use outstanding_at [OF out, of k y] in auto)
  qed
  have "distinct (map fst (spawned @ [(?n, x)]))" using d fresh by auto
  moreover have "\<forall>m \<in> set (spawned @ [(?n, x)]). ready (fst m) = None"
    using d(2) fresh(2) [of "the (ready ?n)"] by (cases "ready ?n") auto
  ultimately show ?thesis unfolding outstanding_def using at by blast
qed

lemma holds_submit:
  assumes "holds p q" and "can_submit p r"
  shows "\<exists>p'. submit p r v = Inr p' \<and> holds p' (q @ [(r, v)]) \<and> so_memory_limit p' = so_memory_limit p"
  using assms outstanding_submit [of "so_spawned p" "so_ready p" "so_next_take p" q "(r, v)"]
  by (auto simp: submit_def can_submit_def holds_def Let_def)

lemma can_submit_empty: "holds p [] \<Longrightarrow> r \<le> so_memory_limit p \<Longrightarrow> can_submit p r"
  by (simp add: can_submit_def holds_def)

lemma holds_has_pending: "holds p q \<Longrightarrow> has_pending p \<longleftrightarrow> q \<noteq> []"
  by (simp add: has_pending_def holds_def)

lemma holds_take_next:
  assumes h: "holds p ((r, v) # q)"
  shows "case v of None \<Rightarrow> take_next pick p = Inl (InvalidConfiguration WorkerPanicked)
    | Some x \<Rightarrow> \<exists>p'. take_next pick p = Inr (x, p') \<and> holds p' q \<and> so_memory_limit p' = so_memory_limit p"
proof -
  have out: "outstanding (so_spawned p) (so_ready p) (so_next_take p) ((r, v) # q)"
    using h by (simp add: holds_def)
  obtain spawned ready where
    rec: "receive_until pick (so_spawned p) (so_ready p) (so_next_take p) = Inr (spawned, ready)"
    and out': "outstanding spawned ready (so_next_take p) ((r, v) # q)"
    and rd: "ready (so_next_take p) = Some (r, v)"
    using receive_until_ok [OF out, of pick] by auto
  show ?thesis
    using h rec rd outstanding_take [OF out' rd]
    by (auto simp: take_next_def holds_def Let_def split: option.split)
qed

section \<open>The contract with an encoder\<close>

text \<open>
  An encoder commits one result at a time: from a state that has committed \<open>vs\<close>, committing an
  acceptable \<open>v\<close> gives a state that has committed \<open>vs @ [v]\<close>. Then whatever the completion order,
  the encoder commits exactly what was submitted, in order.
\<close>

locale ordered_commit =
  fixes commit :: "'w \<Rightarrow> 'a \<Rightarrow> error + 'w"
    and committed :: "'w \<Rightarrow> 'a list \<Rightarrow> bool"
    and acceptable :: "'a \<Rightarrow> bool"
  assumes commit_ok: "committed w vs \<Longrightarrow> acceptable v \<Longrightarrow>
    \<exists>w'. commit w v = Inr w' \<and> committed w' (vs @ [v])"
begin

definition carries :: "nat \<Rightarrow> 'a streaming \<times> 'w \<Rightarrow> 'a list \<Rightarrow> bool" where
  "carries limit = (\<lambda>(p, w) vs. \<exists>before q. holds p (map (\<lambda>(r, v). (r, Some v)) q) \<and>
     so_memory_limit p = limit \<and> committed w before \<and> vs = before @ map snd q \<and>
     (\<forall>v \<in> set (map snd q). acceptable v))"

lemma carries_commit_next:
  assumes "carries limit pw vs" and "has_pending (fst pw)"
  shows "\<exists>pw'. commit_next pick commit pw = Inr pw' \<and> carries limit pw' vs"
proof -
  obtain p w where pw: "pw = (p, w)" by fastforce
  obtain before q where h: "holds p (map (\<lambda>(r, v). (r, Some v)) q)" and l: "so_memory_limit p = limit"
    and c: "committed w before" and vs: "vs = before @ map snd q"
    and acc: "\<forall>v \<in> set (map snd q). acceptable v"
    using assms(1) by (auto simp: carries_def pw)
  have "q \<noteq> []" using holds_has_pending [OF h] assms(2) by (simp add: pw)
  then obtain r v q' where q: "q = (r, v) # q'" by (cases q) auto
  obtain p' where t: "take_next pick p = Inr (v, p')" and h': "holds p' (map (\<lambda>(r, v). (r, Some v)) q')"
    and l': "so_memory_limit p' = limit"
    using holds_take_next [of p r "Some v" _ pick] h l by (auto simp: q)
  obtain w' where w': "commit w v = Inr w'" "committed w' (before @ [v])"
    using commit_ok [OF c, of v] acc by (auto simp: q)
  have "commit_next pick commit pw = Inr (p', w')" by (simp add: commit_next_def pw t w')
  moreover have "carries limit (p', w') vs"
    unfolding carries_def prod.case
    using h' l' w'(2) vs acc by (intro exI [of _ "before @ [v]"] exI [of _ q']) (auto simp: q)
  ultimately show ?thesis by blast
qed

lemma carries_make_room:
  assumes "carries limit pw vs" and "r \<le> limit"
  shows "\<exists>pw'. make_room pick commit r pw = Inr pw' \<and> carries limit pw' vs \<and> can_submit (fst pw') r"
  using assms
proof (induction "so_next_submit (fst pw) - so_next_take (fst pw)" arbitrary: pw rule: less_induct)
  case less
  show ?case
  proof (cases "can_submit (fst pw) r")
    case True
    then show ?thesis using less(2) by (auto simp: make_room.simps [of pick commit r pw])
  next
    case False
    obtain p w where pw: "pw = (p, w)" by fastforce
    have "has_pending p"
    proof (rule ccontr)
      assume "\<not> has_pending p"
      then have "holds p []" "so_memory_limit p = limit"
        using less(2) holds_has_pending by (fastforce simp: carries_def pw)+
      then show False using False less(3) can_submit_empty by (auto simp: pw)
    qed
    then obtain pw' where c: "commit_next pick commit pw = Inr pw'" "carries limit pw' vs"
      using carries_commit_next [OF less(2), of pick] by (auto simp: pw)
    then show ?thesis
      using less(1) [OF commit_next_advances [OF c(1)] c(2) less(3)] False
      by (simp add: make_room.simps [of pick commit r pw])
  qed
qed

lemma carries_drain:
  assumes "carries limit pw vs"
  shows "\<exists>p w. drain pick commit pw = Inr (p, w) \<and> committed w vs \<and> carries limit (p, w) vs"
  using assms
proof (induction "so_next_submit (fst pw) - so_next_take (fst pw)" arbitrary: pw rule: less_induct)
  case less
  show ?case
  proof (cases "has_pending (fst pw)")
    case True
    then obtain pw' where c: "commit_next pick commit pw = Inr pw'" "carries limit pw' vs"
      using carries_commit_next [OF less(2), of pick] by auto
    then show ?thesis
      using less(1) [OF commit_next_advances [OF c(1)] c(2)] True
      by (simp add: drain.simps [of pick commit pw])
  next
    case False
    obtain p w where pw: "pw = (p, w)" by fastforce
    have "committed w vs"
      using less(2) False holds_has_pending by (fastforce simp: carries_def pw)
    then show ?thesis using less(2) False by (simp add: drain.simps [of pick commit "(p, w)"] pw)
  qed
qed

lemma carries_submit:
  assumes "carries limit pw vs" and "r \<le> limit" and "acceptable v"
  shows "\<exists>pw'. submit_ordered pick commit r (Some v) pw = Inr pw' \<and> carries limit pw' (vs @ [v])"
proof -
  obtain p w where m: "make_room pick commit r pw = Inr (p, w)" and c: "carries limit (p, w) vs"
    and s: "can_submit p r"
    using carries_make_room [OF assms(1,2), of pick] by auto
  obtain before q where h: "holds p (map (\<lambda>(r, v). (r, Some v)) q)" and l: "so_memory_limit p = limit"
    and cm: "committed w before" and vs: "vs = before @ map snd q"
    and acc: "\<forall>v \<in> set (map snd q). acceptable v"
    using c by (auto simp: carries_def)
  obtain p' where p': "submit p r (Some v) = Inr p'" "so_memory_limit p' = limit"
    and h': "holds p' (map (\<lambda>(r, v). (r, Some v)) (q @ [(r, v)]))"
    using holds_submit [OF h s, of "Some v"] l by auto
  have "carries limit (p', w) (vs @ [v])"
    unfolding carries_def prod.case
    using h' p'(2) cm acc assms(3) by (intro exI [of _ before] exI [of _ "q @ [(r, v)]"]) (auto simp: vs)
  then show ?thesis by (simp add: submit_ordered_def m p')
qed

lemma carries_new: "committed w [] \<Longrightarrow> carries limit (streaming_new threads limit, w) []"
  unfolding carries_def prod.case by (intro exI [of _ "[]"]) auto

end

section \<open>Properties\<close>

text \<open>C10. The pool refines a FIFO queue: if it holds the jobs \<open>(r, Some v) # q\<close>, oldest first, then
  \<open>take_next\<close> returns \<open>v\<close> and leaves a pool that holds \<open>q\<close>, whatever order the workers finish in;
  a job that panicked is reported as an error.\<close>

theorem take_next_in_order:
  assumes "holds p ((r, v) # q)"
  shows "case v of None \<Rightarrow> take_next pick p = Inl (InvalidConfiguration WorkerPanicked)
    | Some x \<Rightarrow> \<exists>p'. take_next pick p = Inr (x, p') \<and> holds p' q \<and> so_memory_limit p' = so_memory_limit p"
  using assms by (rule holds_take_next)

theorem take_next_in_order_witness:
  "\<exists>p q. submit (streaming_new 2 10) 4 (Some True) = Inr p \<and> submit p 6 (Some False) = Inr q \<and>
     (\<exists>p'. take_next (\<lambda>_. 1) q = Inr (True, p') \<and> holds p' [(6, Some False)])"
proof -
  have n: "holds (streaming_new 2 10 :: bool streaming) []" by simp
  have c: "can_submit (streaming_new 2 10 :: bool streaming) 4" by (simp add: can_submit_def streaming_new_def)
  obtain p where p: "submit (streaming_new 2 10) 4 (Some True) = Inr p" and h: "holds p [(4, Some True)]"
    using holds_submit [OF n c, of "Some True"] by auto
  have "can_submit p 6"
    using p by (auto simp: can_submit_def submit_def streaming_new_def)
  then obtain q where q: "submit p 6 (Some False) = Inr q" and h': "holds q ((4, Some True) # [(6, Some False)])"
    using holds_submit [OF h, of 6 "Some False"] by auto
  show ?thesis using p q take_next_in_order [OF h', of "\<lambda>_. 1"] by auto
qed

text \<open>C11. Submitting keeps the queue in submission order and the accounting within the limits: a job is
  accepted exactly when the pool is below its job count and the reservation fits into what is left of
  the memory limit.\<close>

theorem submit_accounting:
  assumes "holds p q"
  shows "case submit p r v of
      Inr p' \<Rightarrow> holds p' (q @ [(r, v)]) \<and> length q < so_max_active p \<and>
        sum_list (map fst q) + r \<le> so_memory_limit p
    | Inl e \<Rightarrow> length q \<ge> so_max_active p \<or> sum_list (map fst q) + r > so_memory_limit p"
  using assms holds_submit [OF assms, of r v]
  by (auto simp: submit_def can_submit_def holds_def Let_def)

theorem submit_accounting_witness:
  "\<exists>p'. submit (streaming_new 1 5) 5 (Some ()) = Inr p' \<and> holds p' [(5, Some ())]"
proof -
  obtain p' where "submit (streaming_new 1 5) 5 (Some ()) = Inr p'"
    by (simp add: submit_def can_submit_def streaming_new_def)
  then show ?thesis
    using submit_accounting [OF holds_new [of 1 5], of 5 "Some ()"] by simp
qed

end
