(* ===== verification/Pipeline.thy ===== *)
theory Pipeline
  imports Errors
begin

text \<open>
  \<open>Budget\<close>, \<open>run_ordered\<close> and \<open>run_staged_ordered\<close> of \<open>src/pipeline.rs\<close>: workers claim jobs in
  order while the memory budget allows, send results over a channel, and one consumer takes them by
  key; a staged result keeps its share of the budget while a second stage works on it. The state
  transitions under the lock are functions; their interleaving is the relation \<open>pipe_step\<close>, in which
  the consumer may do anything at any time. Proved: the accounting never exceeds the limits, a taken
  result is that of its job, and a consumer that takes every result in order gets all of them.
\<close>

section \<open>Budget\<close>

record 't job =
  job_key :: nat
  reservation :: nat
  payload :: 't

record budget =
  b_next :: nat
  b_reserved :: nat
  b_active :: nat
  b_cancelled :: bool

record limits =
  memory_limit :: nat
  active_limit :: nat

definition budget_new :: budget where
  "budget_new = \<lparr>b_next = 0, b_reserved = 0, b_active = 0, b_cancelled = False\<rparr>"

text \<open>
  \<open>next\<close> under the lock: it gives up (\<open>NextNone\<close>) once cancelled or out of jobs, and otherwise claims
  the next job or waits on the condition variable.
\<close>

datatype try_next = Ready nat | Pending | Cancelled

definition claim :: "'t job list \<Rightarrow> budget \<Rightarrow> nat \<times> budget" where
  "claim jobs b = (b_next b, b\<lparr>b_next := b_next b + 1,
     b_reserved := b_reserved b + reservation (jobs ! b_next b), b_active := b_active b + 1\<rparr>)"

datatype claimed = NextNone | Wait | Next nat

definition budget_next :: "limits \<Rightarrow> 't job list \<Rightarrow> budget \<Rightarrow> claimed \<times> budget" where
  "budget_next lim jobs b =
     (if b_cancelled b \<or> b_next b \<ge> length jobs then (NextNone, b)
      else (let r = reservation (jobs ! b_next b) in
        if b_active b < active_limit lim \<and> r \<le> memory_limit lim - b_reserved b
        then (let (i, b) = claim jobs b in (Next i, b)) else (Wait, b)))"

definition budget_try_next :: "limits \<Rightarrow> 't job list \<Rightarrow> budget \<Rightarrow> try_next \<times> budget" where
  "budget_try_next lim jobs b =
     (if b_cancelled b then (Cancelled, b)
      else if b_next b \<ge> length jobs then (Pending, b)
      else (let r = reservation (jobs ! b_next b) in
        if b_active b \<ge> active_limit lim \<or> r > memory_limit lim - b_reserved b then (Pending, b)
        else (let (i, b) = claim jobs b in (Ready i, b))))"

definition budget_complete :: "nat \<Rightarrow> nat \<Rightarrow> budget \<Rightarrow> budget" where
  "budget_complete res retained b =
     b\<lparr>b_reserved := sat_add (b_reserved b - res) (min retained res)\<rparr>"

definition budget_retire :: "nat \<Rightarrow> budget \<Rightarrow> budget" where
  "budget_retire retained b = b\<lparr>b_reserved := b_reserved b - retained, b_active := b_active b - 1\<rparr>"

definition budget_cancel :: "budget \<Rightarrow> budget" where
  "budget_cancel b = b\<lparr>b_cancelled := True\<rparr>"

section \<open>Workers, channel and consumer\<close>

text \<open>
  \<open>running\<close>: claimed jobs a worker is executing; \<open>channel\<close>: sent messages (key, retained, value);
  \<open>results\<close>: the consumer's map of received results; \<open>leases\<close>: shares of the budget the consumer of
  the staged variant holds; \<open>staged\<close>: payloads of the second stage with their shares; \<open>stage_out\<close>:
  finished stage results; \<open>closed\<close>: the consumer has dropped its end.
\<close>

record ('o, 's, 'q) pipe =
  budget :: budget
  running :: "nat list"
  channel :: "(nat \<times> nat \<times> 'o) list"
  results :: "(nat \<times> nat \<times> 'o) list"
  leases :: "nat list"
  staged :: "(nat \<times> nat \<times> 's) list"
  stage_out :: "(nat \<times> 'q) list"
  closed :: bool

definition pipe_new :: "('o, 's, 'q) pipe" where
  "pipe_new = \<lparr>budget = budget_new, running = [], channel = [], results = [], leases = [], staged = [],
     stage_out = [], closed = False\<rparr>"

definition remove_nth :: "nat \<Rightarrow> 'a list \<Rightarrow> 'a list" where
  "remove_nth i xs = take i xs @ drop (Suc i) xs"

definition start_job :: "limits \<Rightarrow> 't job list \<Rightarrow> ('o, 's, 'q) pipe \<Rightarrow> ('o, 's, 'q) pipe option" where
  "start_job lim jobs s =
     (case budget_next lim jobs (budget s) of
        (Next i, b) \<Rightarrow> Some (s\<lparr>budget := b, running := running s @ [i]\<rparr>)
      | _ \<Rightarrow> None)"

text \<open>\<open>execute_job\<close> for the \<open>n\<close>-th running job; a send fails once the consumer is gone.\<close>

definition execute_job ::
  "'t job list \<Rightarrow> ('t \<Rightarrow> 'o) \<Rightarrow> ('o \<Rightarrow> nat) \<Rightarrow> nat \<Rightarrow> ('o, 's, 'q) pipe \<Rightarrow> ('o, 's, 'q) pipe" where
  "execute_job jobs execute retained_size n s =
     (let job = jobs ! (running s ! n);
          value = execute (payload job);
          retained = min (retained_size value) (reservation job);
          b = budget_complete (reservation job) retained (budget s);
          s = s\<lparr>running := remove_nth n (running s)\<rparr>
      in if \<not> closed s then s\<lparr>budget := b, channel := channel s @ [(job_key job, retained, value)]\<rparr>
         else s\<lparr>budget := budget_retire retained b\<rparr>)"

definition receive :: "('o, 's, 'q) pipe \<Rightarrow> ('o, 's, 'q) pipe option" where
  "receive s = (case channel s of [] \<Rightarrow> None
     | m # ms \<Rightarrow> Some (s\<lparr>channel := ms, results := filter (\<lambda>r. fst r \<noteq> fst m) (results s) @ [m]\<rparr>))"

definition lookup :: "nat \<Rightarrow> ('o, 's, 'q) pipe \<Rightarrow> (nat \<times> 'o) option" where
  "lookup key s = map_of (results s) key"

text \<open>\<open>OrderedResults::take\<close> once the key is there, \<open>discard_before\<close>, and the staged variant.\<close>

definition take_result :: "nat \<Rightarrow> ('o, 's, 'q) pipe \<Rightarrow> ('o \<times> ('o, 's, 'q) pipe) option" where
  "take_result key s = (case lookup key s of None \<Rightarrow> None
     | Some (retained, value) \<Rightarrow>
         Some (value, s\<lparr>results := filter (\<lambda>r. fst r \<noteq> key) (results s),
           budget := budget_retire retained (budget s)\<rparr>))"

definition discard_before :: "nat \<Rightarrow> ('o, 's, 'q) pipe \<Rightarrow> ('o, 's, 'q) pipe" where
  "discard_before key s =
     s\<lparr>results := filter (\<lambda>r. key \<le> fst r) (results s),
       budget := foldl (\<lambda>b r. budget_retire (fst (snd r)) b) (budget s) (filter (\<lambda>r. fst r < key) (results s))\<rparr>"

definition take_primary :: "nat \<Rightarrow> ('o, 's, 'q) pipe \<Rightarrow> ((nat \<times> 'o) \<times> ('o, 's, 'q) pipe) option" where
  "take_primary key s = (case lookup key s of None \<Rightarrow> None
     | Some (retained, value) \<Rightarrow>
         Some ((retained, value), s\<lparr>results := filter (\<lambda>r. fst r \<noteq> key) (results s),
           leases := leases s @ [retained]\<rparr>))"

definition retire_lease :: "nat \<Rightarrow> ('o, 's, 'q) pipe \<Rightarrow> ('o, 's, 'q) pipe" where
  "retire_lease n s =
     s\<lparr>leases := remove_nth n (leases s), budget := budget_retire (leases s ! n) (budget s)\<rparr>"

definition submit_stage :: "nat \<Rightarrow> nat \<Rightarrow> 's \<Rightarrow> ('o, 's, 'q) pipe \<Rightarrow> ('o, 's, 'q) pipe" where
  "submit_stage key n work s =
     s\<lparr>leases := remove_nth n (leases s), staged := staged s @ [(key, leases s ! n, work)]\<rparr>"

definition run_stage :: "('s \<Rightarrow> 'q) \<Rightarrow> ('o, 's, 'q) pipe \<Rightarrow> ('o, 's, 'q) pipe option" where
  "run_stage execute_stage s = (case staged s of [] \<Rightarrow> None
     | (key, retained, work) # rest \<Rightarrow>
         Some (s\<lparr>staged := rest, budget := budget_retire retained (budget s),
           stage_out := stage_out s @ [(key, execute_stage work)]\<rparr>))"

text \<open>The consumer returns: its end of the channel and its received results are dropped.\<close>

definition close :: "('o, 's, 'q) pipe \<Rightarrow> ('o, 's, 'q) pipe" where
  "close s = s\<lparr>channel := [], results := [], budget := budget_cancel (budget s), closed := True\<rparr>"

inductive pipe_step ::
  "limits \<Rightarrow> 't job list \<Rightarrow> ('t \<Rightarrow> 'o) \<Rightarrow> ('o \<Rightarrow> nat) \<Rightarrow> ('s \<Rightarrow> 'q) \<Rightarrow>
   ('o, 's, 'q) pipe \<Rightarrow> ('o, 's, 'q) pipe \<Rightarrow> bool"
  for lim jobs execute retained_size execute_stage where
  start: "start_job lim jobs s = Some s' \<Longrightarrow> pipe_step lim jobs execute retained_size execute_stage s s'"
| finish: "n < length (running s) \<Longrightarrow>
    pipe_step lim jobs execute retained_size execute_stage s (execute_job jobs execute retained_size n s)"
| receive: "receive s = Some s' \<Longrightarrow> pipe_step lim jobs execute retained_size execute_stage s s'"
| take: "take_result key s = Some (value, s') \<Longrightarrow> pipe_step lim jobs execute retained_size execute_stage s s'"
| discard: "pipe_step lim jobs execute retained_size execute_stage s (discard_before key s)"
| primary: "take_primary key s = Some (r, s') \<Longrightarrow> pipe_step lim jobs execute retained_size execute_stage s s'"
| retire: "n < length (leases s) \<Longrightarrow> pipe_step lim jobs execute retained_size execute_stage s (retire_lease n s)"
| submit: "n < length (leases s) \<Longrightarrow>
    pipe_step lim jobs execute retained_size execute_stage s (submit_stage key n work s)"
| stage: "run_stage execute_stage s = Some s' \<Longrightarrow> pipe_step lim jobs execute retained_size execute_stage s s'"
| close: "\<not> closed s \<Longrightarrow> pipe_step lim jobs execute retained_size execute_stage s (close s)"

inductive pipe_reachable ::
  "limits \<Rightarrow> 't job list \<Rightarrow> ('t \<Rightarrow> 'o) \<Rightarrow> ('o \<Rightarrow> nat) \<Rightarrow> ('s \<Rightarrow> 'q) \<Rightarrow> ('o, 's, 'q) pipe \<Rightarrow> bool"
  for lim jobs execute retained_size execute_stage where
  init: "pipe_reachable lim jobs execute retained_size execute_stage pipe_new"
| step: "pipe_reachable lim jobs execute retained_size execute_stage s \<Longrightarrow>
    pipe_step lim jobs execute retained_size execute_stage s s' \<Longrightarrow>
    pipe_reachable lim jobs execute retained_size execute_stage s'"

section \<open>Accounting\<close>

text \<open>Everything that holds a share of the budget.\<close>

definition shares :: "'t job list \<Rightarrow> ('o, 's, 'q) pipe \<Rightarrow> nat list" where
  "shares jobs s = map (\<lambda>i. reservation (jobs ! i)) (running s) @ map (fst \<circ> snd) (channel s) @
     map (fst \<circ> snd) (results s) @ leases s @ map (fst \<circ> snd) (staged s)"

definition accounted :: "limits \<Rightarrow> 't job list \<Rightarrow> ('o, 's, 'q) pipe \<Rightarrow> bool" where
  "accounted lim jobs s \<longleftrightarrow>
     b_reserved (budget s) \<le> memory_limit lim \<and> b_active (budget s) \<le> active_limit lim \<and>
     sum_list (shares jobs s) \<le> b_reserved (budget s) \<and> length (shares jobs s) \<le> b_active (budget s) \<and>
     (\<not> closed s \<longrightarrow> sum_list (shares jobs s) = b_reserved (budget s) \<and>
        length (shares jobs s) = b_active (budget s))"

text \<open>Results belong to their jobs, and keys that are in flight are distinct.\<close>

definition in_flight :: "'t job list \<Rightarrow> ('o, 's, 'q) pipe \<Rightarrow> nat list" where
  "in_flight jobs s = map (\<lambda>i. job_key (jobs ! i)) (running s) @ map fst (channel s) @ map fst (results s)"

definition from_job :: "'t job list \<Rightarrow> ('t \<Rightarrow> 'o) \<Rightarrow> nat \<Rightarrow> nat \<times> nat \<times> 'o \<Rightarrow> bool" where
  "from_job jobs execute n m \<longleftrightarrow>
     (\<exists>i < n. fst m = job_key (jobs ! i) \<and> snd (snd m) = execute (payload (jobs ! i)))"

definition attributed :: "'t job list \<Rightarrow> ('t \<Rightarrow> 'o) \<Rightarrow> ('o, 's, 'q) pipe \<Rightarrow> bool" where
  "attributed jobs execute s \<longleftrightarrow>
     (\<forall>i \<in> set (running s). i < b_next (budget s)) \<and> b_next (budget s) \<le> length jobs \<and>
     (\<forall>m \<in> set (channel s) \<union> set (results s). from_job jobs execute (b_next (budget s)) m) \<and>
     distinct (in_flight jobs s)"

lemma length_remove_nth: "n < length xs \<Longrightarrow> length (remove_nth n xs) = length xs - 1"
  by (simp add: remove_nth_def)

lemma remove_nth_sum:
  fixes f :: "'a \<Rightarrow> nat"
  assumes "n < length xs"
  shows "sum_list (map f xs) = f (xs ! n) + sum_list (map f (remove_nth n xs))"
proof -
  have "map f xs = map f (take n xs @ xs ! n # drop (Suc n) xs)"
    using id_take_nth_drop [OF assms] by simp
  then show ?thesis by (simp add: remove_nth_def)
qed

lemma set_remove_nth: "set (remove_nth n xs) \<subseteq> set xs"
  by (auto simp: remove_nth_def dest: in_set_takeD in_set_dropD)

lemma map_remove_nth: "map f (remove_nth n xs) = remove_nth n (map f xs)"
  by (simp add: remove_nth_def take_map drop_map)

lemma distinct_remove_nth:
  assumes "distinct (xs @ ys)" and "n < length xs"
  shows "distinct (remove_nth n xs @ ys)" and "xs ! n \<notin> set (remove_nth n xs @ ys)"
proof -
  have "xs = take n xs @ xs ! n # drop (Suc n) xs" using id_take_nth_drop [OF assms(2)] .
  then have "distinct (take n xs @ xs ! n # drop (Suc n) xs @ ys)" using assms(1) by (metis append.assoc append_Cons)
  then show "distinct (remove_nth n xs @ ys)" and "xs ! n \<notin> set (remove_nth n xs @ ys)"
    by (auto simp: remove_nth_def)
qed

lemma filter_lookup_split:
  assumes "map_of xs k = Some v" and "distinct (map fst xs)"
  shows "\<exists>ys zs. xs = ys @ (k, v) # zs \<and> filter (\<lambda>r. fst r \<noteq> k) xs = ys @ zs"
proof -
  from map_of_SomeD [OF assms(1)] obtain ys zs where xs: "xs = ys @ (k, v) # zs"
    by (meson split_list)
  then have "\<forall>r \<in> set (ys @ zs). fst r \<noteq> k" using assms(2) by force
  then have "filter (\<lambda>r. fst r \<noteq> k) xs = ys @ zs" using xs by (auto simp: filter_id_conv)
  then show ?thesis using xs by blast
qed

lemma filter_sum:
  fixes f :: "'a \<Rightarrow> nat"
  shows "sum_list (map f xs) = sum_list (map f (filter P xs)) + sum_list (map f (filter (\<lambda>x. \<not> P x) xs))"
  by (induction xs) auto

lemma retire_fold:
  "foldl (\<lambda>b r. budget_retire (f r) b) b xs =
     b\<lparr>b_reserved := b_reserved b - sum_list (map f xs), b_active := b_active b - length xs\<rparr>"
  by (induction xs arbitrary: b) (simp_all add: budget_retire_def)

text \<open>Every step keeps the accounting and the attribution.\<close>

definition pipe_inv :: "limits \<Rightarrow> 't job list \<Rightarrow> ('t \<Rightarrow> 'o) \<Rightarrow> ('o, 's, 'q) pipe \<Rightarrow> bool" where
  "pipe_inv lim jobs execute s \<longleftrightarrow> accounted lim jobs s \<and> attributed jobs execute s"

lemma pipe_inv_new: "pipe_inv lim jobs execute pipe_new"
  by (simp add: pipe_inv_def accounted_def attributed_def shares_def in_flight_def pipe_new_def budget_new_def)

lemma accounted_step:
  assumes st: "pipe_step lim jobs execute retained_size execute_stage s s'" and acc: "accounted lim jobs s"
    and d: "distinct (map fst (results s))" "distinct (map fst (channel s))"
      "fst ` set (channel s) \<inter> fst ` set (results s) = {}" and small: "memory_limit lim \<le> usize_max"
  shows "accounted lim jobs s'"
  using st
proof cases
  case start
  then show ?thesis using acc
    by (auto simp: start_job_def budget_next_def claim_def Let_def accounted_def shares_def
        split: prod.splits claimed.splits if_splits)
next
  case (finish n)
  let ?r = "reservation (jobs ! (running s ! n))"
  have "sum_list (map (\<lambda>i. reservation (jobs ! i)) (running s)) =
      ?r + sum_list (map (\<lambda>i. reservation (jobs ! i)) (remove_nth n (running s)))"
    using finish(2) by (rule remove_nth_sum)
  moreover have "length (running s) = Suc (length (remove_nth n (running s)))"
    using finish(2) by (simp add: length_remove_nth)
  moreover define ret where "ret = min (retained_size (execute (payload (jobs ! (running s ! n))))) ?r"
  moreover have "?r \<le> b_reserved (budget s)"
    using acc calculation(1) by (simp add: accounted_def shares_def)
  moreover have ret: "ret \<le> ?r" by (simp add: ret_def)
  moreover have "sat_add (b_reserved (budget s) - ?r) (min ret ?r) = b_reserved (budget s) - ?r + ret"
  proof -
    have "b_reserved (budget s) - ?r + ret \<le> usize_max"
      using acc small calculation(4) ret unfolding accounted_def by linarith
    then show ?thesis using ret by (simp add: sat_add_def min_def)
  qed
  ultimately show ?thesis using acc unfolding finish(1) execute_job_def Let_def ret_def [symmetric]
    by (cases "closed s")
      (simp add: accounted_def shares_def budget_complete_def budget_retire_def,
        (elim conjE, intro conjI; linarith))+
next
  case receive
  then obtain m ms where m: "channel s = m # ms"
    and s': "s' = s\<lparr>channel := ms, results := filter (\<lambda>r. fst r \<noteq> fst m) (results s) @ [m]\<rparr>"
    by (auto simp: receive_def split: list.splits)
  have "fst m \<notin> fst ` set (results s)" using d(3) m by auto
  then have "filter (\<lambda>r. fst r \<noteq> fst m) (results s) = results s" by (intro filter_True) (metis image_eqI)
  then show ?thesis using acc m by (auto simp: s' accounted_def shares_def)
next
  case (take key v)
  then obtain r where r: "map_of (results s) key = Some (r, v)"
    and s': "s' = s\<lparr>results := filter (\<lambda>r. fst r \<noteq> key) (results s), budget := budget_retire r (budget s)\<rparr>"
    by (auto simp: take_result_def lookup_def split: option.splits)
  obtain ys zs where "results s = ys @ (key, r, v) # zs" "filter (\<lambda>r. fst r \<noteq> key) (results s) = ys @ zs"
    using filter_lookup_split [OF r d(1)] by blast
  then show ?thesis using acc unfolding s'
    by (auto simp: accounted_def shares_def budget_retire_def)
next
  case (discard key)
  let ?f = "\<lambda>r :: nat \<times> nat \<times> 'b. fst (snd r)"
  have "sum_list (map ?f (results s)) = sum_list (map ?f (filter (\<lambda>r. key \<le> fst r) (results s))) +
      sum_list (map ?f (filter (\<lambda>r. fst r < key) (results s)))"
    using filter_sum [of ?f "results s" "\<lambda>r. key \<le> fst r"] by (simp add: not_le)
  moreover have "length (results s) = length (filter (\<lambda>r. key \<le> fst r) (results s)) +
      length (filter (\<lambda>r. fst r < key) (results s))"
    using sum_length_filter_compl [of "\<lambda>r. key \<le> fst r" "results s"] by (simp add: not_le)
  ultimately show ?thesis using acc unfolding discard
    by (auto simp: accounted_def shares_def discard_before_def retire_fold comp_def)
next
  case (primary key r)
  then obtain r v where r: "map_of (results s) key = Some (r, v)"
    and s': "s' = s\<lparr>results := filter (\<lambda>r. fst r \<noteq> key) (results s), leases := leases s @ [r]\<rparr>"
    by (auto simp: take_primary_def lookup_def split: option.splits)
  obtain ys zs where "results s = ys @ (key, r, v) # zs" "filter (\<lambda>r. fst r \<noteq> key) (results s) = ys @ zs"
    using filter_lookup_split [OF r d(1)] by blast
  then show ?thesis using acc unfolding s'
    by (auto simp: accounted_def shares_def)
next
  case (retire n)
  then have "sum_list (leases s) = leases s ! n + sum_list (remove_nth n (leases s))"
    and "length (leases s) = Suc (length (remove_nth n (leases s)))"
    using remove_nth_sum [of n "leases s" id] by (simp_all add: length_remove_nth)
  then show ?thesis using acc unfolding retire(1)
    by (auto simp: accounted_def shares_def retire_lease_def budget_retire_def)
next
  case (submit n key work)
  then have "sum_list (leases s) = leases s ! n + sum_list (remove_nth n (leases s))"
    and "length (leases s) = Suc (length (remove_nth n (leases s)))"
    using remove_nth_sum [of n "leases s" id] by (simp_all add: length_remove_nth)
  then show ?thesis using acc unfolding submit(1)
    by (auto simp: accounted_def shares_def submit_stage_def)
next
  case stage
  then show ?thesis using acc
    by (auto simp: run_stage_def accounted_def shares_def budget_retire_def split: list.splits prod.splits)
next
  case close
  then show ?thesis using acc by (auto simp: close_def accounted_def shares_def budget_cancel_def)
qed

lemma in_flight_keys:
  assumes "attributed jobs execute s" and "k \<in> set (in_flight jobs s)"
  shows "\<exists>i < b_next (budget s). k = job_key (jobs ! i)"
proof -
  have at: "\<exists>i < b_next (budget s). fst m = job_key (jobs ! i)" if "m \<in> set (channel s) \<union> set (results s)" for m
    using assms(1) that unfolding attributed_def from_job_def by blast
  from assms(2) consider i where "i \<in> set (running s)" "k = job_key (jobs ! i)"
    | m where "m \<in> set (channel s) \<union> set (results s)" "k = fst m"
    by (auto simp: in_flight_def)
  then show ?thesis
  proof cases
    case 2
    then show ?thesis using at by blast
  qed (use assms(1) in \<open>auto simp: attributed_def\<close>)
qed

lemma attributed_filter:
  assumes "attributed jobs execute s" and "running s' = running s" and "channel s' = channel s"
    and "b_next (budget s') = b_next (budget s)" and "results s' = filter P (results s)"
  shows "attributed jobs execute s'"
proof -
  have "set (map fst (filter P (results s))) \<subseteq> set (map fst (results s))" by auto
  moreover have "distinct (in_flight jobs s)" using assms(1) by (simp add: attributed_def)
  ultimately have "distinct (in_flight jobs s')"
    unfolding in_flight_def assms(2,3,5) distinct_append set_append
    using distinct_map_filter [of fst "results s" P] by blast
  then show ?thesis using assms by (auto simp: attributed_def)
qed

lemma attributed_step:
  assumes st: "pipe_step lim jobs execute retained_size execute_stage s s'"
    and att: "attributed jobs execute s" and keys: "distinct (map job_key jobs)"
  shows "attributed jobs execute s'"
  using st
proof cases
  case start
  then have nx: "b_next (budget s) < length jobs" "b_next (budget s') = Suc (b_next (budget s))"
      "running s' = running s @ [b_next (budget s)]" "channel s' = channel s" "results s' = results s"
    by (auto simp: start_job_def budget_next_def claim_def Let_def split: prod.splits claimed.splits if_splits)
  have fresh: "job_key (jobs ! b_next (budget s)) \<noteq> job_key (jobs ! i)" if "i < b_next (budget s)" for i
    using keys nx(1) that by (auto simp: distinct_conv_nth)
  then have "job_key (jobs ! b_next (budget s)) \<notin> set (in_flight jobs s)"
    using in_flight_keys [OF att] by blast
  moreover have "distinct (in_flight jobs s)" using att by (simp add: attributed_def)
  ultimately have "distinct (in_flight jobs s')" by (simp add: in_flight_def nx)
  moreover have "\<forall>m \<in> set (channel s) \<union> set (results s). from_job jobs execute (Suc (b_next (budget s))) m"
    using att less_SucI unfolding attributed_def from_job_def by blast
  ultimately show ?thesis using att nx by (auto simp: attributed_def less_SucI)
next
  case (finish n)
  let ?i = "running s ! n"
  have i: "?i < b_next (budget s)" using att finish(2) by (simp add: attributed_def)
  have "distinct (map (\<lambda>i. job_key (jobs ! i)) (running s) @ (map fst (channel s) @ map fst (results s)))"
    using att by (simp add: attributed_def in_flight_def)
  note dr = distinct_remove_nth [OF this, of n]
  have sub: "set (remove_nth n (running s)) \<subseteq> set (running s)" by (rule set_remove_nth)
  have fj: "from_job jobs execute (b_next (budget s)) (job_key (jobs ! ?i), r, execute (payload (jobs ! ?i)))" for r
    using i by (auto simp: from_job_def)
  show ?thesis using att finish(2) dr i sub fj unfolding finish(1)
    by (cases "closed s") (auto simp: execute_job_def Let_def attributed_def in_flight_def budget_complete_def
        budget_retire_def map_remove_nth)
next
  case receive
  then obtain m ms where m: "channel s = m # ms"
    and s': "s' = s\<lparr>channel := ms, results := filter (\<lambda>r. fst r \<noteq> fst m) (results s) @ [m]\<rparr>"
    by (auto simp: receive_def split: list.splits)
  have "fst m \<notin> fst ` set (results s)" using att m by (auto simp: attributed_def in_flight_def)
  then have "filter (\<lambda>r. fst r \<noteq> fst m) (results s) = results s" by (intro filter_True) (metis image_eqI)
  then show ?thesis using att m by (auto simp: s' attributed_def in_flight_def)
next
  case (take key v)
  then obtain r where "s' = s\<lparr>results := filter (\<lambda>r. fst r \<noteq> key) (results s), budget := budget_retire r (budget s)\<rparr>"
    by (auto simp: take_result_def split: option.splits)
  then show ?thesis by (intro attributed_filter [OF att]) (auto simp: budget_retire_def)
next
  case (discard key)
  then show ?thesis by (intro attributed_filter [OF att]) (auto simp: discard_before_def retire_fold)
next
  case (primary key r)
  then obtain r where "s' = s\<lparr>results := filter (\<lambda>r. fst r \<noteq> key) (results s), leases := leases s @ [r]\<rparr>"
    by (auto simp: take_primary_def split: option.splits)
  then show ?thesis by (intro attributed_filter [OF att]) auto
next
  case (retire n)
  then show ?thesis using att by (auto simp: retire_lease_def attributed_def in_flight_def budget_retire_def)
next
  case (submit n key work)
  then show ?thesis using att by (auto simp: submit_stage_def attributed_def in_flight_def)
next
  case stage
  then have "running s' = running s" "channel s' = channel s" "b_next (budget s') = b_next (budget s)"
      "results s' = results s"
    by (auto simp: run_stage_def budget_retire_def split: list.splits)
  then show ?thesis using att by (simp add: attributed_def in_flight_def)
next
  case close
  then show ?thesis using att by (auto simp: close_def attributed_def in_flight_def budget_cancel_def)
qed

lemma pipe_reachable_inv:
  assumes "pipe_reachable lim jobs execute retained_size execute_stage s"
    and "distinct (map job_key jobs)" and "memory_limit lim \<le> usize_max"
  shows "pipe_inv lim jobs execute s"
  using assms
proof (induction rule: pipe_reachable.induct)
  case init
  show ?case by (rule pipe_inv_new)
next
  case (step s s')
  then have inv: "accounted lim jobs s" "attributed jobs execute s" by (auto simp: pipe_inv_def)
  have "distinct (map fst (channel s) @ map fst (results s))"
    using inv(2) by (simp add: attributed_def in_flight_def)
  then show ?case
    using accounted_step [OF step(2) inv(1)] attributed_step [OF step(2) inv(2)] step(4,5)
    by (auto simp: pipe_inv_def)
qed

section \<open>A consumer that takes every result in order\<close>

text \<open>
  The consumers of \<open>lz4.rs\<close> and \<open>zip.rs\<close> call \<open>take\<close> for the keys of the jobs, one after the other.
  A state is the list of values taken so far and the pipe; the workers of the pool claim jobs, run them
  and send what they computed, and the consumer receives a message only while the result it waits for
  is missing. The consumer is still there, so nobody closes or cancels.
\<close>

inductive ordered_step ::
  "nat \<Rightarrow> limits \<Rightarrow> 't job list \<Rightarrow> ('t \<Rightarrow> 'o) \<Rightarrow> ('o \<Rightarrow> nat) \<Rightarrow>
   'o list \<times> ('o, 's, 'q) pipe \<Rightarrow> 'o list \<times> ('o, 's, 'q) pipe \<Rightarrow> bool"
  for workers lim jobs execute retained_size where
  start: "length (running s) < workers \<Longrightarrow> start_job lim jobs s = Some s' \<Longrightarrow>
    ordered_step workers lim jobs execute retained_size (out, s) (out, s')"
| finish: "n < length (running s) \<Longrightarrow>
    ordered_step workers lim jobs execute retained_size (out, s) (out, execute_job jobs execute retained_size n s)"
| receive: "length out < length jobs \<Longrightarrow> lookup (job_key (jobs ! length out)) s = None \<Longrightarrow> receive s = Some s' \<Longrightarrow>
    ordered_step workers lim jobs execute retained_size (out, s) (out, s')"
| take: "length out < length jobs \<Longrightarrow> take_result (job_key (jobs ! length out)) s = Some (v, s') \<Longrightarrow>
    ordered_step workers lim jobs execute retained_size (out, s) (out @ [v], s')"

text \<open>
  No result is lost and none is stale: what is in flight is the claimed jobs that were not taken yet.
  Every job is started, finished, received and taken; \<open>remaining\<close> is how many of these steps are left.
\<close>

definition ordered_inv :: "limits \<Rightarrow> 't job list \<Rightarrow> ('t \<Rightarrow> 'o) \<Rightarrow> 'o list \<Rightarrow> ('o, 's, 'q) pipe \<Rightarrow> bool" where
  "ordered_inv lim jobs execute out s \<longleftrightarrow> pipe_inv lim jobs execute s \<and>
     leases s = [] \<and> staged s = [] \<and> \<not> closed s \<and> \<not> b_cancelled (budget s) \<and>
     length out \<le> b_next (budget s) \<and>
     set (in_flight jobs s) = (\<lambda>i. job_key (jobs ! i)) ` {length out..<b_next (budget s)} \<and>
     out = map (\<lambda>j. execute (payload j)) (take (length out) jobs)"

definition remaining :: "'t job list \<Rightarrow> ('o, 's, 'q) pipe \<Rightarrow> nat" where
  "remaining jobs s = 4 * (length jobs - b_next (budget s)) + 3 * length (running s) +
     2 * length (channel s) + length (results s)"

lemma start_job_Some_iff:
  "start_job lim jobs s \<noteq> None \<longleftrightarrow> \<not> b_cancelled (budget s) \<and> b_next (budget s) < length jobs \<and>
     b_active (budget s) < active_limit lim \<and>
     reservation (jobs ! b_next (budget s)) \<le> memory_limit lim - b_reserved (budget s)"
  by (auto simp: start_job_def budget_next_def claim_def Let_def split: prod.splits claimed.splits if_splits)

lemma start_job_Some:
  assumes "start_job lim jobs s = Some s'"
  shows "b_next (budget s) < length jobs" and "running s' = running s @ [b_next (budget s)]"
    and "budget s' = snd (claim jobs (budget s))"
    and "channel s' = channel s" and "results s' = results s" and "leases s' = leases s"
    and "staged s' = staged s" and "closed s' = closed s"
  using assms by (auto simp: start_job_def budget_next_def claim_def Let_def split: prod.splits claimed.splits if_splits)

lemma ordered_step_pipe:
  "ordered_step workers lim jobs execute retained_size (out, s) (out', s') \<Longrightarrow>
   pipe_step lim jobs execute retained_size execute_stage s s'"
  by (cases rule: ordered_step.cases) (auto intro: pipe_step.intros)

lemma pipe_inv_step:
  assumes "pipe_step lim jobs execute retained_size execute_stage s s'" and "pipe_inv lim jobs execute s"
    and "distinct (map job_key jobs)" and "memory_limit lim \<le> usize_max"
  shows "pipe_inv lim jobs execute s'"
proof -
  have inv: "accounted lim jobs s" "attributed jobs execute s" using assms(2) by (auto simp: pipe_inv_def)
  have "distinct (map fst (channel s) @ map fst (results s))"
    using inv(2) by (simp add: attributed_def in_flight_def)
  then show ?thesis
    using accounted_step [OF assms(1) inv(1)] attributed_step [OF assms(1) inv(2)] assms(3,4)
    by (auto simp: pipe_inv_def)
qed

lemma remove_nth_elements: "n < length xs \<Longrightarrow> insert (xs ! n) (set (remove_nth n xs)) = set xs"
  using arg_cong [OF id_take_nth_drop [of n xs], of set] by (auto simp: remove_nth_def)

lemma receive_Some:
  assumes "receive s = Some s'" and "attributed jobs execute s"
  obtains m where "channel s = m # channel s'" and "results s' = results s @ [m]" and "running s' = running s"
    and "budget s' = budget s" and "leases s' = leases s" and "staged s' = staged s" and "closed s' = closed s"
proof -
  obtain m ms where m: "channel s = m # ms"
    and s': "s' = s\<lparr>channel := ms, results := filter (\<lambda>r. fst r \<noteq> fst m) (results s) @ [m]\<rparr>"
    using assms(1) by (auto simp: receive_def split: list.splits)
  have "fst m \<notin> fst ` set (results s)" using assms(2) m by (auto simp: attributed_def in_flight_def)
  then have "filter (\<lambda>r. fst r \<noteq> fst m) (results s) = results s" by (intro filter_True) (metis image_eqI)
  then show ?thesis using m by (intro that [of m]) (simp_all add: s')
qed

lemma take_result_Some:
  assumes "take_result key s = Some (v, s')" and "attributed jobs execute s"
  obtains r ys zs where "results s = ys @ (key, r, v) # zs" and "results s' = ys @ zs" and "running s' = running s"
    and "channel s' = channel s" and "budget s' = budget_retire r (budget s)"
    and "leases s' = leases s" and "staged s' = staged s" and "closed s' = closed s"
proof -
  obtain r where r: "map_of (results s) key = Some (r, v)"
    and s': "s' = s\<lparr>results := filter (\<lambda>r. fst r \<noteq> key) (results s), budget := budget_retire r (budget s)\<rparr>"
    using assms(1) by (auto simp: take_result_def lookup_def split: option.splits)
  have "distinct (map fst (results s))" using assms(2) by (simp add: attributed_def in_flight_def)
  from filter_lookup_split [OF r this] obtain ys zs where
    "results s = ys @ (key, r, v) # zs" "filter (\<lambda>r. fst r \<noteq> key) (results s) = ys @ zs" by blast
  then show ?thesis by (intro that [of ys r zs]) (simp_all add: s')
qed

text \<open>Each step is one of the steps that remain.\<close>

lemma remaining_step:
  assumes st: "ordered_step workers lim jobs execute retained_size (out, s) (out', s')"
    and inv: "ordered_inv lim jobs execute out s"
  shows "Suc (remaining jobs s') = remaining jobs s"
proof -
  have att: "attributed jobs execute s" and op: "\<not> closed s" using inv by (auto simp: ordered_inv_def pipe_inv_def)
  show ?thesis using st
  proof cases
    case start
    then show ?thesis using start_job_Some [OF start(3)] by (simp add: remaining_def claim_def)
  next
    case (finish n)
    then have "length (running s) = Suc (length (remove_nth n (running s)))" by (simp add: length_remove_nth)
    then show ?thesis using op unfolding finish(2)
      by (simp add: execute_job_def Let_def remaining_def budget_complete_def)
  next
    case receive
    obtain m where "channel s = m # channel s'" "results s' = results s @ [m]" "running s' = running s" "budget s' = budget s"
      by (rule receive_Some [OF receive(4) att])
    then show ?thesis by (simp add: remaining_def)
  next
    case (take v)
    obtain r ys zs where "results s = ys @ (job_key (jobs ! length out), r, v) # zs" "results s' = ys @ zs"
      "running s' = running s" "channel s' = channel s" "budget s' = budget_retire r (budget s)"
      by (rule take_result_Some [OF take(3) att])
    then show ?thesis by (simp add: remaining_def budget_retire_def)
  qed
qed

lemma same_key:
  assumes "distinct (map job_key jobs)" and "job_key (jobs ! i) = job_key (jobs ! k)"
    and "i < length jobs" and "k < length jobs"
  shows "i = k"
  using nth_eq_iff_index_eq [OF assms(1), of i k] assms(2-4) by simp

lemma in_flight_pos:
  assumes "ordered_inv lim jobs execute out s" and "distinct (map job_key jobs)" and "length out < length jobs"
    and "job_key (jobs ! length out) \<in> set (in_flight jobs s)"
  shows "length out < b_next (budget s)"
proof -
  obtain i where i: "length out \<le> i" "i < b_next (budget s)" "job_key (jobs ! length out) = job_key (jobs ! i)"
    using assms(1,4) by (auto simp: ordered_inv_def)
  have b: "b_next (budget s) \<le> length jobs" using assms(1) by (simp add: ordered_inv_def pipe_inv_def attributed_def)
  have "i = length out" by (rule same_key [OF assms(2) i(3) [symmetric]]) (use i(2) b assms(3) in linarith)+
  then show ?thesis using i(2) by simp
qed

lemma ordered_inv_start:
  assumes inv: "ordered_inv lim jobs execute out s" and st: "start_job lim jobs s = Some s'"
    and pipe: "pipe_inv lim jobs execute s'"
  shows "ordered_inv lim jobs execute out s'"
proof -
  note eq = start_job_Some [OF st]
  have "set (in_flight jobs s') = insert (job_key (jobs ! b_next (budget s))) (set (in_flight jobs s))"
    by (auto simp: in_flight_def eq)
  also have "\<dots> = (\<lambda>i. job_key (jobs ! i)) ` insert (b_next (budget s)) {length out..<b_next (budget s)}"
    using inv by (simp add: ordered_inv_def)
  also have "insert (b_next (budget s)) {length out..<b_next (budget s)} = {length out..<Suc (b_next (budget s))}"
    using inv by (auto simp: ordered_inv_def)
  finally show ?thesis using inv pipe by (simp add: ordered_inv_def eq claim_def)
qed

lemma ordered_inv_finish:
  assumes inv: "ordered_inv lim jobs execute out s" and n: "n < length (running s)"
    and pipe: "pipe_inv lim jobs execute (execute_job jobs execute retained_size n s)"
  shows "ordered_inv lim jobs execute out (execute_job jobs execute retained_size n s)"
proof -
  have "set (in_flight jobs (execute_job jobs execute retained_size n s)) = set (in_flight jobs s)"
    using inv unfolding in_flight_def set_append set_map remove_nth_elements [OF n, symmetric]
    by (auto simp: ordered_inv_def execute_job_def Let_def)
  then show ?thesis using inv pipe
    by (auto simp: ordered_inv_def execute_job_def Let_def budget_complete_def)
qed

lemma ordered_inv_receive:
  assumes inv: "ordered_inv lim jobs execute out s" and st: "receive s = Some s'"
    and pipe: "pipe_inv lim jobs execute s'"
  shows "ordered_inv lim jobs execute out s'"
proof -
  have "attributed jobs execute s" using inv by (simp add: ordered_inv_def pipe_inv_def)
  with st obtain m where eq: "channel s = m # channel s'" "results s' = results s @ [m]" "running s' = running s"
    "budget s' = budget s" "leases s' = leases s" "staged s' = staged s" "closed s' = closed s"
    by (rule receive_Some)
  then have "set (in_flight jobs s') = set (in_flight jobs s)" by (auto simp: in_flight_def)
  then show ?thesis using inv pipe eq by (simp add: ordered_inv_def)
qed

lemma ordered_inv_take:
  assumes inv: "ordered_inv lim jobs execute out s" and keys: "distinct (map job_key jobs)"
    and less: "length out < length jobs" and st: "take_result (job_key (jobs ! length out)) s = Some (v, s')"
    and pipe: "pipe_inv lim jobs execute s'"
  shows "ordered_inv lim jobs execute (out @ [v]) s'"
proof -
  let ?k = "job_key (jobs ! length out)" and ?b = "b_next (budget s)"
  have att: "attributed jobs execute s" using inv by (simp add: ordered_inv_def pipe_inv_def)
  obtain r ys zs where eq: "results s = ys @ (?k, r, v) # zs" "results s' = ys @ zs" "running s' = running s"
    "channel s' = channel s" "budget s' = budget_retire r (budget s)" "leases s' = leases s" "staged s' = staged s"
    "closed s' = closed s"
    by (rule take_result_Some [OF st att])
  have "length out < ?b"
    by (rule in_flight_pos [OF inv keys less]) (simp add: in_flight_def eq)
  have b: "?b \<le> length jobs" using att by (simp add: attributed_def)
  have "from_job jobs execute ?b (?k, r, v)" using att eq(1) by (simp add: attributed_def)
  then obtain i where i: "i < ?b" "?k = job_key (jobs ! i)" "v = execute (payload (jobs ! i))"
    unfolding from_job_def by (metis fst_conv snd_conv)
  have "i = length out" by (rule same_key [OF keys i(2) [symmetric]]) (use i(1) b less in linarith)+
  then have v: "v = execute (payload (jobs ! length out))" using i(3) by simp
  have "distinct (in_flight jobs s)" using att by (simp add: attributed_def)
  then have "set (in_flight jobs s') = set (in_flight jobs s) - {?k}"
    by (auto simp: in_flight_def eq)
  also have "\<dots> = (\<lambda>i. job_key (jobs ! i)) ` {length out..<?b} - {?k}" using inv by (simp add: ordered_inv_def)
  also have "\<dots> = (\<lambda>i. job_key (jobs ! i)) ` {Suc (length out)..<?b}"
  proof -
    have "job_key (jobs ! i) \<noteq> ?k" if "Suc (length out) \<le> i" "i < ?b" for i
      using same_key [OF keys, of i "length out"] b less that by auto
    moreover have "{length out..<?b} = insert (length out) {Suc (length out)..<?b}"
      using \<open>length out < ?b\<close> by auto
    ultimately show ?thesis by auto
  qed
  finally have flight: "set (in_flight jobs s') = (\<lambda>i. job_key (jobs ! i)) ` {Suc (length out)..<?b}" .
  have "out = map (\<lambda>j. execute (payload j)) (take (length out) jobs)" using inv by (simp add: ordered_inv_def)
  then have outv: "out @ [v] = map (\<lambda>j. execute (payload j)) (take (Suc (length out)) jobs)"
    by (simp add: take_Suc_conv_app_nth [OF less] v)
  show ?thesis unfolding ordered_inv_def length_append_singleton
    using inv flight eq \<open>length out < ?b\<close>
    by (intro conjI pipe outv) (simp_all add: ordered_inv_def budget_retire_def)
qed

lemma ordered_inv_step:
  assumes st: "ordered_step workers lim jobs execute retained_size (out, s) (out', s')"
    and inv: "ordered_inv lim jobs execute out s"
    and keys: "distinct (map job_key jobs)" and small: "memory_limit lim \<le> usize_max"
  shows "ordered_inv lim jobs execute out' s'"
proof -
  have "pipe_inv lim jobs execute s" using inv by (simp add: ordered_inv_def)
  from pipe_inv_step [OF ordered_step_pipe [OF st] this keys small] have pipe: "pipe_inv lim jobs execute s'" .
  show ?thesis using st
  proof cases
    case start
    then show ?thesis using ordered_inv_start [OF inv _ pipe] by simp
  next
    case (finish n)
    then show ?thesis using ordered_inv_finish [OF inv finish(3)] pipe by simp
  next
    case receive
    then show ?thesis using ordered_inv_receive [OF inv _ pipe] by simp
  next
    case (take v)
    then show ?thesis using ordered_inv_take [OF inv keys _ _ pipe] by simp
  qed
qed

lemma ordered_inv_new: "ordered_inv lim jobs execute [] pipe_new"
  using pipe_inv_new [of lim jobs execute]
  by (simp add: ordered_inv_def) (simp add: pipe_new_def budget_new_def in_flight_def)

lemma ordered_run_inv:
  assumes "((ordered_step workers lim jobs execute retained_size) ^^ k) ([], pipe_new) (out, s)"
    and "distinct (map job_key jobs)" and "memory_limit lim \<le> usize_max"
  shows "ordered_inv lim jobs execute out s \<and> k + remaining jobs s = 4 * length jobs"
  using assms(1)
proof (induction k arbitrary: out s)
  case 0
  then show ?case using ordered_inv_new [of lim jobs execute] by (auto simp: remaining_def pipe_new_def budget_new_def)
next
  case (Suc k)
  then obtain out1 s1 where run: "((ordered_step workers lim jobs execute retained_size) ^^ k) ([], pipe_new) (out1, s1)"
    and st: "ordered_step workers lim jobs execute retained_size (out1, s1) (out, s)" by auto
  then show ?case
    using Suc.IH [OF run] ordered_inv_step [OF st _ assms(2,3)] remaining_step [OF st] by auto
qed

text \<open>A consumer that still waits is not stuck, and one that has everything leaves nothing behind.\<close>

lemma ordered_enabled:
  assumes inv: "ordered_inv lim jobs execute out s" and less: "length out < length jobs"
    and keys: "distinct (map job_key jobs)"
    and fits: "\<forall>j \<in> set jobs. reservation j \<le> memory_limit lim" and act: "0 < active_limit lim" and "0 < workers"
  shows "\<exists>c. ordered_step workers lim jobs execute retained_size (out, s) c"
proof (cases "lookup (job_key (jobs ! length out)) s")
  case (Some m)
  then obtain v s' where "take_result (job_key (jobs ! length out)) s = Some (v, s')"
    by (cases m) (simp add: take_result_def)
  then show ?thesis using ordered_step.take [OF less] by blast
next
  case None
  consider "running s \<noteq> []" | "channel s \<noteq> []" | "running s = []" "channel s = []" by blast
  then show ?thesis
  proof cases
    case 1
    then show ?thesis using ordered_step.finish [of 0 s] by blast
  next
    case 2
    then obtain s' where "receive s = Some s'" by (cases "channel s") (auto simp: receive_def)
    then show ?thesis using ordered_step.receive [OF less None] by blast
  next
    case 3
    have "job_key (jobs ! length out) \<notin> set (in_flight jobs s)"
      using None 3 by (auto simp: in_flight_def lookup_def map_of_eq_None_iff)
    then have nx: "length out = b_next (budget s)"
      using inv by (auto simp: ordered_inv_def)
    then have "in_flight jobs s = []" using inv by (simp add: ordered_inv_def)
    then have "shares jobs s = []" using inv by (simp add: in_flight_def shares_def ordered_inv_def)
    then have "b_reserved (budget s) = 0" "b_active (budget s) = 0"
      using inv by (auto simp: ordered_inv_def pipe_inv_def accounted_def)
    then have "start_job lim jobs s \<noteq> None"
      unfolding start_job_Some_iff using fits act inv less nx by (simp add: ordered_inv_def)
    then show ?thesis using ordered_step.start [of s workers] 3(1) \<open>0 < workers\<close> by fastforce
  qed
qed

lemma ordered_done:
  assumes "ordered_inv lim jobs execute out s" and "length jobs \<le> length out"
  shows "remaining jobs s = 0"
proof -
  have "b_next (budget s) \<le> length jobs" using assms(1) by (simp add: ordered_inv_def pipe_inv_def attributed_def)
  then have "b_next (budget s) = length jobs" "set (in_flight jobs s) = {}" using assms by (auto simp: ordered_inv_def)
  then show ?thesis by (simp add: remaining_def in_flight_def)
qed

text \<open>
  A consumer that skips jobs has no such guarantee. \<open>discard_before\<close> drops the stale results that have
  arrived; one that arrives later keeps its share of the budget until the next call, and \<open>take\<close> does not
  make that call while it waits. Here the results 0 and 1 are retained with 3 of 5 bytes, the consumer
  takes the first, skips the second and waits for the third, which no worker can claim any more.
\<close>

lemma skipped_result_stalls:
  "\<exists>s. pipe_reachable \<lparr>memory_limit = 5, active_limit = 9\<rparr> (map (\<lambda>k. \<lparr>job_key = k, reservation = 5, payload = k\<rparr>) [0, 1, 2])
       id (\<lambda>_. 3) id (s :: (nat, unit, unit) pipe) \<and> \<not> closed s \<and> lookup 2 s = None \<and> running s = [] \<and> channel s = [] \<and>
     staged s = [] \<and> leases s = [] \<and>
     start_job \<lparr>memory_limit = 5, active_limit = 9\<rparr> (map (\<lambda>k. \<lparr>job_key = k, reservation = 5, payload = k\<rparr>) [0, 1, 2]) s = None"
proof -
  let ?lim = "\<lparr>memory_limit = 5, active_limit = 9\<rparr>"
  let ?jobs = "map (\<lambda>k. \<lparr>job_key = k, reservation = 5, payload = k\<rparr>) [0, 1, 2 :: nat]"
  let ?ok = "pipe_reachable ?lim ?jobs id (\<lambda>_. 3) id"
  let ?p = "\<lambda>n res act run ch m. \<lparr>budget = \<lparr>b_next = n, b_reserved = res, b_active = act, b_cancelled = False\<rparr>,
    running = run, channel = ch, results = m, leases = [], staged = [], stage_out = [], closed = False\<rparr> :: (nat, unit, unit) pipe"
  have "?ok (?p 0 0 0 [] [] [])"
    using pipe_reachable.init [of ?lim ?jobs id "\<lambda>_. 3" id] by (simp only: pipe_new_def budget_new_def)
  then have "?ok (?p 1 5 1 [0] [] [])"
    by (rule pipe_reachable.step) (rule pipe_step.start, simp add: start_job_def budget_next_def claim_def)
  then have "?ok (execute_job ?jobs id (\<lambda>_. 3) 0 (?p 1 5 1 [0] [] []))"
    by (rule pipe_reachable.step) (rule pipe_step.finish, simp)
  then have "?ok (?p 1 3 1 [] [(0, 3, 0)] [])"
    by (simp add: execute_job_def Let_def budget_complete_def sat_add_def usize_max_def remove_nth_def)
  then have "?ok (?p 1 3 1 [] [] [(0, 3, 0)])"
    by (rule pipe_reachable.step) (rule pipe_step.receive, simp add: receive_def)
  then have "?ok (?p 1 0 0 [] [] [])"
    by (rule pipe_reachable.step)
      (rule pipe_step.take [of 0 _ 0], simp add: take_result_def lookup_def budget_retire_def)
  then have "?ok (discard_before 2 (?p 1 0 0 [] [] []))"
    by (rule pipe_reachable.step) (rule pipe_step.discard)
  then have "?ok (?p 1 0 0 [] [] [])" by (simp add: discard_before_def)
  then have "?ok (?p 2 5 1 [1] [] [])"
    by (rule pipe_reachable.step) (rule pipe_step.start, simp add: start_job_def budget_next_def claim_def)
  then have "?ok (execute_job ?jobs id (\<lambda>_. 3) 0 (?p 2 5 1 [1] [] []))"
    by (rule pipe_reachable.step) (rule pipe_step.finish, simp)
  then have "?ok (?p 2 3 1 [] [(1, 3, 1)] [])"
    by (simp add: execute_job_def Let_def budget_complete_def sat_add_def usize_max_def remove_nth_def)
  then have "?ok (?p 2 3 1 [] [] [(1, 3, 1)])"
    by (rule pipe_reachable.step) (rule pipe_step.receive, simp add: receive_def)
  then show ?thesis
    by (intro exI [of _ "?p 2 3 1 [] [] [(1, 3, 1)]"]) (simp add: lookup_def start_job_def budget_next_def)
qed

section \<open>What a consumer sees\<close>

text \<open>
  \<open>run_ordered\<close> as its caller sees it: refused when a reservation exceeds the limit; otherwise the
  consumer runs against \<open>take\<close>, which returns what the job with that key computes. The theorems below
  are what makes this the meaning of the workers, the channel and the map: the value taken is the job's
  (\<open>taken_value\<close>), and a consumer that takes all of them in order gets them (\<open>ordered_consumer_progress\<close>).
  It abstracts from waiting: a key that no job has, or that was taken before, is an error here where
  \<open>take\<close> waits for ever, and the stall above is a run that does not return.
\<close>

definition run_ordered ::
  "'t job list \<Rightarrow> nat \<Rightarrow> ('t \<Rightarrow> 'o) \<Rightarrow> ((nat \<Rightarrow> error + 'o) \<Rightarrow> error + 'r) \<Rightarrow> error + 'r" where
  "run_ordered jobs memory execute consume =
     (if \<exists>j \<in> set jobs. reservation j > memory then Inl (InvalidConfiguration ReservationExceedsLimit)
      else consume (\<lambda>key. case find (\<lambda>j. job_key j = key) jobs of
        None \<Rightarrow> Inl (InvalidConfiguration DecoderStopped) | Some j \<Rightarrow> Inr (execute (payload j))))"

lemma find_job:
  assumes "distinct (map job_key jobs)" and "i < length jobs"
  shows "find (\<lambda>j. job_key j = job_key (jobs ! i)) jobs = Some (jobs ! i)"
  using assms by (induction jobs arbitrary: i) (auto simp: nth_Cons' split: if_splits)

section \<open>Properties\<close>

text \<open>C8. In every reachable state, whatever the interleaving of workers and consumer, the reserved bytes
  and the jobs in flight are within the limits and cover the shares held by running jobs, sent and received
  results, leases and staged work; while the consumer is there they are exactly these shares. (When it
  returns, the results it drops keep their share of a budget that nobody asks any more.)\<close>

theorem budget_respected:
  assumes "pipe_reachable lim jobs execute retained_size execute_stage s"
    and "distinct (map job_key jobs)" and "memory_limit lim \<le> usize_max"
  shows "b_reserved (budget s) \<le> memory_limit lim \<and> b_active (budget s) \<le> active_limit lim \<and>
    sum_list (shares jobs s) \<le> b_reserved (budget s) \<and> length (shares jobs s) \<le> b_active (budget s) \<and>
    (\<not> closed s \<longrightarrow> b_reserved (budget s) = sum_list (shares jobs s) \<and>
       b_active (budget s) = length (shares jobs s))"
  using pipe_reachable_inv [OF assms] by (auto simp: pipe_inv_def accounted_def)

theorem budget_respected_witness:
  "\<exists>s. start_job \<lparr>memory_limit = 5, active_limit = 1\<rparr> [\<lparr>job_key = 7, reservation = 3, payload = True\<rparr>]
       (pipe_new :: (bool, unit, unit) pipe) = Some s \<and>
     b_reserved (budget s) \<le> 5 \<and> b_active (budget s) \<le> 1"
proof -
  let ?lim = "\<lparr>memory_limit = 5, active_limit = 1\<rparr>" and ?jobs = "[\<lparr>job_key = 7, reservation = 3, payload = True\<rparr>]"
  obtain s where s: "start_job ?lim ?jobs (pipe_new :: (bool, unit, unit) pipe) = Some s"
    using start_job_Some_iff [of ?lim ?jobs pipe_new] by (auto simp: pipe_new_def budget_new_def)
  have "pipe_reachable ?lim ?jobs Not (\<lambda>_. 1) id s"
    by (rule pipe_reachable.step [OF pipe_reachable.init pipe_step.start [OF s]])
  from budget_respected [OF this] s show ?thesis by (auto simp: usize_max_def)
qed

text \<open>C9. A result taken by key is the result of the job with that key, however the workers interleave:
  the same value \<open>run_ordered\<close> hands its consumer.\<close>

theorem taken_value:
  assumes "pipe_reachable lim jobs execute retained_size execute_stage s"
    and "distinct (map job_key jobs)" and "memory_limit lim \<le> usize_max"
    and "take_result key s = Some (value, s')" and "\<forall>j \<in> set jobs. reservation j \<le> memory"
  shows "run_ordered jobs memory execute (\<lambda>take. take key) = Inr value"
proof -
  obtain r where "map_of (results s) key = Some (r, value)"
    using assms(4) by (auto simp: take_result_def lookup_def split: option.splits)
  then have "(key, r, value) \<in> set (results s)" by (rule map_of_SomeD)
  then obtain i where "i < length jobs" "key = job_key (jobs ! i)" "value = execute (payload (jobs ! i))"
  proof -
    have inv: "attributed jobs execute s" using pipe_reachable_inv [OF assms(1-3)] by (simp add: pipe_inv_def)
    then have "from_job jobs execute (b_next (budget s)) (key, r, value)"
      using \<open>(key, r, value) \<in> set (results s)\<close> by (simp add: attributed_def)
    moreover have "b_next (budget s) \<le> length jobs" using inv by (simp add: attributed_def)
    ultimately show ?thesis using that unfolding from_job_def by (metis fst_conv snd_conv order.strict_trans2)
  qed
  then show ?thesis using find_job [OF assms(2), of i] assms(5)
    by (auto simp: run_ordered_def not_less dest: bspec)
qed

theorem taken_value_witness:
  "run_ordered [\<lparr>job_key = 7, reservation = 3, payload = True\<rparr>] 5 Not (\<lambda>take. take 7) = Inr False"
proof -
  let ?lim = "\<lparr>memory_limit = 5, active_limit = 1\<rparr>" and ?jobs = "[\<lparr>job_key = 7, reservation = 3, payload = True\<rparr>]"
  let ?b = "\<lparr>b_next = 1, b_reserved = 3, b_active = 1, b_cancelled = False\<rparr>"
  let ?s1 = "pipe_new\<lparr>budget := ?b, running := [0]\<rparr> :: (bool, unit, unit) pipe"
  let ?s2 = "execute_job ?jobs Not (\<lambda>_. 2) 0 ?s1"
  have st: "start_job ?lim ?jobs pipe_new = Some ?s1"
    by (simp add: start_job_def budget_next_def claim_def pipe_new_def budget_new_def)
  have "channel ?s2 = [(7, 2, False)]" "results ?s2 = []"
    by (simp_all add: execute_job_def pipe_new_def Let_def)
  then obtain s3 where s3: "receive ?s2 = Some s3" "results s3 = [(7, 2, False)]"
    by (simp add: receive_def)
  have "pipe_reachable ?lim ?jobs Not (\<lambda>_. 2) id s3"
    by (intro pipe_reachable.step [OF _ pipe_step.receive [OF s3(1)]]
        pipe_reachable.step [OF _ pipe_step.finish] pipe_reachable.step [OF pipe_reachable.init pipe_step.start [OF st]])
      simp
  then show ?thesis
    by (rule taken_value) (use s3(2) in \<open>auto simp: usize_max_def take_result_def lookup_def\<close>)
qed

text \<open>C7. A consumer that takes every result in order gets all of them, whatever the schedule of the workers,
  the memory limit and the active limit, as long as every reservation fits. After any number of steps it has
  taken the values of the first jobs, in order; while one is missing some step of a worker or of the consumer
  is enabled, so it is never stuck; and a run is over after exactly four steps for each job, when every
  value has been taken. In particular a result that was computed is never lost.\<close>

theorem ordered_consumer_progress:
  assumes "((ordered_step workers lim jobs execute retained_size) ^^ k) ([], pipe_new) (out, s)"
    and "distinct (map job_key jobs)" and "memory_limit lim \<le> usize_max"
    and "\<forall>j \<in> set jobs. reservation j \<le> memory_limit lim" and "0 < active_limit lim" and "0 < workers"
  shows "out = map (\<lambda>j. execute (payload j)) (take (length out) jobs) \<and> k \<le> 4 * length jobs \<and>
    (k < 4 * length jobs \<longrightarrow> (\<exists>c. ordered_step workers lim jobs execute retained_size (out, s) c)) \<and>
    (k = 4 * length jobs \<longrightarrow> out = map (\<lambda>j. execute (payload j)) jobs)"
proof -
  have inv: "ordered_inv lim jobs execute out s" and k: "k + remaining jobs s = 4 * length jobs"
    using ordered_run_inv [OF assms(1-3)] by simp_all
  have less: "length out < length jobs" if "k < 4 * length jobs"
    using that k ordered_done [OF inv] by (metis add_0_right less_irrefl not_less)
  have "b_next (budget s) = length jobs \<and> in_flight jobs s = []" if "k = 4 * length jobs"
    using that k inv by (simp add: remaining_def in_flight_def ordered_inv_def pipe_inv_def attributed_def)
  then have "length jobs \<le> length out" if "k = 4 * length jobs"
    using that inv by (auto simp: ordered_inv_def)
  moreover have out: "out = map (\<lambda>j. execute (payload j)) (take (length out) jobs)" using inv by (simp add: ordered_inv_def)
  ultimately have "out = map (\<lambda>j. execute (payload j)) jobs" if "k = 4 * length jobs"
    using that by (metis take_all)
  then show ?thesis using out k ordered_enabled [OF inv less assms(2,4-6)] by auto
qed

theorem ordered_consumer_progress_witness:
  "\<exists>s. ((ordered_step 1 \<lparr>memory_limit = 5, active_limit = 1\<rparr> [\<lparr>job_key = 7, reservation = 3, payload = True\<rparr>]
      Not (\<lambda>_. 2)) ^^ 4) ([], pipe_new :: (bool, unit, unit) pipe) ([False], s)"
proof -
  let ?lim = "\<lparr>memory_limit = 5, active_limit = 1\<rparr>" and ?jobs = "[\<lparr>job_key = 7, reservation = 3, payload = True\<rparr>]"
  let ?step = "ordered_step 1 ?lim ?jobs Not (\<lambda>_. 2) :: bool list \<times> (bool, unit, unit) pipe \<Rightarrow> _"
  let ?s1 = "pipe_new\<lparr>budget := \<lparr>b_next = 1, b_reserved = 3, b_active = 1, b_cancelled = False\<rparr>, running := [0]\<rparr>
    :: (bool, unit, unit) pipe"
  let ?s2 = "execute_job ?jobs Not (\<lambda>_. 2) 0 ?s1"
  have "?step ([], pipe_new) ([], ?s1)"
    by (rule ordered_step.start) (simp_all add: start_job_def budget_next_def claim_def pipe_new_def budget_new_def)
  moreover have "?step ([], ?s1) ([], ?s2)" by (rule ordered_step.finish) simp
  moreover obtain s3 where s3: "receive ?s2 = Some s3" "results s3 = [(7, 2, False)]"
    by (simp add: execute_job_def pipe_new_def Let_def receive_def)
  then have "?step ([], ?s2) ([], s3)"
    by (intro ordered_step.receive) (simp_all add: lookup_def execute_job_def pipe_new_def Let_def)
  moreover obtain v s4 where s4: "take_result 7 s3 = Some (v, s4)" using s3(2) by (auto simp: take_result_def lookup_def)
  then have "?step ([], s3) ([] @ [v], s4)" by (intro ordered_step.take) simp_all
  ultimately have run: "(?step ^^ Suc (Suc (Suc (Suc 0)))) ([], pipe_new) ([] @ [v], s4)"
    by (blast intro: relpowp_0_I relpowp_Suc_I)
  have "[] @ [v] = map (\<lambda>j. Not (payload j)) ?jobs"
    using ordered_consumer_progress [OF run] by (simp add: usize_max_def)
  moreover have "(?step ^^ 4) ([], pipe_new) ([] @ [v], s4)"
    using run by (simp only: numeral_nat One_nat_def BitM.simps pred_numeral_simps eval_nat_numeral)
  ultimately show ?thesis by auto
qed

end
