(* ===== verification/Lz4_Frame.thy ===== *)
theory Lz4_Frame
  imports Lz4_Block Options Streaming Pipeline
begin

text \<open>
  The LZ4 frame layer: \<open>Encoder\<close> of \<open>src/lz4_encode.rs\<close> over the ordered pool, and the frame decoder
  of \<open>src/lz4.rs\<close> with its serial, batched and linked paths. The hash of the \<open>twox_hash\<close> crate is the
  parameter \<open>xxh\<close>; a streaming hasher is the bytes written to it so far. Output goes to a byte list.
\<close>

section \<open>Frame headers and block layout\<close>

definition FRAME_MAGIC :: u32 where "FRAME_MAGIC = 0x184d2204"
definition LEGACY_MAGIC :: u32 where "LEGACY_MAGIC = 0x184c2102"
definition SKIPPABLE_MAGIC_START :: u32 where "SKIPPABLE_MAGIC_START = 0x184d2a50"
definition SKIPPABLE_MAGIC_END :: u32 where "SKIPPABLE_MAGIC_END = 0x184d2a5f"
definition UNCOMPRESSED_BIT :: u32 where "UNCOMPRESSED_BIT = push_bit 31 1"
definition WINDOW_SIZE :: nat where "WINDOW_SIZE = 64 * 1024"
definition MIN_PARALLEL_INPUT :: nat where "MIN_PARALLEL_INPUT = 1024 * 1024"
definition AUTO_THREAD_LIMIT :: nat where "AUTO_THREAD_LIMIT = 4"
definition MAX_BATCH_BLOCKS :: nat where "MAX_BATCH_BLOCKS = 64"

datatype block_mode = Independent | Linked

record lz4_frame =
  fr_compressed_start :: nat
  fr_compressed_end :: nat
  fr_decoded_start :: nat
  fr_decoded_len :: nat
  fr_block_max_size :: nat
  fr_block_mode :: block_mode
  fr_block_checksums :: bool
  fr_content_checksum :: bool
  fr_declared_content_size :: "u64 option"
  fr_first_block :: nat
  fr_block_count :: nat

record lz4_block =
  bk_frame :: nat
  bk_compressed_start :: nat
  bk_compressed_end :: nat
  bk_decoded_start :: nat
  bk_decoded_len :: nat
  bk_stored :: bool

record lz4_report =
  rp_source_len :: nat
  rp_decoded_len :: nat
  rp_frames :: "lz4_frame list"
  rp_blocks :: "lz4_block list"

record block_layout =
  data_start :: nat
  data_end :: nat
  stored :: bool
  expected_checksum :: "u32 option"

record frame_header =
  source_start :: nat
  blocks_start :: nat
  max_block_size :: nat
  mode :: block_mode
  block_checksums :: bool
  content_checksum :: bool
  content_size :: "u64 option"

definition worker_threads :: "nat option \<Rightarrow> decode_options \<Rightarrow> nat" where
  "worker_threads available options =
     (let requested = decode_resolved_threads available options
      in if do_threads options = 0 then min requested AUTO_THREAD_LIMIT else requested)"

definition read_u32 :: "bytes \<Rightarrow> nat \<Rightarrow> error + u32" where
  "read_u32 data position =
     and_then (ok_or (get_range data position (sat_add position 4)) (InvalidLz4 TruncatedField))
       (\<lambda>bs. Inr (u32_from_le bs))"

definition block_size_of_code :: "byte \<Rightarrow> error + nat" where
  "block_size_of_code code =
     (if code = 4 then Inr (64 * 1024) else if code = 5 then Inr (256 * 1024)
      else if code = 6 then Inr (1024 * 1024) else if code = 7 then Inr (4 * 1024 * 1024)
      else Inl (InvalidLz4 UnsupportedBlockSizeCode))"

definition parse_frame_header :: "(bytes \<Rightarrow> u32) \<Rightarrow> bytes \<Rightarrow> nat \<Rightarrow> error + frame_header" where
  "parse_frame_header xxh data start =
     and_then (ok_or (get_at data (start + 4)) (InvalidLz4 TruncatedDescriptor)) (\<lambda>flg.
     and_then (ok_or (get_at data (start + 5)) (InvalidLz4 TruncatedDescriptor)) (\<lambda>bd.
     if flg AND 0xc0 \<noteq> 0x40 then Inl (InvalidLz4 UnsupportedVersion)
     else if flg AND 0x02 \<noteq> 0 \<or> bd AND 0x8f \<noteq> 0 then Inl (InvalidLz4 ReservedBits)
     else (let mode = (if flg AND 0x20 \<noteq> 0 then Independent else Linked);
               block_checksums = (flg AND 0x10 \<noteq> 0);
               has_content_size = (flg AND 0x08 \<noteq> 0);
               content_checksum = (flg AND 0x04 \<noteq> 0);
               has_dictionary = (flg AND 0x01 \<noteq> 0) in
       and_then (block_size_of_code (drop_bit 4 bd AND 0x07)) (\<lambda>max_block_size.
       let position = start + 6 in
       and_then (if has_content_size
          then and_then (ok_or (get_range data position (sat_add position 8)) (InvalidLz4 TruncatedContentSize))
                 (\<lambda>bs. Inr (Some (u64_from_le bs), position + 8))
          else Inr (None, position)) (\<lambda>(content_size, position).
       if has_dictionary
       then and_then (read_u32 data position) (\<lambda>dictionary. Inl (InvalidLz4 ExternalDictionary))
       else
         and_then (ok_or (get_at data position) (InvalidLz4 TruncatedHeaderChecksum)) (\<lambda>expected_header_checksum.
         and_then (ok_or (get_range data (start + 4) position) (InvalidLz4 DescriptorRange)) (\<lambda>descriptor.
         let header_checksum = ucast (drop_bit 8 (xxh descriptor)) :: byte in
         if header_checksum \<noteq> expected_header_checksum then Inl (InvalidLz4 HeaderChecksum)
         else Inr \<lparr>source_start = start, blocks_start = position + 1, max_block_size = max_block_size,
                mode = mode, block_checksums = block_checksums, content_checksum = content_checksum,
                content_size = content_size\<rparr>)))))))"

text \<open>\<open>next_block\<close> returns the layout (or the end mark) and the new position.\<close>

definition next_block :: "bytes \<Rightarrow> nat \<Rightarrow> frame_header \<Rightarrow> error + block_layout option \<times> nat" where
  "next_block data position frame =
     and_then (read_u32 data position) (\<lambda>v.
     let position = position + 4 in
     if v = 0 then Inr (None, position)
     else (let stored = (v AND UNCOMPRESSED_BIT \<noteq> 0); size = unat (v AND NOT UNCOMPRESSED_BIT) in
       if size = 0 \<or> size > max_block_size frame then Inl (InvalidLz4 BlockSize)
       else (let data_start = position in
         and_then (ok_or (end_within position size (length data)) (InvalidLz4 BlockExceedsFrame)) (\<lambda>data_end.
         and_then (if block_checksums frame
            then and_then (read_u32 data data_end) (\<lambda>checksum. Inr (Some checksum, data_end + 4))
            else Inr (None, data_end)) (\<lambda>(expected_checksum, position).
         Inr (Some \<lparr>data_start = data_start, data_end = data_end, stored = stored,
                expected_checksum = expected_checksum\<rparr>, position))))))"

definition skip_frame :: "bytes \<Rightarrow> nat \<Rightarrow> error + nat" where
  "skip_frame data position =
     and_then (read_u32 data (position + 4)) (\<lambda>len.
     ok_or (case checked_add position 8 of None \<Rightarrow> None | Some v \<Rightarrow> end_within v (unat len) (length data))
       (InvalidLz4 SkippableExceedsInput))"

section \<open>Decoding blocks\<close>

datatype decoded_block = Stored nat nat | Decoded bytes

fun decoded_bytes :: "bytes \<Rightarrow> decoded_block \<Rightarrow> error + bytes" where
  "decoded_bytes source (Stored start stop) = index_range source start stop"
| "decoded_bytes source (Decoded bytes) = Inr bytes"

fun retained_bytes :: "decoded_block \<Rightarrow> nat" where
  "retained_bytes (Stored start stop) = 0"
| "retained_bytes (Decoded bytes) = length bytes"

definition decode_layout_block ::
  "(bytes \<Rightarrow> u32) \<Rightarrow> bytes \<Rightarrow> block_layout \<Rightarrow> bytes \<Rightarrow> nat \<Rightarrow> error + decoded_block" where
  "decode_layout_block xxh data block dictionary max_size =
     and_then (index_range data (data_start block) (data_end block)) (\<lambda>encoded.
     if (case expected_checksum block of None \<Rightarrow> False | Some expected \<Rightarrow> xxh encoded \<noteq> expected)
     then Inl (InvalidLz4 BlockChecksum)
     else if stored block then Inr (Stored (data_start block) (data_end block))
     else and_then (decompress_block encoded dictionary max_size) (\<lambda>bytes. Inr (Decoded bytes)))"

text \<open>
  The committer's own state: the output sink, the progress reports, the content hasher (if the frame
  has a content checksum), where the frame starts in the decoded output, how much it has decoded, its
  number and the block table.
\<close>

record committer =
  sink :: bytes
  progress :: "(nat \<times> nat) list"
  hasher :: "bytes option"
  decoded_base :: nat
  decoded :: nat
  frame_number :: nat
  blocks :: "lz4_block list"

definition commit :: "bytes \<Rightarrow> committer \<Rightarrow> block_layout \<Rightarrow> decoded_block \<Rightarrow> error + committer" where
  "commit data c layout block =
     and_then (decoded_bytes data block) (\<lambda>bytes.
     let decoded_len = length bytes;
         c = c\<lparr>hasher := map_option (\<lambda>h. h @ bytes) (hasher c), sink := sink c @ bytes,
               blocks := blocks c @ [\<lparr>bk_frame = frame_number c, bk_compressed_start = data_start layout,
                 bk_compressed_end = data_end layout, bk_decoded_start = decoded_base c + decoded c,
                 bk_decoded_len = decoded_len, bk_stored = stored layout\<rparr>]\<rparr>
     in and_then (ok_or (checked_add (decoded c) decoded_len) (InvalidLz4 DecodedOverflow)) (\<lambda>n.
        Inr (c\<lparr>decoded := n, progress := progress c @ [(data_end layout, decoded_base c + n)]\<rparr>)))"

section \<open>Independent frames\<close>

lemma end_within_le: "end_within p n l = Some e \<Longrightarrow> e = p + n \<and> e \<le> l"
  by (simp add: end_within_Some_iff)

lemma read_u32_bounds: "read_u32 data p = Inr v \<Longrightarrow> p \<le> length data \<and> sat_add p 4 \<le> length data"
  by (auto simp: read_u32_def and_then_Inr_iff ok_or_Inr_iff get_range_Some_iff)

lemma read_u32_le: "read_u32 data p = Inr v \<Longrightarrow> length data \<le> usize_max - 4 \<Longrightarrow> p + 4 \<le> length data"
  by (auto dest!: read_u32_bounds simp: sat_add_def min_def usize_max_def split: if_splits)

lemma read_u32_in: "read_u32 data p = Inr v \<Longrightarrow> p \<le> length data"
  by (simp add: read_u32_bounds)

lemma next_block_advances: "next_block data p frame = Inr (b, q) \<Longrightarrow> p \<le> length data \<and> p < q"
  by (auto simp: next_block_def and_then_Inr_iff Let_def ok_or_Inr_iff
      dest!: read_u32_in end_within_le split: if_splits)

text \<open>The serial loop of \<open>decode_independent\<close>.\<close>

function independent_loop ::
  "(bytes \<Rightarrow> u32) \<Rightarrow> bytes \<Rightarrow> frame_header \<Rightarrow> nat \<Rightarrow> committer \<Rightarrow> error + nat \<times> committer" where
  "independent_loop xxh data frame position c =
     and_then (next_block data position frame) (\<lambda>(block, position).
       case block of None \<Rightarrow> Inr (position, c)
       | Some block \<Rightarrow>
           and_then (decode_layout_block xxh data block [] (max_block_size frame)) (\<lambda>decoded.
           and_then (commit data c block decoded) (\<lambda>c.
           independent_loop xxh data frame position c)))"
  by pat_completeness auto
termination
  by (relation "measure (\<lambda>(xxh, data, frame, position, c). Suc (length data) - position)")
    (auto dest: next_block_advances)

text \<open>
  The batching loop: block layouts are parsed ahead until the batch is worth decoding in parallel; a
  parse error is kept until the blocks before it are committed.
\<close>

definition layout_work :: "frame_header \<Rightarrow> block_layout \<Rightarrow> nat" where
  "layout_work frame block =
     (if stored block then (if expected_checksum block \<noteq> None then data_end block - data_start block else 0)
      else max_block_size frame)"

record batch =
  bt_blocks :: "block_layout list"
  bt_work :: nat
  bt_position :: nat
  bt_ended :: bool
  bt_error :: "error option"

function gather_batch :: "bytes \<Rightarrow> frame_header \<Rightarrow> nat \<Rightarrow> batch \<Rightarrow> batch" where
  "gather_batch data frame threads b =
     (if length (bt_blocks b) < MAX_BATCH_BLOCKS \<and>
         (length (bt_blocks b) < threads \<or> bt_work b < MIN_PARALLEL_INPUT)
      then (case next_block data (bt_position b) frame of
          Inr (Some block, position) \<Rightarrow>
            gather_batch data frame threads
              (b\<lparr>bt_work := sat_add (bt_work b) (layout_work frame block),
                 bt_blocks := bt_blocks b @ [block], bt_position := position\<rparr>)
        | Inr (None, position) \<Rightarrow> b\<lparr>bt_ended := True, bt_position := position\<rparr>
        | Inl e \<Rightarrow> b\<lparr>bt_error := Some e, bt_ended := True\<rparr>)
      else b)"
  by pat_completeness auto
termination
  by (relation "measure (\<lambda>(data, frame, threads, b). MAX_BATCH_BLOCKS - length (bt_blocks b))") auto

declare independent_loop.simps [simp del] gather_batch.simps [simp del]

fun commit_blocks ::
  "(nat \<Rightarrow> error + decoded_block) \<Rightarrow> bytes \<Rightarrow> committer \<Rightarrow> nat \<Rightarrow> block_layout list \<Rightarrow> error + committer" where
  "commit_blocks result_of data c key [] = Inr c"
| "commit_blocks result_of data c key (block # rest) =
     and_then (result_of key) (\<lambda>decoded.
     and_then (commit data c block decoded) (\<lambda>c. commit_blocks result_of data c (key + 1) rest))"

definition parallel_work :: "batch \<Rightarrow> bool" where
  "parallel_work b \<longleftrightarrow> length (bt_blocks b) \<ge> 2 \<and> bt_work b \<ge> MIN_PARALLEL_INPUT \<and>
     (\<exists>block \<in> set (bt_blocks b). \<not> stored block \<or> expected_checksum block \<noteq> None)"

definition batch_jobs :: "frame_header \<Rightarrow> block_layout list \<Rightarrow> block_layout job list" where
  "batch_jobs frame bs = map (\<lambda>(key, block). \<lparr>job_key = key,
     reservation = (if stored block then 0 else max_block_size frame), payload = block\<rparr>) (List.enumerate 0 bs)"

text \<open>One batch: decoded in place, or by the ordered workers with the results taken by key.\<close>

definition decode_batch ::
  "(bytes \<Rightarrow> u32) \<Rightarrow> bytes \<Rightarrow> frame_header \<Rightarrow> nat \<Rightarrow> batch \<Rightarrow> committer \<Rightarrow> error + committer" where
  "decode_batch xxh data frame memory b c =
     (let decode = (\<lambda>block. decode_layout_block xxh data block [] (max_block_size frame)) in
      if \<not> parallel_work b
      then commit_blocks (\<lambda>key. decode (bt_blocks b ! key)) data c 0 (bt_blocks b)
      else run_ordered (batch_jobs frame (bt_blocks b)) memory decode
        (\<lambda>take. commit_blocks (\<lambda>key. and_then (take key) id) data c 0 (bt_blocks b)))"

lemma gather_batch_stop:
  "\<not> (length (bt_blocks b) < MAX_BATCH_BLOCKS \<and> (length (bt_blocks b) < threads \<or> bt_work b < MIN_PARALLEL_INPUT)) \<Longrightarrow>
     gather_batch data frame threads b = b"
  by (subst gather_batch.simps) (simp only: if_False)

lemma gather_batch_position:
  "bt_position b \<le> bt_position (gather_batch data frame threads b) \<and>
   (bt_blocks (gather_batch data frame threads b) \<noteq> bt_blocks b \<longrightarrow>
      bt_position b < bt_position (gather_batch data frame threads b) \<and> bt_position b \<le> length data)"
proof (induction data frame threads b rule: gather_batch.induct)
  case (1 data frame threads b)
  show ?case
  proof (cases "length (bt_blocks b) < MAX_BATCH_BLOCKS \<and> (length (bt_blocks b) < threads \<or> bt_work b < MIN_PARALLEL_INPUT)")
    case False
    then have "gather_batch data frame threads b = b" by (rule gather_batch_stop)
    then show ?thesis by simp
  next
    case True
    consider e where "next_block data (bt_position b) frame = Inl e"
      | q where "next_block data (bt_position b) frame = Inr (None, q)"
      | block q where "next_block data (bt_position b) frame = Inr (Some block, q)"
      by (metis old.sum.exhaust option.exhaust surj_pair)
    then show ?thesis
    proof cases
      case 1
      then show ?thesis using True by (simp add: gather_batch.simps [of data frame threads b])
    next
      case (2 q)
      then show ?thesis using True next_block_advances [OF 2]
        by (simp add: gather_batch.simps [of data frame threads b])
    next
      case (3 block q)
      then show ?thesis using 1 [OF True 3 refl refl] True next_block_advances [OF 3]
        by (simp add: gather_batch.simps [of data frame threads b])
    qed
  qed
qed

definition empty_batch :: "nat \<Rightarrow> batch" where
  "empty_batch position =
     \<lparr>bt_blocks = [], bt_work = 0, bt_position = position, bt_ended = False, bt_error = None\<rparr>"

function batch_loop ::
  "(bytes \<Rightarrow> u32) \<Rightarrow> bytes \<Rightarrow> frame_header \<Rightarrow> nat \<Rightarrow> nat \<Rightarrow> nat \<Rightarrow> committer \<Rightarrow> error + nat \<times> committer" where
  "batch_loop xxh data frame threads memory position c =
     (let b = gather_batch data frame threads (empty_batch position) in
      if bt_blocks b = []
      then (case bt_error b of Some e \<Rightarrow> Inl e | None \<Rightarrow> Inr (bt_position b, c))
      else and_then (decode_batch xxh data frame memory b c) (\<lambda>c.
        case bt_error b of
          Some e \<Rightarrow> Inl e
        | None \<Rightarrow> if bt_ended b then Inr (bt_position b, c)
                   else batch_loop xxh data frame threads memory (bt_position b) c))"
  by pat_completeness auto
termination
proof (relation "measure (\<lambda>(xxh, data, frame, threads, memory, position, c). Suc (length data) - position)")
  fix xxh and data :: bytes and frame threads memory position c b c'
  assume b: "b = gather_batch data frame threads (empty_batch position)" and ne: "bt_blocks b \<noteq> []"
  have "position < bt_position b \<and> position \<le> length data"
    using gather_batch_position [of "empty_batch position" data frame threads] b ne
    by (simp add: empty_batch_def)
  then show "((xxh, data, frame, threads, memory, bt_position b, c'), xxh, data, frame, threads, memory, position, c)
      \<in> measure (\<lambda>(xxh, data, frame, threads, memory, position, c). Suc (length data) - position)"
    by auto
qed simp

declare batch_loop.simps [simp del]

definition decode_independent ::
  "(bytes \<Rightarrow> u32) \<Rightarrow> nat option \<Rightarrow> decode_options \<Rightarrow> bytes \<Rightarrow> frame_header \<Rightarrow> nat \<Rightarrow> committer \<Rightarrow>
   error + nat \<times> committer" where
  "decode_independent xxh available options data frame position c =
     (let threads = worker_threads available options;
          parallel_slots = do_memory_limit options div max_block_size frame
      in if threads = 1 \<or> parallel_slots < 2 then independent_loop xxh data frame position c
         else batch_loop xxh data frame threads (do_memory_limit options) position c)"

section \<open>Linked frames\<close>

definition update_history :: "bytes \<Rightarrow> bytes \<Rightarrow> bytes" where
  "update_history history bytes =
     (if length bytes \<ge> WINDOW_SIZE then drop (length bytes - WINDOW_SIZE) bytes
      else (let excess = sat_add (length history) (length bytes) - WINDOW_SIZE;
                history = (if excess \<noteq> 0 then drop excess history else history)
            in history @ bytes))"

function linked_loop ::
  "(bytes \<Rightarrow> u32) \<Rightarrow> bytes \<Rightarrow> frame_header \<Rightarrow> nat \<Rightarrow> bytes \<Rightarrow> committer \<Rightarrow> error + nat \<times> committer" where
  "linked_loop xxh data frame position history c =
     and_then (next_block data position frame) (\<lambda>(block, position).
       case block of None \<Rightarrow> Inr (position, c)
       | Some block \<Rightarrow>
           and_then (decode_layout_block xxh data block history (max_block_size frame)) (\<lambda>decoded.
           and_then (decoded_bytes data decoded) (\<lambda>bytes.
           and_then (commit data c block decoded) (\<lambda>c.
           linked_loop xxh data frame position (update_history history bytes) c))))"
  by pat_completeness auto
termination
  by (relation "measure (\<lambda>(xxh, data, frame, position, history, c). Suc (length data) - position)")
    (auto dest: next_block_advances)

declare linked_loop.simps [simp del]

definition decode_linked ::
  "(bytes \<Rightarrow> u32) \<Rightarrow> bytes \<Rightarrow> frame_header \<Rightarrow> nat \<Rightarrow> committer \<Rightarrow> error + nat \<times> committer" where
  "decode_linked xxh data frame position c = linked_loop xxh data frame position [] c"

section \<open>The frame sequence\<close>

record lz4_state =
  ls_sink :: bytes
  ls_progress :: "(nat \<times> nat) list"
  ls_frames :: "lz4_frame list"
  ls_blocks :: "lz4_block list"
  ls_total :: nat

definition decode_blocks ::
  "(bytes \<Rightarrow> u32) \<Rightarrow> nat option \<Rightarrow> decode_options \<Rightarrow> bytes \<Rightarrow> frame_header \<Rightarrow> committer \<Rightarrow>
   error + nat \<times> committer" where
  "decode_blocks xxh available options data frame c =
     (case mode frame of
        Independent \<Rightarrow> decode_independent xxh available options data frame (blocks_start frame) c
      | Linked \<Rightarrow> decode_linked xxh data frame (blocks_start frame) c)"

text \<open>The checks behind the blocks: the declared content size and the content checksum.\<close>

definition check_content ::
  "(bytes \<Rightarrow> u32) \<Rightarrow> bytes \<Rightarrow> frame_header \<Rightarrow> nat \<Rightarrow> committer \<Rightarrow> error + nat" where
  "check_content xxh data frame position c =
     (if (case content_size frame of None \<Rightarrow> False | Some expected \<Rightarrow> decoded c \<noteq> unat expected)
      then Inl (InvalidLz4 ContentSize)
      else if content_checksum frame
      then and_then (read_u32 data position) (\<lambda>expected.
        case hasher c of
          None \<Rightarrow> Inl Panic
        | Some hashed \<Rightarrow> if xxh hashed \<noteq> expected then Inl (InvalidLz4 ContentChecksum) else Inr (position + 4))
      else Inr position)"

text \<open>A frame's committer before its first block, and what is recorded behind its last one.\<close>

definition open_frame :: "frame_header \<Rightarrow> lz4_state \<Rightarrow> committer" where
  "open_frame frame s = \<lparr>sink = ls_sink s, progress = ls_progress s,
     hasher = (if content_checksum frame then Some [] else None), decoded_base = ls_total s,
     decoded = 0, frame_number = length (ls_frames s), blocks = ls_blocks s\<rparr>"

definition close_frame ::
  "(bytes \<Rightarrow> u32) \<Rightarrow> bytes \<Rightarrow> frame_header \<Rightarrow> lz4_state \<Rightarrow> nat \<Rightarrow> committer \<Rightarrow> error + nat \<times> lz4_state" where
  "close_frame xxh data frame s position c =
     and_then (check_content xxh data frame position c) (\<lambda>position.
     and_then (ok_or (checked_add (ls_total s) (decoded c)) (InvalidLz4 DecodedOverflow)) (\<lambda>total.
     Inr (position, \<lparr>ls_sink = sink c, ls_progress = progress c @ [(position, total)],
       ls_frames = ls_frames s @ [\<lparr>fr_compressed_start = source_start frame, fr_compressed_end = position,
         fr_decoded_start = total - decoded c, fr_decoded_len = decoded c,
         fr_block_max_size = max_block_size frame, fr_block_mode = mode frame,
         fr_block_checksums = block_checksums frame, fr_content_checksum = content_checksum frame,
         fr_declared_content_size = content_size frame, fr_first_block = length (ls_blocks s),
         fr_block_count = length (blocks c) - length (ls_blocks s)\<rparr>],
       ls_blocks = blocks c, ls_total = total\<rparr>)))"

definition decode_frame ::
  "(bytes \<Rightarrow> u32) \<Rightarrow> nat option \<Rightarrow> decode_options \<Rightarrow> bytes \<Rightarrow> nat \<Rightarrow> lz4_state \<Rightarrow> error + nat \<times> lz4_state" where
  "decode_frame xxh available options data position s =
     and_then (parse_frame_header xxh data position) (\<lambda>frame.
     if length (ls_frames s) \<ge> 2 ^ 32 then Inl (InvalidLz4 TooManyFrames)
     else and_then (decode_blocks xxh available options data frame (open_frame frame s)) (\<lambda>(position, c).
       close_frame xxh data frame s position c))"

text \<open>The ways a loop returns.\<close>

lemma independent_loop_Inr_iff:
  "independent_loop xxh data frame p c = Inr r \<longleftrightarrow>
     (\<exists>q. next_block data p frame = Inr (None, q) \<and> r = (q, c)) \<or>
     (\<exists>block q d c'. next_block data p frame = Inr (Some block, q) \<and>
        decode_layout_block xxh data block [] (max_block_size frame) = Inr d \<and>
        commit data c block d = Inr c' \<and> independent_loop xxh data frame q c' = Inr r)"
proof (cases "next_block data p frame")
  case (Inr a)
  then obtain block q where "next_block data p frame = Inr (block, q)" by (cases a) auto
  then show ?thesis
    by (cases block) (auto simp: independent_loop.simps [of xxh data frame p c] and_then_Inr_iff)
qed (simp add: independent_loop.simps)

lemma linked_loop_Inr_iff:
  "linked_loop xxh data frame p history c = Inr r \<longleftrightarrow>
     (\<exists>q. next_block data p frame = Inr (None, q) \<and> r = (q, c)) \<or>
     (\<exists>block q d bs c'. next_block data p frame = Inr (Some block, q) \<and>
        decode_layout_block xxh data block history (max_block_size frame) = Inr d \<and>
        decoded_bytes data d = Inr bs \<and> commit data c block d = Inr c' \<and>
        linked_loop xxh data frame q (update_history history bs) c' = Inr r)"
proof (cases "next_block data p frame")
  case (Inr a)
  then obtain block q where "next_block data p frame = Inr (block, q)" by (cases a) auto
  then show ?thesis
    by (cases block) (auto simp: linked_loop.simps [of xxh data frame p history c] and_then_Inr_iff)
qed (simp add: linked_loop.simps)

lemma independent_loop_advances: "independent_loop xxh data frame p c = Inr (q, c') \<Longrightarrow> p < q"
proof (induction "Suc (length data) - p" arbitrary: p c rule: less_induct)
  case less
  from less(2) consider "next_block data p frame = Inr (None, q)"
    | block p' c'' where "next_block data p frame = Inr (Some block, p')"
        "independent_loop xxh data frame p' c'' = Inr (q, c')"
    by (subst (asm) independent_loop_Inr_iff) auto
  then show ?case
  proof cases
    case 2
    have "p \<le> length data" "p < p'" using next_block_advances [OF 2(1)] by auto
    then have "p' < q" by (intro less(1) [OF _ 2(2)]) linarith
    then show ?thesis using \<open>p < p'\<close> by simp
  qed (use next_block_advances in blast)
qed

lemma linked_loop_advances: "linked_loop xxh data frame p history c = Inr (q, c') \<Longrightarrow> p < q"
proof (induction "Suc (length data) - p" arbitrary: p history c rule: less_induct)
  case less
  from less(2) consider "next_block data p frame = Inr (None, q)"
    | block p' h c'' where "next_block data p frame = Inr (Some block, p')"
        "linked_loop xxh data frame p' h c'' = Inr (q, c')"
    by (subst (asm) linked_loop_Inr_iff) auto
  then show ?case
  proof cases
    case 2
    have "p \<le> length data" "p < p'" using next_block_advances [OF 2(1)] by auto
    then have "p' < q" by (intro less(1) [OF _ 2(2)]) linarith
    then show ?thesis using \<open>p < p'\<close> by simp
  qed (use next_block_advances in blast)
qed

section \<open>Batching changes nothing\<close>

text \<open>Decoding and committing a list of layouts one after the other.\<close>

fun commit_each ::
  "(block_layout \<Rightarrow> error + decoded_block) \<Rightarrow> bytes \<Rightarrow> committer \<Rightarrow> block_layout list \<Rightarrow> error + committer" where
  "commit_each decode data c [] = Inr c"
| "commit_each decode data c (block # rest) =
     and_then (decode block) (\<lambda>d. and_then (commit data c block d) (\<lambda>c. commit_each decode data c rest))"

lemma commit_blocks_each:
  assumes "\<And>i. i < length bs \<Longrightarrow> result_of (k + i) = decode (bs ! i)"
  shows "commit_blocks result_of data c k bs = commit_each decode data c bs"
  using assms
proof (induction bs arbitrary: c k)
  case (Cons b bs)
  have "result_of k = decode b" using Cons.prems [of 0] by simp
  moreover have "commit_blocks result_of data c' (k + 1) bs = commit_each decode data c' bs" for c'
    using Cons.prems [of "Suc i" for i] by (intro Cons.IH) auto
  ultimately show ?case by simp
qed simp

lemma length_batch_jobs [simp]: "length (batch_jobs frame bs) = length bs"
  by (simp add: batch_jobs_def)

lemma batch_job_nth: "i < length bs \<Longrightarrow> job_key (batch_jobs frame bs ! i) = i \<and> payload (batch_jobs frame bs ! i) = bs ! i"
  by (simp add: batch_jobs_def nth_enumerate_eq)

lemma batch_job_keys: "map job_key (batch_jobs frame bs) = [0..<length bs]"
  by (rule nth_equalityI) (auto simp: batch_job_nth)

lemma decode_batch_each:
  assumes "max_block_size frame \<le> memory"
  shows "decode_batch xxh data frame memory b c =
    commit_each (\<lambda>block. decode_layout_block xxh data block [] (max_block_size frame)) data c (bt_blocks b)"
proof (cases "parallel_work b")
  case False
  then show ?thesis by (simp add: decode_batch_def Let_def commit_blocks_each [of _ _ 0])
next
  case True
  let ?jobs = "batch_jobs frame (bt_blocks b)"
  have fits: "\<not> (\<exists>j \<in> set ?jobs. reservation j > memory)"
    using assms by (auto simp: batch_jobs_def split: if_splits)
  have find: "find (\<lambda>j. job_key j = i) ?jobs = Some (?jobs ! i)" if "i < length (bt_blocks b)" for i
    using find_job [of ?jobs i] that by (simp add: batch_job_keys batch_job_nth)
  show ?thesis
    using True fits by (simp add: decode_batch_def Let_def run_ordered_def)
      (intro commit_blocks_each, simp add: find batch_job_nth)
qed

text \<open>A gathered batch is what the serial loop would decode next.\<close>

definition after_batch :: "(committer \<Rightarrow> error + nat \<times> committer) \<Rightarrow> batch \<Rightarrow> committer \<Rightarrow> error + nat \<times> committer" where
  "after_batch continue b c = (case bt_error b of Some e \<Rightarrow> Inl e
     | None \<Rightarrow> if bt_ended b then Inr (bt_position b, c) else continue c)"

lemma gather_serial:
  assumes "\<not> bt_ended b" and "bt_error b = None"
  shows "\<exists>new. bt_blocks (gather_batch data frame threads b) = bt_blocks b @ new \<and>
    (\<forall>c. independent_loop xxh data frame (bt_position b) c =
      and_then (commit_each (\<lambda>block. decode_layout_block xxh data block [] (max_block_size frame)) data c new)
        (after_batch (independent_loop xxh data frame (bt_position (gather_batch data frame threads b)))
          (gather_batch data frame threads b)))"
  using assms
proof (induction data frame threads b rule: gather_batch.induct)
  case (1 data frame threads b)
  let ?g = "gather_batch data frame threads"
  show ?case
  proof (cases "length (bt_blocks b) < MAX_BATCH_BLOCKS \<and> (length (bt_blocks b) < threads \<or> bt_work b < MIN_PARALLEL_INPUT)")
    case False
    then have "gather_batch data frame threads b = b" by (rule gather_batch_stop)
    then show ?thesis using 1(2,3) by (auto simp: after_batch_def)
  next
    case True
    consider e where "next_block data (bt_position b) frame = Inl e"
      | q where "next_block data (bt_position b) frame = Inr (None, q)"
      | block q where "next_block data (bt_position b) frame = Inr (Some block, q)"
      by (metis old.sum.exhaust option.exhaust surj_pair)
    then show ?thesis
    proof cases
      case (1 e)
      then have "?g b = b\<lparr>bt_error := Some e, bt_ended := True\<rparr>"
        using True by (simp add: gather_batch.simps [of data frame threads b])
      then show ?thesis using 1
        by (simp add: after_batch_def independent_loop.simps [of xxh data frame "bt_position b"])
    next
      case (2 q)
      then have "?g b = b\<lparr>bt_ended := True, bt_position := q\<rparr>"
        using True by (simp add: gather_batch.simps [of data frame threads b])
      then show ?thesis using 2 1(3)
        by (simp add: after_batch_def independent_loop.simps [of xxh data frame "bt_position b"])
    next
      case (3 block q)
      let ?b = "b\<lparr>bt_work := sat_add (bt_work b) (layout_work frame block),
        bt_blocks := bt_blocks b @ [block], bt_position := q\<rparr>"
      have g: "?g b = ?g ?b" using True 3 by (simp add: gather_batch.simps [of data frame threads b])
      obtain new where "bt_blocks (?g ?b) = bt_blocks ?b @ new"
        and eq: "\<forall>c. independent_loop xxh data frame q c =
          and_then (commit_each (\<lambda>block. decode_layout_block xxh data block [] (max_block_size frame)) data c new)
            (after_batch (independent_loop xxh data frame (bt_position (?g ?b))) (?g ?b))"
        using "1.IH" [OF True 3 refl refl] 1(2,3) by auto
      moreover have "independent_loop xxh data frame q = (\<lambda>c.
          and_then (commit_each (\<lambda>block. decode_layout_block xxh data block [] (max_block_size frame)) data c new)
            (after_batch (independent_loop xxh data frame (bt_position (?g ?b))) (?g ?b)))"
        using eq by (intro ext) blast
      ultimately show ?thesis using 3 unfolding g
        by (intro exI [of _ "block # new"])
          (simp add: independent_loop.simps [of xxh data frame "bt_position b"])
    qed
  qed
qed

lemma gather_empty:
  assumes "bt_blocks (gather_batch data frame threads (empty_batch position)) = []"
  shows "bt_ended (gather_batch data frame threads (empty_batch position))"
proof -
  let ?b = "empty_batch position"
  have go: "length (bt_blocks ?b) < MAX_BATCH_BLOCKS \<and> (length (bt_blocks ?b) < threads \<or> bt_work ?b < MIN_PARALLEL_INPUT)"
    by (simp add: empty_batch_def MAX_BATCH_BLOCKS_def MIN_PARALLEL_INPUT_def)
  show ?thesis
  proof (cases "next_block data (bt_position ?b) frame")
    case (Inl e)
    then show ?thesis using go by (simp add: gather_batch.simps [of data frame threads ?b])
  next
    case (Inr a)
    then obtain block q where nb: "next_block data (bt_position ?b) frame = Inr (block, q)" by (cases a) auto
    show ?thesis
    proof (cases block)
      case None
      then show ?thesis using go nb by (simp add: gather_batch.simps [of data frame threads ?b])
    next
      case (Some bl)
      let ?b' = "?b\<lparr>bt_work := sat_add (bt_work ?b) (layout_work frame bl),
        bt_blocks := bt_blocks ?b @ [bl], bt_position := q\<rparr>"
      have "gather_batch data frame threads ?b = gather_batch data frame threads ?b'"
        using go nb Some by (simp add: gather_batch.simps [of data frame threads ?b])
      moreover have "\<exists>new. bt_blocks (gather_batch data frame threads ?b') = bt_blocks ?b' @ new"
        using gather_serial [of ?b' data frame threads] by (auto simp: empty_batch_def)
      ultimately show ?thesis using assms by auto
    qed
  qed
qed

lemma batch_loop_serial:
  assumes "max_block_size frame \<le> memory"
  shows "batch_loop xxh data frame threads memory position c = independent_loop xxh data frame position c"
  using assms
proof (induction xxh data frame threads memory position c rule: batch_loop.induct)
  case (1 xxh data frame threads memory position c)
  let ?b = "gather_batch data frame threads (empty_batch position)"
  let ?decode = "\<lambda>block. decode_layout_block xxh data block [] (max_block_size frame)"
  have serial: "independent_loop xxh data frame position c =
      and_then (commit_each ?decode data c (bt_blocks ?b))
        (after_batch (independent_loop xxh data frame (bt_position ?b)) ?b)"
    using gather_serial [of "empty_batch position" data frame threads xxh] by (auto simp: empty_batch_def)
  show ?case
  proof (cases "bt_blocks ?b = []")
    case True
    then show ?thesis using serial gather_empty [OF True]
      by (simp add: batch_loop.simps [of xxh data frame threads memory position c] after_batch_def Let_def)
  next
    case False
    have "batch_loop xxh data frame threads memory position c =
        and_then (commit_each ?decode data c (bt_blocks ?b)) (\<lambda>c.
          case bt_error ?b of Some e \<Rightarrow> Inl e
          | None \<Rightarrow> if bt_ended ?b then Inr (bt_position ?b, c)
                   else batch_loop xxh data frame threads memory (bt_position ?b) c)"
      using False 1(2) by (simp add: batch_loop.simps [of xxh data frame threads memory position c] decode_batch_each Let_def)
    also have "\<dots> = and_then (commit_each ?decode data c (bt_blocks ?b))
        (after_batch (independent_loop xxh data frame (bt_position ?b)) ?b)"
    proof (rule and_then_cong [OF refl])
      fix c' assume "commit_each ?decode data c (bt_blocks ?b) = Inr c'"
      then have "decode_batch xxh data frame memory ?b c = Inr c'" using 1(2) by (simp add: decode_batch_each)
      then show "(case bt_error ?b of Some e \<Rightarrow> Inl e
          | None \<Rightarrow> if bt_ended ?b then Inr (bt_position ?b, c')
                   else batch_loop xxh data frame threads memory (bt_position ?b) c') =
          after_batch (independent_loop xxh data frame (bt_position ?b)) ?b c'"
        using 1(1) [OF refl False _ _ _ 1(2)] by (auto simp: after_batch_def split: option.split)
    qed
    finally show ?thesis using serial by simp
  qed
qed

lemma decode_independent_serial:
  assumes "0 < max_block_size frame"
  shows "decode_independent xxh available options data frame position c = independent_loop xxh data frame position c"
proof (cases "do_memory_limit options div max_block_size frame < 2")
  case False
  then have "1 \<le> do_memory_limit options div max_block_size frame" by simp
  then have "max_block_size frame \<le> do_memory_limit options"
    by (metis One_nat_def Suc_le_eq div_less linorder_not_le neq0_conv)
  then show ?thesis by (simp add: decode_independent_def Let_def batch_loop_serial)
qed (simp add: decode_independent_def Let_def)

section \<open>The whole input\<close>

lemma parse_frame_header_start:
  "parse_frame_header xxh data start = Inr h \<Longrightarrow>
     start < blocks_start h \<and> source_start h = start \<and> 0 < max_block_size h \<and> start + 4 < length data"
  by (auto simp: parse_frame_header_def block_size_of_code_def and_then_Inr_iff ok_or_Inr_iff Let_def
      get_at_Some_iff split: if_splits)

lemma batch_independent_advances:
  "decode_independent xxh available options data frame p c = Inr (q, c') \<Longrightarrow> 0 < max_block_size frame \<Longrightarrow> p < q"
  using independent_loop_advances by (simp add: decode_independent_serial)

lemma decode_frame_advances:
  assumes "decode_frame xxh available options data p s = Inr (q, s')"
  shows "p < q"
proof -
  obtain h c c' r where h: "parse_frame_header xxh data p = Inr h"
    and b: "decode_blocks xxh available options data h c = Inr (r, c')"
    and "check_content xxh data h r c' = Inr q"
    using assms by (auto simp: decode_frame_def close_frame_def and_then_Inr_iff split: if_splits)
  then have "r \<le> q" by (auto simp: check_content_def and_then_Inr_iff split: if_splits option.splits)
  moreover have "blocks_start h < r"
    using b parse_frame_header_start [OF h] batch_independent_advances linked_loop_advances
    by (cases "mode h") (auto simp: decode_blocks_def decode_linked_def)
  ultimately show ?thesis using parse_frame_header_start [OF h] by simp
qed

lemma skip_frame_advances: "skip_frame data p = Inr q \<Longrightarrow> p < q"
  by (auto simp: skip_frame_def and_then_Inr_iff ok_or_Inr_iff checked_add_Some_iff end_within_Some_iff
      split: option.splits)

function lz4_loop ::
  "(bytes \<Rightarrow> u32) \<Rightarrow> nat option \<Rightarrow> decode_options \<Rightarrow> bytes \<Rightarrow> nat \<Rightarrow> lz4_state \<Rightarrow> error + lz4_state" where
  "lz4_loop xxh available options data position s =
     (if position < length data
      then and_then (read_u32 data position) (\<lambda>magic.
        if SKIPPABLE_MAGIC_START \<le> magic \<and> magic \<le> SKIPPABLE_MAGIC_END
        then and_then (skip_frame data position) (\<lambda>position. lz4_loop xxh available options data position s)
        else if magic = LEGACY_MAGIC then Inl (InvalidLz4 LegacyFrame)
        else if magic \<noteq> FRAME_MAGIC then Inl (InvalidLz4 WrongMagic)
        else and_then (decode_frame xxh available options data position s) (\<lambda>(position, s).
          lz4_loop xxh available options data position s))
      else Inr s)"
  by pat_completeness auto
termination
  by (relation "measure (\<lambda>(xxh, available, options, data, position, s). length data - position)")
    (auto dest: skip_frame_advances decode_frame_advances)

declare lz4_loop.simps [simp del]

definition lz4_decompress ::
  "(bytes \<Rightarrow> u32) \<Rightarrow> nat option \<Rightarrow> decode_options \<Rightarrow> bytes \<Rightarrow> error + bytes \<times> lz4_report \<times> (nat \<times> nat) list" where
  "lz4_decompress xxh available options data =
     and_then (decode_validate options) (\<lambda>options.
     and_then (lz4_loop xxh available options data 0
        \<lparr>ls_sink = [], ls_progress = [], ls_frames = [], ls_blocks = [], ls_total = 0\<rparr>) (\<lambda>s.
     if ls_frames s = [] then Inl (InvalidLz4 NoFrames)
     else Inr (ls_sink s, \<lparr>rp_source_len = length data, rp_decoded_len = ls_total s,
            rp_frames = ls_frames s, rp_blocks = ls_blocks s\<rparr>,
          ls_progress s @ [(length data, ls_total s)])))"

lemma decode_frame_threads:
  "decode_frame xxh available options data position s = decode_frame xxh available' options' data position s"
  unfolding decode_frame_def
proof (rule and_then_cong [OF refl])
  fix h assume "parse_frame_header xxh data position = Inr h"
  then have "0 < max_block_size h" by (simp add: parse_frame_header_start)
  then have "decode_blocks xxh available options data h c = decode_blocks xxh available' options' data h c" for c
    by (cases "mode h") (simp_all add: decode_blocks_def decode_independent_serial)
  then show "(if length (ls_frames s) \<ge> 2 ^ 32 then Inl (InvalidLz4 TooManyFrames)
     else and_then (decode_blocks xxh available options data h (open_frame h s)) (\<lambda>(position, c).
       close_frame xxh data h s position c)) =
     (if length (ls_frames s) \<ge> 2 ^ 32 then Inl (InvalidLz4 TooManyFrames)
     else and_then (decode_blocks xxh available' options' data h (open_frame h s)) (\<lambda>(position, c).
       close_frame xxh data h s position c))"
    by simp
qed

lemma lz4_loop_threads:
  "lz4_loop xxh available options data position s = lz4_loop xxh available' options' data position s"
proof (induction "length data - position" arbitrary: position s rule: less_induct)
  case less
  show ?case
  proof (cases "position < length data")
    case True
    have skip: "and_then (skip_frame data position) (\<lambda>q. lz4_loop xxh available options data q s) =
        and_then (skip_frame data position) (\<lambda>q. lz4_loop xxh available' options' data q s)"
      using less True by (intro and_then_cong refl less) (auto dest: skip_frame_advances)
    have frame: "and_then (decode_frame xxh available options data position s)
          (\<lambda>(q, s). lz4_loop xxh available options data q s) =
        and_then (decode_frame xxh available' options' data position s)
          (\<lambda>(q, s). lz4_loop xxh available' options' data q s)"
    proof (rule and_then_cong [OF decode_frame_threads])
      fix x assume d: "decode_frame xxh available' options' data position s = Inr x"
      obtain q s' where x: "x = (q, s')" by fastforce
      have "position < q" using decode_frame_advances d x by simp
      then show "(case x of (q, s) \<Rightarrow> lz4_loop xxh available options data q s) =
          (case x of (q, s) \<Rightarrow> lz4_loop xxh available' options' data q s)"
        using less [of q s'] True by (simp add: x)
    qed
    show ?thesis
      by (subst (1 2) lz4_loop.simps) (simp only: skip frame)
  qed (simp add: lz4_loop.simps)
qed

section \<open>Safety on arbitrary input, and what the report says\<close>

definition layout_in :: "bytes \<Rightarrow> block_layout \<Rightarrow> bool" where
  "layout_in data block \<longleftrightarrow> data_start block \<le> data_end block \<and> data_end block \<le> length data"

lemma read_u32_safe: "safely (\<lambda>_. True) (read_u32 data p)"
  by (auto simp: read_u32_def outcome_simps split: option.split)

lemma next_block_safe:
  "safely (\<lambda>(b, q). \<forall>block. b = Some block \<longrightarrow> layout_in data block) (next_block data p frame)"
  unfolding next_block_def Let_def
  by (rule outcome_bind [OF read_u32_safe] outcome_bind [where Q = "\<lambda>_. True"] outcome_intros
      | (auto simp: outcome_simps layout_in_def end_within_Some_iff read_u32_safe
          intro!: outcome_bind [OF read_u32_safe]; fail))+

lemma decompress_block_safely:
  "safely (\<lambda>out. length out \<le> max_output) (decompress_block input dictionary max_output)"
  unfolding decompress_block_def by (rule decompress_loop_safe) simp

lemma decode_layout_block_safe:
  "layout_in data block \<Longrightarrow>
     safely (\<lambda>d. \<exists>bs. decoded_bytes data d = Inr bs) (decode_layout_block xxh data block dictionary n)"
  unfolding decode_layout_block_def
  by (rule outcome_bind [OF decompress_block_safely] outcome_bind [where Q = "\<lambda>_. True"] outcome_intros
      | (auto simp: outcome_simps layout_in_def; fail))+

text \<open>The committer inside a frame that started from \<open>s\<close>.\<close>

definition block_range :: "lz4_block \<Rightarrow> nat \<times> nat" where
  "block_range b = (bk_decoded_start b, bk_decoded_len b)"

definition frame_range :: "lz4_frame \<Rightarrow> nat \<times> nat" where
  "frame_range f = (fr_decoded_start f, fr_decoded_len f)"

definition within_frame :: "frame_header \<Rightarrow> lz4_state \<Rightarrow> committer \<Rightarrow> bool" where
  "within_frame frame s c \<longleftrightarrow> (\<exists>plain. sink c = ls_sink s @ plain \<and> decoded c = length plain \<and>
     hasher c = (if content_checksum frame then Some plain else None) \<and> decoded_base c = ls_total s \<and>
     tiled 0 (map block_range (blocks c)) (ls_total s + length plain))"

definition state_ok :: "lz4_state \<Rightarrow> bool" where
  "state_ok s \<longleftrightarrow> ls_total s = length (ls_sink s) \<and> tiled 0 (map frame_range (ls_frames s)) (ls_total s) \<and>
     tiled 0 (map block_range (ls_blocks s)) (ls_total s)"

lemma commit_within:
  assumes w: "within_frame frame s c" and d: "decoded_bytes data d = Inr bs"
  shows "safely (within_frame frame s) (commit data c block d)"
proof -
  obtain plain where p: "sink c = ls_sink s @ plain" "decoded c = length plain"
    "hasher c = (if content_checksum frame then Some plain else None)" "decoded_base c = ls_total s"
    "tiled 0 (map block_range (blocks c)) (ls_total s + length plain)"
    using w by (auto simp: within_frame_def)
  show ?thesis
    unfolding commit_def d and_then.simps Let_def
    by (intro outcome_intros)
      (auto simp: within_frame_def p checked_add_Some_iff tiled_snoc block_range_def intro!: exI [of _ "plain @ bs"])
qed

lemma independent_loop_safe:
  "within_frame frame s c \<Longrightarrow>
     safely (\<lambda>(q, c'). within_frame frame s c') (independent_loop xxh data frame p c)"
proof (induction "Suc (length data) - p" arbitrary: p c rule: less_induct)
  case less
  show ?case
    apply (subst independent_loop.simps)
    apply (rule outcome_bind [OF next_block_safe])
    apply (clarsimp split: option.split)
    apply (rule conjI)
     apply (simp add: outcome_simps less(2))
    apply clarsimp
    apply (rule outcome_bind [OF decode_layout_block_safe], assumption, clarsimp)
    apply (rule outcome_bind [OF commit_within [OF less(2)]], assumption)
    apply (rule less(1))
     apply (drule next_block_advances, linarith)
    apply assumption
    done
qed

lemma linked_loop_safe:
  "within_frame frame s c \<Longrightarrow>
     safely (\<lambda>(q, c'). within_frame frame s c') (linked_loop xxh data frame p history c)"
proof (induction "Suc (length data) - p" arbitrary: p c history rule: less_induct)
  case less
  show ?case
    apply (subst linked_loop.simps)
    apply (rule outcome_bind [OF next_block_safe])
    apply (clarsimp split: option.split)
    apply (rule conjI)
     apply (simp add: outcome_simps less(2))
    apply clarsimp
    apply (rule outcome_bind [OF decode_layout_block_safe], assumption, clarsimp)
    apply (rule outcome_bind [OF commit_within [OF less(2)]], assumption)
    apply (rule less(1))
     apply (drule next_block_advances, linarith)
    apply assumption
    done
qed

lemma decode_blocks_safe:
  "within_frame frame s c \<Longrightarrow> 0 < max_block_size frame \<Longrightarrow>
     safely (\<lambda>(q, c'). within_frame frame s c') (decode_blocks xxh available options data frame c)"
  using independent_loop_safe linked_loop_safe
  by (cases "mode frame") (simp_all add: decode_blocks_def decode_independent_serial decode_linked_def)

lemma open_frame_within: "state_ok s \<Longrightarrow> within_frame frame s (open_frame frame s)"
  by (auto simp: within_frame_def open_frame_def state_ok_def)

lemma close_frame_safe:
  assumes "within_frame frame s c" and "state_ok s"
  shows "safely (\<lambda>(q, s'). state_ok s') (close_frame xxh data frame s p c)"
proof -
  have "safely (\<lambda>_. True) (check_content xxh data frame p c)"
    unfolding check_content_def
    by (intro outcome_intros outcome_bind [OF read_u32_safe])
      (use assms(1) in \<open>auto simp: within_frame_def outcome_simps\<close>)
  then show ?thesis
    unfolding close_frame_def
    by (rule outcome_bind, intro outcome_intros)
      (use assms in \<open>auto simp: within_frame_def state_ok_def checked_add_Some_iff tiled_snoc frame_range_def\<close>)
qed

lemma parse_frame_header_safe: "safely (\<lambda>h. 0 < max_block_size h) (parse_frame_header xxh data p)"
proof -
  have size: "safely (\<lambda>n. 0 < n) (block_size_of_code code)" for code
    by (simp add: block_size_of_code_def outcome_simps)
  show ?thesis
    unfolding parse_frame_header_def Let_def
    by (rule outcome_bind [OF read_u32_safe] outcome_bind [OF size] outcome_bind [where Q = "\<lambda>_. True"] outcome_intros
        | (auto simp: outcome_simps split: option.split; fail))+
qed

lemma decode_frame_safe:
  assumes "state_ok s"
  shows "safely (\<lambda>(q, s'). state_ok s') (decode_frame xxh available options data p s)"
  unfolding decode_frame_def
  apply (rule outcome_bind [OF parse_frame_header_safe])
  apply (rule outcome_ifI)
   apply (simp add: outcome_simps)
  apply (rule outcome_bind [OF decode_blocks_safe [OF open_frame_within [OF assms]]], assumption)
  apply (clarsimp simp: close_frame_safe assms)
  done

lemma lz4_loop_safe: "state_ok s \<Longrightarrow> safely state_ok (lz4_loop xxh available options data p s)"
proof (induction "length data - p" arbitrary: p s rule: less_induct)
  case less
  have skip: "safely (\<lambda>_. True) (skip_frame data p)"
    by (auto simp: skip_frame_def outcome_simps intro!: outcome_mono [OF read_u32_safe] split: option.split)
  show ?case
    apply (subst lz4_loop.simps)
    apply (intro outcome_ifI)
     apply (rule outcome_bind [OF read_u32_safe])
     apply (intro outcome_intros outcome_bind [OF skip] outcome_bind [OF decode_frame_safe [OF less(2)]])
        apply (auto intro!: less(1) dest: skip_frame_advances decode_frame_advances simp: less(2) outcome_simps)
    done
qed

section \<open>The 64 KiB history is enough\<close>

text \<open>\<open>suffix_window w full\<close>: the last \<open>WINDOW_SIZE\<close> bytes of everything decoded so far.\<close>

definition suffix_window :: "bytes \<Rightarrow> bytes" where
  "suffix_window full = drop (length full - WINDOW_SIZE) full"

lemma update_history_window: "update_history (suffix_window full) bs = suffix_window (full @ bs)"
proof (cases "length bs \<ge> WINDOW_SIZE")
  case True
  then have "length (full @ bs) - WINDOW_SIZE = length full + (length bs - WINDOW_SIZE)" by simp
  then show ?thesis using True by (simp add: update_history_def suffix_window_def)
next
  case False
  let ?h = "suffix_window full"
  have "length ?h + length bs \<le> 2 ^ 63"
    using False by (auto simp: suffix_window_def WINDOW_SIZE_def)
  then have sat: "sat_add (length ?h) (length bs) = length ?h + length bs" by (rule sat_add_fits)
  have "update_history ?h bs = drop (length ?h + length bs - WINDOW_SIZE) ?h @ bs"
    using False sat by (simp add: update_history_def Let_def)
  also have "drop (length ?h + length bs - WINDOW_SIZE) ?h = drop (length full + length bs - WINDOW_SIZE) full"
  proof -
    have "length ?h + length bs - WINDOW_SIZE + (length full - WINDOW_SIZE) = length full + length bs - WINDOW_SIZE"
      using False by (simp add: suffix_window_def)
    then show ?thesis by (simp add: suffix_window_def)
  qed
  finally show ?thesis using False by (simp add: suffix_window_def)
qed

lemma copy_match_window:
  assumes "offset < WINDOW_SIZE"
  shows "copy_match out (suffix_window full) offset n = copy_match out full offset n"
proof (cases "length full \<le> WINDOW_SIZE")
  case True
  then show ?thesis by (simp add: suffix_window_def)
next
  case False
  let ?w = "suffix_window full" and ?pre = "take (length full - WINDOW_SIZE) full"
  have full: "full = ?pre @ ?w" by (simp add: suffix_window_def)
  have len: "length ?w = WINDOW_SIZE" using False by (simp add: suffix_window_def)
  have "copy_bytes (full @ out) offset n = ?pre @ copy_bytes (?w @ out) offset n" if "0 < offset"
  proof -
    have "full @ out = ?pre @ (?w @ out)" using full by (metis append.assoc)
    moreover have "offset \<le> length (?w @ out)" using assms len by simp
    ultimately show ?thesis using that by (simp only: copy_bytes_prefix)
  qed
  moreover have "length full = length ?pre + length ?w" using full by (metis length_append)
  moreover have "length full - (length full - WINDOW_SIZE) = length ?w" using len False by simp
  moreover have "offset \<le> length ?w + length out" "offset \<le> length full + length out"
    using assms len calculation(2) by simp_all
  ultimately show ?thesis using length_append [of ?pre] by (cases "offset = 0") (simp_all add: copy_match_eq)
qed

lemma decompress_block_window:
  "decompress_block input (suffix_window full) max_output = decompress_block input full max_output"
proof -
  have "decompress_loop input (suffix_window full) max_output p out = decompress_loop input full max_output p out" for p out
  proof (induction "length input - p" arbitrary: p out rule: less_induct)
    case less
    have off: "unat (v :: u16) < WINDOW_SIZE" for v
      using unsigned_less [of v] by (simp add: WINDOW_SIZE_def)
    show ?case
    proof (cases "p < length input")
      case True
      show ?thesis
        apply (subst (1 2) decompress_loop.simps)
        apply (simp only: True if_True Let_def copy_match_window [OF off])
        apply (rule and_then_cong [OF refl])
        apply (clarsimp split: prod.split simp del: and_then_assoc)
        apply (intro and_then_cong if_cong refl)
        apply (clarsimp split: prod.split simp del: and_then_assoc)
        apply (intro and_then_cong if_cong refl)
        apply (rule less)
        apply (auto dest!: read_length_advances simp: ok_or_Inr_iff end_within_Some_iff)
        done
    qed (simp add: decompress_loop.simps)
  qed
  then show ?thesis by (simp add: decompress_block_def)
qed

text \<open>The linked loop with everything the frame has decoded so far as its dictionary.\<close>

function linked_full ::
  "(bytes \<Rightarrow> u32) \<Rightarrow> bytes \<Rightarrow> frame_header \<Rightarrow> nat \<Rightarrow> bytes \<Rightarrow> committer \<Rightarrow> error + nat \<times> committer" where
  "linked_full xxh data frame position full c =
     and_then (next_block data position frame) (\<lambda>(block, position).
       case block of None \<Rightarrow> Inr (position, c)
       | Some block \<Rightarrow>
           and_then (decode_layout_block xxh data block full (max_block_size frame)) (\<lambda>decoded.
           and_then (decoded_bytes data decoded) (\<lambda>bytes.
           and_then (commit data c block decoded) (\<lambda>c.
           linked_full xxh data frame position (full @ bytes) c))))"
  by pat_completeness auto
termination
  by (relation "measure (\<lambda>(xxh, data, frame, position, full, c). Suc (length data) - position)")
    (auto dest: next_block_advances)

declare linked_full.simps [simp del]

lemma decode_layout_block_window:
  "decode_layout_block xxh data block (suffix_window full) n = decode_layout_block xxh data block full n"
  by (simp add: decode_layout_block_def decompress_block_window cong: if_cong)

lemma linked_loop_window:
  "linked_loop xxh data frame p (suffix_window full) c = linked_full xxh data frame p full c"
proof (induction "Suc (length data) - p" arbitrary: p full c rule: less_induct)
  case less
  show ?case
  proof (cases "next_block data p frame")
    case (Inr a)
    then obtain block q where nb: "next_block data p frame = Inr (block, q)" by (cases a) auto
    have "p \<le> length data" "p < q" using next_block_advances [OF nb] by auto
    then have "Suc (length data) - q < Suc (length data) - p" by linarith
    then have "linked_loop xxh data frame q (suffix_window full') = linked_full xxh data frame q full'" for full'
      by (intro ext less)
    then show ?thesis
      by (cases block) (simp_all add: nb linked_loop.simps [of xxh data frame p] linked_full.simps [of xxh data frame p]
          decode_layout_block_window update_history_window)
  qed (simp add: linked_loop.simps [of xxh data frame p] linked_full.simps [of xxh data frame p])
qed

section \<open>Properties\<close>

lemma lz4_same_result:
  assumes "decode_validate options = Inr options" and "decode_validate options' = Inr options'"
  shows "lz4_decompress xxh available options data = lz4_decompress xxh available' options' data"
  unfolding lz4_decompress_def assms and_then.simps
  by (simp only: lz4_loop_threads [of xxh available options data 0 _ available' options'])

text \<open>C4. Parallel decoding is deterministic: the thread count, the processor count and the memory limit
  change nothing about what an LZ4 input decodes to, its report, its progress reports or its error.\<close>

theorem lz4_threads_irrelevant:
  assumes "decode_validate options = Inr options" and "decode_validate options' = Inr options'"
  shows "lz4_decompress xxh available options data = lz4_decompress xxh available' options' data"
  using assms by (rule lz4_same_result)

theorem lz4_threads_irrelevant_witness:
  "lz4_decompress (\<lambda>_. 0) (Some 8) \<lparr>do_threads = 0, do_memory_limit = 2 ^ 30\<rparr> [1, 2, 3] =
   lz4_decompress (\<lambda>_. 0) None \<lparr>do_threads = 1, do_memory_limit = 2 ^ 26\<rparr> [1, 2, 3]"
  by (rule lz4_threads_irrelevant) (simp_all add: decode_validate_def MAX_DECODED_BLOCK_def MAX_ENCODED_BLOCK_def)

text \<open>C5. On arbitrary input the frame decoder never panics, and a report it returns describes its output:
  the decoded length is the output's, and both the frames and the blocks tile the output without gaps.\<close>

theorem lz4_decompress_safe:
  "case lz4_decompress xxh available options data of
     Inl e \<Rightarrow> e \<noteq> Panic
   | Inr (out, report, _) \<Rightarrow> rp_decoded_len report = length out \<and> rp_frames report \<noteq> [] \<and>
       tiled 0 (map frame_range (rp_frames report)) (length out) \<and>
       tiled 0 (map block_range (rp_blocks report)) (length out)"
proof -
  have init: "state_ok \<lparr>ls_sink = [], ls_progress = [], ls_frames = [], ls_blocks = [], ls_total = 0\<rparr>"
    by (simp add: state_ok_def)
  have "safely (\<lambda>_. True) (decode_validate options)" by (simp add: decode_validate_def outcome_simps)
  then have "safely (\<lambda>(out, report, _). rp_decoded_len report = length out \<and> rp_frames report \<noteq> [] \<and>
       tiled 0 (map frame_range (rp_frames report)) (length out) \<and>
       tiled 0 (map block_range (rp_blocks report)) (length out)) (lz4_decompress xxh available options data)"
    unfolding lz4_decompress_def
    by (rule outcome_bind, intro outcome_bind [OF lz4_loop_safe [OF init]] outcome_intros)
      (auto simp: state_ok_def)
  then show ?thesis by (simp add: outcome_def)
qed

text \<open>C12. Linked blocks: the 64 KiB history the decoder keeps is equivalent to keeping everything the frame
  has decoded, because no match offset reaches beyond it.\<close>

theorem linked_history_enough:
  "decode_linked xxh data frame position c = linked_full xxh data frame position [] c"
  using linked_loop_window [of xxh data frame position "[]" c]
  by (simp add: decode_linked_def suffix_window_def)

end
