(* ===== verification/Lz4_Encoder.thy ===== *)
theory Lz4_Encoder
  imports Lz4_Frame
begin

text \<open>
  \<open>Encoder\<close> of \<open>src/lz4_encode.rs\<close>: it buffers its input into blocks, compresses them on the ordered
  pool and writes a frame with independent blocks and a content checksum. Proved: whatever the sizes of
  the writes, the number of threads, the memory limit and the order in which workers finish, the frame
  decodes to the bytes written.
\<close>

section \<open>The encoder\<close>

definition TARGET_BLOCK_SIZE :: nat where "TARGET_BLOCK_SIZE = 4 * 1024 * 1024"
definition MIN_BLOCK_SIZE :: nat where "MIN_BLOCK_SIZE = 64 * 1024"

record lz4_encoded =
  eb_bytes :: bytes
  eb_input_len :: nat
  eb_stored :: bool

definition lz4_encode_block :: "bytes \<Rightarrow> nat \<Rightarrow> lz4_encoded" where
  "lz4_encode_block input level =
     (let input_len = length input; encoded = compress_block input level in
      if length encoded < length input
      then \<lparr>eb_bytes = encoded, eb_input_len = input_len, eb_stored = False\<rparr>
      else \<lparr>eb_bytes = input, eb_input_len = input_len, eb_stored = True\<rparr>)"

definition lz4_reservation :: "nat \<Rightarrow> nat" where
  "lz4_reservation block_size = sat_add (sat_mul block_size 6) (2 ^ 16 * 4)"

function select_size :: "nat \<Rightarrow> nat \<Rightarrow> nat" where
  "select_size limit n =
     (if n > MIN_BLOCK_SIZE \<and> lz4_reservation n > limit then select_size limit (n div 4) else n)"
  by pat_completeness auto
termination
  by (relation "measure snd") (auto simp: MIN_BLOCK_SIZE_def)

declare select_size.simps [simp del]

definition selected_block_size :: "nat \<Rightarrow> error + nat" where
  "selected_block_size limit =
     (let size = select_size limit TARGET_BLOCK_SIZE in
      if lz4_reservation size > limit then Inl (InvalidConfiguration MemoryLimitTooSmall) else Inr size)"

definition descriptor_code :: "nat \<Rightarrow> byte" where
  "descriptor_code block_size =
     (if 64000 \<le> block_size \<and> block_size \<le> 65536 then 4
      else if 65537 \<le> block_size \<and> block_size \<le> 262144 then 5
      else if 262145 \<le> block_size \<and> block_size \<le> 1048576 then 6 else 7)"

record lz4_writer =
  lw_output :: bytes
  lw_input_len :: nat
  lw_output_len :: nat
  lw_blocks :: nat

record lz4_encoder =
  le_pool :: "lz4_encoded streaming \<times> lz4_writer"
  le_level :: nat
  le_buffer :: bytes
  le_block_size :: nat
  le_reservation :: nat
  le_hashed :: bytes

record lz4_encode_report =
  er_input_len :: nat
  er_output_len :: nat
  er_blocks :: nat

definition frame_start :: "(bytes \<Rightarrow> u32) \<Rightarrow> nat \<Rightarrow> bytes" where
  "frame_start xxh block_size =
     (let flg = 0x64; bd = push_bit 4 (descriptor_code block_size);
          checksum = ucast (drop_bit 8 (xxh [flg, bd]))
      in u32_to_le FRAME_MAGIC @ [flg, bd, checksum])"

definition lz4_new :: "(bytes \<Rightarrow> u32) \<Rightarrow> nat option \<Rightarrow> encode_options \<Rightarrow> error + lz4_encoder" where
  "lz4_new xxh available options =
     and_then (encode_validate options) (\<lambda>options.
     and_then (selected_block_size (eo_memory_limit options)) (\<lambda>block_size.
     let reservation = lz4_reservation block_size;
         workers = min (encode_resolved_threads available options)
           (max (eo_memory_limit options div reservation) 1)
     in Inr \<lparr>le_pool = (streaming_new workers (eo_memory_limit options),
            \<lparr>lw_output = frame_start xxh block_size, lw_input_len = 0, lw_output_len = 7, lw_blocks = 0\<rparr>),
          le_level = level_or options 1, le_buffer = [], le_block_size = block_size,
          le_reservation = reservation, le_hashed = []\<rparr>))"

definition lz4_commit :: "lz4_writer \<Rightarrow> lz4_encoded \<Rightarrow> error + lz4_writer" where
  "lz4_commit w block =
     (let size = word_of_nat (length (eb_bytes block)) :: u32;
          size = (if eb_stored block then size OR push_bit 31 1 else size)
      in Inr (w\<lparr>lw_output := lw_output w @ u32_to_le size @ eb_bytes block,
             lw_input_len := lw_input_len w + eb_input_len block,
             lw_output_len := lw_output_len w + (4 + length (eb_bytes block)),
             lw_blocks := lw_blocks w + 1\<rparr>))"

definition lz4_submit_buffer :: "lz4_encoded schedule \<Rightarrow> lz4_encoder \<Rightarrow> error + lz4_encoder" where
  "lz4_submit_buffer pick e =
     (if le_buffer e = [] then Inr e
      else and_then (submit_ordered pick lz4_commit (le_reservation e)
             (Some (lz4_encode_block (le_buffer e) (le_level e))) (le_pool e)) (\<lambda>pool.
           Inr (e\<lparr>le_pool := pool, le_buffer := []\<rparr>)))"

definition lz4_flush_blocks :: "lz4_encoded schedule \<Rightarrow> lz4_encoder \<Rightarrow> error + lz4_encoder" where
  "lz4_flush_blocks pick e =
     and_then (lz4_submit_buffer pick e) (\<lambda>e.
     and_then (drain pick lz4_commit (le_pool e)) (\<lambda>pool. Inr (e\<lparr>le_pool := pool\<rparr>)))"

text \<open>
  The \<open>while\<close> of \<open>write\<close>. A full buffer is submitted at once, so there is always room when the loop
  comes round; the case of a buffer that is full already, which the code would submit first, never occurs
  and is a panic here.
\<close>

function lz4_write_loop :: "lz4_encoded schedule \<Rightarrow> lz4_encoder \<Rightarrow> bytes \<Rightarrow> error + lz4_encoder" where
  "lz4_write_loop pick e bytes =
     (if bytes = [] then Inr e
      else (let taken = min (length bytes) (le_block_size e - length (le_buffer e)) in
        if taken = 0 then Inl Panic
        else (let e = e\<lparr>le_buffer := le_buffer e @ take taken bytes\<rparr> in
          and_then (if length (le_buffer e) = le_block_size e then lz4_submit_buffer pick e else Inr e) (\<lambda>e.
          lz4_write_loop pick e (drop taken bytes)))))"
  by pat_completeness auto
termination
  by (relation "measure (\<lambda>(pick, e, bytes). length bytes)") auto

declare lz4_write_loop.simps [simp del]

definition lz4_write :: "lz4_encoded schedule \<Rightarrow> bytes \<Rightarrow> lz4_encoder \<Rightarrow> error + lz4_encoder" where
  "lz4_write pick bytes e = lz4_write_loop pick (e\<lparr>le_hashed := le_hashed e @ bytes\<rparr>) bytes"

definition lz4_finish ::
  "(bytes \<Rightarrow> u32) \<Rightarrow> lz4_encoded schedule \<Rightarrow> lz4_encoder \<Rightarrow> error + bytes \<times> lz4_encode_report" where
  "lz4_finish xxh pick e =
     and_then (lz4_flush_blocks pick e) (\<lambda>e.
     let w = snd (le_pool e);
         out = lw_output w @ u32_to_le 0 @ u32_to_le (xxh (le_hashed e))
     in Inr (out, \<lparr>er_input_len = lw_input_len w, er_output_len = lw_output_len w + 8, er_blocks = lw_blocks w\<rparr>))"

text \<open>
  \<open>compress_to_writer\<close>: \<open>io::copy\<close> writes the input in chunks of its own choosing. A chunk may also be
  followed by a \<open>flush\<close> (\<open>Write::flush\<close> of the encoder), which ends the current block.
\<close>

fun lz4_write_all :: "lz4_encoded schedule \<Rightarrow> (bytes \<times> bool) list \<Rightarrow> lz4_encoder \<Rightarrow> error + lz4_encoder" where
  "lz4_write_all pick [] e = Inr e"
| "lz4_write_all pick (chunk # chunks) e =
     and_then (lz4_write pick (fst chunk) e) (\<lambda>e.
     and_then (if snd chunk then lz4_flush_blocks pick e else Inr e) (lz4_write_all pick chunks))"

definition lz4_compress ::
  "(bytes \<Rightarrow> u32) \<Rightarrow> nat option \<Rightarrow> lz4_encoded schedule \<Rightarrow> encode_options \<Rightarrow> (bytes \<times> bool) list \<Rightarrow>
   error + bytes \<times> lz4_encode_report" where
  "lz4_compress xxh available pick options chunks =
     and_then (lz4_new xxh available options) (\<lambda>e.
     and_then (lz4_write_all pick chunks e) (lz4_finish xxh pick))"

section \<open>What the encoder writes\<close>

definition frame_block :: "lz4_encoded \<Rightarrow> bytes" where
  "frame_block block =
     u32_to_le (if eb_stored block then word_of_nat (length (eb_bytes block)) OR push_bit 31 1
                else word_of_nat (length (eb_bytes block))) @ eb_bytes block"

definition encodes :: "nat \<Rightarrow> nat \<Rightarrow> bytes \<Rightarrow> lz4_encoded \<Rightarrow> bool" where
  "encodes block_size level input block \<longleftrightarrow>
     block = lz4_encode_block input level \<and> input \<noteq> [] \<and> length input \<le> block_size"

definition lz4_committed :: "bytes \<Rightarrow> lz4_writer \<Rightarrow> lz4_encoded list \<Rightarrow> bool" where
  "lz4_committed start w bs \<longleftrightarrow>
     lw_output w = start @ concat (map frame_block bs) \<and> lw_output_len w = length (lw_output w) \<and>
     lw_input_len w = sum_list (map eb_input_len bs) \<and> lw_blocks w = length bs"

interpretation lz4: ordered_commit lz4_commit "lz4_committed start" "\<lambda>b. \<exists>input. encodes block_size level input b"
  for start block_size level
proof
  fix w vs v assume "lz4_committed start w vs"
  then show "\<exists>w'. lz4_commit w v = Inr w' \<and> lz4_committed start w' (vs @ [v])"
    by (simp add: lz4_commit_def lz4_committed_def frame_block_def Let_def)
qed

text \<open>The encoder's invariant: the submitted blocks are those of the plain bytes before the buffer.\<close>

definition encoder_ok :: "bytes \<Rightarrow> nat \<Rightarrow> nat \<Rightarrow> nat \<Rightarrow> lz4_encoder \<Rightarrow> bytes \<Rightarrow> bool" where
  "encoder_ok start limit block_size level e plain \<longleftrightarrow>
     le_block_size e = block_size \<and> le_level e = level \<and> le_reservation e \<le> limit \<and> 0 < block_size \<and>
     length (le_buffer e) < block_size \<and>
     (\<exists>parts bs. plain = concat parts @ le_buffer e \<and> list_all2 (encodes block_size level) parts bs \<and>
        lz4.carries start block_size level limit (le_pool e) bs)"

lemma lz4_submit_buffer_ok:
  assumes ok: "encoder_ok start limit block_size level (e\<lparr>le_buffer := []\<rparr>) plain"
    and len: "length (le_buffer e) \<le> block_size"
  shows "\<exists>e'. lz4_submit_buffer pick e = Inr e' \<and> le_buffer e' = [] \<and>
    encoder_ok start limit block_size level e' (plain @ le_buffer e) \<and> le_hashed e' = le_hashed e"
proof (cases "le_buffer e = []")
  case True
  then show ?thesis using ok by (auto simp: lz4_submit_buffer_def encoder_ok_def)
next
  case False
  obtain parts bs where p: "plain = concat parts" "list_all2 (encodes block_size level) parts bs"
    and c: "lz4.carries start block_size level limit (le_pool e) bs"
    and lv: "le_level e = level" and r: "le_reservation e \<le> limit"
    using ok by (auto simp: encoder_ok_def)
  let ?b = "lz4_encode_block (le_buffer e) (le_level e)"
  have enc: "encodes block_size level (le_buffer e) ?b"
    using False len lv by (simp add: encodes_def)
  then obtain pool where pool: "submit_ordered pick lz4_commit (le_reservation e) (Some ?b) (le_pool e) = Inr pool"
    "lz4.carries start block_size level limit pool (bs @ [?b])"
    using lz4.carries_submit [OF c r, of ?b pick] by auto
  have "list_all2 (encodes block_size level) (parts @ [le_buffer e]) (bs @ [?b])"
    using p(2) enc by (simp add: list_all2_appendI)
  then show ?thesis
    using False ok pool p(1)
    by (auto simp: lz4_submit_buffer_def encoder_ok_def intro!: exI [of _ "parts @ [le_buffer e]"] exI [of _ "bs @ [?b]"])
qed

lemma encoder_ok_before:
  "encoder_ok start limit block_size level e plain \<Longrightarrow>
     \<exists>before. plain = before @ le_buffer e \<and> encoder_ok start limit block_size level (e\<lparr>le_buffer := []\<rparr>) before"
  by (auto simp: encoder_ok_def)

lemma lz4_flush_ok:
  assumes "encoder_ok start limit block_size level e plain"
  shows "\<exists>e'. lz4_flush_blocks pick e = Inr e' \<and> encoder_ok start limit block_size level e' plain \<and>
    le_hashed e' = le_hashed e \<and>
    (\<exists>parts bs. plain = concat parts \<and> list_all2 (encodes block_size level) parts bs \<and>
       lz4_committed start (snd (le_pool e')) bs)"
proof -
  obtain before where plain: "plain = before @ le_buffer e"
    and ok: "encoder_ok start limit block_size level (e\<lparr>le_buffer := []\<rparr>) before"
    using encoder_ok_before [OF assms] by blast
  have "length (le_buffer e) \<le> block_size" using assms by (auto simp: encoder_ok_def)
  then obtain e1 where e1: "lz4_submit_buffer pick e = Inr e1" "le_buffer e1 = []"
    "encoder_ok start limit block_size level e1 plain" "le_hashed e1 = le_hashed e"
    using lz4_submit_buffer_ok [OF ok] plain by fastforce
  then obtain parts bs where p: "plain = concat parts" "list_all2 (encodes block_size level) parts bs"
    and c: "lz4.carries start block_size level limit (le_pool e1) bs"
    by (auto simp: encoder_ok_def)
  obtain q w where d: "drain pick lz4_commit (le_pool e1) = Inr (q, w)" "lz4_committed start w bs"
    "lz4.carries start block_size level limit (q, w) bs"
    using lz4.carries_drain [OF c, of pick] by blast
  have "encoder_ok start limit block_size level (e1\<lparr>le_pool := (q, w)\<rparr>) plain"
    using e1(2,3) p d(3) by (auto simp: encoder_ok_def)
  then show ?thesis using e1 p d by (auto simp: lz4_flush_blocks_def)
qed

lemma lz4_write_loop_ok:
  assumes "encoder_ok start limit block_size level e plain"
  shows "\<exists>e'. lz4_write_loop pick e bs = Inr e' \<and> encoder_ok start limit block_size level e' (plain @ bs) \<and>
    le_hashed e' = le_hashed e"
  using assms
proof (induction "length bs" arbitrary: bs e plain rule: less_induct)
  case less
  show ?case
  proof (cases "bs = []")
    case False
    define taken where "taken = min (length bs) (block_size - length (le_buffer e))"
    have size: "le_block_size e = block_size" and room: "length (le_buffer e) < block_size"
      using less(2) by (auto simp: encoder_ok_def)
    then have t: "0 < taken" "taken \<le> length bs" using False by (auto simp: taken_def)
    let ?e = "e\<lparr>le_buffer := le_buffer e @ take taken bs\<rparr>"
    obtain before where plain: "plain = before @ le_buffer e"
      and ok: "encoder_ok start limit block_size level (e\<lparr>le_buffer := []\<rparr>) before"
      using encoder_ok_before [OF less(2)] by blast
    have len: "length (le_buffer ?e) \<le> block_size" using room by (auto simp: taken_def)
    obtain e1 where e1: "(if length (le_buffer ?e) = block_size then lz4_submit_buffer pick ?e else Inr ?e) = Inr e1"
      "encoder_ok start limit block_size level e1 (plain @ take taken bs)" "le_hashed e1 = le_hashed e"
    proof (cases "length (le_buffer ?e) = block_size")
      case True
      have "encoder_ok start limit block_size level (?e\<lparr>le_buffer := []\<rparr>) before" using ok by simp
      from lz4_submit_buffer_ok [OF this len, of pick] show ?thesis using that True plain by auto
    next
      case False
      then have "length (le_buffer ?e) < block_size" using len by simp
      then have "encoder_ok start limit block_size level ?e (plain @ take taken bs)"
        using less(2) by (auto simp: encoder_ok_def)
      then show ?thesis using that False by simp
    qed
    have shorter: "length (drop taken bs) < length bs" using t by simp
    obtain e2 where "lz4_write_loop pick e1 (drop taken bs) = Inr e2"
      "encoder_ok start limit block_size level e2 ((plain @ take taken bs) @ drop taken bs)" "le_hashed e2 = le_hashed e1"
      using less(1) [OF shorter e1(2)] by auto
    then show ?thesis using False size t e1(1,3)
      by (simp add: lz4_write_loop.simps [of pick e bs] Let_def taken_def [symmetric] cong: if_cong)
  qed (use less(2) in \<open>simp add: lz4_write_loop.simps\<close>)
qed

lemma encoder_ok_hashed [simp]:
  "encoder_ok start limit block_size level (e\<lparr>le_hashed := h\<rparr>) plain = encoder_ok start limit block_size level e plain"
  by (simp add: encoder_ok_def)

lemma lz4_write_all_ok:
  assumes "encoder_ok start limit block_size level e plain" and "le_hashed e = plain"
  shows "\<exists>e'. lz4_write_all pick chunks e = Inr e' \<and> le_hashed e' = plain @ concat (map fst chunks) \<and>
    encoder_ok start limit block_size level e' (plain @ concat (map fst chunks))"
  using assms
proof (induction chunks arbitrary: e plain)
  case (Cons chunk chunks)
  let ?plain = "plain @ fst chunk"
  have "encoder_ok start limit block_size level (e\<lparr>le_hashed := le_hashed e @ fst chunk\<rparr>) plain"
    using Cons.prems by simp
  from lz4_write_loop_ok [OF this, of pick "fst chunk"] obtain e1 where e1: "lz4_write pick (fst chunk) e = Inr e1"
    "encoder_ok start limit block_size level e1 ?plain" "le_hashed e1 = ?plain"
    using Cons.prems(2) by (auto simp: lz4_write_def)
  obtain e2 where "(if snd chunk then lz4_flush_blocks pick e1 else Inr e1) = Inr e2"
    "encoder_ok start limit block_size level e2 ?plain" "le_hashed e2 = ?plain"
    using lz4_flush_ok [OF e1(2), of pick] e1 by (cases "snd chunk") auto
  then show ?case using Cons.IH [of e2 ?plain] e1 by simp
qed simp

section \<open>The frame decodes to the input\<close>

lemma selected_block_size_cases:
  assumes "selected_block_size limit = Inr n"
  shows "n \<in> {4 * 1024 * 1024, 1024 * 1024, 256 * 1024, 64 * 1024}" and "lz4_reservation n \<le> limit"
proof -
  have n: "n = select_size limit (4 * 1024 * 1024)"
    using assms by (auto simp: selected_block_size_def TARGET_BLOCK_SIZE_def Let_def split: if_splits)
  have step: "select_size limit m \<in> {m} \<union> {select_size limit (m div 4)}" for m
    by (subst select_size.simps) auto
  have last: "select_size limit (64 * 1024) = 64 * 1024"
    by (subst select_size.simps) (simp add: MIN_BLOCK_SIZE_def)
  show "n \<in> {4 * 1024 * 1024, 1024 * 1024, 256 * 1024, 64 * 1024}"
    using step [of "4 * 1024 * 1024"] step [of "1024 * 1024"] step [of "256 * 1024"] last unfolding n by auto
  show "lz4_reservation n \<le> limit"
    using assms by (auto simp: selected_block_size_def Let_def split: if_splits)
qed

lemma uncompressed_bits:
  fixes n :: nat
  assumes "n < 2 ^ 31"
  defines "v \<equiv> word_of_nat n :: u32"
  shows "v AND UNCOMPRESSED_BIT = 0" and "(v OR push_bit 31 1) AND UNCOMPRESSED_BIT \<noteq> 0"
    and "v AND NOT UNCOMPRESSED_BIT = v" and "(v OR push_bit 31 1) AND NOT UNCOMPRESSED_BIT = v"
    and "unat v = n"
proof -
  have "take_bit 31 n = n" using assms(1) by (simp add: take_bit_nat_eq_self)
  then have "bit n i \<Longrightarrow> i < 31" for i by (metis bit_take_bit_iff)
  then have b: "bit v i \<Longrightarrow> i < 31" for i by (simp add: v_def bit_of_nat_iff)
  have ub: "bit UNCOMPRESSED_BIT i \<longleftrightarrow> i = 31" for i
    unfolding UNCOMPRESSED_BIT_def bit_push_bit_iff bit_1_iff by (auto simp: possible_bit_word)
  show "v AND UNCOMPRESSED_BIT = 0" by (rule bit_eqI) (auto simp: bit_and_iff ub dest: b)
  have "bit ((v OR push_bit 31 1) AND UNCOMPRESSED_BIT) 31"
    by (simp add: bit_and_iff bit_or_iff ub)
  then show "(v OR push_bit 31 1) AND UNCOMPRESSED_BIT \<noteq> 0" by auto
  show "v AND NOT UNCOMPRESSED_BIT = v"
    by (rule bit_eqI) (auto simp: bit_and_iff bit_not_iff ub dest: b)
  show "(v OR push_bit 31 1) AND NOT UNCOMPRESSED_BIT = v"
    unfolding UNCOMPRESSED_BIT_def [symmetric]
    by (rule bit_eqI) (auto simp: bit_and_iff bit_or_iff bit_not_iff ub dest: b)
  show "unat v = n" using assms(1) by (simp add: v_def unat_of_nat)
qed

lemma compress_block_nonempty: "compress_block input level \<noteq> []"
  by (auto simp: compress_block_def compress_block_fast_def compress_block_high_def write_last_literals_eq
      Let_def split: prod.split)

lemma encodes_facts:
  assumes "encodes n level input b" and "n \<le> 4 * 1024 * 1024"
  shows "0 < length (eb_bytes b)" and "length (eb_bytes b) \<le> n" and "eb_input_len b = length input"
    and "eb_stored b \<Longrightarrow> eb_bytes b = input"
    and "\<not> eb_stored b \<Longrightarrow> decompress_block (eb_bytes b) [] n = Inr input"
proof -
  have small: "length input < 2 ^ 32 - 1" "length input \<le> n" "n < 2 ^ 63"
    using assms by (auto simp: encodes_def)
  show "0 < length (eb_bytes b)" "length (eb_bytes b) \<le> n" "eb_input_len b = length input"
    "eb_stored b \<Longrightarrow> eb_bytes b = input"
    using assms compress_block_nonempty by (auto simp: encodes_def lz4_encode_block_def Let_def)
  show "\<not> eb_stored b \<Longrightarrow> decompress_block (eb_bytes b) [] n = Inr input"
    using assms compress_block_roundtrip(1) [OF small]
    by (auto simp: encodes_def lz4_encode_block_def Let_def split: if_splits)
qed

lemma read_u32_drop:
  assumes "drop p data = u32_to_le v @ rest" and "length data < 2 ^ 63"
  shows "read_u32 data p = Inr v"
proof -
  have "length (drop p data) = 4 + length rest" using assms(1) by simp
  then have p: "p + 4 \<le> length data" by simp
  then have "get_range data p (p + 4) = Some (u32_to_le v)"
    using get_range_drop [OF assms(1)] by simp
  moreover have "sat_add p 4 = p + 4" using p assms(2) by (intro sat_add_fits) simp
  ultimately show ?thesis by (simp add: read_u32_def)
qed

lemma next_block_frame_block:
  assumes d: "drop p data = frame_block b @ rest" and enc: "encodes n level input b"
    and n: "n \<le> 4 * 1024 * 1024" "max_block_size frame = n" and cs: "\<not> block_checksums frame"
    and fit: "length data < 2 ^ 63"
  defines "q \<equiv> p + 4 + length (eb_bytes b)"
  shows "next_block data p frame =
      Inr (Some \<lparr>data_start = p + 4, data_end = q, stored = eb_stored b, expected_checksum = None\<rparr>, q)"
    and "slice_of data (p + 4) q = eb_bytes b" and "q \<le> length data" and "drop q data = rest"
proof -
  note ef = encodes_facts [OF enc n(1)]
  let ?v = "word_of_nat (length (eb_bytes b)) :: u32"
  let ?h = "if eb_stored b then ?v OR push_bit 31 1 else ?v"
  have small: "length (eb_bytes b) < 2 ^ 31" using ef(2) n(1) by simp
  note ub = uncompressed_bits [OF small]
  have d0: "drop p data = u32_to_le ?h @ eb_bytes b @ rest" using d by (simp add: frame_block_def)
  have r: "read_u32 data p = Inr ?h" by (rule read_u32_drop [OF d0 fit])
  have d1: "drop (p + 4) data = eb_bytes b @ rest" using drop_append_step [OF d0] by simp
  then show "drop q data = rest" unfolding q_def by (rule drop_append_step)
  show "slice_of data (p + 4) q = eb_bytes b" unfolding q_def by (rule slice_drop [OF d1])
  have "length (drop (p + 4) data) = length (eb_bytes b) + length rest" using d1 by simp
  then show q: "q \<le> length data" using ef(1) unfolding q_def length_drop by linarith
  have nz: "?h \<noteq> 0"
  proof
    assume "?h = 0"
    then have "unat ?v = 0" using ub(4) by (auto split: if_splits)
    then show False using ub(5) ef(1) by simp
  qed
  have size: "unat (?h AND NOT UNCOMPRESSED_BIT) = length (eb_bytes b)" using ub by simp
  have st: "(?h AND UNCOMPRESSED_BIT \<noteq> 0) = eb_stored b" using ub by simp
  have e: "end_within (p + 4) (length (eb_bytes b)) (length data) = Some q"
    using q fit by (simp add: end_within_Some_iff q_def usize_max_def)
  show "next_block data p frame =
      Inr (Some \<lparr>data_start = p + 4, data_end = q, stored = eb_stored b, expected_checksum = None\<rparr>, q)"
    unfolding next_block_def r and_then.simps Let_def size st
    using nz ef(1,2) e n(2) cs by simp
qed

lemma decode_frame_block:
  assumes "encodes n level input b" and "n \<le> 4 * 1024 * 1024" and "slice_of data a q = eb_bytes b"
    and "q \<le> length data" and "a \<le> q"
  shows "\<exists>d. decode_layout_block xxh data \<lparr>data_start = a, data_end = q, stored = eb_stored b, expected_checksum = None\<rparr> [] n
    = Inr d \<and> decoded_bytes data d = Inr input"
  using encodes_facts(4,5) [OF assms(1,2)] assms(3-5)
  by (cases "eb_stored b") (auto simp: decode_layout_block_def)

lemma commit_fits:
  assumes "decoded_bytes data d = Inr bs" and "decoded c + length bs \<le> usize_max"
  shows "\<exists>c'. commit data c layout d = Inr c' \<and> sink c' = sink c @ bs \<and> decoded c' = decoded c + length bs \<and>
    hasher c' = map_option (\<lambda>h. h @ bs) (hasher c)"
  using assms by (simp add: commit_def Let_def checked_add_def)

lemma independent_loop_blocks:
  assumes "list_all2 (encodes n level) parts bs" and "n \<le> 4 * 1024 * 1024" and "max_block_size frame = n"
    and "\<not> block_checksums frame" and "length data < 2 ^ 63"
    and "drop p data = concat (map frame_block bs) @ u32_to_le 0 @ rest"
    and "decoded c + length (concat parts) \<le> usize_max"
  shows "\<exists>c'. independent_loop xxh data frame p c = Inr (p + length (concat (map frame_block bs)) + 4, c') \<and>
    sink c' = sink c @ concat parts \<and> decoded c' = decoded c + length (concat parts) \<and>
    hasher c' = map_option (\<lambda>h. h @ concat parts) (hasher c)"
  using assms(1,6,7)
proof (induction parts bs arbitrary: p c rule: list_all2_induct)
  case Nil
  then have "read_u32 data p = Inr 0" using read_u32_drop assms(5) by simp
  then have "next_block data p frame = Inr (None, p + 4)" by (simp add: next_block_def)
  then show ?case by (simp add: independent_loop.simps [of xxh data frame p] option.map_ident)
next
  case (Cons input parts b bs)
  let ?q = "p + 4 + length (eb_bytes b)"
  have d: "drop p data = frame_block b @ (concat (map frame_block bs) @ u32_to_le 0 @ rest)"
    using Cons.prems(1) by simp
  note nb = next_block_frame_block [OF d Cons.hyps(1) assms(2-5)]
  obtain x where x: "decode_layout_block xxh data \<lparr>data_start = p + 4, data_end = ?q, stored = eb_stored b,
      expected_checksum = None\<rparr> [] n = Inr x" "decoded_bytes data x = Inr input"
    using decode_frame_block [OF Cons.hyps(1) assms(2) nb(2,3)] by auto
  obtain c1 where c1: "commit data c \<lparr>data_start = p + 4, data_end = ?q, stored = eb_stored b,
      expected_checksum = None\<rparr> x = Inr c1" "sink c1 = sink c @ input" "decoded c1 = decoded c + length input"
      "hasher c1 = map_option (\<lambda>h. h @ input) (hasher c)"
    using commit_fits [OF x(2), of c "\<lparr>data_start = p + 4, data_end = ?q, stored = eb_stored b,
      expected_checksum = None\<rparr>"] Cons.prems(2) by auto
  obtain c2 where c2: "independent_loop xxh data frame ?q c1 = Inr (?q + length (concat (map frame_block bs)) + 4, c2)"
    "sink c2 = sink c1 @ concat parts" "decoded c2 = decoded c1 + length (concat parts)"
    "hasher c2 = map_option (\<lambda>h. h @ concat parts) (hasher c1)"
    using Cons.IH [OF nb(4), of c1] c1(3) Cons.prems(2) by auto
  have len: "length (frame_block b) = 4 + length (eb_bytes b)" by (simp add: frame_block_def)
  show ?case
    using nb(1) x(1) c1 c2 assms(3)
    by (simp add: independent_loop.simps [of xxh data frame p c] len option.map_comp comp_def add.assoc)
qed

lemma frame_start_header:
  assumes n: "n \<in> {4 * 1024 * 1024, 1024 * 1024, 256 * 1024, 64 * 1024}"
  shows "parse_frame_header xxh (frame_start xxh n @ rest) 0 =
      Inr \<lparr>source_start = 0, blocks_start = 7, max_block_size = n, mode = Independent, block_checksums = False,
        content_checksum = True, content_size = None\<rparr>"
proof -
  let ?bd = "push_bit 4 (descriptor_code n) :: byte"
  let ?ck = "ucast (drop_bit 8 (xxh [0x64, ?bd])) :: byte"
  let ?data = "frame_start xxh n @ rest"
  have data: "?data = u32_to_le FRAME_MAGIC @ [0x64, ?bd, ?ck] @ rest"
    by (simp add: frame_start_def Let_def)
  have bd: "?bd AND 0x8f = 0" "block_size_of_code (drop_bit 4 ?bd AND 7) = Inr n"
    using n by (auto simp: descriptor_code_def block_size_of_code_def)
  have g: "get_at ?data 4 = Some 0x64" "get_at ?data 5 = Some ?bd" "get_at ?data 6 = Some ?ck"
    unfolding data by (simp_all add: get_at_def nth_append)
  have r: "get_range ?data 4 6 = Some [0x64, ?bd]"
    unfolding data by (simp add: get_range_def slice_of_def)
  show ?thesis
    unfolding parse_frame_header_def Let_def by (simp add: g r bd)
qed

lemma frame_start_magic: "length (frame_start xxh n) = 7" "\<exists>hd. frame_start xxh n = u32_to_le FRAME_MAGIC @ hd"
  by (simp_all add: frame_start_def Let_def)

lemma decode_frame_bytes:
  assumes parts: "list_all2 (encodes n level) parts bs"
    and n: "n \<in> {4 * 1024 * 1024, 1024 * 1024, 256 * 1024, 64 * 1024}"
    and out: "out = frame_start xxh n @ concat (map frame_block bs) @ u32_to_le 0 @ u32_to_le (xxh (concat parts))"
    and fit: "length out < 2 ^ 63" "length (concat parts) \<le> usize_max"
    and opts: "decode_validate options = Inr options"
  shows "\<exists>report progress. lz4_decompress xxh available options out = Inr (concat parts, report, progress)"
proof -
  let ?plain = "concat parts"
  let ?h = "\<lparr>source_start = 0, blocks_start = 7, max_block_size = n, mode = Independent, block_checksums = False,
        content_checksum = True, content_size = None\<rparr>"
  let ?s = "\<lparr>ls_sink = [], ls_progress = [], ls_frames = [], ls_blocks = [], ls_total = 0\<rparr>"
  let ?c = "open_frame ?h ?s"
  have small: "n \<le> 4 * 1024 * 1024" "0 < n" using n by auto
  have len: "length out = 7 + length (concat (map frame_block bs)) + 8"
    by (simp add: out frame_start_magic(1))
  obtain hd where "frame_start xxh n = u32_to_le FRAME_MAGIC @ hd" using frame_start_magic(2) by blast
  then have "read_u32 out 0 = Inr FRAME_MAGIC"
    using read_u32_drop [of 0 out FRAME_MAGIC] fit(1) out by simp
  have h: "parse_frame_header xxh out 0 = Inr ?h" unfolding out by (rule frame_start_header [OF n])
  have d: "drop 7 out = concat (map frame_block bs) @ u32_to_le 0 @ u32_to_le (xxh ?plain)"
    by (simp add: out frame_start_magic(1))
  let ?q = "7 + length (concat (map frame_block bs)) + 4"
  obtain c where c: "independent_loop xxh out ?h 7 ?c = Inr (?q, c)" "sink c = ?plain"
    "decoded c = length ?plain" "hasher c = Some ?plain"
    using independent_loop_blocks [OF parts small(1) _ _ fit(1) d, of ?h ?c xxh] fit(2)
    by (auto simp: open_frame_def)
  have dq: "drop ?q out = u32_to_le (xxh ?plain) @ []"
    using drop_append_step [OF drop_append_step [OF d]] by simp
  have ck: "check_content xxh out ?h ?q c = Inr (?q + 4)"
    using read_u32_drop [OF dq fit(1)] c(4) by (simp add: check_content_def)
  obtain s' where s': "close_frame xxh out ?h ?s ?q c = Inr (?q + 4, s')" "ls_sink s' = ?plain" "ls_frames s' \<noteq> []"
    using ck c(2,3) fit(2) by (simp add: close_frame_def checked_add_def)
  have fr: "decode_frame xxh available options out 0 ?s = Inr (?q + 4, s')"
    using h c(1) s'(1) small(2)
    by (simp add: decode_frame_def decode_blocks_def decode_independent_serial)
  have "lz4_loop xxh available options out 0 ?s = lz4_loop xxh available options out (?q + 4) s'"
    using len \<open>read_u32 out 0 = Inr FRAME_MAGIC\<close> fr
    by (simp add: lz4_loop.simps [of xxh available options out 0]
        FRAME_MAGIC_def LEGACY_MAGIC_def SKIPPABLE_MAGIC_START_def SKIPPABLE_MAGIC_END_def)
  also have "\<dots> = Inr s'" using len by (simp add: lz4_loop.simps)
  finally show ?thesis using opts s'(2,3) by (simp add: lz4_decompress_def)
qed

lemma lz4_new_ok:
  assumes valid: "encode_validate options = Inr options"
    and mem: "lz4_reservation MIN_BLOCK_SIZE \<le> eo_memory_limit options"
  shows "\<exists>e n. lz4_new xxh available options = Inr e \<and> n \<in> {4 * 1024 * 1024, 1024 * 1024, 256 * 1024, 64 * 1024} \<and>
    encoder_ok (frame_start xxh n) (eo_memory_limit options) n (le_level e) e [] \<and> le_hashed e = []"
proof -
  let ?limit = "eo_memory_limit options"
  let ?n = "select_size ?limit TARGET_BLOCK_SIZE"
  have fits: "lz4_reservation (select_size ?limit m) \<le> ?limit" if "MIN_BLOCK_SIZE \<le> m" for m
    using that
  proof (induction ?limit m rule: select_size.induct)
    case (1 m)
    show ?case
    proof (cases "m > MIN_BLOCK_SIZE \<and> lz4_reservation m > ?limit")
      case True
      show ?thesis
      proof (cases "MIN_BLOCK_SIZE \<le> m div 4")
        case False
        have "lz4_reservation (m div 4) \<le> lz4_reservation MIN_BLOCK_SIZE"
          using False by (simp add: lz4_reservation_def sat_add_def sat_mul_def min_def)
        then have "select_size ?limit (m div 4) = m div 4" using False by (simp add: select_size.simps)
        then show ?thesis using True \<open>lz4_reservation (m div 4) \<le> _\<close> mem
          by (simp add: select_size.simps [of _ m])
      qed (use 1 True in \<open>simp add: select_size.simps [of _ m]\<close>)
    next
      case False
      then have "select_size ?limit m = m" by (subst select_size.simps) (simp only: if_False)
      then show ?thesis using False 1(2) mem by auto
    qed
  qed
  then have r: "lz4_reservation ?n \<le> ?limit" by (simp add: TARGET_BLOCK_SIZE_def MIN_BLOCK_SIZE_def)
  then have sel: "selected_block_size ?limit = Inr ?n" by (simp add: selected_block_size_def Let_def)
  have n: "?n \<in> {4 * 1024 * 1024, 1024 * 1024, 256 * 1024, 64 * 1024}"
    by (rule selected_block_size_cases(1) [OF sel])
  have "lz4_committed (frame_start xxh ?n)
      \<lparr>lw_output = frame_start xxh ?n, lw_input_len = 0, lw_output_len = 7, lw_blocks = 0\<rparr> []"
    by (simp add: lz4_committed_def frame_start_magic(1))
  note carries = lz4.carries_new [OF this, of ?n "level_or options 1" ?limit]
  obtain e where e: "lz4_new xxh available options = Inr e" "le_block_size e = ?n" "le_buffer e = []"
    "le_reservation e = lz4_reservation ?n" "le_hashed e = []" "le_level e = level_or options 1"
    "\<exists>t. le_pool e = (streaming_new t ?limit,
       \<lparr>lw_output = frame_start xxh ?n, lw_input_len = 0, lw_output_len = 7, lw_blocks = 0\<rparr>)"
    using valid sel by (auto simp: lz4_new_def Let_def)
  have "0 < ?n" using n by auto
  moreover have "\<exists>parts bs. [] = concat parts @ le_buffer e \<and> list_all2 (encodes ?n (le_level e)) parts bs \<and>
      lz4.carries (frame_start xxh ?n) ?n (le_level e) ?limit (le_pool e) bs"
    using e carries by (intro exI [of _ "[]"]) auto
  ultimately have "encoder_ok (frame_start xxh ?n) ?limit ?n (le_level e) e []"
    using e r by (simp add: encoder_ok_def)
  then show ?thesis using e n by blast
qed

lemma encoded_length:
  assumes "list_all2 (encodes n level) parts bs"
  shows "length (concat (map frame_block bs)) \<le> 5 * length (concat parts)"
    and "sum_list (map eb_input_len bs) = length (concat parts)"
  using assms
proof (induction parts bs rule: list_all2_induct)
  case (Cons input parts b bs)
  have "length (eb_bytes b) \<le> length input" "eb_input_len b = length input" "0 < length input"
    using Cons.hyps(1) by (auto simp: encodes_def lz4_encode_block_def Let_def)
  moreover have "1 \<le> length input" using calculation(3) by linarith
  moreover have "length (frame_block b) = 4 + length (eb_bytes b)" by (simp add: frame_block_def)
  ultimately show "length (concat (map frame_block (b # bs))) \<le> 5 * length (concat (input # parts))"
    "sum_list (map eb_input_len (b # bs)) = length (concat (input # parts))"
    using Cons.IH by (simp_all add: algebra_simps)
qed simp_all

section \<open>Properties\<close>

text \<open>C1. LZ4 frame round trip: for every valid configuration, every split of the input into writes with
  flushes in between, every number of threads and every order in which the workers finish, compression
  succeeds, its report counts the input and output bytes, and decompressing the frame (again with any
  configuration) returns the input. The bound keeps lengths inside Rust's slice limit.\<close>

theorem lz4_compress_roundtrip:
  assumes "encode_validate options = Inr options"
    and "lz4_reservation MIN_BLOCK_SIZE \<le> eo_memory_limit options"
    and "decode_validate doptions = Inr doptions"
    and "length (concat (map fst chunks)) < 2 ^ 60"
  shows "\<exists>out er report progress. lz4_compress xxh available pick options chunks = Inr (out, er) \<and>
    er_input_len er = length (concat (map fst chunks)) \<and> er_output_len er = length out \<and>
    lz4_decompress xxh available' doptions out = Inr (concat (map fst chunks), report, progress)"
proof -
  let ?plain = "concat (map fst chunks)"
  obtain e n where e: "lz4_new xxh available options = Inr e"
    and n: "n \<in> {4 * 1024 * 1024, 1024 * 1024, 256 * 1024, 64 * 1024}"
    and ok: "encoder_ok (frame_start xxh n) (eo_memory_limit options) n (le_level e) e []" "le_hashed e = []"
    using lz4_new_ok [OF assms(1,2)] by blast
  obtain e1 where e1: "lz4_write_all pick chunks e = Inr e1" "le_hashed e1 = ?plain"
    "encoder_ok (frame_start xxh n) (eo_memory_limit options) n (le_level e) e1 ?plain"
    using lz4_write_all_ok [OF ok, of pick chunks] by auto
  obtain e2 parts bs where e2: "lz4_flush_blocks pick e1 = Inr e2" "le_hashed e2 = ?plain" "?plain = concat parts"
    "list_all2 (encodes n (le_level e)) parts bs" "lz4_committed (frame_start xxh n) (snd (le_pool e2)) bs"
    using lz4_flush_ok [OF e1(3), of pick] e1(2) by auto
  let ?out = "frame_start xxh n @ concat (map frame_block bs) @ u32_to_le 0 @ u32_to_le (xxh (concat parts))"
  have len: "length ?out = length (concat (map frame_block bs)) + 15" by (simp add: frame_start_magic(1))
  then have fit: "length ?out < 2 ^ 63" using encoded_length(1) [OF e2(4)] assms(4) e2(3) by simp
  have "length (concat parts) \<le> usize_max" using assms(4) e2(3) by (simp add: usize_max_def)
  then obtain report progress where "lz4_decompress xxh available' doptions ?out = Inr (concat parts, report, progress)"
    using decode_frame_bytes [OF e2(4) n refl fit _ assms(3)] by blast
  moreover have "lz4_finish xxh pick e1 = Inr (?out, \<lparr>er_input_len = length ?plain,
      er_output_len = length ?out, er_blocks = length bs\<rparr>)"
    using e2 encoded_length(2) [OF e2(4)] by (simp add: lz4_finish_def lz4_committed_def Let_def)
  ultimately show ?thesis using e e1(1) e2(3) by (auto simp: lz4_compress_def)
qed

theorem lz4_compress_roundtrip_witness:
  "\<exists>out er report progress.
    lz4_compress (\<lambda>_. 7) (Some 4) (\<lambda>_. 3) \<lparr>eo_threads = 2, eo_memory_limit = 2 ^ 20, eo_level = Some 9\<rparr>
      [([1, 2, 3], True), (replicate 70 5, False)] = Inr (out, er) \<and>
    lz4_decompress (\<lambda>_. 7) None \<lparr>do_threads = 3, do_memory_limit = 2 ^ 30\<rparr> out =
      Inr ([1, 2, 3] @ replicate 70 5, report, progress)"
  using lz4_compress_roundtrip [of "\<lparr>eo_threads = 2, eo_memory_limit = 2 ^ 20, eo_level = Some 9\<rparr>"
      "\<lparr>do_threads = 3, do_memory_limit = 2 ^ 30\<rparr>" "[([1, 2, 3], True), (replicate 70 5, False)]"
      "\<lambda>_. 7" "Some 4" "\<lambda>_. 3" None]
  by (auto simp: encode_validate_def decode_validate_def MAX_DECODED_BLOCK_def MAX_ENCODED_BLOCK_def
      lz4_reservation_def MIN_BLOCK_SIZE_def sat_add_def sat_mul_def usize_max_def)

text \<open>The block size the encoder selects is one an LZ4 frame can declare, and its reservation fits
  into the memory limit.\<close>

theorem selected_block_size_valid:
  assumes "selected_block_size limit = Inr n"
  shows "n \<in> {4 * 1024 * 1024, 1024 * 1024, 256 * 1024, 64 * 1024} \<and> lz4_reservation n \<le> limit \<and>
    block_size_of_code (descriptor_code n) = Inr n"
  using selected_block_size_cases [OF assms] by (auto simp: descriptor_code_def block_size_of_code_def)

theorem selected_block_size_valid_witness: "\<exists>n. selected_block_size (2 ^ 20) = Inr n \<and> lz4_reservation n \<le> 2 ^ 20"
proof -
  have "selected_block_size (2 ^ 20) = Inr (64 * 1024)"
    by (simp add: selected_block_size_def select_size.simps TARGET_BLOCK_SIZE_def MIN_BLOCK_SIZE_def
        lz4_reservation_def sat_add_def sat_mul_def usize_max_def)
  from selected_block_size_valid [OF this] this show ?thesis by blast
qed

end
