(* ===== verification/Msb_Bits.thy ===== *)
theory Msb_Bits
  imports Prelude
begin

text \<open>
  Bit strings in bzip2's order, most significant bit first: \<open>bits_of\<close> is the bit string of a byte
  list, \<open>bits_val\<close> the number a bit string denotes and \<open>to_bits n v\<close> the \<open>n\<close> low bits of \<open>v\<close>. The bit
  readers and the bit writer of the program are specified by these.
\<close>

named_theorems bit_string_simps "lengths, splits and values of bit strings"

fun to_bits :: "nat \<Rightarrow> nat \<Rightarrow> bool list" where
  "to_bits 0 v = []"
| "to_bits (Suc n) v = bit v n # to_bits n v"

fun bits_val :: "bool list \<Rightarrow> nat" where
  "bits_val [] = 0"
| "bits_val (b # bs) = of_bool b * 2 ^ length bs + bits_val bs"

definition byte_bits :: "byte \<Rightarrow> bool list" where
  "byte_bits b = to_bits 8 (unat b)"

definition bits_of :: "bytes \<Rightarrow> bool list" where
  "bits_of bs = concat (map byte_bits bs)"

text \<open>The value of \<open>count\<close> bits at \<open>position\<close>, if they are there.\<close>

definition bits_at :: "bytes \<Rightarrow> nat \<Rightarrow> nat \<Rightarrow> nat" where
  "bits_at data position count = bits_val (take count (drop position (bits_of data)))"

lemma length_to_bits [simp]: "length (to_bits n v) = n"
  by (induction n) auto

lemma length_byte_bits [simp]: "length (byte_bits b) = 8"
  by (simp add: byte_bits_def)

lemma bits_of_simps [simp]:
  "bits_of [] = []" "bits_of (b # bs) = byte_bits b @ bits_of bs" "bits_of (xs @ ys) = bits_of xs @ bits_of ys"
  by (simp_all add: bits_of_def)

lemma length_bits_of [simp]: "length (bits_of bs) = 8 * length bs"
  by (induction bs) auto

lemma bits_val_less: "bits_val bs < 2 ^ length bs"
  by (induction bs) auto

lemma bits_val_append [bit_string_simps]: "bits_val (xs @ ys) = bits_val xs * 2 ^ length ys + bits_val ys"
  by (induction xs) (auto simp: power_add algebra_simps)

lemma bits_val_to_bits [bit_string_simps]: "bits_val (to_bits n v) = v mod 2 ^ n"
proof (induction n)
  case (Suc n)
  have "v mod 2 ^ Suc n = 2 ^ n * (v div 2 ^ n mod 2) + v mod 2 ^ n"
    using mod_mult2_eq [of v "2 ^ n" 2] by (simp add: mult.commute)
  also have "v div 2 ^ n mod 2 = of_bool (bit v n)" by (simp add: bit_iff_odd mod_2_eq_odd)
  finally show ?case using Suc by (simp add: mult.commute)
qed simp

lemma to_bits_cong: "(\<And>i. i < n \<Longrightarrow> bit v i = bit w i) \<Longrightarrow> to_bits n v = to_bits n w"
  by (induction n) auto

lemma to_bits_mod [bit_string_simps]: "n \<le> m \<Longrightarrow> to_bits n (v mod 2 ^ m) = to_bits n v"
  by (rule to_bits_cong) (simp add: take_bit_eq_mod [symmetric] bit_take_bit_iff)

lemma to_bits_bits_val [bit_string_simps]: "to_bits (length bs) (bits_val bs) = bs"
proof (induction bs)
  case (Cons b bs)
  let ?v = "of_bool b * 2 ^ length bs + bits_val bs"
  have "?v div 2 ^ length bs = of_bool b" "?v mod 2 ^ length bs = bits_val bs"
    using bits_val_less [of bs] by simp_all
  then have "bit ?v (length bs) = b" "to_bits (length bs) ?v = to_bits (length bs) (bits_val bs)"
    using to_bits_mod [of "length bs" "length bs" ?v] by (simp_all add: bit_iff_odd)
  then show ?case using Cons by simp
qed simp

lemma to_bits_append [bit_string_simps]: "to_bits (m + n) v = to_bits m (v div 2 ^ n) @ to_bits n v"
proof (induction m)
  case (Suc m)
  have "bit v (m + n) = bit (v div 2 ^ n) m"
    by (simp add: drop_bit_eq_div [symmetric] bit_drop_bit_eq add.commute)
  then show ?case using Suc by simp
qed simp

lemma bits_val_inj: "length xs = length ys \<Longrightarrow> bits_val xs = bits_val ys \<Longrightarrow> xs = ys"
  by (metis to_bits_bits_val)

lemma bits_val_drop: "bits_val (drop k bs) = bits_val bs mod 2 ^ (length bs - k)"
proof (cases "k \<le> length bs")
  case True
  have "bits_val bs = bits_val (take k bs) * 2 ^ (length bs - k) + bits_val (drop k bs)"
    using bits_val_append [of "take k bs" "drop k bs"] by simp
  moreover have "bits_val (drop k bs) < 2 ^ (length bs - k)" using bits_val_less [of "drop k bs"] by simp
  ultimately show ?thesis by simp
qed simp

lemma bits_val_take: "bits_val (take k bs) = bits_val bs div 2 ^ (length bs - k)"
proof (cases "k \<le> length bs")
  case True
  have "bits_val bs = bits_val (take k bs) * 2 ^ (length bs - k) + bits_val (drop k bs)"
    using bits_val_append [of "take k bs" "drop k bs"] by simp
  moreover have "bits_val (drop k bs) < 2 ^ (length bs - k)" using bits_val_less [of "drop k bs"] by simp
  ultimately show ?thesis by simp
qed simp

text \<open>A field inside a bit string, by shifting and masking the whole value.\<close>

lemma bits_val_field:
  assumes "s + c \<le> length bs"
  shows "bits_val (take c (drop s bs)) = bits_val bs div 2 ^ (length bs - s - c) mod 2 ^ c"
proof -
  have "take c (drop s bs) = drop s (take (s + c) bs)" by (simp add: drop_take)
  then show ?thesis using assms by (simp add: bits_val_drop bits_val_take)
qed

lemma bits_val_byte_bits [simp]: "bits_val (byte_bits b) = unat b"
  by (simp add: byte_bits_def bits_val_to_bits)

text \<open>Big-endian accumulation of bytes.\<close>

lemma be_fold: "foldl (\<lambda>w b. w * 256 + unat b) a bs = a * 2 ^ (8 * length bs) + bits_val (bits_of bs)"
  by (induction bs arbitrary: a) (simp_all add: bit_string_simps power_add algebra_simps)

lemma bits_of_take: "bits_of (take n bs) = take (8 * n) (bits_of bs)"
proof (induction n arbitrary: bs)
  case (Suc n)
  then show ?case by (cases bs) simp_all
qed simp

lemma bits_of_drop: "bits_of (drop n bs) = drop (8 * n) (bits_of bs)"
proof (induction n arbitrary: bs)
  case (Suc n)
  then show ?case by (cases bs) simp_all
qed simp

lemma bits_of_slice: "bits_of (slice_of bs a b) = take (8 * (b - a)) (drop (8 * a) (bits_of bs))"
  by (simp add: slice_of_def bits_of_take bits_of_drop)

text \<open>A read that touches the bytes \<open>byte\<close> to \<open>stop\<close> only.\<close>

lemma bits_at_slice:
  assumes "8 * byte + offset + count \<le> 8 * stop" and "stop \<le> length data"
  shows "bits_at data (8 * byte + offset) count =
    bits_val (bits_of (slice_of data byte stop)) div 2 ^ (8 * (stop - byte) - offset - count) mod 2 ^ count"
proof -
  let ?s = "bits_of (slice_of data byte stop)"
  have "length ?s = 8 * (stop - byte)" using assms by simp
  moreover have "take count (drop (8 * byte + offset) (bits_of data)) = take count (drop offset ?s)"
    using assms by (simp add: bits_of_slice drop_take add.commute)
  ultimately show ?thesis
    using bits_val_field [of offset count ?s] assms by (simp add: bits_at_def)
qed

lemma bits_at_less: "bits_at data position count < 2 ^ count"
proof -
  have "bits_at data position count < 2 ^ length (take count (drop position (bits_of data)))"
    unfolding bits_at_def by (rule bits_val_less)
  also have "\<dots> \<le> 2 ^ count" by (intro power_increasing) auto
  finally show ?thesis .
qed

lemma bits_at_append:
  "position + a + b \<le> 8 * length data \<Longrightarrow>
     bits_at data position (a + b) = bits_at data position a * 2 ^ b + bits_at data (position + a) b"
  by (simp add: bits_at_def take_add bits_val_append add.commute)

lemma bits_at_drop:
  "drop p (bits_of data) = xs @ rest \<Longrightarrow> bits_at data p (length xs) = bits_val xs"
  by (simp add: bits_at_def)

text \<open>Single bits.\<close>

lemma nth_to_bits: "i < n \<Longrightarrow> to_bits n v ! i = bit v (n - 1 - i)"
  by (induction n arbitrary: i) (auto simp: nth_Cons split: nat.split)

lemma byte_bits_nth: "i < 8 \<Longrightarrow> byte_bits b ! i = bit b (7 - i)"
  by (simp add: byte_bits_def nth_to_bits bit_unsigned_iff del: to_bits.simps)

lemma bits_of_nth: "o' < 8 * length bs \<Longrightarrow> bits_of bs ! o' = byte_bits (bs ! (o' div 8)) ! (o' mod 8)"
proof (induction bs arbitrary: o')
  case (Cons b bs)
  show ?case
  proof (cases "o' < 8")
    case False
    then obtain k where k: "o' = 8 + k" using le_Suc_ex by (metis not_le)
    then have "o' div 8 = Suc (k div 8)" "o' mod 8 = k mod 8" by simp_all
    then show ?thesis using k Cons.IH [of k] Cons.prems by (simp add: nth_append)
  qed (simp add: nth_append)
qed simp

section \<open>Fields of machine words\<close>

lemma ucast_of_unat: "unat (w :: 'a::len word) = n \<Longrightarrow> (ucast w :: 'c::len word) = word_of_nat n"
  by (metis of_nat_unat)

lemma unat_mask_and:
  fixes w :: "'a::len word"
  shows "unat (w AND (push_bit c 1 - 1)) = unat w mod 2 ^ c"
proof -
  have "push_bit c 1 - 1 = (mask c :: 'a word)" by (simp add: mask_eq_exp_minus_1)
  then have "unat (w AND (push_bit c 1 - 1)) = unat (take_bit c w)" by (simp only: take_bit_eq_mask)
  also have "\<dots> = take_bit c (unat w)" by (simp only: unsigned_take_bit_eq)
  finally show ?thesis by (simp only: take_bit_eq_mod)
qed

lemma unat_drop_mask:
  fixes w :: "'a::len word"
  shows "unat (drop_bit t w AND (push_bit c 1 - 1)) = unat w div 2 ^ t mod 2 ^ c"
  by (simp only: unat_mask_and unat_drop_bit_eq) (simp add: drop_bit_eq_div)

lemma unat_ucast_up: "LENGTH('a::len) \<le> LENGTH('b::len) \<Longrightarrow> unat (ucast (w :: 'a word) :: 'b word) = unat w"
proof -
  assume "LENGTH('a) \<le> LENGTH('b)"
  then have "(2 :: nat) ^ LENGTH('a) \<le> 2 ^ LENGTH('b)" by (intro power_increasing) auto
  then have "unat w < 2 ^ LENGTH('b)" using unsigned_less [of w, where 'a = nat] by (rule order_less_le_trans [rotated])
  then show ?thesis by (simp only: unsigned_ucast_eq take_bit_nat_eq_self)
qed

lemma unat_push_bit_small:
  fixes w :: "'a::len word"
  assumes "unat w * 2 ^ n < 2 ^ LENGTH('a)"
  shows "unat (push_bit n w) = unat w * 2 ^ n"
  unfolding unsigned_push_bit_eq using assms by (simp only: push_bit_eq_mult take_bit_nat_eq_self)

end
