(* ===== verification/Bit_Reader.thy ===== *)
theory Bit_Reader
  imports Msb_Bits Errors
begin

text \<open>
  The two MSB-first readers of the bzip2 side: \<open>BitReader\<close> of \<open>src/bitreader.rs\<close>, which accumulates in
  128 bits, and \<open>Bits\<close> of \<open>src/decoder.rs\<close>, which takes eight bytes at once where it can and falls
  back to a loop near the end. Both return the bits the bit-string specification \<open>bits_at\<close> names.
\<close>

type_synonym u128 = "128 word"

definition decode_error_at :: "nat \<Rightarrow> decode_error \<Rightarrow> error" where
  "decode_error_at bit_offset source = Decode bit_offset source"

section \<open>BitReader\<close>

record bit_reader =
  br_data :: bytes
  br_offset :: nat

definition br_new :: "bytes \<Rightarrow> bit_reader" where
  "br_new data = \<lparr>br_data = data, br_offset = 0\<rparr>"

definition br_len_bits :: "bit_reader \<Rightarrow> nat" where
  "br_len_bits r = sat_mul (length (br_data r)) 8"

definition br_at :: "bytes \<Rightarrow> nat \<Rightarrow> error + bit_reader" where
  "br_at data bit_offset =
     (let reader = \<lparr>br_data = data, br_offset = bit_offset\<rparr> in
      if bit_offset > br_len_bits reader then Inl (InvalidBitOffset bit_offset (br_len_bits reader))
      else Inr reader)"

definition br_remaining :: "bit_reader \<Rightarrow> nat" where
  "br_remaining r = br_len_bits r - br_offset r"

definition br_eof :: "bit_reader \<Rightarrow> nat \<Rightarrow> error" where
  "br_eof r requested = UnexpectedEof (br_offset r) requested (br_remaining r)"

definition br_read_bit :: "bit_reader \<Rightarrow> error + bool \<times> bit_reader" where
  "br_read_bit r =
     (if br_offset r \<ge> br_len_bits r then Inl (br_eof r 1)
      else and_then (index (br_data r) (br_offset r div 8)) (\<lambda>byte.
        let shift = 7 - br_offset r mod 8
        in Inr (drop_bit shift byte AND 1 \<noteq> 0, r\<lparr>br_offset := br_offset r + 1\<rparr>)))"

definition br_read_bits :: "bit_reader \<Rightarrow> nat \<Rightarrow> error + u64 \<times> bit_reader" where
  "br_read_bits r count =
     (if count > 64 then Inl (InvalidBitCount count)
      else if count > br_remaining r then Inl (br_eof r count)
      else if count = 0 then Inr (0, r)
      else (let first_byte = br_offset r div 8;
                skipped = br_offset r mod 8;
                byte_count = (skipped + count + 7) div 8 in
        and_then (index_range (br_data r) first_byte (first_byte + byte_count)) (\<lambda>bs.
        let word = foldl (\<lambda>w b. push_bit 8 w OR ucast b) (0 :: u128) bs;
            available = byte_count * 8;
            trailing = available - skipped - count;
            mask = (if count = 64 then ucast (- 1 :: u64) else push_bit count 1 - 1)
        in Inr (ucast (drop_bit trailing word AND mask), r\<lparr>br_offset := br_offset r + count\<rparr>))))"

definition br_skip :: "bit_reader \<Rightarrow> nat \<Rightarrow> error + bit_reader" where
  "br_skip r count =
     (if count > br_remaining r then Inl (br_eof r count) else Inr (r\<lparr>br_offset := br_offset r + count\<rparr>))"

section \<open>The block decoder's reader\<close>

text \<open>\<open>Bits\<close>: the data and the bit position; the operations take both and return the new position.\<close>

definition bits_remaining :: "bytes \<Rightarrow> nat \<Rightarrow> nat" where
  "bits_remaining data pos = sat_mul (length data) 8 - pos"

definition bits_start :: "bytes \<Rightarrow> nat \<Rightarrow> error + nat" where
  "bits_start data pos =
     (if pos > sat_mul (length data) 8 then Inl (Decode pos Truncated) else Inr pos)"

definition bits_peek :: "bytes \<Rightarrow> nat \<Rightarrow> nat \<Rightarrow> error + u32" where
  "bits_peek data pos count =
     (if count > bits_remaining data pos then Inl (Decode pos Truncated)
      else (let byte = pos div 8; offset = pos mod 8 in
        if byte + 8 \<le> length data
        then and_then (index_range data byte (byte + 8)) (\<lambda>bs.
          let word = foldl (\<lambda>w b. push_bit 8 w OR ucast b) (0 :: u64) bs
          in Inr (ucast (drop_bit (64 - count) (push_bit offset word))))
        else (let stop = (pos + count + 7) div 8 in
          and_then (index_range data byte stop) (\<lambda>bs.
          let word = foldl (\<lambda>w b. push_bit 8 w OR ucast b) (0 :: u64) bs;
              available = (stop - byte) * 8
          in Inr (ucast (drop_bit (available - offset - count) word AND (push_bit count 1 - 1)))))))"

definition bits_read :: "bytes \<Rightarrow> nat \<Rightarrow> nat \<Rightarrow> error + u32 \<times> nat" where
  "bits_read data pos count =
     (if count = 0 then Inr (0, pos)
      else and_then (bits_peek data pos count) (\<lambda>v. Inr (v, pos + count)))"

definition bits_bit :: "bytes \<Rightarrow> nat \<Rightarrow> error + bool \<times> nat" where
  "bits_bit data pos = and_then (bits_read data pos 1) (\<lambda>(v, pos). Inr (v \<noteq> 0, pos))"

definition bits_magic :: "bytes \<Rightarrow> nat \<Rightarrow> error + u64 \<times> nat" where
  "bits_magic data pos =
     and_then (bits_read data pos 24) (\<lambda>(high, pos).
     and_then (bits_read data pos 24) (\<lambda>(low, pos).
     Inr (push_bit 24 (ucast high) OR ucast low, pos)))"

definition align_byte :: "nat \<Rightarrow> nat" where
  "align_byte pos = (pos + 7) div 8 * 8"

section \<open>Accumulating bytes in a word\<close>

lemma or_byte_nat: "y < 256 \<Longrightarrow> push_bit 8 x OR y = x * 256 + (y :: nat)"
proof -
  assume "y < 256"
  then have "take_bit 8 y = y" by (simp add: take_bit_nat_eq_self)
  then have y: "bit y n \<Longrightarrow> n < 8" for n by (metis bit_take_bit_iff)
  have "push_bit 8 x + y = push_bit 8 x OR y"
  proof (rule disjunctive_add)
    fix n show "\<not> bit (push_bit 8 x) n \<or> \<not> bit y n" using y [of n] by (auto simp: bit_push_bit_iff)
  qed
  then show ?thesis by (simp add: push_bit_eq_mult)
qed

lemma push_or_byte:
  fixes w :: "'a::len word" and b :: byte
  assumes "unat w < 2 ^ k" and "k + 8 \<le> LENGTH('a)"
  shows "unat (push_bit 8 w OR ucast b) = unat w * 256 + unat b"
proof -
  have "unat w * 256 < 2 ^ (k + 8)" using assms(1) by (simp add: power_add)
  also have "\<dots> \<le> 2 ^ LENGTH('a)" using assms(2) by (intro power_increasing) auto
  finally have "take_bit LENGTH('a) (push_bit 8 (unat w)) = push_bit 8 (unat w)"
    by (simp add: take_bit_nat_eq_self push_bit_eq_mult)
  then have "unat (push_bit 8 w) = push_bit 8 (unat w)" by (simp only: unsigned_push_bit_eq)
  moreover have "unat (ucast b :: 'a word) = unat b"
  proof -
    have "unat b < 2 ^ 8" using unsigned_less [of b] by simp
    also have "(2 :: nat) ^ 8 \<le> 2 ^ LENGTH('a)" using assms(2) by (intro power_increasing) auto
    finally show ?thesis by (simp add: unsigned_ucast_eq take_bit_nat_eq_self)
  qed
  ultimately have "unat (push_bit 8 w OR ucast b) = push_bit 8 (unat w) OR unat b"
    by (simp only: unsigned_or_eq)
  then show ?thesis using or_byte_nat [of "unat b" "unat w"] unat_byte_less [of b] by simp
qed

lemma fold_bytes_word:
  fixes w :: "'a::len word" and bs :: bytes
  assumes "unat w < 2 ^ k" and "k + 8 * length bs \<le> LENGTH('a)"
  shows "unat (foldl (\<lambda>w b. push_bit 8 w OR ucast b) w bs) = foldl (\<lambda>w b. w * 256 + unat b) (unat w) bs"
  using assms
proof (induction bs arbitrary: w k)
  case (Cons b bs)
  have u: "unat (push_bit 8 w OR ucast b) = unat w * 256 + unat b"
    by (rule push_or_byte [of w k]) (use Cons.prems in auto)
  have "unat w * 256 + unat b < 2 ^ k * 256"
    using Cons.prems(1) unat_byte_less [of b] by linarith
  then have "unat w * 256 + unat b < 2 ^ (k + 8)" by (simp add: power_add)
  then show ?case using Cons.IH [of "push_bit 8 w OR ucast b" "k + 8"] Cons.prems(2) u by simp
qed simp

lemma fold_bytes:
  "8 * length bs \<le> LENGTH('a) \<Longrightarrow>
     unat (foldl (\<lambda>w b. push_bit 8 w OR ucast b) (0 :: 'a::len word) bs) = bits_val (bits_of bs)"
  using fold_bytes_word [of "0 :: 'a word" 0 bs] be_fold [of 0 bs] by simp

lemma mask_64: "ucast (- 1 :: u64) = (push_bit 64 1 - 1 :: u128)"
  by code_simp

lemma unat_field:
  fixes w :: u64
  assumes "skip + count \<le> 64"
  shows "unat (drop_bit (64 - count) (push_bit skip w)) = take_bit count (drop_bit (64 - skip - count) (unat w))"
proof -
  have "unat (drop_bit (64 - count) (push_bit skip w)) =
      drop_bit (64 - count) (take_bit LENGTH(64) (push_bit skip (unat w)))"
    by (simp only: unat_drop_bit_eq unsigned_push_bit_eq)
  also have "\<dots> = take_bit count (drop_bit (64 - skip - count) (unat w))"
    using assms by (intro bit_eqI) (auto simp: bit_drop_bit_eq bit_take_bit_iff bit_push_bit_iff algebra_simps)
  finally show ?thesis .
qed

section \<open>The readers return the bits of the input\<close>

lemma fits_bits: "fits data \<Longrightarrow> length data < 2 ^ 60 \<Longrightarrow> sat_mul (length data) 8 = 8 * length data"
  by (simp add: sat_mul_def usize_max_def min_def)

lemma br_read_bits_spec:
  assumes "length (br_data r) < 2 ^ 60" and "count \<le> 64" and "br_offset r + count \<le> 8 * length (br_data r)"
  shows "br_read_bits r count =
    Inr (word_of_nat (bits_at (br_data r) (br_offset r) count), r\<lparr>br_offset := br_offset r + count\<rparr>)"
proof (cases "count = 0")
  case True
  then show ?thesis using assms by (simp add: br_read_bits_def br_remaining_def br_len_bits_def bits_at_def)
next
  case False
  let ?d = "br_data r" and ?o = "br_offset r"
  let ?first = "?o div 8" and ?skip = "?o mod 8"
  let ?n = "(?skip + count + 7) div 8"
  have lens: "br_len_bits r = 8 * length ?d"
    using assms(1) by (simp add: br_len_bits_def sat_mul_def usize_max_def min_def)
  have o: "?o = 8 * ?first + ?skip" by simp
  have n: "?skip + count \<le> 8 * ?n" "8 * ?n \<le> ?skip + count + 7" by linarith+
  have "8 * ?first + 8 * ?n \<le> 8 * length ?d + 7" using n assms(3) o by linarith
  then have stop: "?first + ?n \<le> length ?d" by linarith
  let ?bs = "slice_of ?d ?first (?first + ?n)"
  have len: "length ?bs = ?n" using stop by simp
  have "?n \<le> 9" using assms(2) by simp
  then have w: "unat (foldl (\<lambda>w b. push_bit 8 w OR ucast b) (0 :: u128) ?bs) = bits_val (bits_of ?bs)"
    using len by (intro fold_bytes) simp
  have mask: "(if count = 64 then ucast (- 1 :: u64) else push_bit count 1 - 1 :: u128) = push_bit count 1 - 1"
    using mask_64 by (cases "count = 64") auto
  have h: "8 * ?first + ?skip + count \<le> 8 * (?first + ?n)"
    using n(1) by (simp only: distrib_left add.assoc add_le_cancel_left)
  have at: "bits_at ?d ?o count = bits_val (bits_of ?bs) div 2 ^ (?n * 8 - ?skip - count) mod 2 ^ count"
    using bits_at_slice [OF h stop] by (simp add: mult.commute)
  have "unat (drop_bit (?n * 8 - ?skip - count) (foldl (\<lambda>w b. push_bit 8 w OR ucast b) (0 :: u128) ?bs)
      AND (push_bit count 1 - 1)) = bits_at ?d ?o count"
    unfolding unat_drop_mask w at ..
  then have "(ucast (drop_bit (?n * 8 - ?skip - count) (foldl (\<lambda>w b. push_bit 8 w OR ucast b) (0 :: u128) ?bs)
      AND (push_bit count 1 - 1)) :: u64) = word_of_nat (bits_at ?d ?o count)"
    by (rule ucast_of_unat)
  then show ?thesis
    using False assms stop lens mask
    by (simp add: br_read_bits_def br_remaining_def Let_def)
qed

lemma bits_peek_spec:
  assumes "length data < 2 ^ 60" and "0 < count" and "count \<le> 32" and "pos + count \<le> 8 * length data"
  shows "bits_peek data pos count = Inr (word_of_nat (bits_at data pos count))"
proof -
  let ?byte = "pos div 8" and ?off = "pos mod 8"
  have rem: "\<not> count > bits_remaining data pos"
    using assms(1,4) by (simp add: bits_remaining_def sat_mul_def usize_max_def min_def)
  have o: "pos = 8 * ?byte + ?off" by simp
  show ?thesis
  proof (cases "?byte + 8 \<le> length data")
    case True
    let ?bs = "slice_of data ?byte (?byte + 8)"
    have w: "unat (foldl (\<lambda>w b. push_bit 8 w OR ucast b) (0 :: u64) ?bs) = bits_val (bits_of ?bs)"
      using True by (intro fold_bytes) simp
    have off: "?off + count \<le> 64" using assms(3) mod_less_divisor [of 8 pos] by linarith
    then have h: "8 * ?byte + ?off + count \<le> 8 * (?byte + 8)"
      by (simp only: distrib_left add.assoc add_le_cancel_left)
    have "unat (drop_bit (64 - count) (push_bit ?off (foldl (\<lambda>w b. push_bit 8 w OR ucast b) (0 :: u64) ?bs))) =
        bits_at data pos count"
      unfolding unat_field [OF off] w using bits_at_slice [OF h True]
      by (simp add: take_bit_eq_mod drop_bit_eq_div)
    note val = ucast_of_unat [OF this, where 'c = 32]
    have range: "index_range data ?byte (?byte + 8) = Inr ?bs" using True by simp
    show ?thesis
      unfolding bits_peek_def Let_def by (simp only: rem True range val if_True if_False and_then.simps)
  next
    case False
    let ?stop = "(pos + count + 7) div 8"
    have s: "pos + count \<le> 8 * ?stop" "8 * ?stop \<le> pos + count + 7" by linarith+
    then have stop: "?stop \<le> length data" "?byte \<le> ?stop" using assms(4) o by linarith+
    let ?bs = "slice_of data ?byte ?stop"
    have len: "length ?bs = ?stop - ?byte" using stop by simp
    have "length ?bs \<le> 8" using s o assms(3) len by linarith
    then have w: "unat (foldl (\<lambda>w b. push_bit 8 w OR ucast b) (0 :: u64) ?bs) = bits_val (bits_of ?bs)"
      by (intro fold_bytes) simp
    have at: "bits_at data pos count = bits_val (bits_of ?bs) div 2 ^ ((?stop - ?byte) * 8 - ?off - count) mod 2 ^ count"
      using bits_at_slice [of ?byte ?off count ?stop data] s(1) stop(1) by (simp add: mult.commute)
    have "unat (drop_bit ((?stop - ?byte) * 8 - ?off - count) (foldl (\<lambda>w b. push_bit 8 w OR ucast b) (0 :: u64) ?bs)
        AND (push_bit count 1 - 1)) = bits_at data pos count"
      unfolding unat_drop_mask w at ..
    note val = ucast_of_unat [OF this, where 'c = 32]
    have range: "index_range data ?byte ?stop = Inr ?bs" using stop by simp
    show ?thesis
      unfolding bits_peek_def Let_def by (simp only: rem False range val if_True if_False and_then.simps)
  qed
qed

lemma sat_mul_8 [simp]: "n < 2 ^ 60 \<Longrightarrow> sat_mul n 8 = 8 * n"
  by (simp add: sat_mul_def usize_max_def min_def)

lemma bits_read_result:
  assumes "length data < 2 ^ 60" and "count \<le> 32"
  shows "bits_read data pos count =
    (if count = 0 then Inr (0, pos)
     else if pos + count \<le> 8 * length data then Inr (word_of_nat (bits_at data pos count), pos + count)
     else Inl (Decode pos Truncated))"
  using assms bits_peek_spec [of data count pos]
  by (auto simp: bits_read_def bits_peek_def bits_remaining_def)

lemma bits_read_Inr_iff:
  assumes "length data < 2 ^ 60" and "count \<le> 32" and "pos \<le> 8 * length data"
  shows "bits_read data pos count = Inr (v, pos') \<longleftrightarrow>
    v = word_of_nat (bits_at data pos count) \<and> pos' = pos + count \<and> pos' \<le> 8 * length data"
  using assms by (auto simp: bits_read_result bits_at_def)

lemma bits_bit_result:
  assumes "length data < 2 ^ 60"
  shows "bits_bit data pos =
    (if pos < 8 * length data then Inr (bits_of data ! pos, pos + 1) else Inl (Decode pos Truncated))"
proof (cases "pos < 8 * length data")
  case True
  then have "bits_at data pos 1 = of_bool (bits_of data ! pos)"
    by (simp add: bits_at_def Cons_nth_drop_Suc [symmetric])
  then show ?thesis using assms True by (simp add: bits_bit_def bits_read_result)
qed (use assms in \<open>simp add: bits_bit_def bits_read_result\<close>)

lemma br_read_bits_result:
  assumes "length (br_data r) < 2 ^ 60" and "br_offset r \<le> 8 * length (br_data r)"
  shows "br_read_bits r count =
    (if count > 64 then Inl (InvalidBitCount count)
     else if br_offset r + count > 8 * length (br_data r)
     then Inl (UnexpectedEof (br_offset r) count (8 * length (br_data r) - br_offset r))
     else Inr (word_of_nat (bits_at (br_data r) (br_offset r) count), r\<lparr>br_offset := br_offset r + count\<rparr>))"
  using assms br_read_bits_spec [of r count]
  by (auto simp: br_read_bits_def br_eof_def br_remaining_def br_len_bits_def)

lemma br_read_bit_result:
  assumes "length (br_data r) < 2 ^ 60" and "br_offset r < 8 * length (br_data r)"
  shows "br_read_bit r = Inr (bits_of (br_data r) ! br_offset r, r\<lparr>br_offset := br_offset r + 1\<rparr>)"
proof -
  let ?o = "br_offset r" and ?d = "br_data r"
  have i: "?o div 8 < length ?d" using assms(2) by simp
  have "bits_of ?d ! ?o = byte_bits (?d ! (?o div 8)) ! (?o mod 8)" by (rule bits_of_nth [OF assms(2)])
  also have "\<dots> = bit (?d ! (?o div 8)) (7 - ?o mod 8)" by (simp add: byte_bits_nth)
  also have "\<dots> = (drop_bit (7 - ?o mod 8) (?d ! (?o div 8)) AND 1 \<noteq> 0)"
    by (simp only: and_one_eq odd_iff_mod_2_eq_one [symmetric] bit_iff_odd_drop_bit) (simp add: odd_iff_mod_2_eq_one)
  finally show ?thesis using assms i by (simp add: br_read_bit_def br_len_bits_def Let_def)
qed

text \<open>C22. A read of the public bit reader returns exactly the next \<open>count\<close> bits of the input, most
  significant first, and moves past them; more than 64 bits are refused, and a read that would pass
  the end fails with the position, the request and the bits left, for every offset within the input.\<close>

theorem br_read_bits_correct:
  assumes "length (br_data r) < 2 ^ 60" and "br_offset r \<le> 8 * length (br_data r)"
  shows "br_read_bits r count =
    (if count > 64 then Inl (InvalidBitCount count)
     else if br_offset r + count > 8 * length (br_data r)
     then Inl (UnexpectedEof (br_offset r) count (8 * length (br_data r) - br_offset r))
     else Inr (word_of_nat (bits_at (br_data r) (br_offset r) count), r\<lparr>br_offset := br_offset r + count\<rparr>))"
  using assms by (rule br_read_bits_result)

theorem br_read_bits_correct_witness:
  "br_read_bits \<lparr>br_data = [0xA5, 0x0F], br_offset = 6\<rparr> 4 = Inr (4, \<lparr>br_data = [0xA5, 0x0F], br_offset = 10\<rparr>)"
proof -
  have "bits_at [0xA5, 0x0F] 6 4 = 4" by code_simp
  then show ?thesis
    using br_read_bits_correct [of "\<lparr>br_data = [0xA5, 0x0F], br_offset = 6\<rparr>" 4] by simp
qed

end
