(* ===== verification/Bit_Writer.thy ===== *)
theory Bit_Writer
  imports Msb_Bits Errors
begin

text \<open>
  The MSB-first bit writer of \<open>src/bz2_encode/bitwriter.rs\<close>: whole bytes go to a buffer, up to seven
  bits stay in an accumulator. \<open>writer_bits\<close> is the bit string a writer holds; every operation is
  shown to append the bits it names to that string, so that the stages of the encoder can be
  specified by bit strings alone.
\<close>

section \<open>The writer\<close>

record bit_writer =
  bw_out :: bytes
  bw_acc :: u64
  bw_nbits :: nat

definition bw_new :: bit_writer where
  "bw_new = \<lparr>bw_out = [], bw_acc = 0, bw_nbits = 0\<rparr>"

fun emit_whole :: "bytes \<Rightarrow> u64 \<Rightarrow> nat \<Rightarrow> bytes \<times> nat" where
  "emit_whole out acc nbits =
     (if nbits \<ge> 8 then emit_whole (out @ [ucast (drop_bit (nbits - 8) acc)]) acc (nbits - 8)
      else (out, nbits))"

declare emit_whole.simps [simp del]

definition write_bits :: "nat \<Rightarrow> u32 \<Rightarrow> bit_writer \<Rightarrow> bit_writer" where
  "write_bits n v w =
     (let v = (if n = 32 then ucast v else ucast v AND (push_bit n 1 - 1));
          acc = push_bit n (bw_acc w) OR v;
          emitted = emit_whole (bw_out w) acc (bw_nbits w + n)
      in \<lparr>bw_out = fst emitted, bw_acc = acc AND (push_bit (snd emitted) 1 - 1), bw_nbits = snd emitted\<rparr>)"

definition write_bit :: "u32 \<Rightarrow> bit_writer \<Rightarrow> bit_writer" where
  "write_bit b w = write_bits 1 b w"

definition write_magic :: "u64 \<Rightarrow> bit_writer \<Rightarrow> bit_writer" where
  "write_magic magic w = write_bits 24 (ucast (magic AND 0xffffff)) (write_bits 24 (ucast (drop_bit 24 magic)) w)"

definition write_u8 :: "byte \<Rightarrow> bit_writer \<Rightarrow> bit_writer" where
  "write_u8 b w = write_bits 8 (ucast b) w"

definition write_u32 :: "u32 \<Rightarrow> bit_writer \<Rightarrow> bit_writer" where
  "write_u32 v w = write_bits 32 v w"

definition bw_drain :: "bit_writer \<Rightarrow> bytes \<times> bit_writer" where
  "bw_drain w = (bw_out w, w\<lparr>bw_out := []\<rparr>)"

definition write_buffer :: "bytes \<Rightarrow> nat \<Rightarrow> bit_writer \<Rightarrow> error + bit_writer" where
  "write_buffer bs bit_len w =
     (let full = bit_len div 8 in
      and_then (index_range bs 0 full) (\<lambda>whole.
      let w = fold write_u8 whole w; trailing = bit_len mod 8 in
      if trailing \<noteq> 0
      then and_then (index bs full) (\<lambda>b. Inr (write_bits trailing (ucast (drop_bit (8 - trailing) b)) w))
      else Inr w))"

definition finish_bits :: "bit_writer \<Rightarrow> bytes \<times> nat" where
  "finish_bits w =
     (let bit_len = length (bw_out w) * 8 + bw_nbits w in
      (if bw_nbits w > 0 then bw_out w @ [ucast (push_bit (8 - bw_nbits w) (bw_acc w))] else bw_out w, bit_len))"

definition bw_finish :: "bit_writer \<Rightarrow> bytes" where
  "bw_finish w = bw_out (if bw_nbits w > 0 then write_bits (8 - bw_nbits w) 0 w else w)"

section \<open>The bits a writer holds\<close>

definition writer_bits :: "bit_writer \<Rightarrow> bool list" where
  "writer_bits w = bits_of (bw_out w) @ to_bits (bw_nbits w) (unat (bw_acc w))"

definition writer_ok :: "bit_writer \<Rightarrow> bool" where
  "writer_ok w \<longleftrightarrow> bw_nbits w < 8 \<and> unat (bw_acc w) < 2 ^ bw_nbits w"

lemma writer_new [simp]: "writer_bits bw_new = []" "writer_ok bw_new"
  by (simp_all add: writer_bits_def writer_ok_def bw_new_def)

lemma low_byte_bits: "byte_bits (ucast (drop_bit k (acc :: u64))) = to_bits 8 (unat acc div 2 ^ k)"
proof -
  have "unat (ucast (drop_bit k acc) :: byte) = unat acc div 2 ^ k mod 2 ^ 8"
    by (simp only: unsigned_ucast_eq unat_drop_bit_eq) (simp add: take_bit_eq_mod drop_bit_eq_div)
  then show ?thesis by (simp only: byte_bits_def) (simp only: to_bits_mod order_refl)
qed

lemma emit_whole_bits:
  "bits_of (fst (emit_whole out acc n)) @ to_bits (snd (emit_whole out acc n)) (unat acc) =
     bits_of out @ to_bits n (unat acc)"
proof (induction out acc n rule: emit_whole.induct)
  case (1 out acc n)
  show ?case
  proof (cases "n \<ge> 8")
    case True
    then obtain m where m: "n = 8 + m" using le_Suc_ex by blast
    have "emit_whole out acc n = emit_whole (out @ [ucast (drop_bit (n - 8) acc)]) acc (n - 8)"
      using True by (subst emit_whole.simps) simp
    then show ?thesis
      using 1 [OF True] m to_bits_append [of 8 m "unat acc"] by (simp only: low_byte_bits) (simp add: low_byte_bits)
  qed (simp add: emit_whole.simps [of out acc n])
qed

lemma emit_whole_nbits: "snd (emit_whole out acc n) = n mod 8"
proof (induction out acc n rule: emit_whole.induct)
  case (1 out acc n)
  then show ?case
    by (cases "n \<ge> 8") (simp_all add: emit_whole.simps [of out acc n] le_mod_geq)
qed

lemma push_or_low:
  assumes "unat (a :: u64) < 2 ^ 8" and "n \<le> 32" and "unat v < 2 ^ n"
  shows "unat (push_bit n a OR v) = unat a * 2 ^ n + unat v"
proof -
  have "unat a * 2 ^ n < 2 ^ 8 * 2 ^ n" using assms(1) by simp
  also have "\<dots> \<le> 2 ^ 64" unfolding power_add [symmetric] using assms(2) by (intro power_increasing) auto
  finally have "unat (push_bit n a) = unat a * 2 ^ n" by (intro unat_push_bit_small) simp
  moreover have "push_bit n (unat a) OR unat v = push_bit n (unat a) + unat v"
  proof (rule disjunctive_add [symmetric])
    fix i
    have "take_bit n (unat v) = unat v" using assms(3) by (simp add: take_bit_nat_eq_self)
    then have "bit (unat v) i \<Longrightarrow> i < n" by (metis bit_take_bit_iff)
    then show "\<not> bit (push_bit n (unat a)) i \<or> \<not> bit (unat v) i" by (auto simp: bit_push_bit_iff)
  qed
  ultimately show ?thesis by (simp add: unsigned_or_eq push_bit_eq_mult)
qed

lemma writer_ok_acc: "writer_ok w \<Longrightarrow> unat (bw_acc w) < 2 ^ 8"
proof -
  assume w: "writer_ok w"
  then have "(2 :: nat) ^ bw_nbits w \<le> 2 ^ 8" by (intro power_increasing) (auto simp: writer_ok_def)
  then show ?thesis using w by (simp add: writer_ok_def)
qed

lemma write_bits_ok [simp]: "writer_ok (write_bits n v w)"
  unfolding writer_ok_def write_bits_def Let_def
  by (simp only: bit_writer.simps emit_whole_nbits unat_mask_and) simp

lemma write_bits_bits:
  assumes "writer_ok w" and "n \<le> 32"
  shows "writer_bits (write_bits n v w) = writer_bits w @ to_bits n (unat v)"
proof -
  define field where "field = (if n = 32 then ucast v else ucast v AND (push_bit n 1 - 1) :: u64)"
  have cast: "unat (ucast v :: u64) = unat v" by (rule unat_ucast_up) simp
  have f: "unat field = unat v mod 2 ^ n"
    using unsigned_less [of v, where 'a = nat] unfolding field_def
    by (cases "n = 32") (simp_all only: unat_mask_and cast if_True if_False refl, simp)
  have acc: "unat (push_bit n (bw_acc w) OR field) = unat (bw_acc w) * 2 ^ n + unat v mod 2 ^ n"
    using push_or_low [OF writer_ok_acc [OF assms(1)] assms(2), of field] f by simp
  define e where "e = emit_whole (bw_out w) (push_bit n (bw_acc w) OR field) (bw_nbits w + n)"
  have "writer_bits (write_bits n v w) =
      bits_of (fst e) @ to_bits (snd e) (unat ((push_bit n (bw_acc w) OR field) AND (push_bit (snd e) 1 - 1)))"
    by (simp add: writer_bits_def write_bits_def Let_def e_def field_def)
  also have "\<dots> = bits_of (fst e) @ to_bits (snd e) (unat (push_bit n (bw_acc w) OR field))"
    by (simp only: unat_mask_and to_bits_mod order_refl)
  also have "\<dots> = bits_of (bw_out w) @ to_bits (bw_nbits w + n) (unat (bw_acc w) * 2 ^ n + unat v mod 2 ^ n)"
    using emit_whole_bits [of "bw_out w" "push_bit n (bw_acc w) OR field" "bw_nbits w + n"]
    by (simp only: e_def acc)
  also have "to_bits (bw_nbits w + n) (unat (bw_acc w) * 2 ^ n + unat v mod 2 ^ n) =
      to_bits (bw_nbits w) (unat (bw_acc w)) @ to_bits n (unat v)"
  proof -
    have "(unat (bw_acc w) * 2 ^ n + unat v mod 2 ^ n) div 2 ^ n = unat (bw_acc w)" by simp
    moreover have "to_bits n (unat (bw_acc w) * 2 ^ n + unat v mod 2 ^ n) = to_bits n (unat v)"
      using to_bits_mod [of n n "unat (bw_acc w) * 2 ^ n + unat v mod 2 ^ n"] to_bits_mod [of n n "unat v"]
      by (simp add: mult.commute)
    ultimately show ?thesis by (simp only: to_bits_append)
  qed
  finally show ?thesis by (simp add: writer_bits_def)
qed

lemma write_bit_bits [simp]: "writer_ok w \<Longrightarrow> writer_bits (write_bit b w) = writer_bits w @ [bit (unat b) 0]"
  by (simp add: write_bit_def write_bits_bits)

lemma write_bit_ok [simp]: "writer_ok (write_bit b w)"
  by (simp add: write_bit_def)

lemma write_u32_bits [simp]: "writer_ok w \<Longrightarrow> writer_bits (write_u32 v w) = writer_bits w @ to_bits 32 (unat v)"
  by (simp add: write_u32_def write_bits_bits)

lemma write_u8_bits [simp]: "writer_ok w \<Longrightarrow> writer_bits (write_u8 b w) = writer_bits w @ byte_bits b"
proof -
  have "unat (ucast b :: u32) = unat b" by (rule unat_ucast_up) simp
  then show "writer_ok w \<Longrightarrow> ?thesis" by (simp add: write_u8_def write_bits_bits byte_bits_def)
qed

lemma write_ok [simp]: "writer_ok (write_u8 b w)" "writer_ok (write_u32 v w)" "writer_ok (write_magic m w)"
  by (simp_all add: write_u8_def write_u32_def write_magic_def)

lemma unat_ucast_down: "unat (ucast (w :: 'a::len word) :: 'b::len word) = unat w mod 2 ^ LENGTH('b)"
  by (simp only: unsigned_ucast_eq take_bit_eq_mod)

lemma write_magic_bits:
  assumes "writer_ok w" and "unat m < 2 ^ 48"
  shows "writer_bits (write_magic m w) = writer_bits w @ to_bits 48 (unat m)"
proof -
  have high: "unat (ucast (drop_bit 24 m) :: u32) = unat m div 2 ^ 24"
  proof -
    have "unat m div 2 ^ 24 < 2 ^ 32" using assms(2) by (simp add: div_less_iff_less_mult)
    then show ?thesis by (simp only: unat_ucast_down unat_drop_bit_eq) (simp add: drop_bit_eq_div)
  qed
  have "m AND 0xffffff = m AND (push_bit 24 1 - 1)" by simp
  then have "unat (m AND 0xffffff) = unat m mod 2 ^ 24" by (simp only: unat_mask_and)
  then have low: "unat (ucast (m AND 0xffffff) :: u32) = unat m mod 2 ^ 24"
    by (simp only: unat_ucast_down) simp
  have "to_bits 48 (unat m) = to_bits 24 (unat m div 2 ^ 24) @ to_bits 24 (unat m)"
    using to_bits_append [of 24 24 "unat m"] by simp
  then show ?thesis
    using assms(1) using to_bits_mod [of 24 24 "unat m"]
    by (simp add: write_magic_def write_bits_bits high low del: to_bits.simps)
qed

lemma fold_write_u8 [simp]:
  "writer_ok w \<Longrightarrow> writer_ok (fold write_u8 bs w) \<and> writer_bits (fold write_u8 bs w) = writer_bits w @ bits_of bs"
  by (induction bs arbitrary: w) simp_all

section \<open>Splicing a finished block into a stream\<close>

lemma to_bits_shift: "to_bits m (v * 2 ^ m) = replicate m False"
proof (induction m arbitrary: v)
  case (Suc m)
  have "\<not> bit (push_bit (Suc m) v) m" by (simp only: bit_push_bit_iff) simp
  then have "\<not> bit (v * 2 ^ Suc m) m" by (simp only: push_bit_eq_mult not_False_eq_True)
  then show ?case using Suc.IH [of "v * 2"] by (simp add: mult.assoc)
qed simp

lemma padded_byte:
  assumes "n < 8" and "unat (acc :: u64) < 2 ^ n"
  shows "byte_bits (ucast (push_bit (8 - n) acc)) = to_bits n (unat acc) @ replicate (8 - n) False"
proof -
  have eight: "(2 :: nat) ^ n * 2 ^ (8 - n) = 2 ^ 8" using assms(1) by (simp flip: power_add)
  have small: "unat acc * 2 ^ (8 - n) < 2 ^ 8" unfolding eight [symmetric] using assms(2) by simp
  then have "unat (push_bit (8 - n) acc) = unat acc * 2 ^ (8 - n)" by (intro unat_push_bit_small) simp
  then have "unat (ucast (push_bit (8 - n) acc) :: byte) = unat acc * 2 ^ (8 - n)"
    using small by (simp only: unat_ucast_down) simp
  moreover have "to_bits (n + (8 - n)) (unat acc * 2 ^ (8 - n)) = to_bits n (unat acc) @ replicate (8 - n) False"
    by (simp only: to_bits_append to_bits_shift) simp
  ultimately show ?thesis using assms(1) by (simp add: byte_bits_def del: to_bits.simps)
qed

lemma finish_bits_bits:
  assumes "writer_ok w"
  shows "bits_of (fst (finish_bits w)) = writer_bits w @ replicate (8 * length (fst (finish_bits w)) - length (writer_bits w)) False
    \<and> snd (finish_bits w) = length (writer_bits w)
    \<and> length (fst (finish_bits w)) = (snd (finish_bits w) + 7) div 8"
  using assms padded_byte [of "bw_nbits w" "bw_acc w"]
  by (cases "bw_nbits w = 0") (auto simp: finish_bits_def writer_bits_def writer_ok_def Let_def)

lemma bw_finish_bits:
  assumes "writer_ok w"
  shows "bits_of (bw_finish w) = writer_bits w @ replicate (8 * length (bw_finish w) - length (writer_bits w)) False
    \<and> length (bw_finish w) = (length (writer_bits w) + 7) div 8"
proof (cases "bw_nbits w = 0")
  case True
  then show ?thesis by (simp add: bw_finish_def writer_bits_def)
next
  case False
  let ?pad = "8 - bw_nbits w"
  define w' where "w' = write_bits ?pad 0 w"
  have n: "0 < bw_nbits w" "bw_nbits w < 8" using False assms by (simp_all add: writer_ok_def)
  have "bw_nbits w' = (bw_nbits w + ?pad) mod 8"
    by (simp add: w'_def write_bits_def Let_def emit_whole_nbits)
  then have "bw_nbits w' = 0" using n by simp
  moreover have "writer_bits w' = writer_bits w @ replicate ?pad False"
    unfolding w'_def using assms to_bits_shift [of ?pad 0] by (subst write_bits_bits) simp_all
  ultimately have bits: "bits_of (bw_out w') = writer_bits w @ replicate ?pad False" by (simp add: writer_bits_def)
  then have len: "8 * length (bw_out w') = length (writer_bits w) + ?pad"
    using length_bits_of [of "bw_out w'"] by simp
  moreover have "length (writer_bits w) = 8 * length (bw_out w) + bw_nbits w" by (simp add: writer_bits_def)
  ultimately have "length (bw_out w') = (length (writer_bits w) + 7) div 8" using n by linarith
  then show ?thesis using bits len False by (simp add: bw_finish_def w'_def)
qed

lemma write_buffer_bits:
  assumes "writer_ok w" and "bit_len \<le> 8 * length bs"
  shows "\<exists>w'. write_buffer bs bit_len w = Inr w' \<and> writer_ok w'
    \<and> writer_bits w' = writer_bits w @ take bit_len (bits_of bs)"
proof -
  let ?full = "bit_len div 8" and ?tail = "bit_len mod 8"
  define w1 where "w1 = fold write_u8 (take ?full bs) w"
  have w1: "writer_ok w1" "writer_bits w1 = writer_bits w @ take (8 * ?full) (bits_of bs)"
    using assms(1) by (simp_all add: w1_def bits_of_take)
  have whole: "index_range bs 0 ?full = Inr (take ?full bs)"
    using assms(2) by (simp add: slice_of_def)
  show ?thesis
  proof (cases "?tail = 0")
    case True
    then have "8 * ?full = bit_len" by presburger
    then show ?thesis using True w1 whole by (simp add: write_buffer_def Let_def w1_def)
  next
    case False
    then have full: "?full < length bs" using assms(2) by presburger
    define w2 where "w2 = write_bits ?tail (ucast (drop_bit (8 - ?tail) (bs ! ?full))) w1"
    have "unat (ucast (drop_bit (8 - ?tail) (bs ! ?full)) :: u32) = unat (bs ! ?full) div 2 ^ (8 - ?tail)"
      by (subst unat_ucast_up) (simp, simp only: unat_drop_bit_eq, simp add: drop_bit_eq_div)
    then have "writer_bits w2 = writer_bits w1 @ to_bits ?tail (unat (bs ! ?full) div 2 ^ (8 - ?tail))"
      unfolding w2_def using w1(1) False by (subst write_bits_bits) (simp_all add: mod_le_divisor)
    also have "to_bits ?tail (unat (bs ! ?full) div 2 ^ (8 - ?tail)) = take ?tail (byte_bits (bs ! ?full))"
      using to_bits_append [of ?tail "8 - ?tail" "unat (bs ! ?full)"] by (simp add: byte_bits_def del: to_bits.simps)
    also have "\<dots> = take ?tail (drop (8 * ?full) (bits_of bs))"
      using full by (simp add: bits_of_drop [symmetric] Cons_nth_drop_Suc [symmetric])
    finally have "writer_bits w2 = writer_bits w @ take (8 * ?full + ?tail) (bits_of bs)"
      using w1(2) by (simp only: take_add append_assoc)
    then have "writer_bits w2 = writer_bits w @ take bit_len (bits_of bs)" by simp
    moreover have "write_buffer bs bit_len w = Inr w2"
      using False whole full by (simp add: write_buffer_def Let_def w1_def w2_def)
    ultimately show ?thesis by (simp add: w2_def)
  qed
qed

text \<open>C21. Splicing: a block a worker encoded into a writer of its own and closed with \<open>finish_bits\<close>
  enters the stream, whatever the bit position there, as exactly the bits the worker wrote; the
  zero padding of the worker's last byte does not.\<close>

theorem splice_finished_block:
  assumes "writer_ok stream" and "writer_ok worker"
  shows "(case write_buffer (fst (finish_bits worker)) (snd (finish_bits worker)) stream of
      Inl _ \<Rightarrow> False
    | Inr stream' \<Rightarrow> writer_ok stream' \<and> writer_bits stream' = writer_bits stream @ writer_bits worker)"
proof -
  note f = finish_bits_bits [OF assms(2)]
  have "length (bits_of (fst (finish_bits worker))) = 8 * length (fst (finish_bits worker))" by simp
  then have "snd (finish_bits worker) \<le> 8 * length (fst (finish_bits worker))" using f by simp
  then show ?thesis using write_buffer_bits [OF assms(1)] f by fastforce
qed

theorem splice_finished_block_witness:
  "(case write_buffer (fst (finish_bits (write_bits 5 0x15 bw_new))) (snd (finish_bits (write_bits 5 0x15 bw_new)))
      (write_bits 3 6 bw_new) of
      Inl _ \<Rightarrow> False
    | Inr stream' \<Rightarrow> writer_ok stream' \<and>
        writer_bits stream' = writer_bits (write_bits 3 6 bw_new) @ writer_bits (write_bits 5 0x15 bw_new))"
  by (rule splice_finished_block) simp_all

end
