(* ===== verification/Crc.thy ===== *)
theory Crc
  imports Msb_Bits
begin

text \<open>
  The CRC of \<open>src/crc.rs\<close>: a 256-entry table, the running state that every byte of a block updates,
  and the combination of block CRCs into the stream's. The table-driven update is compared with the
  bit-at-a-time division it stands for (\<open>crc_feed\<close>), from which error detection follows.
\<close>

section \<open>The code\<close>

definition POLYNOMIAL :: u32 where "POLYNOMIAL = 0x04c11db7"

definition crc_shift :: "u32 \<Rightarrow> u32" where
  "crc_shift crc = (if crc AND 0x80000000 \<noteq> 0 then push_bit 1 crc XOR POLYNOMIAL else push_bit 1 crc)"

definition make_table :: "u32 list" where
  "make_table = map (\<lambda>b. (crc_shift ^^ 8) (push_bit 24 (word_of_nat b))) [0..<256]"

record bz2_crc =
  crc_state :: u32

definition crc_new :: bz2_crc where
  "crc_new = \<lparr>crc_state = - 1\<rparr>"

definition crc_byte :: "byte \<Rightarrow> bz2_crc \<Rightarrow> bz2_crc" where
  "crc_byte b crc =
     (let i = unat ((ucast (drop_bit 24 (crc_state crc)) :: byte) XOR b)
      in \<lparr>crc_state = push_bit 8 (crc_state crc) XOR make_table ! i\<rparr>)"

fun push_repeat :: "byte \<Rightarrow> nat \<Rightarrow> bz2_crc \<Rightarrow> bz2_crc" where
  "push_repeat b 0 crc = crc"
| "push_repeat b (Suc count) crc = push_repeat b count (crc_byte b crc)"

definition crc_update :: "bytes \<Rightarrow> bz2_crc \<Rightarrow> bz2_crc" where
  "crc_update data crc = fold crc_byte data crc"

definition crc_finish :: "bz2_crc \<Rightarrow> u32" where
  "crc_finish crc = NOT (crc_state crc)"

definition bz2_crc32 :: "bytes \<Rightarrow> u32" where
  "bz2_crc32 data = crc_finish (crc_update data crc_new)"

definition combine_stream_crc :: "u32 \<Rightarrow> u32 \<Rightarrow> u32" where
  "combine_stream_crc stream_crc block_crc = word_rotl 1 stream_crc XOR block_crc"

section \<open>Shifting is linear and loses nothing\<close>

lemma top_bit: "(w :: u32) AND 0x80000000 \<noteq> 0 \<longleftrightarrow> bit w 31"
proof -
  have eq: "(0x80000000 :: u32) = push_bit 31 1" by simp
  have one: "bit (push_bit 31 1 :: u32) n \<longleftrightarrow> n = 31" for n
    by (simp only: bit_push_bit_iff bit_1_iff) auto
  have "bit (w AND push_bit 31 1) n \<longleftrightarrow> n = 31 \<and> bit w n" for n
    by (simp only: bit_and_iff one) blast
  then show ?thesis unfolding eq by (metis bit_0_eq bot_apply bot_bool_def bit_eqI)
qed

lemma crc_shift_bit: "crc_shift w = push_bit 1 w XOR (if bit w 31 then POLYNOMIAL else 0)"
  by (simp only: crc_shift_def top_bit) simp

lemma crc_shift_0 [simp]: "crc_shift 0 = 0"
  by (simp add: crc_shift_bit)

lemma push_bit_xor_word: "push_bit n (a XOR b) = push_bit n a XOR push_bit n (b :: 'a::len word)"
  by (rule push_bit_xor)

lemma crc_shift_xor: "crc_shift (a XOR b) = crc_shift a XOR crc_shift b"
  unfolding crc_shift_bit push_bit_xor_word bit_xor_iff
  by (cases "bit a 31"; cases "bit b 31") (simp_all add: ac_simps)

lemma crc_shifts_xor: "(crc_shift ^^ n) (a XOR b) = (crc_shift ^^ n) a XOR (crc_shift ^^ n) b"
  by (induction n) (simp_all add: crc_shift_xor)

lemma crc_shift_eq_0: "crc_shift w = 0 \<Longrightarrow> w = 0"
proof -
  assume z: "crc_shift w = 0"
  have low: "bit (crc_shift w) 0 = bit w 31"
    unfolding crc_shift_bit bit_xor_iff bit_push_bit_iff by (simp add: POLYNOMIAL_def)
  have top: "\<not> bit w 31" using low z by simp
  then have "push_bit 1 w = 0" using z by (simp only: crc_shift_bit) simp
  then have *: "\<not> bit (push_bit 1 w) (Suc n)" for n by (simp only: bit_0_eq) simp
  have "\<not> bit w n" for n
  proof (cases "n < 31")
    case True
    then show ?thesis using * [of n] by (simp only: bit_push_bit_iff) simp
  next
    case False
    then show ?thesis using top bit_imp_le_length [of w n] by (cases "n = 31") auto
  qed
  then show "w = 0" by (intro bit_eqI) simp
qed

lemma crc_shifts_inj: "(crc_shift ^^ n) a = (crc_shift ^^ n) b \<Longrightarrow> a = b"
proof (induction n)
  case (Suc n)
  then have "crc_shift ((crc_shift ^^ n) a XOR (crc_shift ^^ n) b) = 0" by (simp add: crc_shift_xor)
  then have "(crc_shift ^^ n) a XOR (crc_shift ^^ n) b = 0" by (rule crc_shift_eq_0)
  then show ?case using Suc.IH by (metis xor_eq_0_imp_eq)
qed simp

lemma crc_shifts_low:
  "(\<And>i. 32 - n \<le> i \<Longrightarrow> \<not> bit x i) \<Longrightarrow> n \<le> 32 \<Longrightarrow> (crc_shift ^^ n) x = push_bit n x"
proof (induction n arbitrary: x)
  case (Suc n)
  have "\<not> bit x 31" using Suc.prems by simp
  then have step: "crc_shift x = push_bit 1 x" by (simp only: crc_shift_bit) simp
  have "(crc_shift ^^ n) (push_bit 1 x) = push_bit n (push_bit 1 x)"
    using Suc.prems by (intro Suc.IH) (auto simp only: bit_push_bit_iff)
  then show ?case by (simp only: funpow_Suc_right comp_apply step push_bit_push_bit) simp
qed simp

lemma length_make_table [simp]: "length make_table = 256"
  by (simp add: make_table_def)

lemma make_table_nth: "make_table ! unat (b :: byte) = (crc_shift ^^ 8) (push_bit 24 (ucast b))"
  using unat_byte_less [of b] unfolding make_table_def
  by (subst nth_map) (simp_all add: nth_upt del: funpow.simps)

text \<open>One table step is eight shifts of the state with the byte added at the top.\<close>

lemma crc_byte_shifts:
  "crc_state (crc_byte b crc) = (crc_shift ^^ 8) (crc_state crc XOR push_bit 24 (ucast b))"
proof -
  let ?s = "crc_state crc"
  let ?top = "ucast (drop_bit 24 ?s) :: byte"
  have split: "?s = push_bit 24 (ucast ?top) XOR take_bit 24 ?s"
    by (intro bit_word_eqI) (auto simp: bit_xor_iff bit_push_bit_iff bit_take_bit_iff bit_drop_bit_eq bit_ucast_iff simp del: push_bit_eq_mult)
  have low: "(crc_shift ^^ 8) (take_bit 24 ?s) = push_bit 8 (take_bit 24 ?s)"
    by (rule crc_shifts_low) (auto simp: bit_take_bit_iff)
  have shift: "push_bit 8 ?s = push_bit 8 (take_bit 24 ?s)"
    by (intro bit_word_eqI) (simp only: bit_push_bit_iff bit_take_bit_iff, auto)
  have "?s XOR push_bit 24 (ucast b) = push_bit 24 (ucast (?top XOR b)) XOR take_bit 24 ?s"
    by (subst split) (simp only: push_bit_xor_word unsigned_xor_eq ac_simps)
  then have "(crc_shift ^^ 8) (?s XOR push_bit 24 (ucast b)) =
      make_table ! unat (?top XOR b) XOR push_bit 8 (take_bit 24 ?s)"
    by (simp only: crc_shifts_xor low make_table_nth)
  then show ?thesis by (simp only: crc_byte_def Let_def bz2_crc.simps shift ac_simps)
qed

section \<open>Properties\<close>

text \<open>The reference: polynomial division one data bit at a time.\<close>

definition crc_feed :: "bool \<Rightarrow> u32 \<Rightarrow> u32" where
  "crc_feed b s = (if bit s 31 \<noteq> b then push_bit 1 s XOR POLYNOMIAL else push_bit 1 s)"

lemma crc_feed_shift: "crc_feed b s = crc_shift (s XOR push_bit 31 (of_bool b))"
proof -
  have top: "crc_shift (push_bit 31 1) = POLYNOMIAL" by code_simp
  have "crc_feed b s = crc_shift s XOR (if b then POLYNOMIAL else 0)"
    unfolding crc_feed_def crc_shift_bit by (cases b; cases "bit s 31") (simp_all only: simp_thms if_True if_False
      xor.assoc xor_self_eq xor.right_neutral)
  also have "(if b then POLYNOMIAL else 0) = crc_shift (push_bit 31 (of_bool b))"
    by (cases b) (simp_all only: top of_bool_eq push_bit_of_0 crc_shift_0 if_True if_False)
  finally show ?thesis by (simp only: crc_shift_xor)
qed

lemma field_below_top:
  assumes "v < 2 ^ n" and "n < 32" and "31 \<le> i"
  shows "\<not> bit (push_bit (31 - n) (word_of_nat v :: u32)) i"
proof -
  have "take_bit n v = v" using assms(1) by (simp add: take_bit_nat_eq_self)
  then have "bit v k \<Longrightarrow> k < n" for k by (metis bit_take_bit_iff)
  then show ?thesis using assms(2,3) by (simp only: bit_push_bit_iff bit_of_nat_iff) force
qed

lemma crc_feed_field:
  "length bs \<le> 32 \<Longrightarrow>
     fold crc_feed bs s = (crc_shift ^^ length bs) (s XOR push_bit (32 - length bs) (word_of_nat (bits_val bs)))"
proof (induction bs arbitrary: s)
  case (Cons b bs)
  let ?n = "length bs" and ?v = "bits_val bs"
  let ?low = "push_bit (31 - ?n) (word_of_nat ?v) :: u32"
  have n: "?n < 32" using Cons.prems by simp
  have off: "\<not> bit ?low i" if "31 \<le> i" for i using field_below_top [OF bits_val_less n that] .
  have len: "32 - length (b # bs) = 31 - ?n" by simp
  have top: "bit (push_bit 31 (of_bool b) :: u32) i \<Longrightarrow> 31 \<le> i" for i by (simp only: bit_push_bit_iff)
  have up: "32 - ?n = 31 - ?n + 1" using n by simp
  have low: "crc_shift ?low = push_bit (32 - ?n) (word_of_nat ?v)"
    using off [of 31] unfolding up by (simp only: crc_shift_bit push_bit_push_bit) (simp add: add.commute)
  have "push_bit (31 - ?n) (word_of_nat (of_bool b * 2 ^ ?n + ?v)) = push_bit 31 (of_bool b) + ?low"
  proof -
    have "(2 :: u32) ^ ?n * 2 ^ (31 - ?n) = 2 ^ 31" using n by (simp flip: power_add)
    then show ?thesis by (simp add: push_bit_eq_mult distrib_right mult.assoc)
  qed
  also have "\<dots> = push_bit 31 (of_bool b) OR ?low"
    by (rule disjunctive_add) (use top off in blast)
  also have "\<dots> = push_bit 31 (of_bool b) XOR ?low"
    by (intro bit_word_eqI) (simp only: bit_or_iff bit_xor_iff, use top off in blast)
  finally have sum: "push_bit (32 - length (b # bs)) (word_of_nat (bits_val (b # bs))) =
      push_bit 31 (of_bool b) XOR ?low"
    by (simp only: bits_val.simps len)
  have "fold crc_feed (b # bs) s =
      (crc_shift ^^ ?n) (crc_shift (s XOR push_bit 31 (of_bool b)) XOR crc_shift ?low)"
    using Cons.IH [of "crc_feed b s"] n by (simp only: fold.simps comp_apply low crc_feed_shift [of b s])
  also have "\<dots> = (crc_shift ^^ length (b # bs)) (s XOR (push_bit 31 (of_bool b) XOR ?low))"
    by (simp only: list.size add_Suc_right add_0_right funpow_Suc_right comp_apply crc_shift_xor xor.assoc)
  finally show ?case unfolding sum .
qed simp

lemma crc_byte_feed: "crc_state (crc_byte b crc) = fold crc_feed (byte_bits b) (crc_state crc)"
proof -
  have "word_of_nat (bits_val (byte_bits b)) = (ucast b :: u32)"
    by (simp add: byte_bits_def bits_val_to_bits del: to_bits.simps)
  then show ?thesis using crc_feed_field [of "byte_bits b" "crc_state crc"] by (simp only: crc_byte_shifts) simp
qed

lemma crc_update_feed: "crc_state (crc_update data crc) = fold crc_feed (bits_of data) (crc_state crc)"
  unfolding crc_update_def by (induction data arbitrary: crc) (simp_all add: crc_byte_feed)

lemma crc_update_append: "crc_update (xs @ ys) crc = crc_update ys (crc_update xs crc)"
  by (simp add: crc_update_def)

lemma push_repeat_update: "push_repeat b n crc = crc_update (replicate n b) crc"
  by (induction n arbitrary: crc) (simp_all add: crc_update_def)

lemma xor_right_cancel: "a XOR c = b XOR c \<Longrightarrow> a = (b :: 'a::len word)"
proof -
  assume "a XOR c = b XOR c"
  then have "(a XOR c) XOR c = (b XOR c) XOR c" by (rule arg_cong)
  then show ?thesis by (simp only: xor.assoc xor_self_eq xor.right_neutral)
qed

lemma crc_byte_inj:
  "crc_byte b crc = crc_byte b crc' \<Longrightarrow> crc = crc'"
  "crc_byte b crc = crc_byte b' crc \<Longrightarrow> b = b'"
proof -
  assume "crc_byte b crc = crc_byte b crc'"
  then have "(crc_shift ^^ 8) (crc_state crc XOR push_bit 24 (ucast b)) =
      (crc_shift ^^ 8) (crc_state crc' XOR push_bit 24 (ucast b))"
    by (simp only: crc_byte_shifts [symmetric])
  then have "crc_state crc XOR push_bit 24 (ucast b) = crc_state crc' XOR push_bit 24 (ucast b)"
    by (rule crc_shifts_inj)
  then have "crc_state crc = crc_state crc'"
    by (rule xor_right_cancel)
  then show "crc = crc'" by (cases crc; cases crc') simp
next
  assume "crc_byte b crc = crc_byte b' crc"
  then have "(crc_shift ^^ 8) (crc_state crc XOR push_bit 24 (ucast b)) =
      (crc_shift ^^ 8) (crc_state crc XOR push_bit 24 (ucast b'))"
    by (simp only: crc_byte_shifts [symmetric])
  then have "crc_state crc XOR push_bit 24 (ucast b) = crc_state crc XOR push_bit 24 (ucast b')"
    by (rule crc_shifts_inj)
  then have "push_bit 24 (ucast b :: u32) = push_bit 24 (ucast b')"
    by (simp only: xor.commute [of "crc_state crc"]) (rule xor_right_cancel)
  then have *: "bit (push_bit 24 (ucast b :: u32)) (i + 24) = bit (push_bit 24 (ucast b' :: u32)) (i + 24)" for i
    by simp
  show "b = b'"
  proof (rule bit_word_eqI)
    fix i assume "i < LENGTH(8)"
    then show "bit b i = bit b' i" using * [of i] by (simp only: bit_push_bit_iff bit_ucast_iff) simp
  qed
qed

lemma crc_update_inj: "crc_update data crc = crc_update data crc' \<Longrightarrow> crc = crc'"
  unfolding crc_update_def by (induction data arbitrary: crc crc') (auto dest: crc_byte_inj(1))

text \<open>C23. The table-driven CRC equals the bit-at-a-time division of the whole block, most significant
  bit first, by the generator polynomial, started from all ones and complemented at the end.\<close>

theorem bz2_crc32_bitwise: "bz2_crc32 data = NOT (fold crc_feed (bits_of data) (- 1))"
  by (simp add: bz2_crc32_def crc_finish_def crc_update_feed crc_new_def)

text \<open>A block and the same block with one byte changed never have the same CRC.\<close>

theorem crc_detects_changed_byte:
  assumes "b \<noteq> b'"
  shows "bz2_crc32 (xs @ b # ys) \<noteq> bz2_crc32 (xs @ b' # ys)"
proof
  assume "bz2_crc32 (xs @ b # ys) = bz2_crc32 (xs @ b' # ys)"
  then have "crc_state (crc_update (xs @ b # ys) crc_new) = crc_state (crc_update (xs @ b' # ys) crc_new)"
    by (simp only: bz2_crc32_def crc_finish_def) (metis bit.double_compl)
  then have "crc_update (xs @ b # ys) crc_new = crc_update (xs @ b' # ys) crc_new"
    by (simp add: bz2_crc.equality)
  then have "crc_update ys (crc_byte b (crc_update xs crc_new)) = crc_update ys (crc_byte b' (crc_update xs crc_new))"
    by (simp add: crc_update_def)
  then show False using assms crc_update_inj crc_byte_inj(2) by blast
qed

theorem crc_detects_changed_byte_witness:
  "bz2_crc32 ([1, 2] @ 3 # [4]) \<noteq> bz2_crc32 ([1, 2] @ 7 # [4])"
  by (rule crc_detects_changed_byte) simp

end
