(* ===== verification/Format.thy ===== *)
theory Format
  imports Bit_Reader
begin

text \<open>
  The structural scan of \<open>src/format.rs\<close>: stream headers at byte positions, block and end-of-stream
  markers at any bit position, found with a 56-bit window and two tables that rule out shifts by the
  window's first byte, and the same scan split into chunks for a thread pool. \<open>marker_at\<close> is what a
  marker at a bit position means; the scan is shown to report exactly those.
\<close>

section \<open>Candidates\<close>

definition BLOCK_MAGIC :: u64 where "BLOCK_MAGIC = 0x314159265359"
definition END_MAGIC :: u64 where "END_MAGIC = 0x177245385090"
definition MAGIC_BITS :: nat where "MAGIC_BITS = 48"
definition MAGIC_MASK :: u64 where "MAGIC_MASK = push_bit 48 1 - 1"
definition WINDOW_MASK :: u64 where "WINDOW_MASK = push_bit 56 1 - 1"
definition SCAN_CHUNK :: nat where "SCAN_CHUNK = 2 ^ 20"

record stream_candidate =
  sc_byte_offset :: nat
  sc_block_size :: byte

record block_candidate =
  bc_bit_offset :: nat
  bc_expected_crc :: u32
  bc_randomized :: bool
  bc_orig_ptr :: u32

record end_candidate =
  ec_bit_offset :: nat
  ec_expected_crc :: u32

record scan_result =
  sr_streams :: "stream_candidate list"
  sr_blocks :: "block_candidate list"
  sr_ends :: "end_candidate list"

definition byte_at :: "bytes \<Rightarrow> nat \<Rightarrow> byte" where
  "byte_at data offset = (case get_at data offset of Some b \<Rightarrow> b | None \<Rightarrow> 0)"

definition is_stream_header :: "bytes \<Rightarrow> nat \<Rightarrow> bool" where
  "is_stream_header data offset \<longleftrightarrow>
     get_range data offset (offset + 3) = Some [0x42, 0x5a, 0x68] \<and>
     (case get_at data (offset + 3) of Some b \<Rightarrow> 0x31 \<le> b \<and> b \<le> 0x39 | None \<Rightarrow> False)"

text \<open>\<open>Result::ok\<close>.\<close>

definition ok_of :: "'e + 'a \<Rightarrow> 'a option" where
  "ok_of r = (case r of Inl _ \<Rightarrow> None | Inr x \<Rightarrow> Some x)"

definition parse_block :: "bytes \<Rightarrow> nat \<Rightarrow> block_candidate option" where
  "parse_block data bit_offset =
     ok_of (and_then (br_at data (bit_offset + MAGIC_BITS)) (\<lambda>reader.
       and_then (br_read_bits reader 32) (\<lambda>(crc, reader).
       and_then (br_read_bit reader) (\<lambda>(randomized, reader).
       and_then (br_read_bits reader 24) (\<lambda>(orig, reader).
         Inr \<lparr>bc_bit_offset = bit_offset, bc_expected_crc = ucast crc, bc_randomized = randomized,
               bc_orig_ptr = ucast orig\<rparr>)))))"

definition parse_end :: "bytes \<Rightarrow> nat \<Rightarrow> end_candidate option" where
  "parse_end data bit_offset =
     ok_of (and_then (br_at data (bit_offset + MAGIC_BITS)) (\<lambda>reader.
       and_then (br_read_bits reader 32) (\<lambda>(crc, reader).
         Inr \<lparr>ec_bit_offset = bit_offset, ec_expected_crc = ucast crc\<rparr>)))"

section \<open>The prefix tables\<close>

definition prefix_entry :: "u64 \<Rightarrow> byte \<Rightarrow> byte" where
  "prefix_entry magic b = fold (\<lambda>shift entry.
     let wanted = ucast (drop_bit (40 + shift) magic) :: byte;
         kept = ucast ((push_bit (8 - shift) 1 :: u16) - 1) :: byte
     in if b AND kept = wanted then entry OR push_bit shift 1 else entry) [0..<8] 0"

definition prefix_table :: "u64 \<Rightarrow> byte list" where
  "prefix_table magic = map (\<lambda>b. prefix_entry magic (word_of_nat b)) [0..<256]"

definition BLOCK_PREFIX :: "byte list" where "BLOCK_PREFIX = prefix_table BLOCK_MAGIC"
definition END_PREFIX :: "byte list" where "END_PREFIX = prefix_table END_MAGIC"

section \<open>Scanning\<close>

definition add_block :: "block_candidate option \<Rightarrow> scan_result \<Rightarrow> scan_result" where
  "add_block c r = (case c of Some b \<Rightarrow> r\<lparr>sr_blocks := sr_blocks r @ [b]\<rparr> | None \<Rightarrow> r)"

definition add_end :: "end_candidate option \<Rightarrow> scan_result \<Rightarrow> scan_result" where
  "add_end c r = (case c of Some e \<Rightarrow> r\<lparr>sr_ends := sr_ends r @ [e]\<rparr> | None \<Rightarrow> r)"

definition scan_shift :: "bytes \<Rightarrow> u64 \<Rightarrow> nat \<Rightarrow> nat \<Rightarrow> scan_result \<Rightarrow> scan_result" where
  "scan_shift data window byte_offset shift r =
     (let marker = drop_bit (8 - shift) window AND MAGIC_MASK;
          bit_offset = byte_offset * 8 + shift
      in if marker = BLOCK_MAGIC then add_block (parse_block data bit_offset) r
         else if marker = END_MAGIC then add_end (parse_end data bit_offset) r
         else r)"

text \<open>\<open>trailing_zeros\<close>, and the loop that takes the lowest set bit of \<open>shifts\<close> until none is left.\<close>

definition lowest_bit :: "byte \<Rightarrow> nat" where
  "lowest_bit w = length (takeWhile (\<lambda>n. \<not> bit w n) [0..<8])"

function scan_shifts :: "bytes \<Rightarrow> u64 \<Rightarrow> nat \<Rightarrow> byte \<Rightarrow> scan_result \<Rightarrow> scan_result" where
  "scan_shifts data window byte_offset shifts r =
     (if shifts = 0 then r
      else scan_shifts data window byte_offset (shifts AND (shifts - 1))
        (scan_shift data window byte_offset (lowest_bit shifts) r))"
  by pat_completeness auto
termination
proof (relation "measure (\<lambda>(_, _, _, shifts, _). unat shifts)", goal_cases)
  case (2 data window byte_offset shifts r)
  then have "unat (shifts AND (shifts - 1)) \<le> unat (shifts - 1)"
    by (simp only: word_le_nat_alt [symmetric] word_and_le1)
  also have "\<dots> < unat shifts" using 2 by (simp add: unat_minus_one unat_gt_0 unat_eq_zero)
  finally show ?case by simp
qed simp

declare scan_shifts.simps [simp del]

definition scan_byte :: "bytes \<Rightarrow> nat \<Rightarrow> u64 \<times> scan_result \<Rightarrow> u64 \<times> scan_result" where
  "scan_byte data byte_offset s =
     (let window = fst s; top = unat (drop_bit 48 window);
          shifts = BLOCK_PREFIX ! top OR END_PREFIX ! top
      in ((push_bit 8 window AND WINDOW_MASK) OR ucast (byte_at data (byte_offset + 7)),
          scan_shifts data window byte_offset shifts (snd s)))"

definition scan_range :: "bytes \<Rightarrow> nat \<Rightarrow> nat \<Rightarrow> scan_result" where
  "scan_range data start stop =
     (let streams = map (\<lambda>offset. \<lparr>sc_byte_offset = offset, sc_block_size = data ! (offset + 3) - 0x30\<rparr>)
            (filter (is_stream_header data) [start..<stop]);
          empty = \<lparr>sr_streams = streams, sr_blocks = [], sr_ends = []\<rparr>
      in if length data < 7 \<or> start \<ge> stop then empty
         else (let window = fold (\<lambda>offset word. push_bit 8 word OR ucast (byte_at data offset)) [start..<start + 7] (0 :: u64)
               in snd (fold (scan_byte data) [start..<stop] (window, empty))))"

definition scan :: "bytes \<Rightarrow> error + scan_result" where
  "scan data =
     (if \<not> is_stream_header data 0 then Inl InvalidStreamHeader else Inr (scan_range data 0 (length data)))"

text \<open>
  The pooled scan polls \<open>cancelled\<close> before every wave of chunks and once at the end; \<open>cancelled n\<close> is
  the answer to poll \<open>n\<close>. Within a wave the pool collects the chunks' results in order.
\<close>

definition append_scan :: "scan_result \<Rightarrow> scan_result \<Rightarrow> scan_result" where
  "append_scan r c = \<lparr>sr_streams = sr_streams r @ sr_streams c, sr_blocks = sr_blocks r @ sr_blocks c,
     sr_ends = sr_ends r @ sr_ends c\<rparr>"

definition scan_chunk :: "bytes \<Rightarrow> nat \<Rightarrow> scan_result" where
  "scan_chunk data chunk = scan_range data (chunk * SCAN_CHUNK) (min ((chunk + 1) * SCAN_CHUNK) (length data))"

function scan_waves :: "bytes \<Rightarrow> nat \<Rightarrow> nat \<Rightarrow> (nat \<Rightarrow> bool) \<Rightarrow> nat \<Rightarrow> nat \<Rightarrow> scan_result \<Rightarrow> error + nat \<times> scan_result" where
  "scan_waves data threads chunks cancelled polls first r =
     (if first \<ge> chunks then Inr (polls, r)
      else if cancelled polls then Inl (Io BrokenPipe)
      else (let wave = max threads 1; stop = min (sat_add first wave) chunks
            in scan_waves data threads chunks cancelled (polls + 1) (first + wave)
                 (fold (\<lambda>c r. append_scan r c) (map (scan_chunk data) [first..<stop]) r)))"
  by pat_completeness auto
termination
  by (relation "measure (\<lambda>(_, _, chunks, _, _, first, _). chunks - first)") auto

declare scan_waves.simps [simp del]

definition scan_with_pool :: "bytes \<Rightarrow> nat option \<Rightarrow> (nat \<Rightarrow> bool) \<Rightarrow> error + scan_result" where
  "scan_with_pool data pool cancelled =
     (if \<not> is_stream_header data 0 then Inl InvalidStreamHeader
      else if cancelled 0 then Inl (Io BrokenPipe)
      else (case (if length data > SCAN_CHUNK then pool else None) of
          None \<Rightarrow> if cancelled 1 then Inl (Io BrokenPipe) else Inr (scan_range data 0 (length data))
        | Some threads \<Rightarrow>
            and_then (scan_waves data threads ((length data + SCAN_CHUNK - 1) div SCAN_CHUNK) cancelled 1 0
              \<lparr>sr_streams = [], sr_blocks = [], sr_ends = []\<rparr>) (\<lambda>(polls, r).
            if cancelled polls then Inl (Io BrokenPipe) else Inr r)))"

section \<open>Candidate shifts\<close>

function shift_order :: "byte \<Rightarrow> nat list" where
  "shift_order w = (if w = 0 then [] else lowest_bit w # shift_order (w AND (w - 1)))"
  by pat_completeness auto
termination
proof (relation "measure unat", goal_cases)
  case (2 w)
  have "unat (w AND (w - 1)) \<le> unat (w - 1)" by (simp only: word_le_nat_alt [symmetric] word_and_le1)
  also have "\<dots> < unat w" using 2 by (simp add: unat_minus_one unat_gt_0 unat_eq_zero)
  finally show ?case by simp
qed simp

declare shift_order.simps [simp del]

lemma scan_shifts_fold:
  "scan_shifts data window off shifts r = fold (scan_shift data window off) (shift_order shifts) r"
proof (induction data window off shifts r rule: scan_shifts.induct)
  case (1 data window off shifts r)
  then show ?case
    unfolding scan_shifts.simps [of data window off shifts r] shift_order.simps [of shifts] by simp
qed

lemma lowest_bit:
  assumes "w \<noteq> 0"
  shows "lowest_bit w < 8" "bit w (lowest_bit w)" "n < lowest_bit w \<Longrightarrow> \<not> bit w n"
proof -
  have "\<exists>n<8. bit w n"
  proof (rule ccontr)
    assume none: "\<not> (\<exists>n<8. bit w n)"
    then have "w = 0" by (intro bit_word_eqI) simp
    then show False using assms by simp
  qed
  then obtain n where n: "n \<in> set [0..<8]" "bit w n" by auto
  have less: "lowest_bit w < length [0..<8]"
  proof (rule ccontr)
    assume "\<not> ?thesis"
    then have "length (takeWhile (\<lambda>n. \<not> bit w n) [0..<8]) = length [0..<8]"
      unfolding lowest_bit_def using length_takeWhile_le [of "\<lambda>n. \<not> bit w n" "[0..<8]"] by linarith
    then have "takeWhile (\<lambda>n. \<not> bit w n) [0..<8] = [0..<8]"
      by (metis takeWhile_eq_take take_all order_refl)
    then show False using n by (simp add: takeWhile_eq_all_conv)
  qed
  then show "lowest_bit w < 8" by simp
  show "bit w (lowest_bit w)"
    using nth_length_takeWhile [of "\<lambda>n. \<not> bit w n" "[0..<8]"] less by (simp add: lowest_bit_def)
  show "\<not> bit w n" if "n < lowest_bit w" for n
    using that takeWhile_nth [of n "\<lambda>n. \<not> bit w n" "[0..<8]"] nth_mem [of n "takeWhile (\<lambda>n. \<not> bit w n) [0..<8]"]
      set_takeWhileD [of _ "\<lambda>n. \<not> bit w n" "[0..<8]"] less
    by (auto simp: lowest_bit_def)
qed

lemma clear_lowest_bit:
  assumes "w \<noteq> 0"
  shows "bit (w AND (w - 1)) n \<longleftrightarrow> bit w n \<and> n \<noteq> lowest_bit w"
proof -
  let ?k = "lowest_bit w" and ?u = "unat w"
  have low: "?u mod 2 ^ ?k = 0"
  proof -
    have "take_bit ?k ?u = 0"
      using lowest_bit(3) [OF assms] by (intro bit_eqI) (auto simp: bit_take_bit_iff bit_unsigned_iff)
    then show ?thesis by (simp add: take_bit_eq_mod)
  qed
  have odd: "odd (?u div 2 ^ ?k)"
    using lowest_bit(1,2) [OF assms] by (simp add: bit_unsigned_iff flip: bit_iff_odd)
  then obtain m where m: "?u div 2 ^ ?k = 2 * m + 1" by (elim oddE)
  then have u: "?u = (2 * m + 1) * 2 ^ ?k" using low by (metis add.right_neutral div_mult_mod_eq)
  have minus: "unat (w - 1) = ?u - 1" using assms by (simp add: unat_minus_one unat_eq_zero)
  have one: "?u - 1 = 2 * m * 2 ^ ?k + (2 ^ ?k - 1)" using u by (simp add: algebra_simps)
  have "(2 * m * c + r) div c = 2 * m" if "r < c" for c r :: nat using that by simp
  then have div: "(?u - 1) div 2 ^ ?k = 2 * m" unfolding one by (metis diff_less zero_less_one zero_less_power zero_less_numeral)
  have bits: "bit (w - 1) n \<longleftrightarrow> bit (?u - 1) n" for n
    unfolding minus [symmetric] by (simp add: bit_unsigned_iff)
  show ?thesis
  proof (cases n ?k rule: linorder_cases)
    case less
    then show ?thesis using lowest_bit(3) [OF assms] by (simp add: bit_and_iff)
  next
    case equal
    have "\<not> bit (?u - 1) ?k" unfolding bit_iff_odd div by simp
    then show ?thesis using equal by (simp add: bit_and_iff bits)
  next
    case greater
    then obtain j where j: "n = ?k + Suc j" using less_imp_Suc_add by (metis add_Suc_right)
    have split: "bit v n = bit (v div 2 ^ ?k) (Suc j)" for v :: nat
      unfolding j by (simp only: bit_iff_odd power_add div_mult2_eq)
    have "bit (?u - 1) n = bit ?u n" unfolding split div m by (simp add: bit_Suc)
    then have "bit (w - 1) n = bit ?u n" using bits by simp
    then show ?thesis using greater by (auto simp: bit_and_iff bit_unsigned_iff)
  qed
qed

lemma shift_order_bits: "shift_order w = filter (bit w) [0..<8]"
proof (induction w rule: shift_order.induct)
  case (1 w)
  show ?case
  proof (cases "w = 0")
    case False
    let ?k = "lowest_bit w"
    have split: "[0..<8] = [0..<?k] @ ?k # [Suc ?k..<8]"
      using lowest_bit(1) [OF False] by (metis less_imp_le_nat upt_conv_Cons upt_add_eq_append le0 le_add_diff_inverse)
    have "filter (bit w) [0..<?k] = []" "filter (bit (w AND (w - 1))) [0..<?k] = []"
      using lowest_bit(3) [OF False] by (auto simp: filter_empty_conv clear_lowest_bit [OF False])
    moreover have "filter (bit (w AND (w - 1))) [Suc ?k..<8] = filter (bit w) [Suc ?k..<8]"
      by (rule filter_cong) (auto simp: clear_lowest_bit [OF False])
    ultimately show ?thesis
      using 1 [OF False] lowest_bit(2) [OF False] False
      unfolding split shift_order.simps [of w] filter_append by (simp add: clear_lowest_bit [OF False])
  qed (simp add: shift_order.simps)
qed

section \<open>The prefix tables rule out no marker\<close>

lemma fold_set_bits:
  "bit (fold (\<lambda>s e. if c s then e OR push_bit s 1 else e) xs (e :: byte)) n \<longleftrightarrow>
     bit e n \<or> n < 8 \<and> n \<in> set xs \<and> c n"
proof (induction xs arbitrary: e)
  case Nil
  then show ?case using bit_imp_le_length [of e n] by auto
next
  case (Cons x xs)
  have one: "bit (push_bit x 1 :: byte) n \<longleftrightarrow> n < 8 \<and> n = x"
    by (simp only: bit_push_bit_iff bit_1_iff) auto
  show ?case unfolding fold.simps comp_apply Cons.IH by (auto simp only: bit_or_iff one list.set split: if_split)
qed

lemma kept_mask: "s < 8 \<Longrightarrow> (ucast ((push_bit (8 - s) 1 :: u16) - 1) :: byte) = push_bit (8 - s) 1 - 1"
proof -
  assume "s < 8"
  then have "s \<in> set [0..<8]" by simp
  moreover have "\<forall>s\<in>set [0..<8]. (ucast ((push_bit (8 - s) 1 :: u16) - 1) :: byte) = push_bit (8 - s) 1 - 1"
    by code_simp
  ultimately show ?thesis by blast
qed

lemma prefix_entry_bit:
  assumes "s < 8" and "unat b mod 2 ^ (8 - s) = unat magic div 2 ^ (40 + s)"
  shows "bit (prefix_entry magic b) s"
proof -
  have "unat (ucast (drop_bit (40 + s) magic) :: byte) = unat magic div 2 ^ (40 + s) mod 2 ^ LENGTH(8)"
    by (simp only: unsigned_ucast_eq unat_drop_bit_eq take_bit_eq_mod) (simp add: drop_bit_eq_div)
  also have "\<dots> = unat (b AND (push_bit (8 - s) 1 - 1))"
  proof -
    have "unat b mod 2 ^ (8 - s) \<le> unat b" by simp
    also have "unat b < 2 ^ 8" using unat_byte_less [of b] by simp
    finally show ?thesis using assms(2) unat_mask_and [of b "8 - s"] by simp
  qed
  finally have "b AND (push_bit (8 - s) 1 - 1) = ucast (drop_bit (40 + s) magic)" by (simp only: word_unat_eq_iff)
  then show ?thesis
    using assms(1) unfolding prefix_entry_def Let_def fold_set_bits kept_mask [OF assms(1)] by simp
qed

lemma prefix_table_bit:
  fixes v :: nat
  assumes "s < 8" and "v < 2 ^ 56" and "v div 2 ^ (8 - s) mod 2 ^ 48 = unat magic"
  shows "bit (prefix_table magic ! (v div 2 ^ 48)) s"
proof -
  let ?t = "v div 2 ^ 48"
  have t: "?t < 256" using assms(2) by (simp add: div_less_iff_less_mult)
  have "unat magic div 2 ^ (40 + s) = drop_bit (40 + s) (take_bit 48 (drop_bit (8 - s) v))"
    using assms(3) by (simp add: take_bit_eq_mod drop_bit_eq_div)
  also have "\<dots> = take_bit (8 - s) (drop_bit 48 v)"
    using assms(1) by (simp add: drop_bit_take_bit)
  finally have "unat magic div 2 ^ (40 + s) = ?t mod 2 ^ (8 - s)" by (simp add: take_bit_eq_mod drop_bit_eq_div)
  moreover have "unat (word_of_nat ?t :: byte) = ?t" using t by (simp add: unat_of_nat)
  ultimately have "bit (prefix_entry magic (word_of_nat ?t)) s"
    using assms(1) by (intro prefix_entry_bit) simp_all
  moreover have "prefix_table magic ! ?t = prefix_entry magic (word_of_nat ?t)"
    using t unfolding prefix_table_def by (subst nth_map) simp_all
  ultimately show ?thesis by simp
qed

section \<open>The window\<close>

text \<open>The input followed by the zero bytes the scan sees past its end.\<close>

definition padded :: "bytes \<Rightarrow> bytes" where
  "padded data = data @ replicate 7 0"

definition window_at :: "bytes \<Rightarrow> nat \<Rightarrow> nat" where
  "window_at data offset = bits_val (bits_of (slice_of (padded data) offset (offset + 7)))"

lemma length_padded [simp]: "length (padded data) = length data + 7"
  by (simp add: padded_def)

lemma byte_at_padded: "i < length data + 7 \<Longrightarrow> byte_at data i = padded data ! i"
  by (simp add: byte_at_def get_at_def padded_def nth_append)

lemma window_at_less: "window_at data offset < 2 ^ 56"
proof -
  have "length (bits_of (slice_of (padded data) offset (offset + 7))) \<le> 56" by simp
  then have "(2 :: nat) ^ length (bits_of (slice_of (padded data) offset (offset + 7))) \<le> 2 ^ 56"
    by (intro power_increasing) simp_all
  then show ?thesis
    using bits_val_less [of "bits_of (slice_of (padded data) offset (offset + 7))"]
    unfolding window_at_def by (rule order.strict_trans2 [rotated])
qed

lemma window_marker:
  assumes "offset < length data" and "s < 8"
  shows "window_at data offset div 2 ^ (8 - s) mod 2 ^ 48 = bits_at (padded data) (8 * offset + s) 48"
  using bits_at_slice [of offset s 48 "offset + 7" "padded data"] assms
  by (simp add: window_at_def)

lemma first_window:
  assumes "start \<le> length data"
  shows "unat (fold (\<lambda>offset word. push_bit 8 word OR ucast (byte_at data offset)) [start..<start + 7] (0 :: u64)) =
    window_at data start"
proof -
  have fold_map: "fold (\<lambda>offset word. push_bit 8 word OR ucast (byte_at data offset)) os w =
      foldl (\<lambda>w b. push_bit 8 w OR ucast b) w (map (byte_at data) os)" for os and w :: u64
    by (induction os arbitrary: w) simp_all
  have "map (byte_at data) [start..<start + 7] = slice_of (padded data) start (start + 7)"
    using assms by (intro nth_equalityI) (simp_all add: byte_at_padded)
  then show ?thesis
    using fold_bytes [where 'a = 64, of "slice_of (padded data) start (start + 7)"] assms
    unfolding fold_map window_at_def by simp
qed

lemma next_window:
  assumes "offset < length data" and "unat (w :: u64) = window_at data offset"
  shows "unat ((push_bit 8 w AND WINDOW_MASK) OR ucast (byte_at data (offset + 7))) = window_at data (offset + 1)"
proof -
  let ?p = "padded data" and ?v = "window_at data offset" and ?b = "byte_at data (offset + 7)"
  have b: "?b = ?p ! (offset + 7)" using assms(1) by (simp add: byte_at_padded)
  have "slice_of ?p offset (offset + 8) = slice_of ?p offset (offset + 7) @ slice_of ?p (offset + 7) (offset + 8)"
    by (rule slice_append_slice [symmetric]) simp_all
  moreover have "slice_of ?p (offset + 7) (offset + 8) = [?b]"
    using assms(1) b slice_Suc [of "offset + 7" "offset + 8" ?p]
    by (simp add: slice_of_def [of ?p "8 + offset"])
  ultimately have one: "bits_val (bits_of (slice_of ?p offset (offset + 8))) = ?v * 256 + unat ?b"
    by (simp add: bits_val_append window_at_def byte_bits_def bits_val_to_bits del: to_bits.simps)
  have "slice_of ?p offset (offset + 8) = ?p ! offset # slice_of ?p (offset + 1) (offset + 8)"
    using assms(1) slice_Suc [of offset "offset + 8" ?p] by simp
  then have "bits_val (bits_of (slice_of ?p offset (offset + 8))) =
      bits_val (byte_bits (?p ! offset)) * 2 ^ 56 + window_at data (offset + 1)"
    using assms(1) by (simp add: bits_val_append window_at_def add.commute)
  then have sum: "(?v * 256 + unat ?b) mod 2 ^ 56 = window_at data (offset + 1)"
    using one window_at_less [of data "offset + 1"] by (metis mod_mult_self3 mod_less)
  have "unat w * 2 ^ 8 < 2 ^ LENGTH(64)" using window_at_less [of data offset] assms(2) by simp
  then have push: "unat (push_bit 8 w) = ?v * 256" using assms(2) by (subst unat_push_bit_small) simp_all
  have masked: "unat (push_bit 8 w AND WINDOW_MASK) = ?v mod 2 ^ 48 * 256"
    unfolding WINDOW_MASK_def unat_mask_and push using mod_mult_mult2 [of ?v 256 "2 ^ 48"] by simp
  have "unat ((push_bit 8 w AND WINDOW_MASK) OR ucast ?b) = push_bit 8 (?v mod 2 ^ 48) OR unat ?b"
    by (simp only: unsigned_or_eq masked unat_ucast_up) (simp add: push_bit_eq_mult unat_ucast_up)
  also have "\<dots> = ?v mod 2 ^ 48 * 256 + unat ?b" by (rule or_byte_nat) simp
  also have "\<dots> = (?v * 256 + unat ?b) mod 2 ^ 56"
  proof -
    have "(?v * 256 + unat ?b) mod (256 * 2 ^ 48) = 256 * ((?v * 256 + unat ?b) div 256 mod 2 ^ 48) + (?v * 256 + unat ?b) mod 256"
      by (rule mod_mult2_eq)
    then show ?thesis using unat_byte_less [of ?b] by simp
  qed
  finally show ?thesis unfolding sum .
qed

section \<open>What a scan reports\<close>

definition marker_at :: "bytes \<Rightarrow> nat \<Rightarrow> u64 \<Rightarrow> bool" where
  "marker_at data position magic \<longleftrightarrow> bits_at data position 48 = unat magic"

definition scan_bit :: "bytes \<Rightarrow> nat \<Rightarrow> scan_result \<Rightarrow> scan_result" where
  "scan_bit data position r =
     (if marker_at (padded data) position BLOCK_MAGIC then add_block (parse_block data position) r
      else if marker_at (padded data) position END_MAGIC then add_end (parse_end data position) r
      else r)"

lemma fold_filter_id: "(\<And>x r. x \<in> set xs \<Longrightarrow> \<not> P x \<Longrightarrow> f x r = r) \<Longrightarrow> fold f (filter P xs) r = fold f xs r"
  by (induction xs arbitrary: r) auto

lemma scan_shift_bit:
  assumes "offset < length data" and "s < 8" and "unat w = window_at data offset"
  shows "scan_shift data w offset s r = scan_bit data (8 * offset + s) r"
proof -
  have m: "unat (drop_bit (8 - s) w AND MAGIC_MASK) = bits_at (padded data) (8 * offset + s) 48"
    unfolding MAGIC_MASK_def unat_drop_mask assms(3) by (rule window_marker [OF assms(1,2)])
  then have "drop_bit (8 - s) w AND MAGIC_MASK = magic \<longleftrightarrow> marker_at (padded data) (8 * offset + s) magic" for magic
    unfolding marker_at_def by (simp only: word_unat_eq_iff)
  then show ?thesis by (simp only: scan_shift_def scan_bit_def Let_def mult.commute [of offset 8])
qed

lemma scan_byte_bits:
  assumes "offset < length data" and "unat w = window_at data offset"
  shows "snd (scan_byte data offset (w, r)) = fold (\<lambda>s. scan_bit data (8 * offset + s)) [0..<8] r"
proof -
  let ?top = "unat (drop_bit 48 w)"
  have top: "?top = window_at data offset div 2 ^ 48"
    by (simp only: unat_drop_bit_eq assms(2)) (simp add: drop_bit_eq_div)
  let ?shifts = "BLOCK_PREFIX ! ?top OR END_PREFIX ! ?top"
  have skip: "scan_shift data w offset s r = r" if "s \<in> set [0..<8]" "\<not> bit ?shifts s" for s r
  proof -
    have s: "s < 8" using that(1) by simp
    have "\<not> marker_at (padded data) (8 * offset + s) BLOCK_MAGIC"
      "\<not> marker_at (padded data) (8 * offset + s) END_MAGIC"
      using that(2) prefix_table_bit [OF s window_at_less, of data offset] window_marker [OF assms(1) s]
      unfolding top BLOCK_PREFIX_def END_PREFIX_def bit_or_iff marker_at_def by metis+
    then show ?thesis by (simp add: scan_shift_bit [OF assms(1) s assms(2)] scan_bit_def)
  qed
  have "snd (scan_byte data offset (w, r)) = fold (scan_shift data w offset) (filter (bit ?shifts) [0..<8]) r"
    by (simp only: scan_byte_def Let_def fst_conv snd_conv scan_shifts_fold shift_order_bits)
  also have "\<dots> = fold (scan_shift data w offset) [0..<8] r" by (rule fold_filter_id) (rule skip)
  also have "\<dots> = fold (\<lambda>s. scan_bit data (8 * offset + s)) [0..<8] r"
    by (rule fold_cong) (simp_all add: scan_shift_bit assms fun_eq_iff)
  finally show ?thesis .
qed

lemma upt_split: "i \<le> j \<Longrightarrow> j \<le> k \<Longrightarrow> [i..<k] = [i..<j] @ [j..<k]"
  by (metis upt_add_eq_append le_add_diff_inverse)

lemma fold_scan_byte:
  assumes "start \<le> stop" and "stop \<le> length data" and "unat w = window_at data start"
  shows "snd (fold (scan_byte data) [start..<stop] (w, r)) = fold (scan_bit data) [8 * start..<8 * stop] r"
  using assms
proof (induction "stop - start" arbitrary: start w r)
  case (Suc n)
  then have less: "start < stop" by simp
  let ?w = "(push_bit 8 w AND WINDOW_MASK) OR ucast (byte_at data (start + 7))"
  let ?r = "fold (\<lambda>s. scan_bit data (8 * start + s)) [0..<8] r"
  have in_data: "start < length data" using less Suc.prems by simp
  have step: "scan_byte data start (w, r) = (?w, ?r)"
    using scan_byte_bits [OF in_data Suc.prems(3)] by (simp add: prod_eq_iff) (simp add: scan_byte_def Let_def)
  have "snd (fold (scan_byte data) [start + 1..<stop] (?w, ?r)) = fold (scan_bit data) [8 * (start + 1)..<8 * stop] ?r"
  proof (rule Suc.hyps(1))
    show "n = stop - (start + 1)" using Suc.hyps(2) by simp
    show "unat ?w = window_at data (start + 1)" by (rule next_window [OF in_data Suc.prems(3)])
  qed (use less Suc.prems in simp_all)
  moreover have "?r = fold (scan_bit data) [8 * start..<8 * (start + 1)] r"
  proof -
    have "[8 * start..<8 * (start + 1)] = map (\<lambda>s. 8 * start + s) [0..<8]"
      by (intro nth_equalityI) simp_all
    then show ?thesis by (simp only: fold_map comp_def)
  qed
  moreover have "[8 * start..<8 * stop] = [8 * start..<8 * (start + 1)] @ [8 * (start + 1)..<8 * stop]"
    using less by (intro upt_split) simp_all
  moreover have "[start..<stop] = start # [start + 1..<stop]" using less by (simp add: upt_conv_Cons)
  ultimately show ?case by (simp only: fold.simps fold_append comp_apply step)
qed simp

definition block_at :: "bytes \<Rightarrow> nat \<Rightarrow> block_candidate" where
  "block_at data position = \<lparr>bc_bit_offset = position, bc_expected_crc = word_of_nat (bits_at data (position + 48) 32),
     bc_randomized = bits_of data ! (position + 80), bc_orig_ptr = word_of_nat (bits_at data (position + 81) 24)\<rparr>"

definition end_at :: "bytes \<Rightarrow> nat \<Rightarrow> end_candidate" where
  "end_at data position = \<lparr>ec_bit_offset = position, ec_expected_crc = word_of_nat (bits_at data (position + 48) 32)\<rparr>"

definition is_block :: "bytes \<Rightarrow> nat \<Rightarrow> bool" where
  "is_block data position \<longleftrightarrow> marker_at data position BLOCK_MAGIC \<and> position + 105 \<le> 8 * length data"

definition is_end :: "bytes \<Rightarrow> nat \<Rightarrow> bool" where
  "is_end data position \<longleftrightarrow> marker_at data position END_MAGIC \<and> position + 80 \<le> 8 * length data"

lemma br_at_result: "length data < 2 ^ 60 \<Longrightarrow>
  br_at data p = (if p > 8 * length data then Inl (InvalidBitOffset p (8 * length data)) else Inr \<lparr>br_data = data, br_offset = p\<rparr>)"
  by (simp add: br_at_def br_len_bits_def Let_def)

lemma ucast_field: "(ucast (word_of_nat (bits_at data p count) :: u64) :: u32) = word_of_nat (bits_at data p count)" if "count \<le> 32"
proof -
  have "bits_at data p count < 2 ^ count" by (rule bits_at_less)
  also have "(2 :: nat) ^ count \<le> 2 ^ 32" using that by (intro power_increasing) simp_all
  finally have "unat (word_of_nat (bits_at data p count) :: u64) = bits_at data p count" by (simp add: unat_of_nat)
  then show ?thesis by (rule ucast_of_unat)
qed

lemma br_read_bit_if:
  assumes "length (br_data r) < 2 ^ 60"
  shows "br_read_bit r = (if br_offset r < 8 * length (br_data r)
    then Inr (bits_of (br_data r) ! br_offset r, r\<lparr>br_offset := br_offset r + 1\<rparr>) else Inl (br_eof r 1))"
  using assms br_read_bit_result [of r] by (auto simp: br_read_bit_def br_len_bits_def)

lemma parse_block_result:
  assumes "length data < 2 ^ 60"
  shows "parse_block data p = (if p + 105 \<le> 8 * length data then Some (block_at data p) else None)"
  using assms
  by (auto simp: parse_block_def MAGIC_BITS_def ok_of_def br_at_result br_read_bits_result br_read_bit_if
      block_at_def ucast_field add.commute split: sum.splits)

lemma parse_end_result:
  assumes "length data < 2 ^ 60"
  shows "parse_end data p = (if p + 80 \<le> 8 * length data then Some (end_at data p) else None)"
  using assms
  by (auto simp: parse_end_def MAGIC_BITS_def ok_of_def br_at_result br_read_bits_result end_at_def ucast_field
      add.commute split: sum.splits)

lemma bits_of_padded: "bits_of (padded data) = bits_of data @ replicate 56 False"
proof -
  have zero: "byte_bits 0 = replicate 8 False" by code_simp
  have "bits_of (replicate k 0) = replicate (8 * k) False" for k
    by (induction k) (simp_all add: zero replicate_add)
  then show ?thesis by (simp add: padded_def)
qed

lemma marker_padded: "p + 48 \<le> 8 * length data \<Longrightarrow> marker_at (padded data) p magic \<longleftrightarrow> marker_at data p magic"
  by (simp add: marker_at_def bits_at_def bits_of_padded)

lemma END_not_BLOCK: "END_MAGIC \<noteq> BLOCK_MAGIC"
  by (simp add: END_MAGIC_def BLOCK_MAGIC_def)

lemma scan_bit_result:
  assumes "length data < 2 ^ 60"
  shows "scan_bit data p r = r\<lparr>sr_blocks := sr_blocks r @ (if is_block data p then [block_at data p] else []),
    sr_ends := sr_ends r @ (if is_end data p then [end_at data p] else [])\<rparr>"
proof -
  have "\<not> (marker_at (padded data) p BLOCK_MAGIC \<and> marker_at (padded data) p END_MAGIC)"
    using END_not_BLOCK by (simp add: marker_at_def word_unat_eq_iff)
  then show ?thesis
    using marker_padded [of p data]
    by (auto simp: scan_bit_def add_block_def add_end_def parse_block_result [OF assms] parse_end_result [OF assms]
        is_block_def is_end_def)
qed

lemma fold_scan_bit:
  assumes "length data < 2 ^ 60"
  shows "fold (scan_bit data) ps r = r\<lparr>sr_blocks := sr_blocks r @ map (block_at data) (filter (is_block data) ps),
    sr_ends := sr_ends r @ map (end_at data) (filter (is_end data) ps)\<rparr>"
  by (induction ps arbitrary: r) (simp_all add: scan_bit_result [OF assms])

text \<open>The scan of a range, without the window and the tables.\<close>

definition range_report :: "bytes \<Rightarrow> nat \<Rightarrow> nat \<Rightarrow> scan_result" where
  "range_report data start stop =
     \<lparr>sr_streams = map (\<lambda>offset. \<lparr>sc_byte_offset = offset, sc_block_size = data ! (offset + 3) - 0x30\<rparr>)
        (filter (is_stream_header data) [start..<stop]),
      sr_blocks = map (block_at data) (filter (is_block data) [8 * start..<8 * stop]),
      sr_ends = map (end_at data) (filter (is_end data) [8 * start..<8 * stop])\<rparr>"

lemma scan_range_report:
  assumes "length data < 2 ^ 60" and "stop \<le> length data"
  shows "scan_range data start stop = range_report data start stop"
proof (cases "length data < 7 \<or> start \<ge> stop")
  case True
  then have "\<not> is_block data p" "\<not> is_end data p" if "p \<in> set [8 * start..<8 * stop]" for p
    using that by (auto simp: is_block_def is_end_def)
  then have "filter (is_block data) [8 * start..<8 * stop] = []" "filter (is_end data) [8 * start..<8 * stop] = []"
    by (simp_all only: filter_empty_conv) auto
  then show ?thesis using True by (simp add: scan_range_def range_report_def Let_def)
next
  case False
  then show ?thesis
    using fold_scan_byte [of start stop data "fold (\<lambda>offset word. push_bit 8 word OR ucast (byte_at data offset)) [start..<start + 7] 0"]
      first_window [of start data] assms
    by (simp add: scan_range_def range_report_def Let_def fold_scan_bit)
qed

lemma range_report_append:
  "a \<le> b \<Longrightarrow> b \<le> c \<Longrightarrow> append_scan (range_report data a b) (range_report data b c) = range_report data a c"
proof -
  assume le: "a \<le> b" "b \<le> c"
  then have "[a..<c] = [a..<b] @ [b..<c]" "[8 * a..<8 * c] = [8 * a..<8 * b] @ [8 * b..<8 * c]"
    by (auto intro: upt_split)
  then show ?thesis by (simp add: append_scan_def range_report_def)
qed

section \<open>The scan on a pool of threads\<close>

lemma scan_chunk_report:
  assumes "length data < 2 ^ 60" 
  shows "scan_chunk data c = range_report data (c * SCAN_CHUNK) (min ((c + 1) * SCAN_CHUNK) (length data))"
  using scan_range_report [OF assms, of "min ((c + 1) * SCAN_CHUNK) (length data)"] by (simp add: scan_chunk_def)

lemma fold_chunks:
  assumes "length data < 2 ^ 60" and "first \<le> stop" and "first * SCAN_CHUNK \<le> length data"
    and "(stop - 1) * SCAN_CHUNK \<le> length data"
  shows "fold (\<lambda>c r. append_scan r c) (map (scan_chunk data) [first..<stop]) (range_report data 0 (first * SCAN_CHUNK)) =
    range_report data 0 (min (stop * SCAN_CHUNK) (length data))"
  using assms
proof (induction "stop - first" arbitrary: first)
  case 0
  then show ?case by (simp add: min_absorb1)
next
  case (Suc n)
  then have less: "first < stop" by simp
  let ?bound = "min ((first + 1) * SCAN_CHUNK) (length data)"
  have step: "append_scan (range_report data 0 (first * SCAN_CHUNK)) (scan_chunk data first) = range_report data 0 ?bound"
    unfolding scan_chunk_report [OF Suc.prems(1)] using Suc.prems by (intro range_report_append) simp_all
  show ?case
  proof (cases "first + 1 = stop")
    case True
    then show ?thesis using step less by (simp add: upt_conv_Cons)
  next
    case False
    then have "first + 1 \<le> stop - 1" using less by simp
    then have le: "(first + 1) * SCAN_CHUNK \<le> length data"
      using Suc.prems(4) by (meson le_trans mult_le_mono1)
    then have "fold (\<lambda>c r. append_scan r c) (map (scan_chunk data) [first + 1..<stop])
        (range_report data 0 ((first + 1) * SCAN_CHUNK)) = range_report data 0 (min (stop * SCAN_CHUNK) (length data))"
      using Suc.prems Suc.hyps(2) less by (intro Suc.hyps(1)) simp_all
    then show ?thesis using step less le by (simp add: upt_conv_Cons min_absorb1)
  qed
qed

lemma chunk_count:
  assumes "chunks = (n + SCAN_CHUNK - 1) div SCAN_CHUNK"
  shows "c < chunks \<Longrightarrow> c * SCAN_CHUNK \<le> n" "chunks \<le> c \<Longrightarrow> n \<le> c * SCAN_CHUNK" "chunks \<le> n"
proof -
  have pos: "0 < SCAN_CHUNK" by (simp add: SCAN_CHUNK_def)
  show "c < chunks \<Longrightarrow> c * SCAN_CHUNK \<le> n"
    unfolding assms using pos by (simp add: less_eq_div_iff_mult_less_eq Suc_le_eq [symmetric])
  have "n \<le> chunks * SCAN_CHUNK" unfolding assms SCAN_CHUNK_def by simp
  then show "chunks \<le> c \<Longrightarrow> n \<le> c * SCAN_CHUNK" by (meson le_trans mult_le_mono1)
  show "chunks \<le> n" unfolding assms SCAN_CHUNK_def by simp
qed

lemma scan_waves_report:
  assumes "length data < 2 ^ 60" and chunks: "chunks = (length data + SCAN_CHUNK - 1) div SCAN_CHUNK"
    and "\<And>n. \<not> cancelled n"
  shows "\<exists>polls'. scan_waves data threads chunks cancelled polls first
    (range_report data 0 (min (first * SCAN_CHUNK) (length data))) = Inr (polls', range_report data 0 (length data))"
proof (induction "chunks - first" arbitrary: first polls rule: less_induct)
  case less
  show ?case
  proof (cases "first \<ge> chunks")
    case True
    then show ?thesis using chunk_count(2) [OF chunks True] by (subst scan_waves.simps) (simp add: min_absorb2)
  next
    case False
    let ?wave = "max threads 1"
    let ?stop = "min (sat_add first ?wave) chunks"
    have first: "first * SCAN_CHUNK \<le> length data" using False chunk_count(1) [OF chunks] by simp
    have small: "chunks \<le> usize_max" using chunk_count(3) [OF chunks] assms(1) by (simp add: usize_max_def)
    have order: "first < ?stop" "?stop - 1 < chunks"
      using False small by (auto simp: sat_add_def min_def max_def)
    have "fold (\<lambda>c r. append_scan r c) (map (scan_chunk data) [first..<?stop]) (range_report data 0 (first * SCAN_CHUNK)) =
        range_report data 0 (min (?stop * SCAN_CHUNK) (length data))"
      using order by (intro fold_chunks assms(1) first chunk_count(1) [OF chunks]) simp_all
    also have "min (?stop * SCAN_CHUNK) (length data) = min ((first + ?wave) * SCAN_CHUNK) (length data)"
    proof (cases "?stop = first + ?wave")
      case False
      moreover have "min (min a u) c \<noteq> a \<Longrightarrow> c \<le> u \<Longrightarrow> c \<le> a \<and> min (min a u) c = c" for a u c :: nat
        by (auto simp: min_def split: if_splits)
      ultimately have "chunks \<le> first + ?wave" "?stop = chunks" using small unfolding sat_add_def by blast+
      then show ?thesis using chunk_count(2) [OF chunks] by (metis min_absorb2 order_refl)
    qed simp
    finally have r: "fold (\<lambda>c r. append_scan r c) (map (scan_chunk data) [first..<?stop])
        (range_report data 0 (min (first * SCAN_CHUNK) (length data))) =
        range_report data 0 (min ((first + ?wave) * SCAN_CHUNK) (length data))"
      using first by (simp add: min_absorb1)
    have step: "scan_waves data threads chunks cancelled polls first
        (range_report data 0 (min (first * SCAN_CHUNK) (length data))) =
        scan_waves data threads chunks cancelled (polls + 1) (first + ?wave)
          (range_report data 0 (min ((first + ?wave) * SCAN_CHUNK) (length data)))"
      using False assms(3) r by (subst scan_waves.simps) (simp add: Let_def)
    show ?thesis unfolding step using False by (intro less) simp
  qed
qed

text \<open>C19. The scan reports exactly the markers of the input: a block for every bit position that holds
  the 48-bit block magic with its checksum, randomised bit and origin inside the input, an end of
  stream for every position that holds the end magic with its checksum, and a stream header for every
  byte position of a \<open>BZh1\<close> to \<open>BZh9\<close>; the window and the prefix tables lose and invent nothing.\<close>

theorem scan_finds_exactly_the_markers:
  assumes "length data < 2 ^ 60" and "is_stream_header data 0"
  shows "scan data = Inr
    \<lparr>sr_streams = map (\<lambda>offset. \<lparr>sc_byte_offset = offset, sc_block_size = data ! (offset + 3) - 0x30\<rparr>)
       (filter (is_stream_header data) [0..<length data]),
     sr_blocks = map (block_at data) (filter (is_block data) [0..<8 * length data]),
     sr_ends = map (end_at data) (filter (is_end data) [0..<8 * length data])\<rparr>"
  using assms by (simp add: scan_def scan_range_report range_report_def)

definition empty_stream :: bytes where
  "empty_stream = [0x42, 0x5a, 0x68, 0x39, 0x17, 0x72, 0x45, 0x38, 0x50, 0x90, 0, 0, 0, 0]"

theorem scan_finds_exactly_the_markers_witness:
  "scan empty_stream = Inr
    \<lparr>sr_streams = map (\<lambda>offset. \<lparr>sc_byte_offset = offset, sc_block_size = empty_stream ! (offset + 3) - 0x30\<rparr>)
       (filter (is_stream_header empty_stream) [0..<length empty_stream]),
     sr_blocks = map (block_at empty_stream) (filter (is_block empty_stream) [0..<8 * length empty_stream]),
     sr_ends = map (end_at empty_stream) (filter (is_end empty_stream) [0..<8 * length empty_stream])\<rparr>"
proof (rule scan_finds_exactly_the_markers)
  show "is_stream_header empty_stream 0" by code_simp
qed (simp add: empty_stream_def)

lemma pooled_scan_eq:
  assumes "length data < 2 ^ 60" and "\<And>n. \<not> cancelled n"
  shows "scan_with_pool data pool cancelled = scan data"
proof (cases "is_stream_header data 0 \<and> length data > SCAN_CHUNK")
  case True
  have empty: "\<lparr>sr_streams = [], sr_blocks = [], sr_ends = []\<rparr> = range_report data 0 (min (0 * SCAN_CHUNK) (length data))"
    by (simp add: range_report_def)
  show ?thesis
  proof (cases pool)
    case (Some threads)
    obtain polls' where "scan_waves data threads ((length data + SCAN_CHUNK - 1) div SCAN_CHUNK) cancelled 1 0
        \<lparr>sr_streams = [], sr_blocks = [], sr_ends = []\<rparr> = Inr (polls', range_report data 0 (length data))"
      unfolding empty using scan_waves_report [OF assms(1) refl, of cancelled threads 1 0] assms(2) by blast
    then show ?thesis
      using True Some assms by (simp add: scan_with_pool_def scan_def scan_range_report)
  qed (use True assms in \<open>simp add: scan_with_pool_def scan_def\<close>)
qed (use assms in \<open>auto simp: scan_with_pool_def scan_def\<close>)

lemma scan_waves_uncancelled:
  "scan_waves data threads chunks cancelled polls first r = Inr (polls', r') \<Longrightarrow>
     scan_waves data threads chunks (\<lambda>_. False) polls first r = Inr (polls', r')"
proof (induction data threads chunks cancelled polls first r rule: scan_waves.induct)
  case (1 data threads chunks cancelled polls first r)
  show ?case
  proof (cases "first \<ge> chunks")
    case False
    then have "\<not> cancelled polls" using "1.prems" by (subst (asm) scan_waves.simps) (auto split: if_splits)
    with 1 False show ?thesis
      by (simp add: scan_waves.simps [of data threads chunks cancelled polls first r]
          scan_waves.simps [of data threads chunks "\<lambda>_. False" polls first r] Let_def)
  next
    case True
    then show ?thesis
      using "1.prems" by (subst scan_waves.simps) (simp add: scan_waves.simps [of data threads chunks cancelled polls first r])
  qed
qed

text \<open>A scan that is not cut short reports the markers of the input.\<close>

lemma scan_with_pool_report:
  assumes "length data < 2 ^ 60" and "scan_with_pool data pool cancelled = Inr r"
  shows "r = range_report data 0 (length data)" and "is_stream_header data 0"
proof -
  show header: "is_stream_header data 0" using assms(2) by (auto simp: scan_with_pool_def split: if_splits)
  have "scan_with_pool data pool (\<lambda>_. False) = Inr r"
    using assms(2) scan_waves_uncancelled [where data = data and cancelled = cancelled]
    unfolding scan_with_pool_def by (fastforce simp: and_then_Inr_iff split: if_splits option.splits)
  then have "scan data = Inr r" using pooled_scan_eq [OF assms(1), of "\<lambda>_. False" pool] by simp
  then show "r = range_report data 0 (length data)" using header assms(1) by (simp add: scan_def scan_range_report)
qed

text \<open>C20. Unless it is cancelled, the scan on a pool returns what the serial scan returns, for every
  number of threads and every input, however markers fall on the chunks' borders.\<close>

theorem pooled_scan_is_serial_scan:
  assumes "length data < 2 ^ 60" and "\<And>n. \<not> cancelled n"
  shows "scan_with_pool data pool cancelled = scan data"
  by (rule pooled_scan_eq [OF assms])

theorem pooled_scan_is_serial_scan_witness:
  "scan_with_pool empty_stream (Some 4) (\<lambda>_. False) = scan empty_stream"
  by (rule pooled_scan_is_serial_scan) (simp_all add: empty_stream_def)

end
