(* ===== verification/Bwt.thy ===== *)
theory Bwt
  imports Errors
begin

text \<open>
  The block sort of the encoder, \<open>src/bz2_encode/bwt.rs\<close>: a suffix array by induced sorting (SA-IS)
  over the doubled block, and the last column it gives. Reads and writes at computed positions are
  checked (\<open>index\<close>, \<open>put_at\<close>): where the code would panic the model returns \<open>Panic\<close>.
\<close>

definition EMPTY :: nat where "EMPTY = 2 ^ 32 - 1"

definition put_at :: "'a list \<Rightarrow> nat \<Rightarrow> 'a \<Rightarrow> error + 'a list" where
  "put_at xs i v = (if i < length xs then Inr (xs[i := v]) else Inl Panic)"

definition decrement :: "nat \<Rightarrow> error + nat" where
  "decrement n = (if n = 0 then Inl Panic else Inr (n - 1))"

fun try_fold :: "('a \<Rightarrow> 's \<Rightarrow> error + 's) \<Rightarrow> 'a list \<Rightarrow> 's \<Rightarrow> error + 's" where
  "try_fold f [] s = Inr s"
| "try_fold f (x # xs) s = and_then (f x s) (try_fold f xs)"

section \<open>Types and buckets\<close>

definition classify_at :: "nat list \<Rightarrow> nat \<Rightarrow> bool list \<Rightarrow> bool list" where
  "classify_at s i types =
     types[i := (if s ! i < s ! (i + 1) then True else if s ! i > s ! (i + 1) then False else types ! (i + 1))]"

definition classify :: "nat list \<Rightarrow> bool list" where
  "classify s =
     (let n = length s in fold (classify_at s) (rev [0..<n - 1]) ((replicate n False)[n - 1 := True]))"

definition is_lms :: "bool list \<Rightarrow> nat \<Rightarrow> bool" where
  "is_lms types i \<longleftrightarrow> i > 0 \<and> types ! i \<and> \<not> types ! (i - 1)"

definition symbol_counts :: "nat list \<Rightarrow> nat \<Rightarrow> error + nat list" where
  "symbol_counts s k = try_fold (\<lambda>c counts. and_then (index counts c) (\<lambda>n. put_at counts c (n + 1))) s (replicate k 0)"

fun bucket_starts_from :: "nat \<Rightarrow> nat list \<Rightarrow> nat list" where
  "bucket_starts_from acc [] = []"
| "bucket_starts_from acc (c # counts) = acc # bucket_starts_from (acc + c) counts"

definition bucket_starts :: "nat list \<Rightarrow> nat list" where
  "bucket_starts counts = bucket_starts_from 0 counts"

fun bucket_ends_from :: "nat \<Rightarrow> nat list \<Rightarrow> nat list" where
  "bucket_ends_from acc [] = []"
| "bucket_ends_from acc (c # counts) = (acc + c) # bucket_ends_from (acc + c) counts"

definition bucket_ends :: "nat list \<Rightarrow> nat list" where
  "bucket_ends counts = bucket_ends_from 0 counts"

section \<open>Induced sorting\<close>

text \<open>Putting a position at the back of its bucket (from the end) or at its front (from the start).\<close>

definition seed :: "nat list \<Rightarrow> nat \<Rightarrow> nat list \<times> nat list \<Rightarrow> error + nat list \<times> nat list" where
  "seed s p st =
     and_then (index s p) (\<lambda>c.
     and_then (index (snd st) c) (\<lambda>b.
     and_then (decrement b) (\<lambda>b.
     and_then (put_at (fst st) b p) (\<lambda>sa. Inr (sa, (snd st)[c := b])))))"

definition induce_left :: "nat list \<Rightarrow> bool list \<Rightarrow> nat \<Rightarrow> nat list \<times> nat list \<Rightarrow> error + nat list \<times> nat list" where
  "induce_left s types i st =
     and_then (index (fst st) i) (\<lambda>p.
     if p \<noteq> EMPTY \<and> p > 0
     then (let j = p - 1 in
       and_then (index types j) (\<lambda>small.
       if \<not> small
       then and_then (index s j) (\<lambda>c.
            and_then (index (snd st) c) (\<lambda>b.
            and_then (put_at (fst st) b j) (\<lambda>sa. Inr (sa, (snd st)[c := b + 1]))))
       else Inr st))
     else Inr st)"

definition induce_right :: "nat list \<Rightarrow> bool list \<Rightarrow> nat \<Rightarrow> nat list \<times> nat list \<Rightarrow> error + nat list \<times> nat list" where
  "induce_right s types i st =
     and_then (index (fst st) i) (\<lambda>p.
     if p \<noteq> EMPTY \<and> p > 0
     then (let j = p - 1 in
       and_then (index types j) (\<lambda>small. if small then seed s j st else Inr st))
     else Inr st)"

definition induce :: "nat list \<Rightarrow> nat list \<Rightarrow> bool list \<Rightarrow> nat list \<Rightarrow> error + nat list" where
  "induce s sa types counts =
     and_then (try_fold (induce_left s types) [0..<length s] (sa, bucket_starts counts)) (\<lambda>st.
     and_then (try_fold (induce_right s types) (rev [0..<length s]) (fst st, bucket_ends counts)) (\<lambda>st.
     Inr (fst st)))"

section \<open>Comparing and naming the LMS substrings\<close>

function lms_substr_from :: "nat list \<Rightarrow> bool list \<Rightarrow> nat \<Rightarrow> nat \<Rightarrow> nat \<Rightarrow> bool" where
  "lms_substr_from s types p q d =
     (if p + d \<ge> length s \<or> q + d \<ge> length s then False
      else (let p_lms = d > 0 \<and> is_lms types (p + d); q_lms = d > 0 \<and> is_lms types (q + d) in
        if p_lms \<and> q_lms then True
        else if p_lms \<noteq> q_lms then False
        else if s ! (p + d) \<noteq> s ! (q + d) \<or> types ! (p + d) \<noteq> types ! (q + d) then False
        else lms_substr_from s types p q (d + 1)))"
  by pat_completeness auto
termination by (relation "measure (\<lambda>(s, _, p, _, d). length s - (p + d))") auto

declare lms_substr_from.simps [simp del]

definition lms_substr_eq :: "nat list \<Rightarrow> bool list \<Rightarrow> nat \<Rightarrow> nat \<Rightarrow> bool" where
  "lms_substr_eq s types p q =
     (if p = length s - 1 \<or> q = length s - 1 then p = q else lms_substr_from s types p q 0)"

record naming =
  n_names :: "nat list"
  n_name :: nat
  n_prev :: "nat option"

definition name_lms :: "nat list \<Rightarrow> bool list \<Rightarrow> nat \<Rightarrow> naming \<Rightarrow> error + naming" where
  "name_lms s types p st =
     (let fresh = (case n_prev st of None \<Rightarrow> True | Some q \<Rightarrow> \<not> lms_substr_eq s types p q);
          st = (if fresh then st\<lparr>n_name := n_name st + 1, n_prev := Some p\<rparr> else st) in
      and_then (decrement (n_name st)) (\<lambda>v.
      and_then (put_at (n_names st) (p div 2) v) (\<lambda>names. Inr (st\<lparr>n_names := names\<rparr>))))"

section \<open>SA-IS and the transform\<close>

definition lms_positions :: "nat list \<Rightarrow> nat list" where
  "lms_positions s = filter (is_lms (classify s)) [1..<length s]"

definition sort_lms :: "nat list \<Rightarrow> nat list \<Rightarrow> error + nat list" where
  "sort_lms s counts =
     (let n = length s; types = classify s in
      and_then (try_fold (seed s) (filter (is_lms types) (rev [1..<n])) (replicate n EMPTY, bucket_ends counts)) (\<lambda>st.
      and_then (induce s (fst st) types counts) (\<lambda>sa.
      Inr (filter (\<lambda>p. p \<noteq> EMPTY \<and> p > 0 \<and> is_lms types p) sa))))"

definition reduce :: "nat list \<Rightarrow> nat list \<Rightarrow> error + nat list \<times> nat" where
  "reduce s lms_sorted =
     and_then (try_fold (name_lms s (classify s)) lms_sorted
       \<lparr>n_names = replicate (length s div 2 + 1) EMPTY, n_name = 0, n_prev = None\<rparr>) (\<lambda>st.
     Inr (map (\<lambda>p. n_names st ! (p div 2)) (lms_positions s), n_name st))"

definition inverse_names :: "nat list \<Rightarrow> nat \<Rightarrow> error + nat list" where
  "inverse_names reduced n1 =
     try_fold (\<lambda>p sub. put_at sub (snd p) (fst p)) (enumerate 0 reduced) (replicate n1 0)"

definition place_lms :: "nat list \<Rightarrow> nat list \<Rightarrow> nat list \<Rightarrow> nat \<Rightarrow> error + nat list" where
  "place_lms s counts sub_sa n1 =
     (let n = length s; types = classify s; lms_pos = lms_positions s in
      and_then (try_fold (\<lambda>i st. and_then (index sub_sa i) (\<lambda>r. and_then (index lms_pos r) (\<lambda>p. seed s p st)))
        (rev [0..<n1]) (replicate n EMPTY, bucket_ends counts)) (\<lambda>st.
      induce s (fst st) types counts))"

lemma length_reduce: "reduce s lms = Inr r \<Longrightarrow> length (fst r) = length (lms_positions s)"
  by (auto simp: reduce_def and_then_Inr_iff)

lemma length_lms_positions: "length (lms_positions s) \<le> length s - 1"
  unfolding lms_positions_def using length_filter_le [of "is_lms (classify s)" "[1..<length s]"] by simp

function sais :: "nat list \<Rightarrow> nat \<Rightarrow> error + nat list" where
  "sais s k =
     (if length s = 0 then Inl Panic
      else if length s = 1 then Inr [0]
      else and_then (symbol_counts s k) (\<lambda>counts.
        and_then (sort_lms s counts) (\<lambda>lms_sorted. let n1 = length lms_sorted in
        and_then (reduce s lms_sorted) (\<lambda>r.
        and_then (if snd r < n1 then sais (fst r) (snd r) else inverse_names (fst r) n1) (\<lambda>sub_sa.
        place_lms s counts sub_sa n1)))))"
  by pat_completeness auto
termination
proof (relation "measure (\<lambda>(s, _). length s)", goal_cases)
  case (2 s k counts lms n1 r)
  then show ?case using length_reduce [of s lms r] length_lms_positions [of s] by (cases r; cases s) simp_all
qed simp

declare sais.simps [simp del]

definition doubled :: "nat list \<Rightarrow> nat list" where
  "doubled block = map (\<lambda>b. b + 1) block @ map (\<lambda>b. b + 1) block @ [0]"

definition column_step :: "byte list \<Rightarrow> nat \<Rightarrow> byte list \<times> nat \<Rightarrow> byte list \<times> nat" where
  "column_step block p st =
     (if p \<ge> length block then st
      else (fst st @ [block ! ((p + length block - 1) mod length block)],
            if p = 0 then length (fst st) else snd st))"

definition bwt_transform :: "byte list \<Rightarrow> error + byte list \<times> nat" where
  "bwt_transform block =
     (if block = [] then Inl Panic
      else if length block = 1 then Inr (block, 0)
      else and_then (sais (doubled (map unat block)) 257) (\<lambda>sa. Inr (fold (column_step block) sa ([], 0))))"

end
