(* ===== verification/Canonical.thy ===== *)
theory Canonical
  imports Msb_Bits
begin

text \<open>
  Canonical prefix codes, the specification the Huffman coders of bzip2 and DEFLATE share: from the
  code lengths of the symbols (length 0: the symbol has no code) the code of a symbol is the first
  code of its length plus its rank among the symbols of that length. Under the counting condition
  every builder checks (\<open>not_oversubscribed\<close>) no code word is a prefix of another.
\<close>

section \<open>Codes from lengths\<close>

definition codes_of_length :: "nat list \<Rightarrow> nat \<Rightarrow> nat" where
  "codes_of_length lens l = (if l = 0 then 0 else count_list lens l)"

fun first_code :: "nat list \<Rightarrow> nat \<Rightarrow> nat" where
  "first_code lens 0 = 0"
| "first_code lens (Suc l) = 2 * (first_code lens l + codes_of_length lens l)"

definition rank :: "nat list \<Rightarrow> nat \<Rightarrow> nat" where
  "rank lens s = count_list (take s lens) (lens ! s)"

definition code_of :: "nat list \<Rightarrow> nat \<Rightarrow> nat" where
  "code_of lens s = first_code lens (lens ! s) + rank lens s"

definition not_oversubscribed :: "nat list \<Rightarrow> bool" where
  "not_oversubscribed lens \<longleftrightarrow> (\<forall>l. first_code lens l + codes_of_length lens l \<le> 2 ^ l)"

definition has_code :: "nat list \<Rightarrow> nat \<Rightarrow> bool" where
  "has_code lens s \<longleftrightarrow> s < length lens \<and> 0 < lens ! s"

definition code_word :: "nat list \<Rightarrow> nat \<Rightarrow> bool list" where
  "code_word lens s = to_bits (lens ! s) (code_of lens s)"

lemma length_code_word [simp]: "length (code_word lens s) = lens ! s"
  by (simp add: code_word_def)

section \<open>Ranks\<close>

lemma count_take_Suc: "i < length xs \<Longrightarrow> count_list (take (Suc i) xs) x = count_list (take i xs) x + (if xs ! i = x then 1 else 0)"
  by (simp add: take_Suc_conv_app_nth)

lemma count_take_mono: "i \<le> j \<Longrightarrow> count_list (take i xs) x \<le> count_list (take j xs) x"
proof -
  assume "i \<le> j"
  then have "take j xs = take i xs @ take (j - i) (drop i xs)" by (metis le_add_diff_inverse take_add)
  then show ?thesis by simp
qed

lemma rank_less:
  assumes "i < j" and "j < length lens" and "lens ! i = lens ! j"
  shows "rank lens i < rank lens j"
proof -
  have "rank lens i < count_list (take (Suc i) lens) (lens ! i)"
    using assms by (simp add: rank_def count_take_Suc)
  also have "\<dots> \<le> rank lens j" unfolding rank_def using assms by (simp add: count_take_mono)
  finally show ?thesis .
qed

lemma rank_less_codes: "has_code lens s \<Longrightarrow> rank lens s < codes_of_length lens (lens ! s)"
proof -
  assume s: "has_code lens s"
  then have "rank lens s < count_list (take (Suc s) lens) (lens ! s)"
    by (simp add: rank_def count_take_Suc has_code_def)
  also have "\<dots> \<le> count_list (take (length lens) lens) (lens ! s)"
    using s by (intro count_take_mono) (simp add: has_code_def)
  finally show ?thesis using s by (simp add: codes_of_length_def has_code_def)
qed

text \<open>The symbols of a length, in order; the one at position \<open>r\<close> has rank \<open>r\<close>.\<close>

definition symbols_of_length :: "nat list \<Rightarrow> nat \<Rightarrow> nat list" where
  "symbols_of_length lens l = filter (\<lambda>s. lens ! s = l) [0..<length lens]"

lemma count_filter: "k \<le> length lens \<Longrightarrow> length (filter (\<lambda>s. lens ! s = l) [0..<k]) = count_list (take k lens) l"
  by (induction k) (simp_all add: count_take_Suc)

lemma length_symbols: "length (symbols_of_length lens l) = count_list lens l"
  using count_filter [of "length lens" lens l] by (simp add: symbols_of_length_def)

lemma symbols_rank:
  assumes "s < length lens" and "lens ! s = l"
  shows "symbols_of_length lens l ! rank lens s = s"
proof -
  have "[0..<length lens] = [0..<s] @ s # [Suc s..<length lens]"
    using assms(1) by (metis upt_conv_Cons le_add1 upt_add_eq_append le0 less_imp_le_nat le_add_diff_inverse)
  then have "symbols_of_length lens l =
      filter (\<lambda>s. lens ! s = l) [0..<s] @ s # filter (\<lambda>s. lens ! s = l) [Suc s..<length lens]"
    using assms(2) by (simp add: symbols_of_length_def)
  moreover have "length (filter (\<lambda>s. lens ! s = l) [0..<s]) = rank lens s"
    using assms count_filter [of s lens l] by (simp add: rank_def)
  ultimately show ?thesis by (metis nth_append_length)
qed

lemma rank_symbols:
  assumes "r < count_list lens l"
  shows "symbols_of_length lens l ! r < length lens" "lens ! (symbols_of_length lens l ! r) = l"
    "rank lens (symbols_of_length lens l ! r) = r"
proof -
  let ?s = "symbols_of_length lens l ! r"
  have r: "r < length (symbols_of_length lens l)" using assms by (simp add: length_symbols)
  then have "?s \<in> set (symbols_of_length lens l)" by simp
  then show s: "?s < length lens" "lens ! ?s = l" by (auto simp: symbols_of_length_def)
  have "rank lens ?s < count_list lens l"
    using s count_take_mono [of "Suc ?s" "length lens" lens l] by (simp add: rank_def count_take_Suc)
  moreover have "distinct (symbols_of_length lens l)" by (simp add: symbols_of_length_def)
  ultimately show "rank lens ?s = r"
    using symbols_rank [OF s] r by (metis length_symbols nth_eq_iff_index_eq)
qed

section \<open>No code word is a prefix of another\<close>

lemma first_code_grows: "(first_code lens l + codes_of_length lens l) * 2 ^ k \<le> first_code lens (l + k) + (if k = 0 then codes_of_length lens l else 0)"
proof (induction k)
  case (Suc k)
  then show ?case by (cases k) (auto simp: algebra_simps)
qed simp

lemma code_of_less: "not_oversubscribed lens \<Longrightarrow> has_code lens s \<Longrightarrow> code_of lens s < 2 ^ (lens ! s)"
  using rank_less_codes [of lens s] unfolding not_oversubscribed_def code_of_def
  by (metis add_less_cancel_left order.strict_trans2)

lemma code_of_prefix:
  assumes "has_code lens i" and "has_code lens j" and "lens ! i \<le> lens ! j"
    and "code_of lens j div 2 ^ (lens ! j - lens ! i) = code_of lens i"
  shows "i = j"
proof (cases "lens ! i = lens ! j")
  case True
  then have "rank lens i = rank lens j" using assms(4) by (simp add: code_of_def)
  then show ?thesis
    using rank_less [of i j lens] rank_less [of j i lens] True assms(1,2)
    by (metis has_code_def less_irrefl linorder_neqE_nat)
next
  case False
  let ?li = "lens ! i" and ?k = "lens ! j - lens ! i"
  have k: "?k \<noteq> 0" "lens ! j = ?li + ?k" using False assms(3) by simp_all
  have "(first_code lens ?li + codes_of_length lens ?li) * 2 ^ ?k \<le> code_of lens j"
    using first_code_grows [of lens ?li ?k] k by (simp add: code_of_def)
  then have "first_code lens ?li + codes_of_length lens ?li \<le> code_of lens j div 2 ^ ?k"
    by (simp add: less_eq_div_iff_mult_less_eq)
  then show ?thesis
    using rank_less_codes [OF assms(1)] assms(4) by (simp add: code_of_def)
qed

lemma code_word_prefix:
  assumes "not_oversubscribed lens" and "has_code lens i" and "has_code lens j"
    and "code_word lens j = code_word lens i @ rest"
  shows "i = j"
proof -
  have "length (code_word lens j) = length (code_word lens i) + length rest" using assms(4) by simp
  then have len: "lens ! j = lens ! i + length rest" by simp
  then have "to_bits (lens ! i) (code_of lens j div 2 ^ length rest) @ to_bits (length rest) (code_of lens j) =
      to_bits (lens ! i) (code_of lens i) @ rest"
    using assms(4) by (simp only: code_word_def len to_bits_append)
  then have "to_bits (lens ! i) (code_of lens j div 2 ^ length rest) = to_bits (lens ! i) (code_of lens i)"
    by (metis append_eq_append_conv length_to_bits)
  then have "code_of lens j div 2 ^ length rest mod 2 ^ (lens ! i) = code_of lens i mod 2 ^ (lens ! i)"
    by (metis bits_val_to_bits)
  moreover have "code_of lens j div 2 ^ length rest < 2 ^ (lens ! i)"
    using code_of_less [OF assms(1,3)] len by (simp add: div_less_iff_less_mult power_add)
  ultimately have "code_of lens j div 2 ^ length rest = code_of lens i"
    using code_of_less [OF assms(1,2)] by simp
  then show ?thesis using code_of_prefix [OF assms(2,3)] len by simp
qed

text \<open>Decoding by the specification: the symbol whose word the bits begin with, and what is left.\<close>

definition starts_with_code :: "nat list \<Rightarrow> bool list \<Rightarrow> nat \<Rightarrow> bool" where
  "starts_with_code lens bs s \<longleftrightarrow> has_code lens s \<and> take (lens ! s) bs = code_word lens s"

lemma starts_with_code_unique:
  assumes "not_oversubscribed lens" and "starts_with_code lens bs i" and "starts_with_code lens bs j"
  shows "i = j"
proof -
  have *: "i = j" if "lens ! i \<le> lens ! j" "starts_with_code lens bs i" "starts_with_code lens bs j" for i j
  proof -
    have "take (lens ! j) bs = take (lens ! i) bs @ take (lens ! j - lens ! i) (drop (lens ! i) bs)"
      using that(1) by (metis le_add_diff_inverse take_add)
    then show ?thesis
      using that code_word_prefix [OF assms(1), of i j "take (lens ! j - lens ! i) (drop (lens ! i) bs)"]
      unfolding starts_with_code_def by argo
  qed
  show ?thesis using * [of i j] * [of j i] assms(2,3) by (cases "lens ! i \<le> lens ! j") auto
qed

lemma starts_with_code_append: "has_code lens s \<Longrightarrow> starts_with_code lens (code_word lens s @ rest) s"
  by (simp add: starts_with_code_def)

section \<open>Kraft's inequality\<close>

lemma first_code_sum: "first_code lens l + codes_of_length lens l = (\<Sum>s<length lens. if 0 < lens ! s \<and> lens ! s \<le> l then 2 ^ (l - lens ! s) else 0)"
proof (induction l)
  case 0
  show ?case by (auto simp: codes_of_length_def)
next
  case (Suc l)
  have count: "codes_of_length lens (Suc l) = (\<Sum>s<length lens. if lens ! s = Suc l then 1 else 0)"
  proof -
    have "count_list lens (Suc l) = length (filter (\<lambda>s. lens ! s = Suc l) [0..<length lens])"
      using count_filter [of "length lens" lens "Suc l"] by simp
    also have "\<dots> = card {s \<in> {..<length lens}. lens ! s = Suc l}"
      by (subst distinct_length_filter) (simp_all add: Int_def atLeast0LessThan conj_commute)
    also have "\<dots> = (\<Sum>s<length lens. if lens ! s = Suc l then 1 else 0)"
      by (simp add: sum.If_cases Int_def)
    finally show ?thesis by (simp add: codes_of_length_def)
  qed
  have "first_code lens (Suc l) = (\<Sum>s<length lens. 2 * (if 0 < lens ! s \<and> lens ! s \<le> l then 2 ^ (l - lens ! s) else 0))"
    by (simp only: first_code.simps Suc.IH sum_distrib_left)
  then have "first_code lens (Suc l) + codes_of_length lens (Suc l) =
      (\<Sum>s<length lens. 2 * (if 0 < lens ! s \<and> lens ! s \<le> l then 2 ^ (l - lens ! s) else 0) + (if lens ! s = Suc l then 1 else 0))"
    by (simp only: count sum.distrib)
  also have "\<dots> = (\<Sum>s<length lens. if 0 < lens ! s \<and> lens ! s \<le> Suc l then 2 ^ (Suc l - lens ! s) else 0)"
    by (intro sum.cong refl) (auto simp: Suc_diff_le)
  finally show ?case .
qed

lemma kraft_not_oversubscribed:
  assumes "(\<Sum>s<length lens. if 0 < lens ! s then 2 ^ (limit - lens ! s) else 0) \<le> (2 :: nat) ^ limit"
    and "\<And>s. s < length lens \<Longrightarrow> lens ! s \<le> limit"
  shows "not_oversubscribed lens"
proof -
  have "first_code lens l + codes_of_length lens l \<le> 2 ^ l" for l
  proof -
    have "(first_code lens l + codes_of_length lens l) * 2 ^ limit =
        (\<Sum>s<length lens. (if 0 < lens ! s \<and> lens ! s \<le> l then 2 ^ (l - lens ! s) else 0) * 2 ^ limit)"
      by (simp only: first_code_sum sum_distrib_right)
    also have "\<dots> \<le> (\<Sum>s<length lens. (if 0 < lens ! s then 2 ^ (limit - lens ! s) else 0) * 2 ^ l)"
    proof (rule sum_mono)
      fix s assume "s \<in> {..<length lens}"
      then have "lens ! s \<le> limit" using assms(2) by simp
      then show "(if 0 < lens ! s \<and> lens ! s \<le> l then 2 ^ (l - lens ! s) else 0) * 2 ^ limit
          \<le> (if 0 < lens ! s then 2 ^ (limit - lens ! s) else 0) * (2 :: nat) ^ l"
        by (auto simp flip: power_add)
    qed
    also have "\<dots> = (\<Sum>s<length lens. if 0 < lens ! s then 2 ^ (limit - lens ! s) else 0) * 2 ^ l"
      by (simp only: sum_distrib_right)
    also have "\<dots> \<le> 2 ^ limit * 2 ^ l" using assms(1) by (rule mult_right_mono) simp
    finally have "(first_code lens l + codes_of_length lens l) * 2 ^ limit \<le> 2 ^ l * 2 ^ limit" by (simp only: mult.commute)
    then show ?thesis by simp
  qed
  then show ?thesis by (simp add: not_oversubscribed_def)
qed

end
