(* ===== verification/Bz2_Huffman.thy ===== *)
theory Bz2_Huffman
  imports Canonical Bit_Reader
begin

text \<open>
  \<open>Huffman\<close> of \<open>src/decoder.rs\<close>: the table built from a block's code lengths, with a 12-bit lookup
  table for short codes and the limit/base search for the rest. Both are shown to decode the
  canonical code of \<open>Canonical\<close>, and the builder to accept exactly the lengths that have one.
\<close>

section \<open>Building the table\<close>

definition LUT_BITS :: nat where "LUT_BITS = 12"
definition BZ2_MAX_LEN :: nat where "BZ2_MAX_LEN = 20"

record huffman =
  h_min :: nat
  h_max :: nat
  h_limit :: "int list"
  h_base :: "int list"
  h_symbols :: "nat list"
  h_lut :: "u32 list"

text \<open>The counts are \<open>u32\<close> in the code; no caller has more than 258 lengths.\<close>

definition length_counts :: "nat list \<Rightarrow> nat list" where
  "length_counts lengths = fold (\<lambda>l c. c[l := c ! l + 1]) lengths (replicate (BZ2_MAX_LEN + 1) 0)"

fun next_codes :: "nat list \<Rightarrow> nat \<Rightarrow> nat list \<Rightarrow> nat list \<Rightarrow> nat list option" where
  "next_codes counts code starts [] = Some starts"
| "next_codes counts code starts (l # ls) =
     (let code = (code + counts ! (l - 1)) * 2; starts = starts[l := code] in
      if code + counts ! l > 2 ^ l then None else next_codes counts code starts ls)"

definition fill_range :: "'a list \<Rightarrow> nat \<Rightarrow> nat \<Rightarrow> 'a \<Rightarrow> error + 'a list" where
  "fill_range xs a b v =
     (if a \<le> b \<and> b \<le> length xs then Inr (take a xs @ replicate (b - a) v @ drop b xs) else Inl Panic)"

definition lut_entry :: "nat \<Rightarrow> nat \<Rightarrow> u32" where
  "lut_entry l symbol = push_bit 16 (word_of_nat l) OR word_of_nat symbol"

fun fill_lut :: "(nat \<times> nat) list \<Rightarrow> nat list \<Rightarrow> u32 list \<Rightarrow> error + u32 list" where
  "fill_lut [] starts lut = Inr lut"
| "fill_lut (p # ps) starts lut =
     (let symbol = fst p; l = snd p; canonical = starts ! l; starts = starts[l := canonical + 1] in
      if l \<le> LUT_BITS
      then (let fill = 2 ^ (LUT_BITS - l); start = canonical * fill
            in and_then (fill_range lut start (start + fill) (lut_entry l symbol)) (\<lambda>lut. fill_lut ps starts lut))
      else fill_lut ps starts lut)"

definition sorted_symbols :: "nat list \<Rightarrow> nat \<Rightarrow> nat \<Rightarrow> nat list" where
  "sorted_symbols lengths min_len max_len =
     concat (map (\<lambda>l. map fst (filter (\<lambda>p. snd p = l) (enumerate 0 lengths))) [min_len..<max_len + 1])"

definition limit_step :: "nat list \<Rightarrow> nat \<Rightarrow> int \<times> int list \<Rightarrow> int \<times> int list" where
  "limit_step counts l s = (let v = fst s + int (counts ! l) in (v * 2, (snd s)[l := v - 1]))"

definition h_limits :: "nat list \<Rightarrow> nat \<Rightarrow> nat \<Rightarrow> int list" where
  "h_limits counts min_len max_len =
     snd (fold (limit_step counts) [min_len..<max_len + 1] (0, replicate (BZ2_MAX_LEN + 1) 0))"

definition base_counts :: "nat list \<Rightarrow> int list" where
  "base_counts lengths =
     fold (\<lambda>l b. if l = BZ2_MAX_LEN then b else b[l + 1 := b ! (l + 1) + 1]) lengths (replicate (BZ2_MAX_LEN + 1) 0)"

definition base_sums :: "int list \<Rightarrow> int list" where
  "base_sums base = fold (\<lambda>i b. b[i := b ! i + b ! (i - 1)]) [1..<BZ2_MAX_LEN + 1] base"

definition bases :: "nat list \<Rightarrow> int list \<Rightarrow> nat \<Rightarrow> nat \<Rightarrow> int list" where
  "bases lengths limit min_len max_len =
     fold (\<lambda>l b. b[l := (limit ! (l - 1) + 1) * 2 - b ! l]) [min_len + 1..<max_len + 1]
       (base_sums (base_counts lengths))"

definition h_build :: "nat list \<Rightarrow> nat \<Rightarrow> error + huffman" where
  "h_build lengths bit_offset =
     (if lengths = [] then Inl (decode_error_at bit_offset InvalidHuffman)
      else (let min_len = Min (set lengths); max_len = Max (set lengths) in
        if min_len = 0 \<or> max_len > BZ2_MAX_LEN then Inl (decode_error_at bit_offset InvalidHuffman)
        else (let counts = length_counts lengths in
          case next_codes counts 0 (replicate (BZ2_MAX_LEN + 1) 0) [1..<BZ2_MAX_LEN + 1] of
            None \<Rightarrow> Inl (decode_error_at bit_offset InvalidHuffman)
          | Some starts \<Rightarrow>
              and_then (fill_lut (enumerate 0 lengths) starts (replicate (2 ^ LUT_BITS) 0)) (\<lambda>lut.
              let limit = h_limits counts min_len max_len
              in Inr \<lparr>h_min = min_len, h_max = max_len, h_limit = limit,
                   h_base = bases lengths limit min_len max_len,
                   h_symbols = sorted_symbols lengths min_len max_len, h_lut = lut\<rparr>))))"

section \<open>Decoding a symbol\<close>

function h_search :: "huffman \<Rightarrow> bytes \<Rightarrow> nat \<Rightarrow> nat \<Rightarrow> int \<Rightarrow> error + nat \<times> nat" where
  "h_search h data pos l code =
     (if l < length (h_limit h)
      then (if code \<le> h_limit h ! l
            then (let i = code - h_base h ! l in
              if i \<ge> 0 \<and> nat i < length (h_symbols h) then Inr (h_symbols h ! nat i, pos)
              else Inl (decode_error_at pos InvalidHuffman))
            else if l = h_max h then Inl (decode_error_at pos InvalidHuffman)
            else and_then (bits_read data pos 1) (\<lambda>r.
              h_search h data (snd r) (l + 1) (code * 2 + uint (fst r))))
      else Inl Panic)"
  by pat_completeness auto
termination by (relation "measure (\<lambda>(h, _, _, l, _). length (h_limit h) - l)") auto

declare h_search.simps [simp del]

definition h_decode :: "huffman \<Rightarrow> bytes \<Rightarrow> nat \<Rightarrow> error + nat \<times> nat" where
  "h_decode h data pos =
     and_then
       (if bits_remaining data pos \<ge> LUT_BITS
        then and_then (bits_peek data pos LUT_BITS) (\<lambda>v.
             and_then (index (h_lut h) (unat v)) (\<lambda>entry.
             let l = unat (ucast (drop_bit 16 entry) :: byte)
             in Inr (if l \<noteq> 0 then Some (unat (entry AND 0xffff), pos + l) else None)))
        else Inr None)
       (\<lambda>hit. case hit of
          Some r \<Rightarrow> Inr r
        | None \<Rightarrow> and_then (bits_read data pos (h_min h)) (\<lambda>r.
            h_search h data (snd r) (h_min h) (uint (fst r))))"

section \<open>What the builder computes\<close>

definition bz2_lengths :: "nat list \<Rightarrow> bool" where
  "bz2_lengths lens \<longleftrightarrow> lens \<noteq> [] \<and> (\<forall>l \<in> set lens. 0 < l \<and> l \<le> BZ2_MAX_LEN)"

lemma bz2_lengths_iff:
  "lens \<noteq> [] \<Longrightarrow> bz2_lengths lens \<longleftrightarrow> \<not> (Min (set lens) = 0 \<or> Max (set lens) > BZ2_MAX_LEN)"
  using Min_gr_iff [of "set lens" 0] Max_le_iff [of "set lens" BZ2_MAX_LEN]
  by (auto simp: bz2_lengths_def not_less)

lemma counts_fold:
  "(\<And>l. l \<in> set xs \<Longrightarrow> l < length c) \<Longrightarrow> i < length c \<Longrightarrow>
     fold (\<lambda>l c. c[l := c ! l + 1]) xs c ! i = c ! i + count_list xs i"
  by (induction xs arbitrary: c) (auto simp: nth_list_update)

lemma length_counts_nth:
  assumes "bz2_lengths lens" and "l \<le> BZ2_MAX_LEN"
  shows "length_counts lens ! l = codes_of_length lens l"
proof -
  have "length_counts lens ! l = count_list lens l"
    using assms counts_fold [of lens "replicate (BZ2_MAX_LEN + 1) 0" l]
    by (auto simp: length_counts_def bz2_lengths_def less_Suc_eq_le simp del: replicate.simps)
  moreover have "count_list lens 0 = 0" using assms(1) by (auto simp: bz2_lengths_def count_list_0_iff)
  ultimately show ?thesis by (simp add: codes_of_length_def)
qed

lemma next_codes_result:
  assumes "\<And>l. l \<le> BZ2_MAX_LEN \<Longrightarrow> counts ! l = codes_of_length lens l" and "k \<le> BZ2_MAX_LEN"
    and "length starts = BZ2_MAX_LEN + 1"
  shows "case next_codes counts (first_code lens k) starts [Suc k..<BZ2_MAX_LEN + 1] of
      None \<Rightarrow> \<exists>l. first_code lens l + codes_of_length lens l > 2 ^ l
    | Some starts' \<Rightarrow> (\<forall>l. k < l \<longrightarrow> l \<le> BZ2_MAX_LEN \<longrightarrow> first_code lens l + codes_of_length lens l \<le> 2 ^ l) \<and>
        length starts' = BZ2_MAX_LEN + 1 \<and>
        (\<forall>l \<le> BZ2_MAX_LEN. starts' ! l = (if k < l then first_code lens l else starts ! l))"
  using assms(2,3)
proof (induction "BZ2_MAX_LEN - k" arbitrary: k starts)
  case (Suc n)
  then have k: "k < BZ2_MAX_LEN" "Suc k \<le> BZ2_MAX_LEN" by simp_all
  let ?c = "first_code lens (Suc k)"
  have upt: "[Suc k..<BZ2_MAX_LEN + 1] = Suc k # [Suc (Suc k)..<BZ2_MAX_LEN + 1]" using k by (simp add: upt_conv_Cons)
  have code: "(first_code lens k + counts ! (Suc k - 1)) * 2 = ?c" using assms(1) [of k] k by simp
  have cs: "counts ! Suc k = codes_of_length lens (Suc k)" using assms(1) k by simp
  note IH = Suc.hyps(1) [of "Suc k" "starts[Suc k := ?c]"]
  show ?case
  proof (cases "?c + codes_of_length lens (Suc k) > 2 ^ Suc k")
    case True
    then have "next_codes counts (first_code lens k) starts [Suc k..<BZ2_MAX_LEN + 1] = None"
      unfolding upt next_codes.simps Let_def code cs by (simp only: if_True)
    then show ?thesis by (simp only: option.case) (rule exI [of _ "Suc k"], rule True)
  next
    case False
    then have "next_codes counts (first_code lens k) starts [Suc k..<BZ2_MAX_LEN + 1] =
        next_codes counts ?c (starts[Suc k := ?c]) [Suc (Suc k)..<BZ2_MAX_LEN + 1]"
      unfolding upt next_codes.simps Let_def code cs by (simp only: if_False)
    moreover have "n = BZ2_MAX_LEN - Suc k" using Suc.hyps(2) by simp
    moreover have "k < l \<longleftrightarrow> l = Suc k \<or> Suc k < l" for l by auto
    ultimately show ?thesis
      using IH k False Suc.prems by (auto simp del: first_code.simps upt_Suc simp: not_less split: option.splits)
  qed
qed auto

text \<open>The lookup table: entry \<open>v\<close> names the symbol whose code word the 12 bits \<open>v\<close> begin with.\<close>

definition covers :: "nat list \<Rightarrow> nat \<Rightarrow> nat \<Rightarrow> bool" where
  "covers lens s v \<longleftrightarrow> lens ! s \<le> LUT_BITS \<and> v div 2 ^ (LUT_BITS - lens ! s) = code_of lens s"

lemma covers_unique:
  assumes "has_code lens s" and "has_code lens t" and "covers lens s v" and "covers lens t v"
  shows "s = t"
proof -
  have *: "s = t" if "lens ! s \<le> lens ! t" "has_code lens s" "has_code lens t" "covers lens s v" "covers lens t v" for s t
  proof -
    have "LUT_BITS - lens ! s = (LUT_BITS - lens ! t) + (lens ! t - lens ! s)"
      using that by (simp add: covers_def)
    then have "v div 2 ^ (LUT_BITS - lens ! t) div 2 ^ (lens ! t - lens ! s) = v div 2 ^ (LUT_BITS - lens ! s)"
      by (simp only: power_add div_mult2_eq)
    then show ?thesis using that code_of_prefix [of lens s t] by (simp add: covers_def)
  qed
  show ?thesis using * [of s t] * [of t s] assms by (cases "lens ! s \<le> lens ! t") auto
qed

definition lut_ok :: "nat list \<Rightarrow> nat \<Rightarrow> u32 list \<Rightarrow> bool" where
  "lut_ok lens k lut \<longleftrightarrow> length lut = 2 ^ LUT_BITS \<and>
     (\<forall>v < 2 ^ LUT_BITS. (\<forall>s<k. covers lens s v \<longrightarrow> lut ! v = lut_entry (lens ! s) s) \<and>
       ((\<forall>s<k. \<not> covers lens s v) \<longrightarrow> lut ! v = 0))"

lemma fill_range_nth:
  "fill_range xs a b x = Inr ys \<Longrightarrow> i < length xs \<Longrightarrow> ys ! i = (if a \<le> i \<and> i < b then x else xs ! i)"
  by (auto simp: fill_range_def nth_append min_def split: if_splits)

lemma fill_range_length: "fill_range xs a b x = Inr ys \<Longrightarrow> length ys = length xs"
  by (auto simp: fill_range_def split: if_splits)

lemma lut_ok_step:
  assumes lens: "\<And>s. s < length lens \<Longrightarrow> has_code lens s" and "not_oversubscribed lens" and "k < length lens"
    and "lut_ok lens k lut" and "lens ! k \<le> LUT_BITS"
  shows "\<exists>lut'. fill_range lut (code_of lens k * 2 ^ (LUT_BITS - lens ! k))
      (code_of lens k * 2 ^ (LUT_BITS - lens ! k) + 2 ^ (LUT_BITS - lens ! k)) (lut_entry (lens ! k) k) = Inr lut' \<and>
    lut_ok lens (Suc k) lut'"
proof -
  let ?c = "code_of lens k" and ?f = "2 ^ (LUT_BITS - lens ! k) :: nat"
  have len: "length lut = 2 ^ LUT_BITS" using assms(4) by (simp add: lut_ok_def)
  have "Suc ?c \<le> 2 ^ (lens ! k)" using code_of_less [OF assms(2) lens [OF assms(3)]] by simp
  then have "Suc ?c * ?f \<le> 2 ^ (lens ! k) * ?f" by (rule mult_le_mono1)
  also have "\<dots> = 2 ^ LUT_BITS" using assms(5) by (simp flip: power_add)
  finally have stop: "?c * ?f + ?f \<le> length lut" using len by simp
  define lut' where "lut' = take (?c * ?f) lut @ replicate ?f (lut_entry (lens ! k) k) @ drop (?c * ?f + ?f) lut"
  have fill: "fill_range lut (?c * ?f) (?c * ?f + ?f) (lut_entry (lens ! k) k) = Inr lut'"
    using stop by (simp add: fill_range_def lut'_def)
  have range: "?c * ?f \<le> v \<and> v < ?c * ?f + ?f \<longleftrightarrow> covers lens k v" for v
  proof -
    have "v div ?f = ?c \<longleftrightarrow> ?c * ?f \<le> v \<and> v < Suc ?c * ?f"
      by (simp add: div_nat_eqI dividend_less_times_div div_times_less_eq_dividend)
        (metis div_nat_eqI dividend_less_times_div div_times_less_eq_dividend mult.commute mult_Suc zero_less_numeral zero_less_power)
    then show ?thesis using assms(5) by (simp add: covers_def add.commute)
  qed
  have nth: "lut' ! v = (if covers lens k v then lut_entry (lens ! k) k else lut ! v)" if "v < 2 ^ LUT_BITS" for v
    using fill_range_nth [OF fill, of v] that len range by simp
  have "lut_ok lens (Suc k) lut'"
    unfolding lut_ok_def
  proof (intro conjI allI impI)
    show "length lut' = 2 ^ LUT_BITS" using fill_range_length [OF fill] len by simp
    fix v :: nat assume v: "v < 2 ^ LUT_BITS"
    show "lut' ! v = lut_entry (lens ! s) s" if "s < Suc k" "covers lens s v" for s
      using that covers_unique [of lens s k v] lens [of s] lens [of k] assms(3,4) nth [OF v] v
      by (cases "s = k") (auto simp: lut_ok_def)
    show "lut' ! v = 0" if "\<forall>s<Suc k. \<not> covers lens s v"
      using that assms(4) nth [OF v] v by (simp add: lut_ok_def)
  qed
  then show ?thesis using fill by blast
qed

lemma fill_lut_ok:
  assumes lens: "\<And>s. s < length lens \<Longrightarrow> has_code lens s" and "not_oversubscribed lens" and "\<And>l. l \<in> set lens \<Longrightarrow> l < length starts"
    and "k \<le> length lens" and "lut_ok lens k lut"
    and "\<And>l. 0 < l \<Longrightarrow> l < length starts \<Longrightarrow> starts ! l = first_code lens l + count_list (take k lens) l"
  shows "\<exists>lut'. fill_lut (enumerate k (drop k lens)) starts lut = Inr lut' \<and> lut_ok lens (length lens) lut'"
  using assms(3-)
proof (induction "length lens - k" arbitrary: k starts lut)
  case (Suc n)
  then have k: "k < length lens" by simp
  let ?l = "lens ! k"
  have pos: "0 < ?l" "?l < length starts" using lens [OF k] Suc.prems(1) k by (auto simp: has_code_def)
  have canonical: "starts ! ?l = code_of lens k" using Suc.prems(4) [OF pos] by (simp add: code_of_def rank_def)
  define starts' where "starts' = starts[?l := starts ! ?l + 1]"
  have starts': "starts' ! l = first_code lens l + count_list (take (Suc k) lens) l" if "0 < l" "l < length starts'" for l
    using that Suc.prems(4) [of l] k by (auto simp: starts'_def nth_list_update count_take_Suc)
  have len: "l \<in> set lens \<Longrightarrow> l < length starts'" for l using Suc.prems(1) by (simp add: starts'_def)
  have IH: "\<exists>lut''. fill_lut (enumerate (Suc k) (drop (Suc k) lens)) starts' lut' = Inr lut'' \<and> lut_ok lens (length lens) lut''"
    if "lut_ok lens (Suc k) lut'" for lut'
    using Suc.hyps(2) k that starts' len by (intro Suc.hyps(1)) simp_all
  have enum: "enumerate k (drop k lens) = (k, ?l) # enumerate (Suc k) (drop (Suc k) lens)"
    using k by (simp add: Cons_nth_drop_Suc [symmetric])
  show ?case
  proof (cases "?l \<le> LUT_BITS")
    case True
    then show ?thesis
      using lut_ok_step [OF lens assms(2) k Suc.prems(3) True] IH
      unfolding enum fill_lut.simps Let_def fst_conv snd_conv canonical starts'_def [symmetric] if_P [OF True]
      by (auto simp: starts'_def canonical)
  next
    case False
    have "lut_ok lens (Suc k) lut"
      using Suc.prems(3) False unfolding lut_ok_def by (auto simp: covers_def less_Suc_eq)
    then show ?thesis using IH False unfolding enum by (simp add: starts'_def Let_def)
  qed
qed simp

text \<open>The symbols in order of length, the h_limits and the bases of the search.\<close>

definition shorter :: "nat list \<Rightarrow> nat \<Rightarrow> nat" where
  "shorter lens l = (\<Sum>j<l. count_list lens j)"

lemma enumerate_filter: "map fst (filter (\<lambda>p. snd p = l) (enumerate 0 lens)) = symbols_of_length lens l"
proof -
  have "enumerate 0 lens = map (\<lambda>s. (s, lens ! s)) [0..<length lens]"
    by (intro nth_equalityI) (simp_all add: nth_enumerate_eq)
  then show ?thesis by (simp add: symbols_of_length_def filter_map comp_def)
qed

lemma sum_count_outside: "(\<And>x. x \<in> set lens \<Longrightarrow> a \<le> x) \<Longrightarrow> shorter lens a = 0"
  unfolding shorter_def by (rule sum.neutral) (fastforce simp: count_list_0_iff)

lemma shorter_Suc: "shorter lens (Suc l) = shorter lens l + count_list lens l"
  by (simp add: shorter_def)

lemma concat_symbols_nth:
  assumes "\<And>x. x \<in> set lens \<Longrightarrow> a \<le> x" and "a \<le> l" and "l < b" and "r < count_list lens l"
  shows "concat (map (symbols_of_length lens) [a..<b]) ! (shorter lens l + r) = symbols_of_length lens l ! r"
    and "shorter lens l + r < length (concat (map (symbols_of_length lens) [a..<b]))"
proof -
  have len: "length (concat (map (symbols_of_length lens) [a..<l])) = shorter lens l" if "a \<le> l" for l
    using that
  proof (induction l rule: dec_induct)
    case base
    then show ?case using sum_count_outside [OF assms(1)] by simp
  next
    case (step n)
    then show ?case by (simp add: length_symbols shorter_Suc)
  qed
  have "[a..<b] = [a..<l] @ l # [Suc l..<b]"
    using assms(2,3) by (metis upt_conv_Cons upt_add_eq_append le_add_diff_inverse less_imp_le_nat)
  then have split: "concat (map (symbols_of_length lens) [a..<b]) =
      concat (map (symbols_of_length lens) [a..<l]) @ symbols_of_length lens l @ concat (map (symbols_of_length lens) [Suc l..<b])"
    by simp
  show "concat (map (symbols_of_length lens) [a..<b]) ! (shorter lens l + r) = symbols_of_length lens l ! r"
    unfolding split using assms(2,4) by (simp add: nth_append len length_symbols)
  show "shorter lens l + r < length (concat (map (symbols_of_length lens) [a..<b]))"
    unfolding split using assms(2,4) by (simp add: len length_symbols)
qed

lemma first_code_below: "(\<And>x. x \<in> set lens \<Longrightarrow> a \<le> x) \<Longrightarrow> l \<le> a \<Longrightarrow> first_code lens l = 0"
proof (induction l)
  case (Suc l)
  then have "count_list lens l = 0" by (force simp: count_list_0_iff)
  then show ?case using Suc by (simp add: codes_of_length_def)
qed simp

lemma h_limits_fold:
  assumes "\<And>l. l \<le> BZ2_MAX_LEN \<Longrightarrow> counts ! l = codes_of_length lens l" and "\<And>x. x \<in> set lens \<Longrightarrow> a \<le> x"
    and "a \<le> b" and "b \<le> BZ2_MAX_LEN + 1"
  shows "\<exists>limit. fold (limit_step counts) [a..<b] (0, replicate (BZ2_MAX_LEN + 1) 0) = (int (first_code lens b), limit) \<and>
    length limit = BZ2_MAX_LEN + 1 \<and>
    (\<forall>l. a \<le> l \<and> l < b \<longrightarrow> limit ! l = int (first_code lens l + codes_of_length lens l) - 1)"
  using assms(3,4)
proof (induction b rule: dec_induct)
  case base
  then show ?case using first_code_below [OF assms(2) order_refl] by simp
next
  case (step n)
  then obtain limit where "fold (limit_step counts) [a..<n] (0, replicate (BZ2_MAX_LEN + 1) 0) = (int (first_code lens n), limit)"
    and limit: "length limit = BZ2_MAX_LEN + 1"
    "\<forall>l. a \<le> l \<and> l < n \<longrightarrow> limit ! l = int (first_code lens l + codes_of_length lens l) - 1" by auto
  moreover from this have "n < length limit" using step.hyps(2) step.prems by simp
  moreover have "counts ! n = codes_of_length lens n" using assms(1) [of n] step.hyps(2) step.prems by simp
  ultimately have "fold (limit_step counts) [a..<Suc n] (0, replicate (BZ2_MAX_LEN + 1) 0) =
      (int (first_code lens (Suc n)), limit[n := int (first_code lens n + codes_of_length lens n) - 1])"
    using step.hyps(1) by (simp del: replicate.simps) (simp add: limit_step_def Let_def)
  moreover have "\<forall>l. a \<le> l \<and> l < Suc n \<longrightarrow> limit[n := int (first_code lens n + codes_of_length lens n) - 1] ! l =
      int (first_code lens l + codes_of_length lens l) - 1"
    using limit \<open>n < length limit\<close> by (auto simp: nth_list_update)
  ultimately show ?case using limit(1) by simp
qed

lemma h_limits_nth:
  assumes "bz2_lengths lens" and "min_len = Min (set lens)" and "max_len = Max (set lens)"
  shows "length (h_limits (length_counts lens) min_len max_len) = BZ2_MAX_LEN + 1"
    and "min_len \<le> l \<Longrightarrow> l \<le> max_len \<Longrightarrow>
      h_limits (length_counts lens) min_len max_len ! l = int (first_code lens l + codes_of_length lens l) - 1"
proof -
  have le: "min_len \<le> x" if "x \<in> set lens" for x using that assms(2) by simp
  have "Max (set lens) \<in> set lens" "Min (set lens) \<in> set lens" using assms(1) by (simp_all add: bz2_lengths_def)
  then have "min_len \<le> max_len" "max_len \<le> BZ2_MAX_LEN" using assms by (auto simp: bz2_lengths_def)
  then have b: "min_len \<le> max_len + 1" "max_len + 1 \<le> BZ2_MAX_LEN + 1" by simp_all
  show "length (h_limits (length_counts lens) min_len max_len) = BZ2_MAX_LEN + 1"
    "min_len \<le> l \<Longrightarrow> l \<le> max_len \<Longrightarrow>
      h_limits (length_counts lens) min_len max_len ! l = int (first_code lens l + codes_of_length lens l) - 1"
    using h_limits_fold [OF length_counts_nth [OF assms(1)] le b] by (auto simp: h_limits_def)
qed

lemma base_counts_nth:
  assumes "\<And>l. l \<in> set lens \<Longrightarrow> l \<le> BZ2_MAX_LEN"
  shows "length (base_counts lens) = BZ2_MAX_LEN + 1"
    and "i \<le> BZ2_MAX_LEN \<Longrightarrow> base_counts lens ! i = (if i = 0 then 0 else int (count_list lens (i - 1)))"
proof -
  have "length (fold (\<lambda>l b. if l = BZ2_MAX_LEN then b else b[l + 1 := b ! (l + 1) + 1]) xs b) = length b" for xs and b :: "int list"
    by (induction xs arbitrary: b) simp_all
  then show "length (base_counts lens) = BZ2_MAX_LEN + 1" by (simp add: base_counts_def del: replicate.simps)
  have "fold (\<lambda>l b. if l = BZ2_MAX_LEN then b else b[l + 1 := b ! (l + 1) + 1]) xs b ! i =
      b ! i + (if i = 0 then 0 else int (count_list xs (i - 1)))"
    if "\<And>l. l \<in> set xs \<Longrightarrow> l \<le> BZ2_MAX_LEN" "length b = BZ2_MAX_LEN + 1" "i \<le> BZ2_MAX_LEN" for xs and b :: "int list"
    using that by (induction xs arbitrary: b) (auto simp: nth_list_update)
  then show "i \<le> BZ2_MAX_LEN \<Longrightarrow> base_counts lens ! i = (if i = 0 then 0 else int (count_list lens (i - 1)))"
    using assms unfolding base_counts_def by (simp add: less_Suc_eq_le del: replicate.simps)
qed

lemma prefix_sums:
  assumes "n \<le> length (b :: 'a::comm_monoid_add list)"
  shows "length (fold (\<lambda>i b. b[i := b ! i + b ! (i - 1)]) [1..<n] b) = length b \<and>
    (\<forall>i < length b. fold (\<lambda>i b. b[i := b ! i + b ! (i - 1)]) [1..<n] b ! i = (if i < n then \<Sum>j\<le>i. b ! j else b ! i))"
  using assms
proof (induction n)
  case (Suc n)
  show ?case
  proof (cases "n = 0")
    case False
    define c where "c = fold (\<lambda>i b. b[i := b ! i + b ! (i - 1)]) [1..<n] b"
    have c: "length c = length b" "\<And>i. i < length b \<Longrightarrow> c ! i = (if i < n then \<Sum>j\<le>i. b ! j else b ! i)"
      using Suc by (simp_all add: c_def)
    have "fold (\<lambda>i b. b[i := b ! i + b ! (i - 1)]) [1..<Suc n] b = c[n := c ! n + c ! (n - 1)]"
      using False by (simp add: c_def)
    moreover have "c ! n + c ! (n - 1) = (\<Sum>j\<le>n. b ! j)"
      using c(2) [of n] c(2) [of "n - 1"] Suc.prems False by (cases n) (auto simp: add.commute)
    ultimately show ?thesis using c Suc.prems by (auto simp: nth_list_update less_Suc_eq)
  qed (use Suc.prems in auto)
qed simp

lemma base_sums_nth:
  assumes "\<And>l. l \<in> set lens \<Longrightarrow> l \<le> BZ2_MAX_LEN"
  shows "length (base_sums (base_counts lens)) = BZ2_MAX_LEN + 1"
    and "l \<le> BZ2_MAX_LEN \<Longrightarrow> base_sums (base_counts lens) ! l = int (shorter lens l)"
proof -
  note c = base_counts_nth [OF assms]
  note p = prefix_sums [of "BZ2_MAX_LEN + 1" "base_counts lens"]
  show "length (base_sums (base_counts lens)) = BZ2_MAX_LEN + 1"
    using p c(1) by (simp add: base_sums_def del: upt_Suc)
  have "(\<Sum>j\<le>l. base_counts lens ! j) = int (shorter lens l)" if "l \<le> BZ2_MAX_LEN" for l
    using that by (induction l) (simp_all add: c(2) shorter_def)
  then show "l \<le> BZ2_MAX_LEN \<Longrightarrow> base_sums (base_counts lens) ! l = int (shorter lens l)"
    using p c(1) by (simp add: base_sums_def less_Suc_eq_le del: upt_Suc)
qed

lemma bases_nth:
  assumes "bz2_lengths lens" and "min_len = Min (set lens)" and "max_len = Max (set lens)"
    and "limit = h_limits (length_counts lens) min_len max_len"
  shows "length (bases lens limit min_len max_len) = BZ2_MAX_LEN + 1"
    and "min_len \<le> l \<Longrightarrow> l \<le> max_len \<Longrightarrow>
      bases lens limit min_len max_len ! l = int (first_code lens l) - int (shorter lens l)"
proof -
  have in_set: "Max (set lens) \<in> set lens" "Min (set lens) \<in> set lens" using assms(1) by (simp_all add: bz2_lengths_def)
  have le: "min_len \<le> x" "x \<le> max_len" "x \<le> BZ2_MAX_LEN" "0 < x" if "x \<in> set lens" for x
    using that assms(1-3) by (simp_all add: bz2_lengths_def)
  then have max: "min_len \<le> max_len" "max_len \<le> BZ2_MAX_LEN" "0 < min_len" using in_set assms(2,3) by simp_all
  note sums = base_sums_nth [of lens, OF le(3)]
  let ?f = "\<lambda>l b. b[l := (limit ! (l - 1) + 1) * 2 - b ! l]"
  have fold: "length (fold ?f [m..<n] b) = length b \<and>
      (\<forall>l < length b. fold ?f [m..<n] b ! l = (if m \<le> l \<and> l < n then (limit ! (l - 1) + 1) * 2 - b ! l else b ! l))"
    if "m \<le> n" "n \<le> length b" for m n and b :: "int list"
    using that
  proof (induction n rule: dec_induct)
    case (step n)
    then show ?case by (auto simp: nth_list_update less_Suc_eq)
  qed auto
  have f: "length (bases lens limit min_len max_len) = BZ2_MAX_LEN + 1"
    "l \<le> BZ2_MAX_LEN \<Longrightarrow> bases lens limit min_len max_len ! l = (if min_len + 1 \<le> l \<and> l < max_len + 1
      then (limit ! (l - 1) + 1) * 2 - int (shorter lens l) else int (shorter lens l))" for l
    using fold [of "min_len + 1" "max_len + 1" "base_sums (base_counts lens)"] sums max
    by (simp_all add: bases_def less_Suc_eq_le del: upt_Suc)
  show "length (bases lens limit min_len max_len) = BZ2_MAX_LEN + 1" by (rule f)
  show "bases lens limit min_len max_len ! l = int (first_code lens l) - int (shorter lens l)"
    if l: "min_len \<le> l" "l \<le> max_len"
  proof (cases "l = min_len")
    case True
    then show ?thesis using f(2) [of l] l max sum_count_outside [of lens min_len] first_code_below [of lens min_len min_len] le(1) by simp
  next
    case False
    then obtain k where k: "l = Suc k" "min_len \<le> k" using l by (cases l) auto
    then show ?thesis
      using f(2) [of l] l max h_limits_nth(2) [OF assms(1-3), of k] assms(4) by simp
  qed
qed

section \<open>The builder accepts the lengths of a prefix code\<close>

definition table_ok :: "nat list \<Rightarrow> huffman \<Rightarrow> bool" where
  "table_ok lens h \<longleftrightarrow> h_min h = Min (set lens) \<and> h_max h = Max (set lens) \<and>
     length (h_limit h) = BZ2_MAX_LEN + 1 \<and>
     (\<forall>l. h_min h \<le> l \<and> l \<le> h_max h \<longrightarrow>
        h_limit h ! l = int (first_code lens l + codes_of_length lens l) - 1 \<and>
        h_base h ! l = int (first_code lens l) - int (shorter lens l)) \<and>
     (\<forall>l r. r < count_list lens l \<longrightarrow> shorter lens l + r < length (h_symbols h) \<and>
        h_symbols h ! (shorter lens l + r) = symbols_of_length lens l ! r) \<and>
     lut_ok lens (length lens) (h_lut h)"

lemma not_oversubscribed_up_to:
  assumes "bz2_lengths lens" and "\<And>l. 0 < l \<Longrightarrow> l \<le> BZ2_MAX_LEN \<Longrightarrow> first_code lens l + codes_of_length lens l \<le> 2 ^ l"
  shows "not_oversubscribed lens"
proof -
  have "first_code lens l + codes_of_length lens l \<le> 2 ^ l" for l
  proof (induction l)
    case (Suc l)
    show ?case
    proof (cases "Suc l \<le> BZ2_MAX_LEN")
      case False
      then have "codes_of_length lens (Suc l) = 0"
        using assms(1) by (fastforce simp: codes_of_length_def bz2_lengths_def count_list_0_iff)
      then show ?thesis using Suc by simp
    qed (use assms(2) [of "Suc l"] in blast)
  qed (simp add: codes_of_length_def)
  then show ?thesis by (simp add: not_oversubscribed_def)
qed

lemma has_code_lengths: "bz2_lengths lens \<Longrightarrow> s < length lens \<Longrightarrow> has_code lens s"
  by (simp add: bz2_lengths_def has_code_def)

lemma h_build_result:
  "if bz2_lengths lens \<and> not_oversubscribed lens then \<exists>h. h_build lens off = Inr h \<and> table_ok lens h
   else h_build lens off = Inl (Decode off InvalidHuffman)"
proof (cases "bz2_lengths lens")
  case False
  then show ?thesis
    using bz2_lengths_iff [of lens] by (cases "lens = []") (auto simp: h_build_def decode_error_at_def Let_def)
next
  case True
  let ?min = "Min (set lens)" and ?max = "Max (set lens)" and ?counts = "length_counts lens"
  have ne: "lens \<noteq> []" using True by (simp add: bz2_lengths_def)
  have lengths: "\<not> (?min = 0 \<or> ?max > BZ2_MAX_LEN)" using True bz2_lengths_iff [OF ne] by blast
  note codes = next_codes_result [of ?counts lens 0 "replicate (BZ2_MAX_LEN + 1) 0", OF length_counts_nth [OF True] le0]
  show ?thesis
  proof (cases "next_codes ?counts 0 (replicate (BZ2_MAX_LEN + 1) 0) [1..<BZ2_MAX_LEN + 1]")
    case None
    then have "\<not> not_oversubscribed lens" using codes by (auto simp: not_oversubscribed_def not_le simp del: replicate.simps upt_Suc)
    then show ?thesis using None ne lengths by (simp add: h_build_def Let_def decode_error_at_def del: replicate.simps upt_Suc)
  next
    case (Some starts)
    then have st: "\<And>l. 0 < l \<Longrightarrow> l \<le> BZ2_MAX_LEN \<Longrightarrow> first_code lens l + codes_of_length lens l \<le> 2 ^ l"
      "length starts = BZ2_MAX_LEN + 1" "\<And>l. 0 < l \<Longrightarrow> l \<le> BZ2_MAX_LEN \<Longrightarrow> starts ! l = first_code lens l"
      using codes by (simp_all del: replicate.simps upt_Suc)
    then have kraft: "not_oversubscribed lens" using not_oversubscribed_up_to [OF True] by blast
    have "lut_ok lens 0 (replicate (2 ^ LUT_BITS) 0)" by (simp add: lut_ok_def)
    then obtain lut where lut: "fill_lut (enumerate 0 lens) starts (replicate (2 ^ LUT_BITS) 0) = Inr lut"
      "lut_ok lens (length lens) lut"
      using fill_lut_ok [of lens starts 0 "replicate (2 ^ LUT_BITS) 0"] has_code_lengths [OF True] kraft st True
      by (auto simp: bz2_lengths_def less_Suc_eq_le)
    define h where "h = \<lparr>h_min = ?min, h_max = ?max, h_limit = h_limits ?counts ?min ?max,
      h_base = bases lens (h_limits ?counts ?min ?max) ?min ?max, h_symbols = sorted_symbols lens ?min ?max, h_lut = lut\<rparr>"
    have build: "h_build lens off = Inr h"
      using Some ne lengths lut(1) by (simp add: h_build_def Let_def h_def del: replicate.simps upt_Suc)
    have symbols: "sorted_symbols lens ?min ?max = concat (map (symbols_of_length lens) [?min..<?max + 1])"
      by (simp add: sorted_symbols_def enumerate_filter)
    have "?min \<le> l \<and> l < ?max + 1" if "r < count_list lens l" for l r
    proof -
      have "l \<in> set lens" using that by (metis count_list_0_iff not_less0)
      then show ?thesis using ne by (simp add: less_Suc_eq_le)
    qed
    then have "\<forall>l r. r < count_list lens l \<longrightarrow> shorter lens l + r < length (sorted_symbols lens ?min ?max) \<and>
        sorted_symbols lens ?min ?max ! (shorter lens l + r) = symbols_of_length lens l ! r"
      using concat_symbols_nth [of lens ?min _ "?max + 1"] unfolding symbols by (simp del: upt_Suc)
    then have "table_ok lens h"
      using h_limits_nth [OF True refl refl] bases_nth [OF True refl refl refl] lut(2)
      by (simp add: table_ok_def h_def)
    then show ?thesis using build True kraft by simp
  qed
qed

section \<open>Decoding follows the code\<close>

lemma bits_at_eq_iff:
  assumes "v < 2 ^ n" and "0 < n"
  shows "take n (drop pos (bits_of data)) = to_bits n v \<longleftrightarrow> pos + n \<le> 8 * length data \<and> bits_at data pos n = v"
  (is "?l \<longleftrightarrow> ?r")
proof
  assume l: ?l
  then have "length (take n (drop pos (bits_of data))) = n" by simp
  then have "n \<le> 8 * length data - pos" by simp
  moreover have "bits_at data pos n = v" using l assms by (simp add: bits_at_def bits_val_to_bits)
  ultimately show ?r
    using assms(2) by (cases "pos \<le> 8 * length data") auto
next
  assume r: ?r
  then have "pos + n \<le> 8 * length data" by simp
  then have "n \<le> 8 * length data - pos" by linarith
  then have "length (take n (drop pos (bits_of data))) = n" by simp
  then show ?l using to_bits_bits_val [of "take n (drop pos (bits_of data))"] r by (simp add: bits_at_def)
qed

text \<open>\<open>code_at lens data pos s\<close>: the input continues with the code word of \<open>s\<close> at \<open>pos\<close>.\<close>

definition code_at :: "nat list \<Rightarrow> bytes \<Rightarrow> nat \<Rightarrow> nat \<Rightarrow> bool" where
  "code_at lens data pos s \<longleftrightarrow> starts_with_code lens (drop pos (bits_of data)) s"

lemma code_at_iff:
  assumes "not_oversubscribed lens" and "has_code lens s"
  shows "code_at lens data pos s \<longleftrightarrow> pos + lens ! s \<le> 8 * length data \<and> bits_at data pos (lens ! s) = code_of lens s"
  using assms bits_at_eq_iff [OF code_of_less [OF assms]]
  by (simp add: has_code_def code_at_def starts_with_code_def code_word_def)

lemma code_at_unique: "not_oversubscribed lens \<Longrightarrow> code_at lens data pos s \<Longrightarrow> code_at lens data pos t \<Longrightarrow> s = t"
  unfolding code_at_def by (rule starts_with_code_unique)

lemma code_at_has_code: "code_at lens data pos s \<Longrightarrow> has_code lens s"
  by (simp add: code_at_def starts_with_code_def)

lemma code_at_longer:
  assumes "not_oversubscribed lens" and "code_at lens data pos s" and "l < lens ! s"
  shows "first_code lens l + codes_of_length lens l \<le> bits_at data pos l"
proof -
  define k where "k = lens ! s - l"
  have k: "lens ! s = l + k" "k \<noteq> 0" using assms(3) by (simp_all add: k_def)
  have c: "has_code lens s" by (rule code_at_has_code [OF assms(2)])
  have "(first_code lens l + codes_of_length lens l) * 2 ^ k \<le> code_of lens s"
    using first_code_grows [of lens l k] k by (simp add: code_of_def)
  also have "code_of lens s = bits_at data pos l * 2 ^ k + bits_at data (pos + l) k"
    using assms(2) bits_at_append [of pos l k data] k unfolding code_at_iff [OF assms(1) c] by (simp add: add.assoc)
  also have "\<dots> < Suc (bits_at data pos l) * 2 ^ k" using bits_at_less [of data "pos + l" k] by simp
  finally show ?thesis by (simp only: mult_less_cancel2 less_Suc_eq_le)
qed

lemma code_at_length:
  assumes "not_oversubscribed lens" and "code_at lens data pos s"
  shows "bits_at data pos (lens ! s) < first_code lens (lens ! s) + codes_of_length lens (lens ! s)"
  using assms code_at_iff [OF assms(1) code_at_has_code [OF assms(2)], of data pos] rank_less_codes [OF code_at_has_code [OF assms(2)]]
  by (simp add: code_of_def)

lemma uint_word_of_nat: "n < 2 ^ LENGTH('a) \<Longrightarrow> uint (word_of_nat n :: 'a::len word) = int n"
  by (simp add: unsigned_of_nat take_bit_int_eq_self_iff take_bit_nat_eq_self flip: of_nat_take_bit)

lemma h_search_result:
  assumes "length data < 2 ^ 60" and lens: "bz2_lengths lens" and kraft: "not_oversubscribed lens" and h: "table_ok lens h"
    and "h_min h \<le> l" and "l \<le> h_max h" and "pos + l \<le> 8 * length data"
    and "first_code lens l \<le> bits_at data pos l"
  shows "h_search h data (pos + l) l (int (bits_at data pos l)) = Inr (s, q) \<longleftrightarrow>
    code_at lens data pos s \<and> l \<le> lens ! s \<and> q = pos + lens ! s"
  using assms(5-)
proof (induction "h_max h - l" arbitrary: l rule: less_induct)
  case less
  let ?b = "bits_at data pos l"
  have max: "h_max h \<le> BZ2_MAX_LEN" and min: "0 < h_min h"
    using lens h by (auto simp: bz2_lengths_def table_ok_def)
  then have l: "0 < l" "l \<le> BZ2_MAX_LEN" "l < length (h_limit h)" using less.prems h by (simp_all add: table_ok_def)
  have limit: "h_limit h ! l = int (first_code lens l + codes_of_length lens l) - 1"
    and base: "h_base h ! l = int (first_code lens l) - int (shorter lens l)"
    using h less.prems by (simp_all add: table_ok_def)
  show ?case
  proof (cases "?b < first_code lens l + codes_of_length lens l")
    case True
    define r where "r = ?b - first_code lens l"
    then have r: "?b = first_code lens l + r" "r < count_list lens l"
      using True less.prems(4) l by (simp_all add: codes_of_length_def)
    define t where "t = symbols_of_length lens l ! r"
    note sym = rank_symbols [OF r(2), folded t_def]
    have t: "has_code lens t" "lens ! t = l" "code_of lens t = ?b"
      using sym l r by (simp_all add: has_code_def code_of_def)
    then have at: "code_at lens data pos t" using code_at_iff [OF kraft t(1)] less.prems(3) by simp
    have i: "nat (int ?b - h_base h ! l) = shorter lens l + r" "int ?b - h_base h ! l \<ge> 0" using base r(1) by simp_all
    have sym_t: "shorter lens l + r < length (h_symbols h)" "h_symbols h ! (shorter lens l + r) = t"
      using h r(2) by (simp_all add: table_ok_def t_def)
    have le: "int ?b \<le> h_limit h ! l" using limit True by simp
    have "h_search h data (pos + l) l (int ?b) = Inr (t, pos + l)"
      by (subst h_search.simps) (simp only: Let_def l le i sym_t if_True simp_thms)
    then show ?thesis using at t code_at_unique [OF kraft at, of s] by auto
  next
    case False
    then have gt: "\<not> int ?b \<le> h_limit h ! l" using limit by simp
    have longer: "l \<noteq> lens ! s" if "code_at lens data pos s" for s
      using code_at_length [OF kraft that] False by auto
    have within: "lens ! s \<le> h_max h" if "code_at lens data pos s" for s
      using code_at_has_code [OF that] h by (simp add: has_code_def table_ok_def)
    show ?thesis
    proof (cases "l = h_max h")
      case True
      then have "h_search h data (pos + l) l (int ?b) = Inl (decode_error_at (pos + l) InvalidHuffman)"
        using l gt by (subst h_search.simps) simp
      then show ?thesis using longer [of s] within [of s] True by auto
    next
      case nmax: False
      show ?thesis
      proof (cases "pos + l < 8 * length data")
        case True
        let ?b' = "bits_at data pos (l + 1)"
        have next_bit: "?b' = ?b * 2 + bits_at data (pos + l) 1"
          using bits_at_append [of pos l 1 data] True by simp
        have one: "bits_at data (pos + l) 1 < 2" using bits_at_less [of data "pos + l" 1] by simp
        then have "uint (word_of_nat (bits_at data (pos + l) 1) :: u32) = int (bits_at data (pos + l) 1)"
          by (simp add: uint_word_of_nat)
        then have "h_search h data (pos + l) l (int ?b) = h_search h data (pos + (l + 1)) (l + 1) (int ?b')"
          using l gt nmax True assms(1) next_bit
          by (subst h_search.simps) (simp add: bits_read_result add.assoc)
        also have "\<dots> = Inr (s, q) \<longleftrightarrow> code_at lens data pos s \<and> l + 1 \<le> lens ! s \<and> q = pos + lens ! s"
          using less.prems nmax True False next_bit by (intro less.hyps) simp_all
        finally show ?thesis using longer [of s] by auto
      next
        case False
        then have "h_search h data (pos + l) l (int ?b) = Inl (Decode (pos + l) Truncated)"
          using l gt nmax assms(1) by (subst h_search.simps) (simp add: bits_read_result)
        moreover have "lens ! s \<le> l" if "code_at lens data pos s"
          using that False code_at_iff [OF kraft code_at_has_code [OF that]] by simp
        ultimately show ?thesis using longer [of s] by auto
      qed
    qed
  qed
qed

lemma lut_entry_fields:
  assumes "l < 256" and "symbol < 2 ^ 16"
  shows "unat (ucast (drop_bit 16 (lut_entry l symbol)) :: byte) = l" and "unat (lut_entry l symbol AND 0xffff) = symbol"
proof -
  have l: "unat (push_bit 16 (word_of_nat l :: u32)) = l * 2 ^ 16"
    using assms(1) by (subst unat_push_bit_small) (simp_all add: unat_of_nat)
  have s: "unat (word_of_nat symbol :: u32) = symbol" using assms(2) by (simp add: unat_of_nat)
  have e: "unat (lut_entry l symbol) = l * 2 ^ 16 + symbol"
  proof -
    have "take_bit 16 symbol = symbol" using assms(2) by (simp add: take_bit_nat_eq_self)
    then have low: "bit symbol n \<Longrightarrow> n < 16" for n by (metis bit_take_bit_iff)
    have "push_bit 16 l + symbol = push_bit 16 l OR symbol"
    proof (rule disjunctive_add)
      fix n show "\<not> bit (push_bit 16 l) n \<or> \<not> bit symbol n" by (simp only: bit_push_bit_iff) (use low [of n] in auto)
    qed
    then show ?thesis unfolding lut_entry_def unsigned_or_eq l s by (simp add: push_bit_eq_mult)
  qed
  have "unat (ucast (drop_bit 16 (lut_entry l symbol)) :: byte) = drop_bit 16 (unat (lut_entry l symbol)) mod 2 ^ 8"
    by (simp only: unsigned_ucast_eq unat_drop_bit_eq take_bit_eq_mod) simp
  then show "unat (ucast (drop_bit 16 (lut_entry l symbol)) :: byte) = l"
    unfolding e using assms by (simp add: drop_bit_eq_div)
  have "lut_entry l symbol AND 0xffff = lut_entry l symbol AND (push_bit 16 1 - 1)" by simp
  then show "unat (lut_entry l symbol AND 0xffff) = symbol"
    using assms(2) by (simp only: unat_mask_and e) simp
qed

lemma h_decode_result:
  assumes len: "length data < 2 ^ 60" and lens: "bz2_lengths lens" and kraft: "not_oversubscribed lens" and h: "table_ok lens h"
    and small: "length lens \<le> 2 ^ 16" and pos: "pos \<le> 8 * length data"
  shows "h_decode h data pos = Inr (s, q) \<longleftrightarrow> code_at lens data pos s \<and> q = pos + lens ! s"
proof -
  have max: "h_max h \<le> BZ2_MAX_LEN" and min: "0 < h_min h" "h_min h \<le> h_max h"
    using lens h Max_in [of "set lens"] by (auto simp: bz2_lengths_def table_ok_def)
  have min_le: "h_min h \<le> lens ! s" if "code_at lens data pos s" for s
    using code_at_has_code [OF that] h by (simp add: has_code_def table_ok_def)
  have slow: "and_then (bits_read data pos (h_min h)) (\<lambda>r. h_search h data (snd r) (h_min h) (uint (fst r))) = Inr (s, q) \<longleftrightarrow>
      code_at lens data pos s \<and> q = pos + lens ! s"
  proof (cases "pos + h_min h \<le> 8 * length data")
    case True
    let ?b = "bits_at data pos (h_min h)"
    have "?b < 2 ^ h_min h" by (rule bits_at_less)
    also have "(2 :: nat) ^ h_min h \<le> 2 ^ 32" using max min by (intro power_increasing) (simp_all add: BZ2_MAX_LEN_def)
    finally have "uint (word_of_nat ?b :: u32) = int ?b" by (simp add: uint_word_of_nat)
    moreover have "h_min h \<le> 32" using max min by (simp add: BZ2_MAX_LEN_def)
    ultimately have "and_then (bits_read data pos (h_min h)) (\<lambda>r. h_search h data (snd r) (h_min h) (uint (fst r))) =
        h_search h data (pos + h_min h) (h_min h) (int ?b)"
      using True len min by (simp add: bits_read_result)
    moreover have "first_code lens (h_min h) \<le> ?b"
      using first_code_below [of lens "h_min h" "h_min h"] h by (simp add: table_ok_def)
    ultimately show ?thesis
      using h_search_result [OF len lens kraft h order_refl min(2) True] min_le by auto
  next
    case False
    have "h_min h \<le> 32" using max min by (simp add: BZ2_MAX_LEN_def)
    then have "bits_read data pos (h_min h) = Inl (Decode pos Truncated)"
      using False len min by (simp add: bits_read_result)
    moreover have "\<not> code_at lens data pos s"
    proof
      assume at: "code_at lens data pos s"
      then show False
        using min_le [OF at] False code_at_iff [OF kraft code_at_has_code [OF at]] by simp
    qed
    ultimately show ?thesis by simp
  qed
  show ?thesis
  proof (cases "pos + LUT_BITS \<le> 8 * length data")
    case False
    then have "\<not> bits_remaining data pos \<ge> LUT_BITS"
      using len pos by (simp add: bits_remaining_def LUT_BITS_def)
    then show ?thesis using slow by (simp add: h_decode_def)
  next
    case True
    let ?v = "bits_at data pos LUT_BITS"
    have v: "?v < 2 ^ LUT_BITS" by (rule bits_at_less)
    then have uv: "unat (word_of_nat ?v :: u32) = ?v" by (simp add: unat_of_nat LUT_BITS_def)
    have lut: "lut_ok lens (length lens) (h_lut h)" using h by (simp add: table_ok_def)
    have peek: "bits_peek data pos LUT_BITS = Inr (word_of_nat ?v)"
      using len True by (intro bits_peek_spec) (simp_all add: LUT_BITS_def)
    have entry: "index (h_lut h) (unat (word_of_nat ?v :: u32)) = Inr (h_lut h ! ?v)"
      using lut v uv by (simp add: lut_ok_def)
    have remaining: "bits_remaining data pos \<ge> LUT_BITS" using len True by (simp add: bits_remaining_def LUT_BITS_def)
    have covers: "covers lens s ?v \<longleftrightarrow> code_at lens data pos s" if s: "s < length lens" "lens ! s \<le> LUT_BITS" for s
    proof -
      have c: "has_code lens s" by (rule has_code_lengths [OF lens s(1)])
      have "?v = bits_at data pos (lens ! s) * 2 ^ (LUT_BITS - lens ! s) + bits_at data (pos + lens ! s) (LUT_BITS - lens ! s)"
        using bits_at_append [of pos "lens ! s" "LUT_BITS - lens ! s" data] s True by simp
      then have "?v div 2 ^ (LUT_BITS - lens ! s) = bits_at data pos (lens ! s)"
        using bits_at_less [of data "pos + lens ! s" "LUT_BITS - lens ! s"] by simp
      then show ?thesis using s True unfolding code_at_iff [OF kraft c] by (simp add: covers_def)
    qed
    show ?thesis
    proof (cases "\<exists>t<length lens. covers lens t ?v")
      case hit: True
      then obtain t where t: "t < length lens" "covers lens t ?v" by blast
      have fits: "lens ! t < 256" "t < 2 ^ 16" "0 < lens ! t" "lens ! t \<le> LUT_BITS"
        using t lens small by (auto simp: covers_def LUT_BITS_def bz2_lengths_def)
      have "h_lut h ! ?v = lut_entry (lens ! t) t" using lut t v by (simp add: lut_ok_def)
      then have "h_decode h data pos = Inr (t, pos + lens ! t)"
        using lut_entry_fields [OF fits(1,2)] fits(3) remaining peek entry
        by (simp only: h_decode_def Let_def if_True and_then.simps option.case simp_thms neq0_conv [symmetric])
      moreover have "code_at lens data pos t" using covers t fits by blast
      ultimately show ?thesis using code_at_unique [OF kraft, of data pos t s] by auto
    next
      case miss: False
      then have "h_lut h ! ?v = 0" using lut v by (simp add: lut_ok_def)
      then have "h_decode h data pos =
          and_then (bits_read data pos (h_min h)) (\<lambda>r. h_search h data (snd r) (h_min h) (uint (fst r)))"
        using remaining peek entry by (simp add: h_decode_def)
      then show ?thesis using slow by simp
    qed
  qed
qed

section \<open>Properties\<close>

text \<open>C27. The builder accepts a list of code lengths exactly when it is non-empty, every length is between
  1 and 20 and the code is not oversubscribed; otherwise it reports an invalid Huffman table at the
  given bit offset. It never panics while filling the lookup table.\<close>

theorem h_build_accepts:
  "case h_build lens off of
     Inr h \<Rightarrow> bz2_lengths lens \<and> not_oversubscribed lens
   | Inl e \<Rightarrow> e = Decode off InvalidHuffman \<and> \<not> (bz2_lengths lens \<and> not_oversubscribed lens)"
  using h_build_result [of lens off] by (auto split: if_splits)

text \<open>C26. Decoding with a built table returns symbol \<open>s\<close> exactly when the input continues with the canonical
  code word of \<open>s\<close>, and then consumes exactly that word, whether the lookup table or the limit search
  answers and however close the end of the input is.\<close>

theorem h_decode_canonical:
  assumes "h_build lens off = Inr h" and "length lens \<le> 2 ^ 16"
    and "length data < 2 ^ 60" and "pos \<le> 8 * length data"
  shows "h_decode h data pos = Inr (s, q) \<longleftrightarrow>
    starts_with_code lens (drop pos (bits_of data)) s \<and> q = pos + lens ! s"
proof -
  have "bz2_lengths lens \<and> not_oversubscribed lens \<and> table_ok lens h"
    using assms(1) h_build_result [of lens off] by (auto split: if_splits)
  then show ?thesis using h_decode_result [of data lens h pos s q] assms(2-) by (simp add: code_at_def)
qed

lemma six_symbols: "bz2_lengths [2, 2, 3, 3, 3, 3] \<and> not_oversubscribed [2, 2, 3, 3, 3, 3]"
proof -
  have "not_oversubscribed [2, 2, 3, 3, 3, 3]"
    by (rule kraft_not_oversubscribed [where limit = 3]) (auto simp: lessThan_Suc numeral_eq_Suc nth_Cons less_Suc_eq)
  then show ?thesis by (simp add: bz2_lengths_def BZ2_MAX_LEN_def)
qed

theorem h_decode_canonical_witness:
  "\<exists>h. h_build [2, 2, 3, 3, 3, 3] 0 = Inr h \<and> h_decode h [0x19, 0x77] 4 = Inr (2, 7)"
proof -
  obtain h where h: "h_build [2, 2, 3, 3, 3, 3] 0 = Inr h"
    using six_symbols h_build_result [of "[2, 2, 3, 3, 3, 3]" 0] by auto
  have "starts_with_code [2, 2, 3, 3, 3, 3] (drop 4 (bits_of [0x19, 0x77])) 2"
  proof -
    have "byte_bits 0x19 = [False, False, False, True, True, False, False, True]"
      by code_simp
    moreover have "code_word [2, 2, 3, 3, 3, 3] 2 = [True, False, False]"
    proof -
      have "code_of [2, 2, 3, 3, 3, 3] 2 = 4"
        by (simp add: code_of_def rank_def codes_of_length_def eval_nat_numeral)
      moreover have "to_bits 3 4 = [True, False, False]" by code_simp
      ultimately show ?thesis by (simp add: code_word_def eval_nat_numeral)
    qed
    ultimately show ?thesis by (simp add: starts_with_code_def has_code_def eval_nat_numeral)
  qed
  then have "h_decode h [0x19, 0x77] 4 = Inr (2, 7)"
    using h_decode_canonical [OF h, of "[0x19, 0x77]" 4 2 7] by simp
  then show ?thesis using h by blast
qed

end
