(* ===== verification/Bz2_Decoder.thy ===== *)
theory Bz2_Decoder
  imports Bz2_Huffman Crc Options
begin

text \<open>
  \<open>Decoder::block\<close> and the entry points of \<open>src/decoder.rs\<close>: the block header (checksum, origin,
  symbol map, selectors, code tables), the symbol loop that undoes the zero runs and the
  move-to-front, the linking of the columns, and the walk that undoes the block sort and the first
  run-length stage. Every stage reads at a bit position it takes and returns.
\<close>

definition GROUP_SIZE :: nat where "GROUP_SIZE = 50"

section \<open>Header\<close>

definition map_bit :: "u32 \<Rightarrow> nat \<Rightarrow> bool" where
  "map_bit groups i \<longleftrightarrow> groups AND push_bit (15 - i) 1 \<noteq> 0"

fun read_groups :: "bytes \<Rightarrow> u32 \<Rightarrow> nat list \<Rightarrow> bool list \<Rightarrow> nat \<Rightarrow> error + bool list \<times> nat" where
  "read_groups data groups [] used pos = Inr (used, pos)"
| "read_groups data groups (g # gs) used pos =
     (if map_bit groups g
      then and_then (bits_read data pos 16) (\<lambda>r.
        read_groups data groups gs (fold (\<lambda>v used. used[g * 16 + v := map_bit (fst r) v]) [0..<16] used) (snd r))
      else read_groups data groups gs used pos)"

definition alphabet_of :: "bool list \<Rightarrow> bytes" where
  "alphabet_of used = map word_of_nat (filter (\<lambda>v. used ! v) [0..<256])"

definition move_front :: "'a list \<Rightarrow> nat \<Rightarrow> 'a list" where
  "move_front xs i = xs ! i # take i xs @ drop (i + 1) xs"

lemma bits_read_advances: "bits_read data pos (Suc n) = Inr r \<Longrightarrow> bits_remaining data (snd r) < bits_remaining data pos"
  by (auto simp: bits_read_def bits_peek_def bits_remaining_def and_then_Inr_iff split: if_splits)

lemma bits_bit_advances: "bits_bit data pos = Inr r \<Longrightarrow> bits_remaining data (snd r) < bits_remaining data pos"
  using bits_read_advances [of data pos 0] by (auto simp: bits_bit_def and_then_Inr_iff)

function read_unary :: "bytes \<Rightarrow> nat \<Rightarrow> nat \<Rightarrow> nat \<Rightarrow> error + nat \<times> nat" where
  "read_unary data pos i table_count =
     and_then (bits_bit data pos) (\<lambda>r.
       if fst r
       then (if i + 1 \<ge> table_count then Inl (decode_error_at (snd r) InvalidBlock)
             else read_unary data (snd r) (i + 1) table_count)
       else Inr (i, snd r))"
  by pat_completeness auto
termination
  by (relation "measure (\<lambda>(data, pos, _). bits_remaining data pos)") (auto dest: bits_bit_advances)

declare read_unary.simps [simp del]

fun read_selectors :: "bytes \<Rightarrow> nat \<Rightarrow> nat list \<Rightarrow> nat \<Rightarrow> nat list \<Rightarrow> nat \<Rightarrow> error + nat list \<times> nat" where
  "read_selectors data table_count mtf 0 selectors pos = Inr (selectors, pos)"
| "read_selectors data table_count mtf (Suc n) selectors pos =
     and_then (read_unary data pos 0 table_count) (\<lambda>r.
     and_then (index mtf (fst r)) (\<lambda>selected.
     read_selectors data table_count (move_front mtf (fst r)) n (selectors @ [selected]) (snd r)))"

function read_delta :: "bytes \<Rightarrow> nat \<Rightarrow> int \<Rightarrow> error + int \<times> nat" where
  "read_delta data pos current =
     (if \<not> (1 \<le> current \<and> current \<le> int BZ2_MAX_LEN) then Inl (decode_error_at pos InvalidHuffman)
      else and_then (bits_bit data pos) (\<lambda>r.
        if \<not> fst r then Inr (current, snd r)
        else and_then (bits_bit data (snd r)) (\<lambda>r.
          read_delta data (snd r) (current + (if fst r then - 1 else 1)))))"
  by pat_completeness auto
termination
  by (relation "measure (\<lambda>(data, pos, _). bits_remaining data pos)") (auto dest!: bits_bit_advances)

declare read_delta.simps [simp del]

fun read_lengths :: "bytes \<Rightarrow> nat \<Rightarrow> int \<Rightarrow> nat list \<Rightarrow> nat \<Rightarrow> error + nat list \<times> nat" where
  "read_lengths data 0 current lengths pos = Inr (lengths, pos)"
| "read_lengths data (Suc n) current lengths pos =
     and_then (read_delta data pos current) (\<lambda>r.
     read_lengths data n (fst r) (lengths @ [nat (fst r)]) (snd r))"

fun read_tables :: "bytes \<Rightarrow> nat \<Rightarrow> nat \<Rightarrow> huffman list \<Rightarrow> nat \<Rightarrow> error + huffman list \<times> nat" where
  "read_tables data alpha_size 0 tables pos = Inr (tables, pos)"
| "read_tables data alpha_size (Suc n) tables pos =
     and_then (bits_read data pos 5) (\<lambda>r.
     and_then (read_lengths data alpha_size (uint (fst r)) [] (snd r)) (\<lambda>r.
     and_then (h_build (fst r) (snd r)) (\<lambda>table.
     read_tables data alpha_size n (tables @ [table]) (snd r))))"

record block_header =
  bh_crc :: u32
  bh_origin :: nat
  bh_alphabet :: bytes
  bh_selectors :: "nat list"
  bh_tables :: "huffman list"

definition read_header :: "bytes \<Rightarrow> nat \<Rightarrow> u32 option \<Rightarrow> error + block_header \<times> nat" where
  "read_header data pos expected_crc =
     (let block_offset = pos - 48 in
      and_then (bits_read data pos 32) (\<lambda>r. let stored_crc = fst r in
      if (case expected_crc of Some c \<Rightarrow> c \<noteq> stored_crc | None \<Rightarrow> False)
      then Inl (decode_error_at block_offset InvalidBlock)
      else and_then (bits_bit data (snd r)) (\<lambda>r.
      if fst r then Inl (decode_error_at block_offset RandomizedBlock)
      else and_then (bits_read data (snd r) 24) (\<lambda>r. let origin = unat (fst r) in
      and_then (bits_read data (snd r) 16) (\<lambda>r.
      and_then (read_groups data (fst r) [0..<16] (replicate 256 False) (snd r)) (\<lambda>r.
      let alphabet = alphabet_of (fst r) in
      if alphabet = [] then Inl (decode_error_at block_offset InvalidBlock)
      else and_then (bits_read data (snd r) 3) (\<lambda>r. let table_count = unat (fst r) in
      if \<not> (2 \<le> table_count \<and> table_count \<le> 6) then Inl (decode_error_at (snd r) InvalidHuffman)
      else and_then (bits_read data (snd r) 15) (\<lambda>r. let selector_count = unat (fst r) in
      if selector_count = 0 then Inl (decode_error_at (snd r) InvalidBlock)
      else and_then (read_selectors data table_count [0..<table_count] selector_count [] (snd r)) (\<lambda>r.
      let selectors = fst r in
      and_then (read_tables data (length alphabet + 2) table_count [] (snd r)) (\<lambda>r.
      Inr (\<lparr>bh_crc = stored_crc, bh_origin = origin, bh_alphabet = alphabet, bh_selectors = selectors,
            bh_tables = fst r\<rparr>, snd r)))))))))))"

section \<open>Symbols\<close>

record symbol_state =
  ss_tt :: "u32 list"
  ss_counts :: "nat list"
  ss_mtf :: bytes
  ss_selector :: nat
  ss_group_left :: nat
  ss_table :: nat
  ss_run :: nat
  ss_run_bit :: nat

definition symbol_start :: "bytes \<Rightarrow> symbol_state" where
  "symbol_start alphabet = \<lparr>ss_tt = [], ss_counts = replicate 257 0, ss_mtf = alphabet, ss_selector = 0,
     ss_group_left = 0, ss_table = 0, ss_run = 0, ss_run_bit = 0\<rparr>"

definition next_group :: "nat list \<Rightarrow> symbol_state \<Rightarrow> nat \<Rightarrow> error + symbol_state" where
  "next_group selectors s pos =
     (if ss_group_left s = 0
      then and_then (ok_or (get_at selectors (ss_selector s)) (decode_error_at pos InvalidBlock)) (\<lambda>table.
        Inr (s\<lparr>ss_table := table, ss_selector := ss_selector s + 1, ss_group_left := GROUP_SIZE - 1\<rparr>))
      else Inr (s\<lparr>ss_group_left := ss_group_left s - 1\<rparr>))"

definition add_run_digit :: "nat \<Rightarrow> nat \<Rightarrow> nat \<Rightarrow> symbol_state \<Rightarrow> error + symbol_state" where
  "add_run_digit block_size pos symbol s =
     (let run = ss_run s + (symbol + 1) * 2 ^ ss_run_bit s; run_bit = ss_run_bit s + 1 in
      if run_bit \<ge> 32 \<or> run > block_size then Inl (decode_error_at pos BlockOverflow)
      else Inr (s\<lparr>ss_run := run, ss_run_bit := run_bit\<rparr>))"

definition push_bytes :: "byte \<Rightarrow> nat \<Rightarrow> symbol_state \<Rightarrow> symbol_state" where
  "push_bytes b n s = s\<lparr>ss_tt := ss_tt s @ replicate n (ucast b),
     ss_counts := (ss_counts s)[unat b + 1 := ss_counts s ! (unat b + 1) + n]\<rparr>"

definition flush_run :: "nat \<Rightarrow> nat \<Rightarrow> symbol_state \<Rightarrow> error + symbol_state" where
  "flush_run block_size pos s =
     (if ss_run s \<noteq> 0
      then and_then (index (ss_mtf s) 0) (\<lambda>b.
        if length (ss_tt s) + ss_run s > block_size then Inl (decode_error_at pos BlockOverflow)
        else Inr ((push_bytes b (ss_run s) s)\<lparr>ss_run_bit := 0, ss_run := 0\<rparr>))
      else Inr (s\<lparr>ss_run := 0\<rparr>))"

definition put_symbol :: "nat \<Rightarrow> nat \<Rightarrow> nat \<Rightarrow> symbol_state \<Rightarrow> error + symbol_state" where
  "put_symbol block_size pos symbol s =
     (let i = symbol - 1 in
      if i \<ge> length (ss_mtf s) \<or> length (ss_tt s) = block_size then Inl (decode_error_at pos InvalidBlock)
      else Inr (push_bytes (ss_mtf s ! i) 1 (s\<lparr>ss_mtf := move_front (ss_mtf s) i\<rparr>)))"

lemma next_group_progress:
  "next_group selectors s pos = Inr s' \<Longrightarrow>
     (length selectors - ss_selector s') * 50 + ss_group_left s' < (length selectors - ss_selector s) * 50 + ss_group_left s"
  by (auto simp: next_group_def GROUP_SIZE_def get_at_def ok_or_Inr_iff and_then_Inr_iff split: if_splits)

definition symbol_measure :: "nat list \<Rightarrow> symbol_state \<Rightarrow> nat" where
  "symbol_measure selectors s = (length selectors - ss_selector s) * 50 + ss_group_left s"

lemma symbol_measure_less:
  "next_group selectors s pos = Inr s' \<Longrightarrow> add_run_digit block_size q symbol s' = Inr t \<Longrightarrow>
     symbol_measure selectors t < symbol_measure selectors s"
  "next_group selectors s pos = Inr s' \<Longrightarrow> flush_run block_size q s' = Inr t \<Longrightarrow> put_symbol block_size q symbol t = Inr u \<Longrightarrow>
     symbol_measure selectors u < symbol_measure selectors s"
  using next_group_progress [of selectors s pos s']
  by (auto simp: symbol_measure_def add_run_digit_def flush_run_def put_symbol_def push_bytes_def Let_def and_then_Inr_iff
      split: if_splits)

function symbol_loop :: "bytes \<Rightarrow> block_header \<Rightarrow> nat \<Rightarrow> symbol_state \<Rightarrow> nat \<Rightarrow> error + symbol_state \<times> nat" where
  "symbol_loop data header block_size s pos =
     and_then (next_group (bh_selectors header) s pos) (\<lambda>s.
     and_then (index (bh_tables header) (ss_table s)) (\<lambda>table.
     and_then (h_decode table data pos) (\<lambda>r.
       if fst r \<le> 1
       then and_then (add_run_digit block_size (snd r) (fst r) s) (\<lambda>s. symbol_loop data header block_size s (snd r))
       else and_then (flush_run block_size (snd r) s) (\<lambda>s.
         if fst r = length (bh_alphabet header) + 1 then Inr (s, snd r)
         else and_then (put_symbol block_size (snd r) (fst r) s) (\<lambda>s. symbol_loop data header block_size s (snd r))))))"
  by pat_completeness auto
termination
  by (relation "measure (\<lambda>(_, header, _, s, _). symbol_measure (bh_selectors header) s)")
    (auto intro: symbol_measure_less)

declare symbol_loop.simps [simp del]

section \<open>Undoing the block sort and the first run-length stage\<close>

definition count_sums :: "nat list \<Rightarrow> nat list" where
  "count_sums counts = fold (\<lambda>i c. c[i := c ! i + c ! (i - 1)]) [1..<length counts] counts"

definition link_step :: "nat \<Rightarrow> u32 list \<times> nat list \<Rightarrow> error + u32 list \<times> nat list" where
  "link_step i s =
     and_then (index (fst s) i) (\<lambda>entry. let b = unat (entry AND 0xff) in
     and_then (index (snd s) b) (\<lambda>target.
     and_then (index (fst s) target) (\<lambda>t.
     Inr ((fst s)[target := t OR push_bit 8 (word_of_nat i)], (snd s)[b := target + 1]))))"

fun link :: "nat list \<Rightarrow> u32 list \<times> nat list \<Rightarrow> error + u32 list \<times> nat list" where
  "link [] s = Inr s"
| "link (i # is) s = and_then (link_step i s) (link is)"

record walk_state =
  w_previous :: "byte option"
  w_repeated :: nat
  w_output :: bytes

definition walk_byte :: "nat \<Rightarrow> nat \<Rightarrow> byte \<Rightarrow> walk_state \<Rightarrow> error + walk_state" where
  "walk_byte max_output block_offset b w =
     (if w_repeated w = 4
      then (let extra = unat b in
        if length (w_output w) + extra > max_output then Inl (decode_error_at block_offset BlockOverflow)
        else and_then (ok_or (w_previous w) Panic) (\<lambda>v.
          Inr \<lparr>w_previous = None, w_repeated = 0, w_output = w_output w @ replicate extra v\<rparr>))
      else if length (w_output w) = max_output then Inl (decode_error_at block_offset BlockOverflow)
      else Inr (if w_previous w = Some b
        then w\<lparr>w_output := w_output w @ [b], w_repeated := w_repeated w + 1\<rparr>
        else \<lparr>w_previous = Some b, w_repeated = 1, w_output = w_output w @ [b]\<rparr>))"

fun walk :: "u32 list \<Rightarrow> nat \<Rightarrow> nat \<Rightarrow> nat \<Rightarrow> u32 \<Rightarrow> walk_state \<Rightarrow> error + walk_state" where
  "walk tt max_output block_offset 0 position w = Inr w"
| "walk tt max_output block_offset (Suc n) position w =
     and_then (index tt (unat position)) (\<lambda>entry.
     and_then (walk_byte max_output block_offset (ucast entry) w) (\<lambda>w.
     walk tt max_output block_offset n (drop_bit 8 entry) w))"

definition block_body :: "bytes \<Rightarrow> nat \<Rightarrow> nat \<Rightarrow> block_header \<Rightarrow> nat \<Rightarrow> error + (bytes \<times> u32 \<times> nat) \<times> nat" where
  "block_body data level block_offset header pos =
     (let block_size = level * 100000 in
      and_then (symbol_loop data header block_size (symbol_start (bh_alphabet header)) pos) (\<lambda>r.
      let block_len = length (ss_tt (fst r)) in
      if block_len = 0 \<or> bh_origin header \<ge> block_len then Inl (decode_error_at block_offset InvalidBlock)
      else and_then (link [0..<block_len] (ss_tt (fst r), count_sums (ss_counts (fst r)))) (\<lambda>linked.
      let max_output = block_size div 5 * 259 + 4 in
      and_then (index (fst linked) (bh_origin header)) (\<lambda>entry.
      and_then (walk (fst linked) max_output block_offset block_len (drop_bit 8 entry)
        \<lparr>w_previous = None, w_repeated = 0, w_output = []\<rparr>) (\<lambda>w.
      if bz2_crc32 (w_output w) \<noteq> bh_crc header then Inl (decode_error_at block_offset CrcMismatch)
      else Inr ((w_output w, bh_crc header, block_len), snd r))))))"

definition bz2_block :: "bytes \<Rightarrow> nat \<Rightarrow> nat \<Rightarrow> u32 option \<Rightarrow> error + (bytes \<times> u32 \<times> nat) \<times> nat" where
  "bz2_block data pos level expected_crc =
     and_then (read_header data pos expected_crc) (\<lambda>r. block_body data level (pos - 48) (fst r) (snd r))"

section \<open>Entry points\<close>

record decoded_candidate =
  dc_output :: bytes
  dc_decoded_len :: nat
  dc_end_bit :: nat
  dc_block_len :: nat

definition BLOCK_MARK :: u64 where "BLOCK_MARK = 0x314159265359"
definition END_MARK :: u64 where "END_MARK = 0x177245385090"

definition block_after_magic :: "bytes \<Rightarrow> nat \<Rightarrow> nat \<Rightarrow> u32 option \<Rightarrow> error + (bytes \<times> u32 \<times> nat) \<times> nat" where
  "block_after_magic data start_bit level expected =
     and_then (bits_start data start_bit) (\<lambda>pos.
     and_then (bits_magic data pos) (\<lambda>r.
     if fst r \<noteq> BLOCK_MARK then Inl (decode_error_at start_bit InvalidMagic)
     else bz2_block data (snd r) level expected))"

definition decode_candidate :: "bytes \<Rightarrow> nat \<Rightarrow> u32 \<Rightarrow> error + decoded_candidate" where
  "decode_candidate data start_bit expected_crc =
     and_then (block_after_magic data start_bit 9 (Some expected_crc)) (\<lambda>((output, _, block_len), pos).
     Inr \<lparr>dc_output = output, dc_decoded_len = length output, dc_end_bit = pos, dc_block_len = block_len\<rparr>)"

definition decode_first_candidate :: "bytes \<Rightarrow> error + u32 \<times> decoded_candidate" where
  "decode_first_candidate data =
     and_then (block_after_magic data 32 9 None) (\<lambda>((output, crc, block_len), pos).
     Inr (crc, \<lparr>dc_output = output, dc_decoded_len = length output, dc_end_bit = pos, dc_block_len = block_len\<rparr>))"

definition bz2_decode_block :: "bytes \<Rightarrow> nat \<Rightarrow> nat \<Rightarrow> nat \<Rightarrow> u32 \<Rightarrow> error + bytes" where
  "bz2_decode_block data start_bit end_bit level expected_crc =
     (if \<not> (1 \<le> level \<and> level \<le> 9) \<or> end_bit \<le> start_bit then Inl (decode_error_at start_bit InvalidBlock)
      else and_then (block_after_magic data start_bit level (Some expected_crc)) (\<lambda>((output, _, _), pos).
        if pos \<noteq> end_bit then Inl (decode_error_at pos InvalidBlock) else Inr output))"

text \<open>Reading never moves backwards, which the serial decoder needs to terminate.\<close>

named_theorems onwards "readers only move on"

lemma bits_read_onwards [onwards]: "bits_read data pos n = Inr r \<Longrightarrow> pos \<le> snd r"
  by (auto simp: bits_read_def and_then_Inr_iff split: if_splits)

lemma bits_bit_onwards [onwards]: "bits_bit data pos = Inr r \<Longrightarrow> pos \<le> snd r"
  by (auto simp: bits_bit_def and_then_Inr_iff dest!: onwards)

lemma groups_onwards [onwards]: "read_groups data groups gs used pos = Inr r \<Longrightarrow> pos \<le> snd r"
proof (induction data groups gs used pos rule: read_groups.induct)
  case (2 data groups g gs used pos)
  show ?case
  proof (cases "map_bit groups g")
    case True
    then obtain q where "bits_read data pos 16 = Inr q" and q: "read_groups data groups gs
        (fold (\<lambda>v used. used[g * 16 + v := map_bit (fst q) v]) [0..<16] used) (snd q) = Inr r"
      using "2.prems" by (auto simp: and_then_Inr_iff)
    then show ?thesis using "2.IH"(1) [OF True _ q] bits_read_onwards by (metis le_trans)
  qed (use 2 in simp)
qed auto

lemma unary_onwards [onwards]: "read_unary data pos i n = Inr r \<Longrightarrow> pos \<le> snd r"
proof (induction data pos i n rule: read_unary.induct)
  case (1 data pos i n)
  then obtain b where b: "bits_bit data pos = Inr b"
    "(if fst b then (if i + 1 \<ge> n then Inl (decode_error_at (snd b) InvalidBlock) else read_unary data (snd b) (i + 1) n)
      else Inr (i, snd b)) = Inr r"
    by (subst (asm) (2) read_unary.simps) (auto simp: and_then_Inr_iff)
  then show ?case using 1(1) [OF b(1)] bits_bit_onwards [OF b(1)] by (auto split: if_splits)
qed

lemma selectors_onwards [onwards]: "read_selectors data n mtf count selectors pos = Inr r \<Longrightarrow> pos \<le> snd r"
proof (induction data n mtf count selectors pos rule: read_selectors.induct)
  case (2 data n mtf count selectors pos)
  then obtain u x where u: "read_unary data pos 0 n = Inr u" "index mtf (fst u) = Inr x"
    "read_selectors data n (move_front mtf (fst u)) count (selectors @ [x]) (snd u) = Inr r"
    by (auto simp: and_then_Inr_iff)
  then show ?case using "2.IH" [OF u] unary_onwards [OF u(1)] by simp
qed auto

lemma delta_onwards [onwards]: "read_delta data pos c = Inr r \<Longrightarrow> pos \<le> snd r"
proof (induction data pos c rule: read_delta.induct)
  case (1 data pos c)
  have in_range: "1 \<le> c \<and> c \<le> int BZ2_MAX_LEN" using "1.prems" by (subst (asm) read_delta.simps) (auto split: if_splits)
  then obtain b where b: "bits_bit data pos = Inr b" "(if \<not> fst b then Inr (c, snd b)
      else and_then (bits_bit data (snd b)) (\<lambda>r. read_delta data (snd r) (c + (if fst r then - 1 else 1)))) = Inr r"
    using "1.prems" by (subst (asm) read_delta.simps) (auto simp: and_then_Inr_iff)
  show ?case
  proof (cases "fst b")
    case True
    then obtain d where d: "bits_bit data (snd b) = Inr d" "read_delta data (snd d) (c + (if fst d then - 1 else 1)) = Inr r"
      using b(2) by (auto simp: and_then_Inr_iff)
    then show ?thesis
      using "1.IH" [OF _ b(1) _ d] in_range True bits_bit_onwards [OF b(1)] bits_bit_onwards [OF d(1)] by simp
  qed (use b bits_bit_onwards [OF b(1)] in auto)
qed

lemma lengths_onwards [onwards]: "read_lengths data n c lengths pos = Inr r \<Longrightarrow> pos \<le> snd r"
proof (induction data n c lengths pos rule: read_lengths.induct)
  case (2 data n c lengths pos)
  then obtain d where d: "read_delta data pos c = Inr d" "read_lengths data n (fst d) (lengths @ [nat (fst d)]) (snd d) = Inr r"
    by (auto simp: and_then_Inr_iff)
  then show ?case using "2.IH" [OF d] delta_onwards [OF d(1)] by simp
qed auto

lemma tables_onwards [onwards]: "read_tables data a n tables pos = Inr r \<Longrightarrow> pos \<le> snd r"
proof (induction data a n tables pos rule: read_tables.induct)
  case (2 data a n tables pos)
  then obtain x l t where t: "bits_read data pos 5 = Inr x" "read_lengths data a (uint (fst x)) [] (snd x) = Inr l"
    "h_build (fst l) (snd l) = Inr t" "read_tables data a n (tables @ [t]) (snd l) = Inr r"
    by (auto simp: and_then_Inr_iff)
  then show ?case using "2.IH" [OF t] bits_read_onwards [OF t(1)] lengths_onwards [OF t(2)] by simp
qed auto

lemma search_onwards [onwards]: "h_search h data pos l c = Inr r \<Longrightarrow> pos \<le> snd r"
proof (induction h data pos l c rule: h_search.induct)
  case (1 h data pos l c)
  show ?case
  proof (cases "l < length (h_limit h) \<and> \<not> c \<le> h_limit h ! l \<and> l \<noteq> h_max h")
    case True
    then obtain b where b: "bits_read data pos 1 = Inr b" "h_search h data (snd b) (l + 1) (c * 2 + uint (fst b)) = Inr r"
      using "1.prems" by (subst (asm) h_search.simps) (auto simp: and_then_Inr_iff)
    then show ?thesis using "1.IH" [OF _ _ _ b] True bits_read_onwards [OF b(1)] by simp
  next
    case False
    then show ?thesis using "1.prems" by (subst (asm) h_search.simps) (auto simp: Let_def split: if_splits)
  qed
qed

lemma decode_onwards [onwards]: "h_decode h data pos = Inr r \<Longrightarrow> pos \<le> snd r"
  by (auto simp: h_decode_def and_then_Inr_iff Let_def split: if_splits option.splits
      dest!: bits_read_onwards search_onwards)

lemma symbols_onwards [onwards]: "symbol_loop data header bs s pos = Inr r \<Longrightarrow> pos \<le> snd r"
proof (induction data header bs s pos rule: symbol_loop.induct)
  case (1 data header bs s pos)
  from "1.prems" obtain t table d where d: "next_group (bh_selectors header) s pos = Inr t"
    "index (bh_tables header) (ss_table t) = Inr table" "h_decode table data pos = Inr d"
    and rest: "(if fst d \<le> 1
       then and_then (add_run_digit bs (snd d) (fst d) t) (\<lambda>s. symbol_loop data header bs s (snd d))
       else and_then (flush_run bs (snd d) t) (\<lambda>s.
         if fst d = length (bh_alphabet header) + 1 then Inr (s, snd d)
         else and_then (put_symbol bs (snd d) (fst d) s) (\<lambda>s. symbol_loop data header bs s (snd d)))) = Inr r"
    by (subst (asm) symbol_loop.simps) (auto simp: and_then_Inr_iff)
  have "snd d \<le> snd r"
    using rest "1.IH"(1) [OF d] "1.IH"(2) [OF d] by (auto simp: and_then_Inr_iff split: if_splits)
  then show ?case using decode_onwards [OF d(3)] by simp
qed

lemma header_onwards [onwards]: "read_header data pos expected = Inr r \<Longrightarrow> pos \<le> snd r"
proof -
  assume "read_header data pos expected = Inr r"
  then obtain a b c d e f g i where
    "bits_read data pos 32 = Inr a" "bits_bit data (snd a) = Inr b" "bits_read data (snd b) 24 = Inr c"
    "bits_read data (snd c) 16 = Inr d" "read_groups data (fst d) [0..<16] (replicate 256 False) (snd d) = Inr e"
    "bits_read data (snd e) 3 = Inr f" "bits_read data (snd f) 15 = Inr g"
    "read_selectors data (unat (fst f)) [0..<unat (fst f)] (unat (fst g)) [] (snd g) = Inr i"
    "\<exists>t. read_tables data (length (alphabet_of (fst e)) + 2) (unat (fst f)) [] (snd i) = Inr t \<and> snd r = snd t"
    unfolding read_header_def Let_def by (auto simp: and_then_Inr_iff split: if_splits)
  then show ?thesis by (elim exE conjE) (auto dest!: onwards)
qed

lemma block_onwards [onwards]: "bz2_block data pos level expected = Inr r \<Longrightarrow> pos \<le> snd r"
proof -
  assume "bz2_block data pos level expected = Inr r"
  then obtain h s where h: "read_header data pos expected = Inr h"
    "symbol_loop data (fst h) (level * 100000) (symbol_start (bh_alphabet (fst h))) (snd h) = Inr s" "snd r = snd s"
    unfolding bz2_block_def block_body_def Let_def by (auto simp: and_then_Inr_iff split: if_splits)
  then show ?thesis using header_onwards [OF h(1)] symbols_onwards [OF h(2)] by simp
qed

lemma bits_remaining_antimono: "pos \<le> q \<Longrightarrow> bits_remaining data q \<le> bits_remaining data pos"
  by (simp add: bits_remaining_def diff_le_mono2)

lemma bits_magic_advances: "bits_magic data pos = Inr r \<Longrightarrow> bits_remaining data (snd r) < bits_remaining data pos"
proof -
  assume "bits_magic data pos = Inr r"
  then obtain a b where "bits_read data pos (Suc 23) = Inr a" "bits_read data (snd a) 24 = Inr b" "snd r = snd b"
    by (auto simp: bits_magic_def and_then_Inr_iff numeral_eq_Suc)
  then show ?thesis
    using bits_read_advances [of data pos 23 a] bits_remaining_antimono [OF bits_read_onwards, of data "snd a" 24 b data] by simp
qed

section \<open>The serial decoder\<close>

record serial_state =
  se_output :: bytes
  se_decoded :: nat
  se_progress :: "(nat \<times> nat) list"

definition serial_put :: "bytes \<Rightarrow> nat \<Rightarrow> serial_state \<Rightarrow> error + serial_state" where
  "serial_put block pos s =
     and_then (ok_or (checked_add (se_decoded s) (length block)) (InvalidConfiguration OffsetOverflow)) (\<lambda>decoded.
     Inr \<lparr>se_output = se_output s @ block, se_decoded = decoded,
       se_progress = se_progress s @ [((pos + 7) div 8, decoded)]\<rparr>)"

function serial_blocks :: "bytes \<Rightarrow> nat \<Rightarrow> u32 \<Rightarrow> serial_state \<Rightarrow> nat \<Rightarrow> error + serial_state \<times> nat" where
  "serial_blocks data level combined s pos =
     and_then (bits_magic data pos) (\<lambda>r.
       if fst r = BLOCK_MARK
       then and_then (bz2_block data (snd r) level None) (\<lambda>b.
            and_then (serial_put (fst (fst b)) (snd b) s) (\<lambda>s.
            serial_blocks data level (combine_stream_crc combined (fst (snd (fst b)))) s (snd b)))
       else if fst r = END_MARK
       then and_then (bits_read data (snd r) 32) (\<lambda>c.
            if fst c \<noteq> combined then Inl (decode_error_at pos CrcMismatch) else Inr (s, snd c))
       else Inl (decode_error_at pos InvalidMagic))"
  by pat_completeness auto
termination
proof (relation "measure (\<lambda>(data, _, _, _, pos). bits_remaining data pos)", goal_cases)
  case (2 data level combined s pos r b s')
  then show ?case
    using bits_magic_advances [of data pos r] bits_remaining_antimono [OF block_onwards, of data "snd r" level None b data] by simp
qed simp

declare serial_blocks.simps [simp del]

lemma serial_blocks_onwards [onwards]: "serial_blocks data level combined s pos = Inr r \<Longrightarrow> bits_remaining data (snd r) \<le> bits_remaining data pos"
proof (induction data level combined s pos rule: serial_blocks.induct)
  case (1 data level combined s pos)
  from "1.prems" obtain m where m: "bits_magic data pos = Inr m"
    and rest: "(if fst m = BLOCK_MARK
       then and_then (bz2_block data (snd m) level None) (\<lambda>b.
            and_then (serial_put (fst (fst b)) (snd b) s) (\<lambda>s.
            serial_blocks data level (combine_stream_crc combined (fst (snd (fst b)))) s (snd b)))
       else if fst m = END_MARK
       then and_then (bits_read data (snd m) 32) (\<lambda>c.
            if fst c \<noteq> combined then Inl (decode_error_at pos CrcMismatch) else Inr (s, snd c))
       else Inl (decode_error_at pos InvalidMagic)) = Inr r"
    by (subst (asm) serial_blocks.simps) (auto simp: and_then_Inr_iff)
  have le: "bits_remaining data (snd m) \<le> bits_remaining data pos" using bits_magic_advances [OF m] by simp
  show ?case
  proof (cases "fst m = BLOCK_MARK")
    case True
    then obtain b s' where b: "bz2_block data (snd m) level None = Inr b" "serial_put (fst (fst b)) (snd b) s = Inr s'"
      "serial_blocks data level (combine_stream_crc combined (fst (snd (fst b)))) s' (snd b) = Inr r"
      using rest by (auto simp: and_then_Inr_iff)
    then show ?thesis
      using "1.IH" [OF m True b] le bits_remaining_antimono [OF block_onwards [OF b(1)], of data] by simp
  next
    case False
    then obtain c where "bits_read data (snd m) 32 = Inr c" "snd r = snd c"
      using rest by (auto simp: and_then_Inr_iff split: if_splits)
    then show ?thesis using le bits_remaining_antimono [OF bits_read_onwards, of data "snd m" 32 c data] by simp
  qed
qed

definition stream_header :: "bytes \<Rightarrow> nat \<Rightarrow> error + nat \<times> nat" where
  "stream_header data pos =
     (if bits_remaining data pos < 32 then Inl (decode_error_at pos Truncated)
      else and_then (bits_read data pos 8) (\<lambda>r.
        if fst r \<noteq> 0x42 then Inl (decode_error_at (snd r - 24) InvalidMagic)
      else and_then (bits_read data (snd r) 8) (\<lambda>r.
        if fst r \<noteq> 0x5a then Inl (decode_error_at (snd r - 24) InvalidMagic)
      else and_then (bits_read data (snd r) 8) (\<lambda>r.
        if fst r \<noteq> 0x68 then Inl (decode_error_at (snd r - 24) InvalidMagic)
      else and_then (bits_read data (snd r) 8) (\<lambda>r. let level = ucast (fst r) :: byte in
        if \<not> (0x31 \<le> level \<and> level \<le> 0x39) then Inl (decode_error_at (snd r - 8) InvalidLevel)
      else Inr (unat (level - 0x30), snd r))))))"

lemma stream_header_advances:
  "stream_header data pos = Inr r \<Longrightarrow> bits_remaining data (snd r) < bits_remaining data pos"
proof -
  assume "stream_header data pos = Inr r"
  then obtain a b c d where r: "bits_read data pos (Suc 7) = Inr a" "bits_read data (snd a) 8 = Inr b"
    "bits_read data (snd b) 8 = Inr c" "bits_read data (snd c) 8 = Inr d" "snd r = snd d"
    unfolding stream_header_def Let_def by (auto simp: and_then_Inr_iff split: if_splits)
  then have "snd a \<le> snd r" using bits_read_onwards [OF r(2)] bits_read_onwards [OF r(3)] bits_read_onwards [OF r(4)] by simp
  then show ?thesis using bits_read_advances [OF r(1)] bits_remaining_antimono [of "snd a" "snd r" data] by simp
qed

lemma align_byte_ge: "pos \<le> align_byte pos"
  by (simp add: align_byte_def)

function serial_streams :: "bytes \<Rightarrow> serial_state \<Rightarrow> nat \<Rightarrow> error + serial_state" where
  "serial_streams data s pos =
     (if bits_remaining data pos = 0 then Inr s
      else and_then (stream_header data (align_byte pos)) (\<lambda>h.
        and_then (serial_blocks data (fst h) 0 s (snd h)) (\<lambda>r.
        serial_streams data (fst r) (align_byte (snd r)))))"
  by pat_completeness auto
termination
proof (relation "measure (\<lambda>(data, _, pos). bits_remaining data pos)", goal_cases)
  case (2 data s pos h r)
  then show ?case
    using stream_header_advances [of data "align_byte pos" h] serial_blocks_onwards [of data "fst h" 0 s "snd h" r]
      bits_remaining_antimono [OF align_byte_ge, of data pos] bits_remaining_antimono [OF align_byte_ge, of data "snd r"] by simp
qed simp

declare serial_streams.simps [simp del]

definition decode_serial :: "bytes \<Rightarrow> error + serial_state" where
  "decode_serial data =
     and_then (bits_start data 0) (\<lambda>pos.
     and_then (serial_streams data \<lparr>se_output = [], se_decoded = 0, se_progress = []\<rparr> pos) (\<lambda>s.
     Inr (s\<lparr>se_progress := se_progress s @ [(length data, se_decoded s)]\<rparr>)))"

end
