(* ===== verification/Mtf.thy ===== *)
theory Mtf
  imports Bz2_Decoder
begin

text \<open>
  The second stage of the block encoder, \<open>src/bz2_encode/mtf.rs\<close>: move-to-front over the bytes in use
  and the run-length code for index zero, in bijective base two. The decoder's symbol processing
  (\<open>add_run_digit\<close>, \<open>flush_run\<close>, \<open>put_symbol\<close>) is shown to undo it.
\<close>

section \<open>The code\<close>

definition RUNA :: nat where "RUNA = 0"
definition RUNB :: nat where "RUNB = 1"

record symbols =
  sy_in_use :: bytes
  sy_syms :: "nat list"

definition alpha_size :: "symbols \<Rightarrow> nat" where
  "alpha_size s = length (sy_in_use s) + 2"

definition in_use :: "bytes \<Rightarrow> bytes" where
  "in_use block =
     (let seen = fold (\<lambda>b seen. seen[unat b := True]) block (replicate 256 False)
      in map word_of_nat (filter (\<lambda>b. seen ! b) [0..<256]))"

definition position :: "'a \<Rightarrow> 'a list \<Rightarrow> nat option" where
  "position x xs = (let i = length (takeWhile (\<lambda>y. y \<noteq> x) xs) in if i < length xs then Some i else None)"

fun zero_run :: "nat \<Rightarrow> nat list" where
  "zero_run n =
     (if n = 0 then []
      else if n mod 2 = 1 then RUNA # zero_run ((n - 1) div 2)
      else RUNB # zero_run ((n - 2) div 2))"

declare zero_run.simps [simp del]

definition flush_zero_run :: "nat list \<Rightarrow> nat \<Rightarrow> nat list" where
  "flush_zero_run syms zeros = syms @ zero_run zeros"

record mtf_state =
  ms_mtf :: bytes
  ms_zeros :: nat
  ms_syms :: "nat list"

definition mtf_step :: "byte \<Rightarrow> mtf_state \<Rightarrow> error + mtf_state" where
  "mtf_step b s =
     and_then (ok_or (position b (ms_mtf s)) Panic) (\<lambda>i.
     if i = 0 then Inr (s\<lparr>ms_zeros := ms_zeros s + 1\<rparr>)
     else Inr \<lparr>ms_mtf = move_front (ms_mtf s) i, ms_zeros = 0,
            ms_syms = flush_zero_run (ms_syms s) (ms_zeros s) @ [i + 1]\<rparr>)"

fun mtf_loop :: "bytes \<Rightarrow> mtf_state \<Rightarrow> error + mtf_state" where
  "mtf_loop [] s = Inr s"
| "mtf_loop (b # bs) s = and_then (mtf_step b s) (mtf_loop bs)"

definition mtf_encode :: "bytes \<Rightarrow> error + symbols" where
  "mtf_encode block =
     (let used = in_use block in
      and_then (mtf_loop block \<lparr>ms_mtf = used, ms_zeros = 0, ms_syms = []\<rparr>) (\<lambda>s.
      Inr \<lparr>sy_in_use = used, sy_syms = flush_zero_run (ms_syms s) (ms_zeros s) @ [length used + 1]\<rparr>))"

section \<open>Zero runs in bijective base two\<close>

fun run_value :: "nat list \<Rightarrow> nat" where
  "run_value [] = 0"
| "run_value (d # ds) = (d + 1) + 2 * run_value ds"

lemma run_value_zero_run: "run_value (zero_run n) = n"
proof (induction n rule: zero_run.induct)
  case (1 n)
  show ?case
  proof (cases "n = 0")
    case False
    show ?thesis
    proof (cases "n mod 2 = 1")
      case True
      then have "n = 2 * ((n - 1) div 2) + 1" by presburger
      then show ?thesis using 1(1) [OF False True] False True
        by (subst zero_run.simps) (simp add: RUNA_def)
    next
      case even: False
      then have "n = 2 * ((n - 2) div 2) + 2" using False by presburger
      then show ?thesis using 1(2) [OF False even] False even
        by (subst zero_run.simps) (simp add: RUNB_def)
    qed
  qed (simp add: zero_run.simps)
qed

lemma zero_run_digits: "d \<in> set (zero_run n) \<Longrightarrow> d \<le> 1"
proof (induction n rule: zero_run.induct)
  case (1 n)
  then show ?case
    by (subst (asm) (2) zero_run.simps) (auto simp: RUNA_def RUNB_def split: if_splits)
qed

lemma run_value_ge: "2 ^ length ds \<le> run_value ds + 1"
  by (induction ds) auto

lemma zero_run_Nil_iff: "zero_run n = [] \<longleftrightarrow> n = 0"
  by (subst zero_run.simps) simp

section \<open>The decoder's symbol processing, without the Huffman code\<close>

text \<open>What the symbol loop does with one symbol other than the end of the block, and with a list of them.\<close>

definition apply_symbol :: "nat \<Rightarrow> nat \<Rightarrow> nat \<Rightarrow> symbol_state \<Rightarrow> error + symbol_state" where
  "apply_symbol bs pos c s =
     (if c \<le> 1 then add_run_digit bs pos c s else and_then (flush_run bs pos s) (put_symbol bs pos c))"

fun apply_symbols :: "nat \<Rightarrow> nat list \<Rightarrow> symbol_state \<Rightarrow> symbol_state option" where
  "apply_symbols bs [] s = Some s"
| "apply_symbols bs (c # syms) s =
     (case apply_symbol bs 0 c s of Inl _ \<Rightarrow> None | Inr s \<Rightarrow> apply_symbols bs syms s)"

lemma apply_symbols_append:
  "apply_symbols bs (xs @ ys) s = (case apply_symbols bs xs s of None \<Rightarrow> None | Some s \<Rightarrow> apply_symbols bs ys s)"
  by (induction xs arbitrary: s) (auto split: sum.splits)

definition tt_bytes :: "bytes \<Rightarrow> u32 list" where
  "tt_bytes bs = map ucast bs"

lemma tt_bytes_append [simp]: "tt_bytes (xs @ ys) = tt_bytes xs @ tt_bytes ys"
  by (simp add: tt_bytes_def)

text \<open>The byte counts the symbol loop keeps are those of the bytes it has written.\<close>

definition counts_ok :: "bytes \<Rightarrow> nat list \<Rightarrow> bool" where
  "counts_ok bs counts \<longleftrightarrow> length counts = 257 \<and> counts ! 0 = 0 \<and> (\<forall>b. counts ! (unat b + 1) = count_list bs b)"

definition wrote :: "bytes \<Rightarrow> symbol_state \<Rightarrow> bool" where
  "wrote bs s \<longleftrightarrow> ss_tt s = tt_bytes bs \<and> counts_ok bs (ss_counts s)"

lemma count_replicate: "count_list (replicate n x) y = (if x = y then n else 0)"
  by (induction n) auto

lemma wrote_push: "wrote bs s \<Longrightarrow> wrote (bs @ replicate n b) (push_bytes b n s)"
  by (auto simp: wrote_def push_bytes_def counts_ok_def tt_bytes_def count_replicate nth_list_update word_unat_eq_iff)
    (metis add_right_cancel unat_byte_less)+

lemma length_wrote: "wrote bs s \<Longrightarrow> length (ss_tt s) = length bs"
  by (simp add: wrote_def tt_bytes_def)

lemma digits_applied:
  assumes "\<And>d. d \<in> set ds \<Longrightarrow> d \<le> 1" and "ss_run_bit s + length ds < 32"
    and "ss_run s + 2 ^ ss_run_bit s * run_value ds \<le> bs"
  shows "apply_symbols bs ds s =
    Some (s\<lparr>ss_run := ss_run s + 2 ^ ss_run_bit s * run_value ds, ss_run_bit := ss_run_bit s + length ds\<rparr>)"
  using assms
proof (induction ds arbitrary: s)
  case (Cons d ds)
  let ?s = "s\<lparr>ss_run := ss_run s + (d + 1) * 2 ^ ss_run_bit s, ss_run_bit := ss_run_bit s + 1\<rparr>"
  have d: "d \<le> 1" using Cons.prems(1) by simp
  have le: "ss_run s + (d + 1) * 2 ^ ss_run_bit s + 2 * 2 ^ ss_run_bit s * run_value ds \<le> bs"
    using Cons.prems(3) by (simp add: algebra_simps)
  then have "\<not> bs < ss_run s + (d + 1) * 2 ^ ss_run_bit s" by linarith
  then have "apply_symbol bs 0 d s = Inr ?s"
    using d Cons.prems(2) by (simp add: apply_symbol_def add_run_digit_def Let_def)
  moreover have "apply_symbols bs ds ?s =
      Some (?s\<lparr>ss_run := ss_run ?s + 2 ^ ss_run_bit ?s * run_value ds, ss_run_bit := ss_run_bit ?s + length ds\<rparr>)"
    using Cons.prems le by (intro Cons.IH) simp_all
  ultimately show ?case by (simp add: algebra_simps)
qed simp

lemma flush_after_run:
  assumes "wrote bs s" and "ss_run s = 0" and "ss_run_bit s = 0" and "ss_mtf s \<noteq> []" and "length bs + n \<le> size_limit" and "size_limit < 2 ^ 30"
  shows "\<exists>t u. apply_symbols size_limit (zero_run n) s = Some t \<and> flush_run size_limit pos t = Inr u \<and>
    wrote (bs @ replicate n (hd (ss_mtf s))) u \<and>
    u = s\<lparr>ss_tt := ss_tt u, ss_counts := ss_counts u\<rparr>"
proof -
  have n: "n < 2 ^ 30" using assms(5,6) by simp
  have "2 ^ length (zero_run n) \<le> n + 1" using run_value_ge [of "zero_run n"] by (simp add: run_value_zero_run)
  also have "n + 1 \<le> 2 ^ 30" using n by simp
  finally have "(2 :: nat) ^ length (zero_run n) \<le> 2 ^ 30" .
  then have digits: "length (zero_run n) \<le> 30" by (rule power_le_imp_le_exp [rotated]) simp
  have "apply_symbols size_limit (zero_run n) s = Some (s\<lparr>ss_run := n, ss_run_bit := length (zero_run n)\<rparr>)"
    using digits_applied [of "zero_run n" s size_limit] zero_run_digits [of _ n] digits assms
    by (simp add: run_value_zero_run)
  moreover have "\<exists>u. flush_run size_limit pos (s\<lparr>ss_run := n, ss_run_bit := length (zero_run n)\<rparr>) = Inr u \<and>
    wrote (bs @ replicate n (hd (ss_mtf s))) u \<and> u = s\<lparr>ss_tt := ss_tt u, ss_counts := ss_counts u\<rparr>"
  proof (cases "n = 0")
    case True
    then have "length (zero_run n) = 0" by (simp add: zero_run_Nil_iff)
    then show ?thesis using assms True by (simp add: flush_run_def wrote_def)
  next
    case False
    let ?t = "s\<lparr>ss_run := n, ss_run_bit := length (zero_run n)\<rparr>"
    have "wrote bs ?t" using assms(1) by (simp add: wrote_def)
    note w = wrote_push [OF this, of n "ss_mtf s ! 0"]
    have "flush_run size_limit pos ?t = Inr ((push_bytes (ss_mtf s ! 0) n ?t)\<lparr>ss_run_bit := 0, ss_run := 0\<rparr>)"
      using False assms length_wrote [OF assms(1)] by (simp add: flush_run_def)
    then show ?thesis
      using w assms by (auto simp: wrote_def hd_conv_nth push_bytes_def)
  qed
  ultimately show ?thesis by blast
qed

section \<open>The decoder undoes the encoder\<close>

lemma position_Some_iff: "position x xs = Some i \<longleftrightarrow> i < length xs \<and> xs ! i = x \<and> (\<forall>j<i. xs ! j \<noteq> x)"
proof -
  let ?n = "length (takeWhile (\<lambda>y. y \<noteq> x) xs)"
  have before: "j < ?n \<Longrightarrow> xs ! j \<noteq> x" for j
    using nth_mem [of j "takeWhile (\<lambda>y. y \<noteq> x) xs"] takeWhile_nth [of j "\<lambda>y. y \<noteq> x" xs] set_takeWhileD by fastforce
  have at: "?n < length xs \<Longrightarrow> xs ! ?n = x" using nth_length_takeWhile [of "\<lambda>y. y \<noteq> x" xs] by simp
  show ?thesis
  proof
    assume "position x xs = Some i"
    then show "i < length xs \<and> xs ! i = x \<and> (\<forall>j<i. xs ! j \<noteq> x)"
      using before at by (auto simp: position_def Let_def split: if_splits)
  next
    assume i: "i < length xs \<and> xs ! i = x \<and> (\<forall>j<i. xs ! j \<noteq> x)"
    have "?n \<le> i" using before [of i] i by (meson linorder_not_le)
    moreover have "\<not> ?n < i" using at i by auto
    ultimately show "position x xs = Some i" using i by (simp add: position_def Let_def)
  qed
qed

lemma position_in: "x \<in> set xs \<Longrightarrow> \<exists>i. position x xs = Some i"
proof -
  assume "x \<in> set xs"
  then have "length (takeWhile (\<lambda>y. y \<noteq> x) xs) < length xs"
    by (induction xs) auto
  then show ?thesis by (simp add: position_def Let_def)
qed

lemma set_move_front: "i < length xs \<Longrightarrow> set (move_front xs i) = set xs"
proof -
  assume "i < length xs"
  then have "set xs = set (take i xs @ xs ! i # drop (i + 1) xs)" by (simp add: id_take_nth_drop [symmetric])
  then show ?thesis by (auto simp: move_front_def)
qed

lemma length_move_front [simp]: "i < length xs \<Longrightarrow> length (move_front xs i) = length xs"
  by (simp add: move_front_def)

text \<open>The encoder after the bytes \<open>bs\<close>, and the decoder after the symbols written so far.\<close>

definition in_step :: "bytes \<Rightarrow> mtf_state \<Rightarrow> symbol_state \<Rightarrow> bool" where
  "in_step bs e d \<longleftrightarrow> ss_mtf d = ms_mtf e \<and> ss_run d = 0 \<and> ss_run_bit d = 0 \<and> ms_mtf e \<noteq> [] \<and>
     (\<exists>done. wrote done d \<and> bs = done @ replicate (ms_zeros e) (hd (ms_mtf e)))"

definition same_groups :: "symbol_state \<Rightarrow> symbol_state \<Rightarrow> bool" where
  "same_groups s t \<longleftrightarrow> ss_selector s = ss_selector t \<and> ss_group_left s = ss_group_left t \<and> ss_table s = ss_table t"

lemma mtf_step_in_step:
  assumes "in_step bs e d" and "b \<in> set (ms_mtf e)" and "length bs < size_limit" and "size_limit < 2 ^ 30"
  shows "\<exists>e' new d'. mtf_step b e = Inr e' \<and> ms_syms e' = ms_syms e @ new \<and> apply_symbols size_limit new d = Some d' \<and>
    in_step (bs @ [b]) e' d' \<and> set (ms_mtf e') = set (ms_mtf e) \<and> length (ms_mtf e') = length (ms_mtf e)
    \<and> set new \<subseteq> {..length (ms_mtf e)} \<and> same_groups d' d"
proof -
  obtain i where i: "position b (ms_mtf e) = Some i" using position_in [OF assms(2)] by blast
  then have i': "i < length (ms_mtf e)" "ms_mtf e ! i = b" by (auto simp: position_Some_iff)
  obtain dn where dn: "wrote dn d" "bs = dn @ replicate (ms_zeros e) (hd (ms_mtf e))"
    using assms(1) by (auto simp: in_step_def)
  show ?thesis
  proof (cases "i = 0")
    case True
    then have "b = hd (ms_mtf e)" using i' by (simp add: hd_conv_nth)
    then have "in_step (bs @ [b]) (e\<lparr>ms_zeros := ms_zeros e + 1\<rparr>) d"
      using assms(1) dn by (auto simp: in_step_def replicate_append_same)
    then show ?thesis using i True
      by (intro exI [of _ "e\<lparr>ms_zeros := ms_zeros e + 1\<rparr>"] exI [of _ "[]"] exI [of _ d]) (simp add: mtf_step_def same_groups_def)
  next
    case False
    have d: "ss_run d = 0" "ss_run_bit d = 0" "ss_mtf d = ms_mtf e" "ss_mtf d \<noteq> []"
      using assms(1) by (auto simp: in_step_def)
    have len: "length dn + ms_zeros e \<le> size_limit" using assms(3) dn(2) by simp
    obtain t u where t: "apply_symbols size_limit (zero_run (ms_zeros e)) d = Some t" "flush_run size_limit 0 t = Inr u"
      "wrote (dn @ replicate (ms_zeros e) (hd (ss_mtf d))) u" "u = d\<lparr>ss_tt := ss_tt u, ss_counts := ss_counts u\<rparr>"
      using flush_after_run [OF dn(1) d(1,2,4) len assms(4), of 0] by blast
    let ?e = "\<lparr>ms_mtf = move_front (ms_mtf e) i, ms_zeros = 0, ms_syms = flush_zero_run (ms_syms e) (ms_zeros e) @ [i + 1]\<rparr>"
    let ?v = "push_bytes (ss_mtf u ! i) 1 (u\<lparr>ss_mtf := move_front (ss_mtf u) i\<rparr>)"
    have u: "ss_mtf u = ms_mtf e" "ss_run u = 0" "ss_run_bit u = 0" using t(4) d by (metis symbol_state.select_convs symbol_state.surjective symbol_state.update_convs)+
    have wu: "wrote bs u" using t(3) dn(2) d(3) by simp
    then have "put_symbol size_limit 0 (i + 1) u = Inr ?v"
      using i' u assms(3) length_wrote [OF wu] by (simp add: put_symbol_def)
    then have "apply_symbol size_limit 0 (i + 1) t = Inr ?v"
      using False t(2) by (simp add: apply_symbol_def)
    then have "apply_symbols size_limit (zero_run (ms_zeros e) @ [i + 1]) d = Some ?v"
      using t(1) by (simp add: apply_symbols_append)
    moreover have "mtf_step b e = Inr ?e" using i False by (simp add: mtf_step_def)
    moreover have "wrote (bs @ [b]) ?v"
      using wrote_push [of bs "u\<lparr>ss_mtf := move_front (ss_mtf u) i\<rparr>" 1 b] wu i' u by (simp add: wrote_def)
    then have "in_step (bs @ [b]) ?e ?v"
      using u i' by (auto simp: in_step_def push_bytes_def move_front_def)
    moreover have "same_groups ?v d"
      using t(4) by (simp add: same_groups_def push_bytes_def)
        (metis symbol_state.select_convs symbol_state.surjective symbol_state.update_convs)
    moreover have "set (zero_run (ms_zeros e)) \<subseteq> {..length (ms_mtf e)}"
      using zero_run_digits [of _ "ms_zeros e"] i' by fastforce
    ultimately show ?thesis
      using i' by (intro exI [of _ ?e] exI [of _ "zero_run (ms_zeros e) @ [i + 1]"] exI [of _ ?v])
        (simp add: flush_zero_run_def set_move_front)
  qed
qed

lemma mtf_loop_in_step:
  assumes "in_step bs e d" and "set cs \<subseteq> set (ms_mtf e)" and "length bs + length cs \<le> size_limit" and "size_limit < 2 ^ 30"
  shows "\<exists>e' new d'. mtf_loop cs e = Inr e' \<and> ms_syms e' = ms_syms e @ new \<and> apply_symbols size_limit new d = Some d' \<and>
    in_step (bs @ cs) e' d' \<and> set new \<subseteq> {..length (ms_mtf e)} \<and> same_groups d' d"
  using assms(1-3)
proof (induction cs arbitrary: bs e d)
  case Nil
  then show ?case by (simp add: same_groups_def)
next
  case (Cons c cs)
  obtain e1 new1 d1 where 1: "mtf_step c e = Inr e1" "ms_syms e1 = ms_syms e @ new1" "apply_symbols size_limit new1 d = Some d1"
    "in_step (bs @ [c]) e1 d1" "set (ms_mtf e1) = set (ms_mtf e)" "length (ms_mtf e1) = length (ms_mtf e)"
    "set new1 \<subseteq> {..length (ms_mtf e)}" "same_groups d1 d"
    using mtf_step_in_step [OF Cons.prems(1), of c size_limit] Cons.prems(2,3) assms(4) by auto
  obtain e2 new2 d2 where 2: "mtf_loop cs e1 = Inr e2" "ms_syms e2 = ms_syms e1 @ new2" "apply_symbols size_limit new2 d1 = Some d2"
    "in_step ((bs @ [c]) @ cs) e2 d2" "set new2 \<subseteq> {..length (ms_mtf e1)}" "same_groups d2 d1"
    using Cons.IH [OF 1(4)] Cons.prems 1(5) by auto
  have "apply_symbols size_limit (new1 @ new2) d = Some d2" using 1(3) 2(3) by (simp add: apply_symbols_append)
  then show ?case
    using 1 2 by (intro exI [of _ e2] exI [of _ "new1 @ new2"] exI [of _ d2]) (auto simp: same_groups_def)
qed

lemma seen_fold: "length seen = 256 \<Longrightarrow> b < 256 \<Longrightarrow>
  fold (\<lambda>b seen. seen[unat b := True]) block seen ! b = (seen ! b \<or> word_of_nat b \<in> set (block :: bytes))"
proof (induction block arbitrary: seen)
  case (Cons c block)
  have "unat c = b \<longleftrightarrow> c = word_of_nat b" using Cons.prems by (auto simp: unat_of_nat word_unat_eq_iff)
  then show ?case using Cons by (auto simp: nth_list_update)
qed simp

lemma set_in_use: "set (in_use block) = set block"
proof -
  have "b \<in> set (in_use block) \<longleftrightarrow> b \<in> set block" for b
  proof -
    have "b \<in> set (in_use block) \<longleftrightarrow> (\<exists>n<256. b = word_of_nat n \<and> word_of_nat n \<in> set block)"
      by (auto simp: in_use_def Let_def seen_fold)
    also have "\<dots> \<longleftrightarrow> b \<in> set block"
      using unat_byte_less [of b] by (auto intro: exI [of _ "unat b"])
    finally show ?thesis .
  qed
  then show ?thesis by blast
qed

lemma in_use_alphabet: "in_use block = alphabet_of (map (\<lambda>b. word_of_nat b \<in> set block) [0..<256])"
proof -
  have "filter (\<lambda>b. fold (\<lambda>b seen. seen[unat b := True]) block (replicate 256 False) ! b) [0..<256] =
      filter (\<lambda>b. map (\<lambda>b. word_of_nat b \<in> set block) [0..<256] ! b) [0..<256]"
    by (rule filter_cong) (simp_all add: seen_fold del: replicate.simps)
  then show ?thesis by (simp only: in_use_def alphabet_of_def Let_def)
qed

lemma counts_start: "wrote [] (symbol_start alphabet)"
  by (simp add: wrote_def symbol_start_def counts_ok_def tt_bytes_def nth_Cons')

text \<open>The encoder never fails, and its symbols, applied by the decoder, give the block back.\<close>

lemma mtf_encode_decodes:
  assumes "block \<noteq> []" and "length block \<le> size_limit" and "size_limit < 2 ^ 30"
  shows "\<exists>syms s t. mtf_encode block = Inr \<lparr>sy_in_use = in_use block, sy_syms = syms @ [length (in_use block) + 1]\<rparr> \<and>
    apply_symbols size_limit syms (symbol_start (in_use block)) = Some s \<and>
    flush_run size_limit pos s = Inr t \<and> wrote block t \<and> set syms \<subseteq> {..length (in_use block)}"
proof -
  let ?e = "\<lparr>ms_mtf = in_use block, ms_zeros = 0, ms_syms = []\<rparr>" and ?d = "symbol_start (in_use block)"
  have ne: "in_use block \<noteq> []" using set_in_use [of block] assms(1) by (metis set_empty)
  have start: "in_step [] ?e ?d" using ne counts_start by (auto simp: in_step_def symbol_start_def)
  obtain e new d where l: "mtf_loop block ?e = Inr e" "ms_syms e = new" "apply_symbols size_limit new ?d = Some d"
    "in_step block e d" "set new \<subseteq> {..length (in_use block)}"
    using mtf_loop_in_step [OF start, of block size_limit] set_in_use [of block] assms(2,3) by auto
  obtain dn where dn: "wrote dn d" "block = dn @ replicate (ms_zeros e) (hd (ms_mtf e))"
    using l(4) by (auto simp: in_step_def)
  have d: "ss_run d = 0" "ss_run_bit d = 0" "ss_mtf d = ms_mtf e" "ss_mtf d \<noteq> []" using l(4) by (auto simp: in_step_def)
  have "length dn + ms_zeros e \<le> size_limit" using assms(2) dn(2) by (metis length_append length_replicate)
  then obtain t u where t: "apply_symbols size_limit (zero_run (ms_zeros e)) d = Some t" "flush_run size_limit pos t = Inr u"
    "wrote (dn @ replicate (ms_zeros e) (hd (ss_mtf d))) u"
    using flush_after_run [OF dn(1) d(1,2,4) _ assms(3), of "ms_zeros e" pos] by blast
  have "apply_symbols size_limit (new @ zero_run (ms_zeros e)) ?d = Some t" using l(3) t(1) by (simp add: apply_symbols_append)
  moreover have "wrote block u" using t(3) dn(2) d(3) by simp
  moreover have "mtf_encode block = Inr \<lparr>sy_in_use = in_use block, sy_syms = (new @ zero_run (ms_zeros e)) @ [length (in_use block) + 1]\<rparr>"
    using l(1,2) by (simp add: mtf_encode_def Let_def flush_zero_run_def)
  moreover have "set (new @ zero_run (ms_zeros e)) \<subseteq> {..length (in_use block)}"
  proof -
    have "1 \<le> length (in_use block)" using ne by (simp add: Suc_le_eq)
    then have "set (zero_run (ms_zeros e)) \<subseteq> {..length (in_use block)}"
      using zero_run_digits [of _ "ms_zeros e"] by (meson atMost_iff le_trans subsetI)
    then show ?thesis using l(5) by simp
  qed
  ultimately show ?thesis using t(2) by blast
qed

text \<open>C25. Move-to-front and the zero-run code are undone by the decoder: for every non-empty block within the
  block size the encoder succeeds, and applying its symbols to the decoder's initial state, then
  flushing the last run at the end-of-block symbol, rebuilds exactly the block.\<close>

theorem mtf_roundtrip:
  assumes "block \<noteq> []" and "length block \<le> size_limit" and "size_limit < 2 ^ 30"
  shows "\<exists>syms s t. mtf_encode block = Inr \<lparr>sy_in_use = in_use block, sy_syms = syms @ [length (in_use block) + 1]\<rparr> \<and>
    apply_symbols size_limit syms (symbol_start (in_use block)) = Some s \<and>
    flush_run size_limit pos s = Inr t \<and> ss_tt t = map ucast block"
  using mtf_encode_decodes [OF assms, of pos] by (auto simp: wrote_def tt_bytes_def)

theorem mtf_roundtrip_witness:
  "\<exists>syms s t. mtf_encode [5, 5, 9, 5] = Inr \<lparr>sy_in_use = in_use [5, 5, 9, 5], sy_syms = syms @ [length (in_use [5, 5, 9, 5]) + 1]\<rparr> \<and>
    apply_symbols 100 syms (symbol_start (in_use [5, 5, 9, 5])) = Some s \<and>
    flush_run 100 0 s = Inr t \<and> ss_tt t = map ucast ([5, 5, 9, 5] :: bytes)"
  by (rule mtf_roundtrip) simp_all

end
