(* ===== verification/Rle1.thy ===== *)
theory Rle1
  imports Bz2_Decoder
begin

text \<open>
  The first run-length stage of the block encoder, \<open>src/bz2_encode/rle1.rs\<close>: the splitter that cuts
  the input into runs of at most 259 equal bytes as it arrives, and the encoded form of a run. The
  decoder's tail loop (\<open>walk_byte\<close>) is shown to undo it.
\<close>

section \<open>The code\<close>

definition MAX_RUN :: nat where "MAX_RUN = 4 + 255"

record run_group =
  rg_byte :: byte
  rg_raw_len :: nat

definition encoded_len :: "run_group \<Rightarrow> nat" where
  "encoded_len g = (if rg_raw_len g \<ge> 4 then 5 else rg_raw_len g)"

definition write_into :: "run_group \<Rightarrow> bytes \<Rightarrow> bytes" where
  "write_into g out =
     (let b = rg_byte g in
      if rg_raw_len g \<ge> 4 then out @ [b, b, b, b] @ [word_of_nat (rg_raw_len g - 4)]
      else out @ replicate (rg_raw_len g) b)"

record splitter =
  sp_byte :: byte
  sp_len :: nat

definition splitter_new :: splitter where
  "splitter_new = \<lparr>sp_byte = 0, sp_len = 0\<rparr>"

definition splitter_take :: "splitter \<Rightarrow> run_group option \<times> splitter" where
  "splitter_take s =
     (if sp_len s = 0 then (None, s) else (Some \<lparr>rg_byte = sp_byte s, rg_raw_len = sp_len s\<rparr>, s\<lparr>sp_len := 0\<rparr>))"

definition splitter_push :: "byte \<Rightarrow> splitter \<Rightarrow> run_group option \<times> splitter" where
  "splitter_push b s =
     (if sp_len s > 0 \<and> b = sp_byte s \<and> sp_len s < MAX_RUN then (None, s\<lparr>sp_len := sp_len s + 1\<rparr>)
      else (let taken = splitter_take s in (fst taken, (snd taken)\<lparr>sp_byte := b, sp_len := 1\<rparr>)))"

definition splitter_finish :: "splitter \<Rightarrow> run_group option \<times> splitter" where
  "splitter_finish s = splitter_take s"

section \<open>The groups of an input\<close>

definition run_of :: "run_group \<Rightarrow> bytes" where
  "run_of g = replicate (rg_raw_len g) (rg_byte g)"

definition encoding_of :: "run_group \<Rightarrow> bytes" where
  "encoding_of g = write_into g []"

lemma write_into_eq: "write_into g out = out @ encoding_of g"
  by (simp add: write_into_def encoding_of_def Let_def)

lemma length_encoding_of: "length (encoding_of g) = encoded_len g"
  by (simp add: encoding_of_def write_into_def encoded_len_def Let_def)

definition group_ok :: "run_group \<Rightarrow> bool" where
  "group_ok g \<longleftrightarrow> 0 < rg_raw_len g \<and> rg_raw_len g \<le> MAX_RUN"

text \<open>A group may be followed by one of the same byte only after a count byte.\<close>

definition may_follow :: "run_group \<Rightarrow> run_group \<Rightarrow> bool" where
  "may_follow g h \<longleftrightarrow> rg_byte g = rg_byte h \<longrightarrow> rg_raw_len g = MAX_RUN"

fun groups_ok :: "run_group list \<Rightarrow> bool" where
  "groups_ok [] \<longleftrightarrow> True"
| "groups_ok [g] \<longleftrightarrow> group_ok g"
| "groups_ok (g # h # gs) \<longleftrightarrow> group_ok g \<and> may_follow g h \<and> groups_ok (h # gs)"

lemma groups_ok_append:
  "groups_ok (xs @ ys) \<longleftrightarrow> groups_ok xs \<and> groups_ok ys \<and> (xs \<noteq> [] \<and> ys \<noteq> [] \<longrightarrow> may_follow (last xs) (hd ys))"
  by (induction xs rule: groups_ok.induct; cases ys) auto

text \<open>The groups emitted so far with the one still open in the splitter.\<close>

definition open_group :: "splitter \<Rightarrow> run_group list" where
  "open_group s = (if sp_len s = 0 then [] else [\<lparr>rg_byte = sp_byte s, rg_raw_len = sp_len s\<rparr>])"

definition option_list :: "'a option \<Rightarrow> 'a list" where
  "option_list x = (case x of None \<Rightarrow> [] | Some y \<Rightarrow> [y])"

lemma option_list_simps [simp]: "option_list None = []" "option_list (Some x) = [x]"
  by (simp_all add: option_list_def)

lemma splitter_push_groups:
  assumes "groups_ok (gs @ open_group s)" and "sp_len s = 0 \<Longrightarrow> gs = []"
  shows "groups_ok ((gs @ option_list (fst (splitter_push b s))) @ open_group (snd (splitter_push b s)))"
    and "concat (map run_of ((gs @ option_list (fst (splitter_push b s))) @ open_group (snd (splitter_push b s)))) =
      concat (map run_of (gs @ open_group s)) @ [b]"
proof -
  show "concat (map run_of ((gs @ option_list (fst (splitter_push b s))) @ open_group (snd (splitter_push b s)))) =
      concat (map run_of (gs @ open_group s)) @ [b]"
    by (auto simp: splitter_push_def splitter_take_def open_group_def run_of_def Let_def replicate_append_same)
  show "groups_ok ((gs @ option_list (fst (splitter_push b s))) @ open_group (snd (splitter_push b s)))"
  proof (cases "sp_len s > 0 \<and> b = sp_byte s \<and> sp_len s < MAX_RUN")
    case True
    then show ?thesis using assms
      by (auto simp: splitter_push_def open_group_def groups_ok_append group_ok_def may_follow_def)
  next
    case False
    then show ?thesis using assms
      by (cases "sp_len s = 0")
        (auto simp: splitter_push_def splitter_take_def open_group_def groups_ok_append group_ok_def may_follow_def MAX_RUN_def Let_def)
  qed
qed

lemma splitter_push_open: "0 < sp_len (snd (splitter_push b s))"
  by (simp add: splitter_push_def splitter_take_def Let_def)

lemma splitter_finish_groups: "option_list (fst (splitter_finish s)) = open_group s"
  by (simp add: splitter_finish_def splitter_take_def open_group_def)

text \<open>All groups of an input: what the pushes return, then what \<open>finish\<close> returns.\<close>

fun split_groups :: "bytes \<Rightarrow> splitter \<Rightarrow> run_group list" where
  "split_groups [] s = option_list (fst (splitter_finish s))"
| "split_groups (b # bs) s = option_list (fst (splitter_push b s)) @ split_groups bs (snd (splitter_push b s))"

lemma split_groups_ok:
  assumes "groups_ok (gs @ open_group s)" and "sp_len s = 0 \<Longrightarrow> gs = []"
  shows "groups_ok (gs @ split_groups bs s) \<and>
    concat (map run_of (gs @ split_groups bs s)) = concat (map run_of (gs @ open_group s)) @ bs"
  using assms
proof (induction bs arbitrary: gs s)
  case (Cons b bs)
  then show ?case
    using splitter_push_groups [OF Cons.prems, of b] splitter_push_open [of b s]
      Cons.IH [of "gs @ option_list (fst (splitter_push b s))" "snd (splitter_push b s)"] by simp
qed (simp add: splitter_finish_groups)

lemma split_groups_input:
  "groups_ok (split_groups bs splitter_new)" "concat (map run_of (split_groups bs splitter_new)) = bs"
  using split_groups_ok [of "[]" splitter_new bs] by (simp_all add: splitter_new_def open_group_def)

section \<open>The decoder's tail loop undoes the encoding\<close>

fun walk_bytes :: "nat \<Rightarrow> nat \<Rightarrow> bytes \<Rightarrow> walk_state \<Rightarrow> error + walk_state" where
  "walk_bytes max_output off [] w = Inr w"
| "walk_bytes max_output off (b # bs) w = and_then (walk_byte max_output off b w) (walk_bytes max_output off bs)"

lemma walk_bytes_append:
  "walk_bytes m off (xs @ ys) w = and_then (walk_bytes m off xs w) (walk_bytes m off ys)"
proof (induction xs arbitrary: w)
  case (Cons b bs)
  then show ?case by (cases "walk_byte m off b w") simp_all
qed simp

definition walk_start :: walk_state where
  "walk_start = \<lparr>w_previous = None, w_repeated = 0, w_output = []\<rparr>"

definition after_group :: "run_group \<Rightarrow> bytes \<Rightarrow> walk_state" where
  "after_group g out =
     \<lparr>w_previous = (if rg_raw_len g \<ge> 4 then None else Some (rg_byte g)),
      w_repeated = (if rg_raw_len g \<ge> 4 then 0 else rg_raw_len g), w_output = out @ run_of g\<rparr>"

lemma walk_same:
  assumes "k \<le> 4" and "n + k \<le> 4" and "length out + n \<le> m" and "0 < k"
  shows "walk_bytes m off (replicate n b) \<lparr>w_previous = Some b, w_repeated = k, w_output = out\<rparr> =
    Inr \<lparr>w_previous = Some b, w_repeated = k + n, w_output = out @ replicate n b\<rparr>"
  using assms by (induction n arbitrary: k out) (simp_all add: walk_byte_def)

lemma walk_fresh:
  assumes "w_repeated w < 4" and "w_previous w \<noteq> Some b" and "0 < n" and "n \<le> 4" and "length (w_output w) + n \<le> m"
  shows "walk_bytes m off (replicate n b) w = Inr \<lparr>w_previous = Some b, w_repeated = n, w_output = w_output w @ replicate n b\<rparr>"
proof -
  obtain k where k: "n = Suc k" using assms(3) gr0_conv_Suc by blast
  have "walk_byte m off b w = Inr \<lparr>w_previous = Some b, w_repeated = 1, w_output = w_output w @ [b]\<rparr>"
    using assms k by (simp add: walk_byte_def)
  then show ?thesis using walk_same [of 1 k "w_output w @ [b]" m off b] assms k by simp
qed

lemma walk_group:
  assumes "group_ok g" and "w_repeated w < 4" and "w_previous w \<noteq> Some (rg_byte g)"
    and "length (w_output w) + rg_raw_len g \<le> m"
  shows "walk_bytes m off (encoding_of g) w = Inr (after_group g (w_output w))"
proof (cases "rg_raw_len g \<ge> 4")
  case False
  then show ?thesis
    using walk_fresh [of w "rg_byte g" "rg_raw_len g" m off] assms
    by (simp add: encoding_of_def write_into_def after_group_def run_of_def group_ok_def Let_def)
next
  case True
  let ?b = "rg_byte g" and ?extra = "rg_raw_len g - 4"
  have four: "[?b, ?b, ?b, ?b] = replicate 4 ?b" by (simp add: numeral_eq_Suc)
  have extra: "unat (word_of_nat ?extra :: byte) = ?extra"
    using assms(1) by (auto simp: group_ok_def MAX_RUN_def unat_of_nat)
  have "walk_bytes m off (replicate 4 ?b) w = Inr \<lparr>w_previous = Some ?b, w_repeated = 4, w_output = w_output w @ replicate 4 ?b\<rparr>"
    using assms True by (intro walk_fresh) simp_all
  moreover have "replicate 4 ?b @ replicate ?extra ?b = replicate (rg_raw_len g) ?b"
    using True by (simp flip: replicate_add)
  moreover have "encoding_of g = replicate 4 ?b @ [word_of_nat ?extra]"
    using True by (simp add: encoding_of_def write_into_def Let_def four del: replicate.simps)
  ultimately show ?thesis
    using True assms(4) extra
    by (simp add: walk_bytes_append walk_byte_def after_group_def run_of_def Let_def)
qed

lemma walk_groups:
  assumes "groups_ok gs" and "w_repeated w < 4" and "gs \<noteq> [] \<Longrightarrow> w_previous w \<noteq> Some (rg_byte (hd gs))"
    and "length (w_output w) + length (concat (map run_of gs)) \<le> m"
  shows "\<exists>w'. walk_bytes m off (concat (map encoding_of gs)) w = Inr w' \<and>
    w_output w' = w_output w @ concat (map run_of gs)"
  using assms
proof (induction gs arbitrary: w rule: groups_ok.induct)
  case (2 g)
  then show ?case using walk_group [of g w m off] by (simp add: after_group_def run_of_def)
next
  case (3 g h gs)
  have g: "walk_bytes m off (encoding_of g) w = Inr (after_group g (w_output w))"
    using 3 by (intro walk_group) (simp_all add: run_of_def)
  let ?w = "after_group g (w_output w)"
  have "w_repeated ?w < 4" by (simp add: after_group_def)
  moreover have "w_previous ?w \<noteq> Some (rg_byte h)"
    using "3.prems"(1) by (auto simp: after_group_def may_follow_def MAX_RUN_def)
  ultimately have "\<exists>w'. walk_bytes m off (concat (map encoding_of (h # gs))) ?w = Inr w' \<and>
      w_output w' = w_output ?w @ concat (map run_of (h # gs))"
    using "3.prems" by (intro "3.IH") (simp_all add: after_group_def)
  then show ?case using g by (simp add: walk_bytes_append after_group_def)
qed simp

text \<open>A run of the input takes at least five bytes of every 259 it stands for.\<close>

lemma raw_bound: "groups_ok gs \<Longrightarrow> 5 * length (concat (map run_of gs)) \<le> 259 * length (concat (map encoding_of gs))"
proof (induction gs rule: groups_ok.induct)
  case (2 g)
  then show ?case by (simp add: length_encoding_of run_of_def encoded_len_def group_ok_def MAX_RUN_def)
next
  case (3 g h gs)
  have "5 * length (run_of g) \<le> 259 * length (encoding_of g)"
    using 3 by (simp add: length_encoding_of run_of_def encoded_len_def group_ok_def MAX_RUN_def)
  then show ?case using 3 by (simp del: length_concat)
qed simp

text \<open>C24. The first run-length stage is undone by the decoder's tail loop: for every input, the encoded
  runs the splitter produces decode to the input again, without a spurious overflow as long as the
  input itself fits the output limit.\<close>

theorem rle1_roundtrip:
  assumes "length data \<le> max_output"
  shows "\<exists>w. walk_bytes max_output off (concat (map encoding_of (split_groups data splitter_new))) walk_start = Inr w
    \<and> w_output w = data"
  using walk_groups [of "split_groups data splitter_new" walk_start max_output off] split_groups_input [of data] assms
  by (simp add: walk_start_def)

theorem rle1_roundtrip_witness:
  "\<exists>w. walk_bytes 10 0 (concat (map encoding_of (split_groups [7, 7, 7, 7, 7, 7, 1] splitter_new))) walk_start = Inr w
    \<and> w_output w = [7, 7, 7, 7, 7, 7, 1]"
  by (rule rle1_roundtrip) simp

end
