(* ===== verification/Bwt_Inverse.thy ===== *)
theory Bwt_Inverse
  imports Bwt Mtf Rle1 "HOL-Library.List_Lexorder" "HOL-Library.Multiset" "HOL-Library.Code_Target_Nat"
begin

text \<open>
  The block sort as bzip2 specifies it, the sorted rotations of the block with the last column and
  the row of the block itself, and the proof that the decoder's linking and walk (\<open>link\<close>, \<open>walk\<close>)
  invert it, periodic blocks included. The encoder's transform produces such a column whenever its
  suffix array is one (\<open>suffix_array\<close>).
\<close>

section \<open>Sorted rotations\<close>

definition sorted_rotations :: "'a::linorder list \<Rightarrow> 'a list list \<Rightarrow> bool" where
  "sorted_rotations block rows \<longleftrightarrow> sorted rows \<and> mset rows = mset (map (\<lambda>i. rotate i block) [0..<length block])"

definition rotate_back :: "'a list \<Rightarrow> 'a list" where
  "rotate_back xs = last xs # butlast xs"

lemma rotate1_back: "xs \<noteq> [] \<Longrightarrow> rotate1 (rotate_back xs) = xs"
  by (simp add: rotate_back_def)

lemma rotate_back_rotate1: "xs \<noteq> [] \<Longrightarrow> rotate_back (rotate1 xs) = xs"
  by (cases xs) (simp_all add: rotate_back_def)

lemma rotations_closed:
  assumes "block \<noteq> []"
  shows "mset (map rotate_back (map (\<lambda>i. rotate i block) [0..<length block])) = mset (map (\<lambda>i. rotate i block) [0..<length block])"
proof -
  obtain m where m: "length block = Suc m" using assms by (cases "length block") auto
  have prev: "rotate_back (rotate (Suc i) block) = rotate i block" for i
    using rotate_back_rotate1 [of "rotate i block"] assms by simp
  note prev1 = prev [unfolded rotate_Suc]
  have zero: "rotate_back (rotate 0 block) = rotate m block"
    using prev [of m] m by (metis rotate_id mod_self rotate0 id_apply rotate_conv_mod)
  have "[0..<length block] = 0 # map Suc [0..<m]" using m by (simp add: upt_conv_Cons map_Suc_upt)
  then have "map rotate_back (map (\<lambda>i. rotate i block) [0..<length block]) = rotate m block # map (\<lambda>i. rotate i block) [0..<m]"
    using zero prev1 by simp
  then show ?thesis using m by simp
qed

section \<open>The order of the first column\<close>

text \<open>\<open>first_order L\<close> lists the rows by their last byte, equal bytes in the order of the rows.\<close>

definition column_values :: "bytes \<Rightarrow> nat list" where
  "column_values col = map unat col"

definition first_order :: "bytes \<Rightarrow> nat list" where
  "first_order col = concat (map (symbols_of_length (column_values col)) [0..<256])"

definition target_of :: "bytes \<Rightarrow> nat \<Rightarrow> nat" where
  "target_of col i = shorter (column_values col) (unat (col ! i)) + rank (column_values col) i"

lemma column_values_nth [simp]: "i < length col \<Longrightarrow> column_values col ! i = unat (col ! i)"
  "length (column_values col) = length col"
  by (simp_all add: column_values_def)

lemma first_order_target:
  assumes "i < length col"
  shows "first_order col ! target_of col i = i" "target_of col i < length (first_order col)"
proof -
  let ?v = "column_values col"
  have r: "rank ?v i < count_list ?v (unat (col ! i))"
    using assms count_take_mono [of "Suc i" "length ?v" ?v "unat (col ! i)"] by (simp add: rank_def count_take_Suc)
  note c = concat_symbols_nth [of ?v 0 "unat (col ! i)" 256 "rank ?v i", OF _ _ _ r]
  show "first_order col ! target_of col i = i"
    using c(1) symbols_rank [of i ?v] assms unat_byte_less [of "col ! i"] by (simp add: first_order_def target_of_def)
  show "target_of col i < length (first_order col)"
    using c(2) unat_byte_less [of "col ! i"] by (simp add: first_order_def target_of_def)
qed

lemma first_order_set: "set (first_order col) = {..<length col}"
  using unat_byte_less by (auto simp: first_order_def symbols_of_length_def)

lemma sorted_wrt_first_order:
  "sorted_wrt (\<lambda>i j. unat (col ! i) < unat (col ! j) \<or> unat (col ! i) = unat (col ! j) \<and> i < j) (first_order col)"
proof -
  let ?P = "\<lambda>i j. unat (col ! i) < unat (col ! j) \<or> unat (col ! i) = unat (col ! j) \<and> i < j"
  have in_sym: "i \<in> set (symbols_of_length (column_values col) b) \<longleftrightarrow> i < length col \<and> unat (col ! i) = b" for i b
    by (auto simp: symbols_of_length_def)
  have one: "sorted_wrt ?P (symbols_of_length (column_values col) b)" for b
  proof -
    have "sorted_wrt (<) (symbols_of_length (column_values col) b)"
      unfolding symbols_of_length_def by (rule sorted_wrt_filter) simp
    then show ?thesis by (rule sorted_wrt_mono_rel [rotated]) (auto simp: in_sym)
  qed
  have "sorted_wrt ?P (concat (map (symbols_of_length (column_values col)) [0..<n]))" for n
  proof (induction n)
    case (Suc n)
    have "?P i j" if "i \<in> set (concat (map (symbols_of_length (column_values col)) [0..<n]))"
      "j \<in> set (symbols_of_length (column_values col) n)" for i j
      using that by (auto simp: in_sym)
    then show ?case using Suc one [of n] by (simp add: sorted_wrt_append)
  qed simp
  then show ?thesis by (simp add: first_order_def)
qed

lemma distinct_first_order: "distinct (first_order col)"
proof -
  have "sorted_wrt (\<noteq>) (first_order col)" using sorted_wrt_first_order by (rule sorted_wrt_mono_rel [rotated]) auto
  then show ?thesis unfolding distinct_conv_nth sorted_wrt_iff_nth_less by (metis nat_neq_iff)
qed

lemma length_first_order [simp]: "length (first_order col) = length col"
  using distinct_card [OF distinct_first_order, of col] first_order_set [of col] by simp

lemma target_first_order:
  assumes "j < length col"
  shows "target_of col (first_order col ! j) = j"
proof -
  have "first_order col ! j < length col" using assms first_order_set [of col] nth_mem [of j "first_order col"] by auto
  then show ?thesis
    using first_order_target [of "first_order col ! j" col] distinct_first_order [of col] assms
    by (simp add: nth_eq_iff_index_eq)
qed

section \<open>Stepping through the rows\<close>

lemma snoc_le:
  fixes xs ys :: "'a::linorder list"
  shows "length xs = length ys \<Longrightarrow> xs @ [c] \<le> ys @ [d] \<Longrightarrow> xs \<le> ys"
  by (induction xs ys rule: list_induct2) auto

lemma rotate_back_mono:
  fixes xs ys :: "'a::linorder list"
  assumes "length xs = length ys" and "xs \<noteq> []" and "last xs < last ys \<or> last xs = last ys \<and> xs \<le> ys"
  shows "rotate_back xs \<le> rotate_back ys"
proof (cases "last xs < last ys")
  case False
  have "ys \<noteq> []" using assms(1,2) by auto
  then have "xs \<le> ys \<longleftrightarrow> butlast xs @ [last xs] \<le> butlast ys @ [last ys]"
    using assms(2) by (simp only: append_butlast_last_id simp_thms)
  then have "butlast xs @ [last xs] \<le> butlast ys @ [last ys]" using assms(3) False by blast
  then have "butlast xs \<le> butlast ys" using assms(1) by (intro snoc_le [of "butlast xs" "butlast ys"]) simp_all
  then show ?thesis using assms(3) False by (simp add: rotate_back_def)
qed (simp add: rotate_back_def)

lemma first_order_rows:
  fixes block :: bytes
  assumes "block \<noteq> []" and rows: "sorted_rotations block rows" and j: "j < length block"
  shows "rows ! (first_order (map last rows) ! j) = rotate1 (rows ! j)"
proof -
  let ?col = "map last rows"
  let ?order = "first_order ?col"
  have len: "length rows = length block"
    using rows by (metis sorted_rotations_def size_mset length_map length_upt minus_nat.diff_0)
  have row: "r \<in> set rows \<Longrightarrow> length r = length block \<and> r \<noteq> []" for r
  proof -
    assume "r \<in> set rows"
    then have "r \<in> set (map (\<lambda>i. rotate i block) [0..<length block])"
      using rows by (metis sorted_rotations_def set_mset_mset)
    then show ?thesis using assms(1) by auto
  qed
  define next_rows where "next_rows = map (\<lambda>i. rotate_back (rows ! i)) ?order"
  have in_range: "i \<in> set ?order \<Longrightarrow> i < length rows" for i using first_order_set [of ?col] by auto
  have "sorted next_rows"
    unfolding next_rows_def sorted_wrt_map
  proof (rule sorted_wrt_mono_rel [OF _ sorted_wrt_first_order])
    fix i k
    assume ik: "i \<in> set ?order" "k \<in> set ?order"
      and less: "unat (?col ! i) < unat (?col ! k) \<or> unat (?col ! i) = unat (?col ! k) \<and> i < k"
    have i: "i < length rows" "k < length rows" using in_range ik by simp_all
    have "rows ! i \<le> rows ! k" if "i < k"
      using rows that i by (simp add: sorted_rotations_def sorted_nth_mono)
    then show "rotate_back (rows ! i) \<le> rotate_back (rows ! k)"
      using row [of "rows ! i"] row [of "rows ! k"] i less
      by (intro rotate_back_mono) (auto simp: word_less_nat_alt word_unat_eq_iff)
  qed
  moreover have "mset next_rows = mset rows"
  proof -
    have "mset ?order = mset [0..<length rows]"
      using distinct_first_order [of ?col] first_order_set [of ?col]
      by (intro set_eq_iff_mset_eq_distinct [THEN iffD1]) (auto simp: atLeast0LessThan)
    then have "mset next_rows = image_mset (\<lambda>i. rotate_back (rows ! i)) (mset [0..<length rows])"
      by (simp add: next_rows_def)
    also have "\<dots> = mset (map rotate_back (map ((!) rows) [0..<length rows]))" by (simp add: image_mset.compositionality comp_def)
    also have "\<dots> = image_mset rotate_back (mset rows)" by (simp add: map_nth)
    also have "\<dots> = mset (map rotate_back (map (\<lambda>i. rotate i block) [0..<length block]))"
      using rows by (simp add: sorted_rotations_def image_mset.compositionality comp_def)
    also have "\<dots> = mset rows" using rotations_closed [OF assms(1)] rows by (simp add: sorted_rotations_def)
    finally show ?thesis .
  qed
  ultimately have "next_rows = rows"
    using rows by (metis sorted_rotations_def properties_for_sort)
  then have "rows ! j = rotate_back (rows ! (?order ! j))"
    using j len by (metis next_rows_def nth_map length_map length_first_order)
  moreover have "rows ! (?order ! j) \<noteq> []"
    using in_range [of "?order ! j"] j len row by simp
  ultimately show ?thesis by (simp add: rotate1_back)
qed

section \<open>Linking\<close>

definition entry_of :: "byte \<Rightarrow> nat \<Rightarrow> u32" where
  "entry_of b i = ucast b OR push_bit 8 (word_of_nat i)"

lemma entry_byte: "entry_of b i AND 0xff = ucast b"
proof -
  have m: "(0xff :: u32) = mask 8" by (simp add: mask_eq_exp_minus_1)
  show ?thesis unfolding m
    by (intro bit_word_eqI) (auto simp: entry_of_def bit_simps dest: bit_imp_le_length)
qed

lemma entry_ucast: "ucast (entry_of b i) = b"
  by (intro bit_word_eqI) (auto simp: entry_of_def bit_simps)

lemma entry_position:
  assumes "i < 2 ^ 24"
  shows "unat (drop_bit 8 (entry_of b i)) = i"
proof -
  have "drop_bit 8 (ucast b :: u32) = 0"
    by (intro bit_word_eqI) (auto simp: bit_simps dest: bit_imp_le_length)
  moreover have "drop_bit 8 (push_bit 8 (word_of_nat i :: u32)) = word_of_nat i"
  proof (intro bit_word_eqI)
    fix n assume "n < LENGTH(32)"
    have "\<not> bit i n" if "24 \<le> n"
      using assms that by (metis bit_take_bit_iff take_bit_nat_eq_self_iff not_less)
    then show "bit (drop_bit 8 (push_bit 8 (word_of_nat i :: u32))) n = bit (word_of_nat i :: u32) n"
      by (auto simp: bit_simps) (metis not_less add.commute)
  qed
  ultimately have "drop_bit 8 (entry_of b i) = word_of_nat i" by (simp only: entry_of_def drop_bit_or or.left_neutral)
  then show ?thesis using assms by (simp add: unat_of_nat)
qed

lemma entry_ucast_byte: "(ucast b :: u32) OR 0 = ucast b" by simp

definition linked :: "bytes \<Rightarrow> nat \<Rightarrow> u32 list" where
  "linked col k = map (\<lambda>j. if first_order col ! j < k then entry_of (col ! j) (first_order col ! j) else ucast (col ! j)) [0..<length col]"

lemma length_linked [simp]: "length (linked col k) = length col"
  by (simp add: linked_def)

definition link_counts :: "bytes \<Rightarrow> nat \<Rightarrow> nat list \<Rightarrow> bool" where
  "link_counts col k c \<longleftrightarrow> length c = 257 \<and>
     (\<forall>b<256. c ! b = shorter (column_values col) b + count_list (take k (column_values col)) b)"

lemma link_step_result:
  assumes k: "k < length col" and c: "link_counts col k c"
  shows "\<exists>c'. link_step k (linked col k, c) = Inr (linked col (Suc k), c') \<and> link_counts col (Suc k) c'"
proof -
  let ?b = "unat (col ! k)" and ?t = "target_of col k"
  have t: "?t < length col" using first_order_target [of k col] k by simp
  have b: "?b < 256" by (rule unat_byte_less)
  have "linked col k ! k = ucast (col ! k) \<or> linked col k ! k = entry_of (col ! k) (first_order col ! k)"
    using k by (simp add: linked_def)
  then have entry: "unat (linked col k ! k AND 0xff) = ?b"
    using entry_byte [of "col ! k" 0] entry_byte [of "col ! k" "first_order col ! k"]
    by (auto simp: entry_of_def unat_ucast_up)
  have target: "c ! ?b = ?t"
    using c b k by (simp add: link_counts_def target_of_def rank_def)
  have at: "first_order col ! ?t = k" using first_order_target(1) [OF k] .
  have old: "linked col k ! ?t = ucast (col ! ?t)" using t at by (simp add: linked_def)
  have new: "(linked col k)[?t := linked col k ! ?t OR push_bit 8 (word_of_nat k)] = linked col (Suc k)"
  proof (rule nth_equalityI)
    fix j assume "j < length ((linked col k)[?t := linked col k ! ?t OR push_bit 8 (word_of_nat k)])"
    then have j: "j < length col" by (simp add: linked_def)
    show "(linked col k)[?t := linked col k ! ?t OR push_bit 8 (word_of_nat k)] ! j = linked col (Suc k) ! j"
    proof (cases "j = ?t")
      case True
      then show ?thesis using t at old by (simp add: linked_def entry_of_def)
    next
      case False
      then have "first_order col ! j \<noteq> k" using target_first_order [OF j] by auto
      then show ?thesis using False j by (simp add: linked_def nth_list_update)
    qed
  qed (simp add: linked_def)
  let ?c = "c[?b := ?t + 1]"
  have "link_counts col (Suc k) ?c"
    unfolding link_counts_def
  proof (intro conjI allI impI)
    show "length ?c = 257" using c by (simp add: link_counts_def)
    fix b assume b': "b < (256 :: nat)"
    show "?c ! b = shorter (column_values col) b + count_list (take (Suc k) (column_values col)) b"
      using c b b' k target by (auto simp: link_counts_def nth_list_update take_Suc_conv_app_nth target_of_def rank_def)
  qed
  moreover have "length c = 257" using c by (simp add: link_counts_def)
  then have "?b < length c" using b by linarith
  then have "index c ?b = Inr ?t" using target by simp
  then have "link_step k (linked col k, c) = Inr (linked col (Suc k), ?c)"
    using k t entry new by (simp add: link_step_def Let_def)
  ultimately show ?thesis by blast
qed

lemma link_result:
  assumes "k + n = length col" and "link_counts col k c"
  shows "\<exists>c'. link [k..<length col] (linked col k, c) = Inr (linked col (length col), c')"
  using assms
proof (induction n arbitrary: k c)
  case (Suc n)
  then obtain c' where c': "link_step k (linked col k, c) = Inr (linked col (Suc k), c')" "link_counts col (Suc k) c'"
    using link_step_result [of k col c] by auto
  have "[k..<length col] = k # [Suc k..<length col]" using Suc.prems(1) by (simp add: upt_conv_Cons)
  then show ?case using Suc.IH [of "Suc k" c'] Suc.prems(1) c' by simp
qed simp

lemma count_sums_link:
  assumes "counts_ok col counts"
  shows "link_counts col 0 (count_sums counts)"
proof -
  have len: "length counts = 257" using assms by (simp add: counts_ok_def)
  have at: "counts ! Suc b = count_list (column_values col) b" if "b < 256" for b
  proof -
    have "count_list (map unat col) (unat (word_of_nat b :: byte)) = count_list col (word_of_nat b)"
      by (induction col) (auto simp: word_unat_eq_iff)
    then show ?thesis using assms that by (auto simp: counts_ok_def column_values_def unat_of_nat dest: spec [of _ "word_of_nat b"])
  qed
  have sums: "count_sums counts ! b = (\<Sum>j\<le>b. counts ! j)" if "b < 257" for b
    using prefix_sums [of 257 counts] len that by (simp add: count_sums_def del: upt_Suc)
  have "(\<Sum>j\<le>b. counts ! j) = shorter (column_values col) b" if "b < 256" for b
    using that
  proof (induction b)
    case 0
    then show ?case using assms by (simp add: counts_ok_def shorter_def)
  next
    case (Suc b)
    then show ?case using at [of b] by (simp add: shorter_Suc)
  qed
  then show ?thesis using sums len prefix_sums [of 257 counts] by (simp add: link_counts_def count_sums_def del: upt_Suc)
qed

section \<open>The walk\<close>

lemma walk_linked:
  assumes len: "length col < 2 ^ 24" and p: "unat at < length col"
  shows "walk (linked col (length col)) m off n at w =
    walk_bytes m off (map (\<lambda>i. col ! ((\<lambda>p. first_order col ! p) ^^ i) (unat at)) [0..<n]) w"
  using p
proof (induction n arbitrary: at w)
  case (Suc n)
  let ?next = "first_order col ! unat at"
  have in_range: "first_order col ! unat at < length col"
    using first_order_set [of col] nth_mem [of "unat at" "first_order col"] Suc.prems(1) by auto
  have entry: "linked col (length col) ! unat at = entry_of (col ! unat at) ?next"
    using Suc.prems(1) in_range by (simp add: linked_def)
  have pos: "unat (drop_bit 8 (entry_of (col ! unat at) ?next)) = ?next"
    using in_range len by (intro entry_position) simp
  have "[0..<Suc n] = 0 # map Suc [0..<n]" by (simp add: upt_conv_Cons map_Suc_upt del: upt_Suc)
  then have "map (\<lambda>i. col ! ((\<lambda>p. first_order col ! p) ^^ i) (unat at)) [0..<Suc n] =
      col ! unat at # map (\<lambda>i. col ! ((\<lambda>p. first_order col ! p) ^^ i) ?next) [0..<n]"
    by (simp add: funpow_swap1 del: upt_Suc)
  moreover have "\<And>w'. walk (linked col (length col)) m off n (drop_bit 8 (entry_of (col ! unat at) ?next)) w' =
      walk_bytes m off (map (\<lambda>i. col ! ((\<lambda>p. first_order col ! p) ^^ i) ?next) [0..<n]) w'"
    using Suc.IH [of "drop_bit 8 (entry_of (col ! unat at) ?next)"] in_range
    by (simp only: pos funpow_swap1 funpow.simps comp_def Suc_less_eq)
  then have "walk (linked col (length col)) m off n (drop_bit 8 (entry_of (col ! unat at) ?next)) =
      walk_bytes m off (map (\<lambda>i. col ! ((\<lambda>p. first_order col ! p) ^^ i) ?next) [0..<n])" by blast
  ultimately show ?case using Suc.prems(1) entry by (simp add: entry_ucast del: upt_Suc)
qed simp

lemma length_rows: "sorted_rotations block rows \<Longrightarrow> length rows = length block"
  by (metis sorted_rotations_def size_mset length_map length_upt minus_nat.diff_0)

lemma last_rotate:
  assumes "xs \<noteq> []"
  shows "last (rotate (Suc i) xs) = xs ! (i mod length xs)"
proof -
  have "rotate i xs \<noteq> []" using assms by simp
  then have "last (rotate1 (rotate i xs)) = hd (rotate i xs)" by (cases "rotate i xs") simp_all
  then show ?thesis using assms by (simp add: hd_rotate_conv_nth)
qed

lemma orbit_rows:
  assumes "block \<noteq> []" and "sorted_rotations block rows" and "origin < length block" and "rows ! origin = block"
  shows "((!) (first_order (map last rows)) ^^ i) (first_order (map last rows) ! origin) < length block"
    and "rows ! (((!) (first_order (map last rows)) ^^ i) (first_order (map last rows) ! origin)) = rotate (Suc i) block"
proof (induction i)
  case 0
  show "((!) (first_order (map last rows)) ^^ 0) (first_order (map last rows) ! origin) < length block"
    using first_order_set [of "map last rows"] nth_mem [of origin "first_order (map last rows)"] assms(3) length_rows [OF assms(2)] by auto
  show "rows ! (((!) (first_order (map last rows)) ^^ 0) (first_order (map last rows) ! origin)) = rotate (Suc 0) block"
    using first_order_rows [OF assms(1,2,3)] assms(4) by simp
next
  case (Suc i)
  let ?p = "((!) (first_order (map last rows)) ^^ i) (first_order (map last rows) ! origin)"
  show "((!) (first_order (map last rows)) ^^ Suc i) (first_order (map last rows) ! origin) < length block"
    using first_order_set [of "map last rows"] nth_mem [of ?p "first_order (map last rows)"] Suc length_rows [OF assms(2)] by auto
  show "rows ! (((!) (first_order (map last rows)) ^^ Suc i) (first_order (map last rows) ! origin)) = rotate (Suc (Suc i)) block"
    using first_order_rows [OF assms(1,2) Suc(1)] Suc(2) by simp
qed

lemma inverse_of_rows:
  assumes block: "block \<noteq> []" "length block < 2 ^ 24" and rows: "sorted_rotations block rows"
    and origin: "origin < length block" "rows ! origin = block" and counts: "counts_ok (map last rows) counts"
  shows "\<exists>tt' counts' entry. link [0..<length block] (map ucast (map last rows), count_sums counts) = Inr (tt', counts') \<and>
    index tt' origin = Inr entry \<and>
    walk tt' max_output off (length block) (drop_bit 8 entry) w = walk_bytes max_output off block w"
proof -
  let ?col = "map last rows"
  have len: "length ?col = length block" using length_rows [OF rows] by simp
  obtain c' where l: "link [0..<length ?col] (linked ?col 0, count_sums counts) = Inr (linked ?col (length ?col), c')"
    using link_result [of 0 "length ?col" ?col "count_sums counts"] count_sums_link [OF counts] by auto
  have start: "linked ?col 0 = map ucast ?col" by (rule nth_equalityI) (simp_all add: linked_def)
  have o_less: "first_order ?col ! origin < length ?col"
    using orbit_rows(1) [OF block(1) rows origin, of 0] len by simp
  have entry: "index (linked ?col (length ?col)) origin = Inr (entry_of (?col ! origin) (first_order ?col ! origin))"
    using origin len o_less by (simp add: linked_def)
  have pos: "unat (drop_bit 8 (entry_of (?col ! origin) (first_order ?col ! origin))) = first_order ?col ! origin"
    using o_less len block(2) by (intro entry_position) simp
  have bytes: "map (\<lambda>i. ?col ! ((!) (first_order ?col) ^^ i) (first_order ?col ! origin)) [0..<length block] = block"
  proof (rule nth_equalityI)
    fix i assume "i < length (map (\<lambda>i. ?col ! ((!) (first_order ?col) ^^ i) (first_order ?col ! origin)) [0..<length block])"
    then have i: "i < length block" by simp
    then have "?col ! ((!) (first_order ?col) ^^ i) (first_order ?col ! origin) = last (rotate (Suc i) block)"
      using orbit_rows [OF block(1) rows origin, of i] length_rows [OF rows] by simp
    also have "\<dots> = block ! i" using last_rotate [OF block(1), of i] i by simp
    finally show "map (\<lambda>i. ?col ! ((!) (first_order ?col) ^^ i) (first_order ?col ! origin)) [0..<length block] ! i = block ! i"
      using i by simp
  qed simp
  have "walk (linked ?col (length ?col)) max_output off (length block)
      (drop_bit 8 (entry_of (?col ! origin) (first_order ?col ! origin))) w = walk_bytes max_output off block w"
    using walk_linked [of ?col "drop_bit 8 (entry_of (?col ! origin) (first_order ?col ! origin))" max_output off "length block" w]
      pos o_less len block(2) bytes by (simp only: pos)
  then show ?thesis using l start entry len by (metis (no_types))
qed

section \<open>The transform\<close>

text \<open>A suffix array of a string, as the induced sort promises it: every position once, in the order of the suffixes.\<close>

definition suffix_array :: "nat list \<Rightarrow> nat list \<Rightarrow> bool" where
  "suffix_array s sa \<longleftrightarrow> mset sa = mset [0..<length s] \<and> sorted_wrt (\<lambda>p q. drop p s \<le> drop q s) sa"

lemma take_le:
  fixes xs ys :: "'a::linorder list"
  shows "xs \<le> ys \<Longrightarrow> take n xs \<le> take n ys"
proof (induction xs arbitrary: ys n)
  case (Cons x xs)
  then show ?case by (cases ys; cases n) auto
qed simp

lemma map_le_iff:
  fixes f :: "'a::linorder \<Rightarrow> 'b::linorder"
  assumes "strict_mono f"
  shows "map f xs \<le> map f ys \<longleftrightarrow> xs \<le> ys"
proof (induction xs arbitrary: ys)
  case (Cons x xs)
  then show ?case using assms by (cases ys) (auto simp: strict_mono_less strict_mono_eq)
qed simp

lemma take_drop_doubled:
  assumes "p < length block"
  shows "take (length block) (drop p (doubled (map unat block))) = map (\<lambda>b. unat b + 1) (rotate p block)"
  using assms by (simp add: doubled_def rotate_drop_take drop_map take_map comp_def min_def)

definition low_suffixes :: "bytes \<Rightarrow> nat list \<Rightarrow> nat list" where
  "low_suffixes block sa = filter (\<lambda>p. p < length block) sa"

definition sorted_rows :: "bytes \<Rightarrow> nat list \<Rightarrow> bytes list" where
  "sorted_rows block sa = map (\<lambda>p. rotate p block) (low_suffixes block sa)"

lemma sorted_rows_sorted:
  assumes "suffix_array (doubled (map unat block)) sa"
  shows "sorted_rotations block (sorted_rows block sa)" "mset (low_suffixes block sa) = mset [0..<length block]"
proof -
  let ?s = "doubled (map unat block)"
  have len: "length ?s = Suc (2 * length block)" by (simp add: doubled_def)
  have perm: "mset (low_suffixes block sa) = mset (filter (\<lambda>p. p < length block) [0..<length ?s])"
    using assms unfolding suffix_array_def low_suffixes_def by (metis mset_filter)
  also have "filter (\<lambda>p. p < length block) [0..<length ?s] = [0..<length block]"
  proof -
    have "[0..<length ?s] = [0..<length block] @ [length block..<length ?s]"
      using len upt_add_eq_append [of 0 "length block" "Suc (length block)"] by (simp add: mult_2 del: upt_Suc)
    then show ?thesis by simp
  qed
  finally show perm: "mset (low_suffixes block sa) = mset [0..<length block]" .
  have mono: "strict_mono (\<lambda>b :: byte. unat b + 1)" by (simp add: strict_mono_def word_less_nat_alt)
  have "sorted_wrt (\<lambda>p q. rotate p block \<le> rotate q block) (low_suffixes block sa)"
  proof (rule sorted_wrt_mono_rel)
    show "sorted_wrt (\<lambda>p q. drop p ?s \<le> drop q ?s) (low_suffixes block sa)"
      using assms unfolding suffix_array_def low_suffixes_def by (simp add: sorted_wrt_filter)
    fix p q assume pq: "p \<in> set (low_suffixes block sa)" "q \<in> set (low_suffixes block sa)" "drop p ?s \<le> drop q ?s"
    then have "p < length block" "q < length block" by (simp_all add: low_suffixes_def)
    then show "rotate p block \<le> rotate q block"
      using take_le [OF pq(3), of "length block"] by (simp only: take_drop_doubled map_le_iff [OF mono])
  qed
  moreover have "mset (sorted_rows block sa) = mset (map (\<lambda>i. rotate i block) [0..<length block])"
    using perm by (simp add: sorted_rows_def)
  ultimately show "sorted_rotations block (sorted_rows block sa)"
    by (simp add: sorted_rotations_def sorted_rows_def sorted_wrt_map)
qed

lemma fold_column:
  assumes "block \<noteq> []" and "distinct sa"
  shows "fold (column_step block) sa (acc, o0) =
    (acc @ map last (sorted_rows block sa),
     if 0 \<in> set sa then length acc + length (low_suffixes block (takeWhile (\<lambda>p. p \<noteq> 0) sa)) else o0)"
  using assms(2)
proof (induction sa arbitrary: acc o0)
  case (Cons p sa)
  have pos: "0 < length block" using assms(1) by simp
  show ?case
  proof (cases "p < length block")
    case True
    have "last (rotate p block) = block ! ((p + length block - 1) mod length block)"
    proof (cases p)
      case 0
      then show ?thesis using assms(1) by (simp add: last_conv_nth)
    next
      case (Suc i)
      then show ?thesis using last_rotate [OF assms(1), of i] True by simp
    qed
    then show ?thesis using Cons True pos
      by (auto simp: column_step_def sorted_rows_def low_suffixes_def)
  next
    case False
    then show ?thesis using Cons pos by (auto simp: column_step_def sorted_rows_def low_suffixes_def)
  qed
qed (simp add: sorted_rows_def low_suffixes_def)

lemma row_of_block:
  assumes "block \<noteq> []" and "0 \<in> set sa"
  defines "k \<equiv> length (low_suffixes block (takeWhile (\<lambda>p. p \<noteq> 0) sa))"
  shows "k < length (low_suffixes block sa)" "low_suffixes block sa ! k = 0"
proof -
  have "dropWhile (\<lambda>p. p \<noteq> 0) sa = 0 # tl (dropWhile (\<lambda>p. p \<noteq> 0) sa)"
    using assms(2) by (metis (mono_tags, lifting) dropWhile_eq_Nil_conv hd_Cons_tl hd_dropWhile)
  then have "sa = takeWhile (\<lambda>p. p \<noteq> 0) sa @ 0 # tl (dropWhile (\<lambda>p. p \<noteq> 0) sa)"
    by (metis takeWhile_dropWhile_id)
  then have "low_suffixes block sa = low_suffixes block (takeWhile (\<lambda>p. p \<noteq> 0) sa) @ 0 # low_suffixes block (tl (dropWhile (\<lambda>p. p \<noteq> 0) sa))"
    using assms(1) unfolding low_suffixes_def by (metis (no_types, lifting) filter.simps(2) filter_append length_greater_0_conv)
  then show "k < length (low_suffixes block sa)" "low_suffixes block sa ! k = 0"
    unfolding k_def by simp_all
qed

lemma bwt_transform_result:
  assumes "block \<noteq> []" and "length block = 1 \<or> sais (doubled (map unat block)) 257 = Inr sa \<and> suffix_array (doubled (map unat block)) sa"
  shows "\<exists>rows origin. bwt_transform block = Inr (map last rows, origin) \<and> sorted_rotations block rows \<and>
    origin < length block \<and> rows ! origin = block"
proof (cases "length block = 1")
  case True
  then obtain b where "block = [b]" by (cases block) auto
  then show ?thesis by (intro exI [of _ "[block]"] exI [of _ 0]) (simp add: bwt_transform_def sorted_rotations_def)
next
  case False
  then have sa: "sais (doubled (map unat block)) 257 = Inr sa" "suffix_array (doubled (map unat block)) sa"
    using assms(2) by simp_all
  have set: "mset sa = mset [0..<Suc (2 * length block)]" using sa(2) by (simp add: suffix_array_def doubled_def mult_2)
  have distinct: "distinct sa" using set by (metis distinct_upt mset_eq_imp_distinct_iff)
  have zero: "0 \<in> set sa" using mset_eq_setD [OF set] by (simp del: upt_Suc)
  let ?k = "length (low_suffixes block (takeWhile (\<lambda>p. p \<noteq> 0) sa))"
  note k = row_of_block [OF assms(1) zero]
  have "length (low_suffixes block sa) = length block" using sorted_rows_sorted(2) [OF sa(2)] by (metis size_mset length_upt minus_nat.diff_0)
  moreover have "bwt_transform block = Inr (map last (sorted_rows block sa), ?k)"
    using assms(1) False sa(1) fold_column [OF assms(1) distinct, of "[]" 0] zero by (simp add: bwt_transform_def)
  ultimately show ?thesis
    using sorted_rows_sorted(1) [OF sa(2)] k
    by (intro exI [of _ "sorted_rows block sa"] exI [of _ ?k]) (simp add: sorted_rows_def)
qed


lemma counts_ok_exists: "\<exists>counts. counts_ok bs counts"
proof
  show "counts_ok bs (0 # map (\<lambda>b. count_list bs (word_of_nat b)) [0..<256])"
    using unat_byte_less by (auto simp: counts_ok_def simp del: upt_Suc)
qed

section \<open>Properties\<close>

text \<open>C28. The decoder inverts the block sort: for a block of any contents, given the last column of its sorted
  rotations and the row of the block itself, linking the entries from the byte counts and walking them
  feeds the bytes of the block, in order, to the last stage; no access leaves the array.\<close>

theorem decoder_inverts_block_sort:
  assumes block: "block \<noteq> []" "length block < 2 ^ 24" and rows: "sorted_rotations block rows"
    and origin: "origin < length block" "rows ! origin = block" and counts: "counts_ok (map last rows) counts"
  shows "\<exists>tt' counts' entry. link [0..<length block] (map ucast (map last rows), count_sums counts) = Inr (tt', counts') \<and>
    index tt' origin = Inr entry \<and>
    walk tt' max_output off (length block) (drop_bit 8 entry) w = walk_bytes max_output off block w"
  by (rule inverse_of_rows [OF assms])

theorem decoder_inverts_block_sort_witness:
  "\<exists>counts tt' counts' entry. link [0..<2] ([2, 1], count_sums counts) = Inr (tt', counts') \<and>
    index tt' 1 = Inr entry \<and> walk tt' 10 0 2 (drop_bit 8 entry) walk_start = walk_bytes 10 0 [2, 1] walk_start"
proof -
  obtain counts where "counts_ok (map last [[1, 2], [2, 1]]) counts" using counts_ok_exists by blast
  moreover have "sorted_rotations [2, 1] [[1, 2], [2, 1 :: byte]]" by (simp add: sorted_rotations_def eval_nat_numeral)
  moreover have e: "length [2, 1 :: byte] = 2" "map last [[1, 2], [2, 1 :: byte]] = [2, 1]" "map ucast [2, 1 :: byte] = [2, 1 :: u32]"
    by simp_all
  ultimately have "\<exists>tt' counts' entry. link [0..<2] ([2, 1], count_sums counts) = Inr (tt', counts') \<and>
    index tt' 1 = Inr entry \<and> walk tt' 10 0 2 (drop_bit 8 entry) walk_start = walk_bytes 10 0 [2, 1] walk_start"
    using decoder_inverts_block_sort [of "[2, 1]" "[[1, 2], [2, 1]]" 1 counts 10 0 walk_start, unfolded e] by simp
  then show ?thesis by blast
qed

text \<open>C29. The encoder's block sort and the decoder's inverse are a round trip: whenever the induced sort returns
  a suffix array of the doubled block, the transform returns a column and a row from which the decoder
  recovers the block, also where rotations of the block coincide.\<close>

theorem block_sort_roundtrip:
  assumes "block \<noteq> []" and "length block < 2 ^ 24"
    and "sais (doubled (map unat block)) 257 = Inr sa" and "suffix_array (doubled (map unat block)) sa"
  shows "\<exists>col origin. bwt_transform block = Inr (col, origin) \<and> length col = length block \<and> origin < length block \<and>
    (\<forall>counts. counts_ok col counts \<longrightarrow>
      (\<exists>tt' counts' entry. link [0..<length col] (map ucast col, count_sums counts) = Inr (tt', counts') \<and>
        index tt' origin = Inr entry \<and>
        walk tt' max_output off (length col) (drop_bit 8 entry) w = walk_bytes max_output off block w))"
proof -
  obtain rows origin where r: "bwt_transform block = Inr (map last rows, origin)" "sorted_rotations block rows"
    "origin < length block" "rows ! origin = block"
    using bwt_transform_result [OF assms(1)] assms(3,4) by blast
  show ?thesis
    using r inverse_of_rows [OF assms(1,2) r(2-4)] length_rows [OF r(2)]
    by (intro exI [of _ "map last rows"] exI [of _ origin]) simp
qed

lemma sais_two: "sais [3, 2, 3, 2, 0] 257 = Inr [4, 3, 1, 2, 0]"
proof -
  have counts: "symbol_counts [3, 2, 3, 2, 0] 257 = Inr ([1, 0, 2, 2] @ replicate 253 0)" by code_simp
  have sorted: "sort_lms [3, 2, 3, 2, 0] ([1, 0, 2, 2] @ replicate 253 0) = Inr [4, 1]" by code_simp
  have names: "reduce [3, 2, 3, 2, 0] [4, 1] = Inr ([1, 0], 2)" by code_simp
  have sub: "inverse_names [1, 0] (length [4, 1 :: nat]) = Inr [1, 0]" by code_simp
  have placed: "place_lms [3, 2, 3, 2, 0] ([1, 0, 2, 2] @ replicate 253 0) [1, 0] (length [4, 1 :: nat]) = Inr [4, 3, 1, 2, 0]"
    by code_simp
  have lengths: "length [3, 2, 3, 2, 0 :: nat] = 5" "length [4, 1 :: nat] = 2" by simp_all
  show ?thesis
    by (subst sais.simps) (simp del: One_nat_def append.simps list.size
        add: counts sorted names sub [unfolded lengths] placed [unfolded lengths] Let_def lengths)
qed

theorem block_sort_roundtrip_witness:
  "\<exists>col origin. bwt_transform [2, 1] = Inr (col, origin) \<and> length col = 2 \<and> origin < 2 \<and>
    (\<forall>counts. counts_ok col counts \<longrightarrow>
      (\<exists>tt' counts' entry. link [0..<length col] (map ucast col, count_sums counts) = Inr (tt', counts') \<and>
        index tt' origin = Inr entry \<and>
        walk tt' 10 0 (length col) (drop_bit 8 entry) walk_start = walk_bytes 10 0 [2, 1] walk_start))"
proof -
  have "suffix_array [3, 2, 3, 2, 0] [4, 3, 1, 2, 0]"
    by (simp add: suffix_array_def eval_nat_numeral)
  moreover have e: "length [2, 1 :: byte] = 2" "doubled (map unat [2, 1 :: byte]) = [3, 2, 3, 2, 0]"
    by (simp_all add: doubled_def)
  ultimately show ?thesis
    using sais_two by (intro block_sort_roundtrip [of "[2, 1]" "[4, 3, 1, 2, 0]" 10 0 walk_start, unfolded e]) simp_all
qed

end
