(* ===== verification/Package_Merge.thy ===== *)
theory Package_Merge
  imports Canonical Bwt "HOL-Library.Multiset" "HOL-Library.Product_Lexorder"
begin

text \<open>
  The length-limited code lengths of \<open>src/bz2_encode/huffman.rs\<close> (\<open>package_merge\<close>). The arena of
  the code, three parallel vectors that are only appended to, holds coins and packages of two
  earlier nodes: here a node is the tree its index denotes (an index is a \<open>u32\<close>, enough for the
  \<open>limit * m\<close> nodes of every caller). The weight of a package is a \<open>u64\<close> sum, which panics when it
  does not fit. Proved: for at least two symbols, a limit that can hold them and weights whose total
  leaves room for \<open>limit - 1\<close> copies of every coin, no sum overflows, every symbol gets a length between
  one and the limit and the lengths fill the code space exactly (\<open>package_merge_complete\<close>).
\<close>

section \<open>Coins and packages\<close>

datatype coin = Coin nat nat | Package nat coin coin

fun weight_of :: "coin \<Rightarrow> nat" where
  "weight_of (Coin w s) = w"
| "weight_of (Package w a b) = w"

definition coin_order :: "nat list \<Rightarrow> nat list" where
  "coin_order weights = sort_key (\<lambda>i. (weights ! i, i)) [0..<length weights]"

definition leaf_coins :: "nat list \<Rightarrow> coin list" where
  "leaf_coins weights = map (\<lambda>s. Coin (weights ! s) s) (coin_order weights)"

text \<open>Weights are \<open>u64\<close>: the sum of two that does not fit is a panic.\<close>

definition add_u64 :: "nat \<Rightarrow> nat \<Rightarrow> error + nat" where
  "add_u64 a b = (if a + b < 2 ^ 64 then Inr (a + b) else Inl Panic)"

fun package_pairs :: "coin list \<Rightarrow> error + coin list" where
  "package_pairs (a # b # level) =
     and_then (add_u64 (weight_of a) (weight_of b)) (\<lambda>w.
     and_then (package_pairs level) (\<lambda>packaged. Inr (Package w a b # packaged)))"
| "package_pairs level = Inr []"

fun merge_coins :: "coin list \<Rightarrow> coin list \<Rightarrow> coin list" where
  "merge_coins [] packaged = packaged"
| "merge_coins (x # leaves) [] = x # merge_coins leaves []"
| "merge_coins (x # leaves) (y # packaged) =
     (if weight_of x \<le> weight_of y then x # merge_coins leaves (y # packaged)
      else y # merge_coins (x # leaves) packaged)"

definition next_level :: "coin list \<Rightarrow> coin list \<Rightarrow> error + coin list" where
  "next_level leaves level = and_then (package_pairs level) (\<lambda>packaged. Inr (merge_coins leaves packaged))"

fun coin_size :: "coin \<Rightarrow> nat" where
  "coin_size (Coin w s) = 1"
| "coin_size (Package w a b) = coin_size a + coin_size b + 1"

text \<open>The stack of the code, top first.\<close>

function count_coins :: "coin list \<Rightarrow> nat list \<Rightarrow> error + nat list" where
  "count_coins [] lens = Inr lens"
| "count_coins (Coin w s # stack) lens = and_then (index lens s) (\<lambda>l. count_coins stack (lens[s := l + 1]))"
| "count_coins (Package w a b # stack) lens = count_coins (b # a # stack) lens"
  by pat_completeness auto
termination by (relation "measure (\<lambda>(stack, _). sum_list (map coin_size stack))") auto

definition package_merge :: "nat list \<Rightarrow> nat \<Rightarrow> error + nat list" where
  "package_merge weights limit =
     (let m = length weights in
      if \<not> m \<ge> 2 then Inl Panic
      else if \<not> (limit \<ge> 1 \<and> (limit \<ge> 32 \<or> 2 ^ limit \<ge> m)) then Inl Panic
      else let leaves = leaf_coins weights in
        and_then (try_fold (\<lambda>_. next_level leaves) [1..<limit] leaves) (\<lambda>level.
        try_fold (\<lambda>coin. count_coins [coin]) (take (2 * m - 2) level) (replicate m 0)))"

section \<open>What a coin contains\<close>

fun occ :: "nat \<Rightarrow> coin \<Rightarrow> nat" where
  "occ s (Coin w s') = (if s' = s then 1 else 0)"
| "occ s (Package w a b) = occ s a + occ s b"

fun coin_ok :: "nat list \<Rightarrow> coin \<Rightarrow> bool" where
  "coin_ok weights (Coin w s) \<longleftrightarrow> s < length weights \<and> w = weights ! s"
| "coin_ok weights (Package w a b) \<longleftrightarrow> coin_ok weights a \<and> coin_ok weights b \<and> w = weight_of a + weight_of b"

abbreviation occs :: "nat \<Rightarrow> coin list \<Rightarrow> nat" where
  "occs s coins \<equiv> sum_list (map (occ s) coins)"

lemma occ_weight: "coin_ok weights c \<Longrightarrow> 0 < occ s c \<Longrightarrow> weights ! s \<le> weight_of c"
  by (induction c) (auto split: if_splits)

lemma count_coins_result:
  "list_all (coin_ok weights) stack \<Longrightarrow> length lens = length weights \<Longrightarrow>
   \<exists>lens'. count_coins stack lens = Inr lens' \<and> length lens' = length weights \<and>
     (\<forall>s < length weights. lens' ! s = lens ! s + occs s stack)"
proof (induction stack lens rule: count_coins.induct)
  case (2 w s stack lens)
  then have s: "s < length lens" by simp
  then obtain lens' where "count_coins stack (lens[s := lens ! s + 1]) = Inr lens'" "length lens' = length weights"
    "\<forall>t < length weights. lens' ! t = lens[s := lens ! s + 1] ! t + occs t stack"
    using 2 by (auto simp: index_def get_at_def)
  then show ?case using s 2(3) by (auto simp: nth_list_update)
qed (simp_all add: algebra_simps)

lemma count_all_result:
  "list_all (coin_ok weights) coins \<Longrightarrow> length lens = length weights \<Longrightarrow>
   \<exists>lens'. try_fold (\<lambda>coin. count_coins [coin]) coins lens = Inr lens' \<and> length lens' = length weights \<and>
     (\<forall>s < length weights. lens' ! s = lens ! s + occs s coins)"
proof (induction coins arbitrary: lens)
  case (Cons c coins)
  then obtain lens' where l: "count_coins [c] lens = Inr lens'" "length lens' = length weights"
    "\<forall>s < length weights. lens' ! s = lens ! s + occs s [c]"
    using count_coins_result [of weights "[c]" lens] by auto
  then obtain lens'' where "try_fold (\<lambda>coin. count_coins [coin]) coins lens' = Inr lens''" "length lens'' = length weights"
    "\<forall>s < length weights. lens'' ! s = lens' ! s + occs s coins"
    using Cons.IH [of lens'] Cons.prems by auto
  then show ?case using l by simp
qed simp

section \<open>Pairs and merging\<close>

text \<open>The packages of a level when no sum overflows.\<close>

fun pair_up :: "coin list \<Rightarrow> coin list" where
  "pair_up (a # b # level) = Package (weight_of a + weight_of b) a b # pair_up level"
| "pair_up level = []"

lemma package_pairs_fit:
  "\<forall>c\<in>set (pair_up level). weight_of c < 2 ^ 64 \<Longrightarrow> package_pairs level = Inr (pair_up level)"
  by (induction level rule: pair_up.induct) (simp_all add: add_u64_def)

lemma pair_up_props:
  "length (pair_up l) = length l div 2"
  "x < length (pair_up l) \<Longrightarrow> pair_up l ! x = Package (weight_of (l ! (2 * x)) + weight_of (l ! (2 * x + 1))) (l ! (2 * x)) (l ! (2 * x + 1))"
  "list_all (coin_ok weights) l \<Longrightarrow> list_all (coin_ok weights) (pair_up l)"
proof -
  show "length (pair_up l) = length l div 2" by (induction l rule: pair_up.induct) auto
  show "list_all (coin_ok weights) l \<Longrightarrow> list_all (coin_ok weights) (pair_up l)"
    by (induction l rule: pair_up.induct) auto
  show "x < length (pair_up l) \<Longrightarrow> pair_up l ! x = Package (weight_of (l ! (2 * x)) + weight_of (l ! (2 * x + 1))) (l ! (2 * x)) (l ! (2 * x + 1))"
  proof (induction l arbitrary: x rule: pair_up.induct)
    case (1 a b level)
    then show ?case by (cases x) simp_all
  qed simp_all
qed

lemma occs_pairs:
  "p \<le> length (pair_up l) \<Longrightarrow> occs s (take p (pair_up l)) = occs s (take (2 * p) l)"
proof (induction l arbitrary: p rule: pair_up.induct)
  case (1 a b level)
  then show ?case by (cases p) simp_all
qed simp_all

lemma merge_coins_props:
  "length (merge_coins xs ys) = length xs + length ys"
  "list_all (coin_ok weights) xs \<Longrightarrow> list_all (coin_ok weights) ys \<Longrightarrow> list_all (coin_ok weights) (merge_coins xs ys)"
  by (induction xs ys rule: merge_coins.induct) auto

text \<open>A prefix of the merge is a prefix of the coins and one of the packages; a coin no heavier than
  a package in the prefix is in the prefix itself.\<close>

lemma merge_prefix:
  assumes "sorted (map weight_of xs)" and "k \<le> length xs + length ys"
  shows "\<exists>a p. a + p = k \<and> a \<le> length xs \<and> p \<le> length ys \<and>
    (\<forall>s. occs s (take k (merge_coins xs ys)) = occs s (take a xs) + occs s (take p ys)) \<and>
    (\<forall>x<p. \<forall>r<length xs. weight_of (xs ! r) \<le> weight_of (ys ! x) \<longrightarrow> r < a)"
  using assms
proof (induction xs ys arbitrary: k rule: merge_coins.induct)
  case (1 ys)
  then show ?case by (intro exI [of _ 0] exI [of _ k]) simp
next
  case (2 x xs)
  have "merge_coins xs [] = xs" for xs by (induction xs) auto
  then show ?case using 2(3) by (intro exI [of _ k] exI [of _ 0]) simp
next
  case (3 x xs y ys)
  show ?case
  proof (cases k)
    case 0
    then show ?thesis by (intro exI [of _ 0]) simp
  next
    case (Suc k')
    show ?thesis
    proof (cases "weight_of x \<le> weight_of y")
      case True
      obtain a p where ap: "a + p = k'" "a \<le> length xs" "p \<le> length (y # ys)"
        "\<forall>s. occs s (take k' (merge_coins xs (y # ys))) = occs s (take a xs) + occs s (take p (y # ys))"
        "\<forall>j<p. \<forall>r<length xs. weight_of (xs ! r) \<le> weight_of ((y # ys) ! j) \<longrightarrow> r < a"
        using "3.IH"(1) [OF True, of k'] "3.prems" Suc by auto
      have "\<forall>j<p. \<forall>r<length (x # xs). weight_of ((x # xs) ! r) \<le> weight_of ((y # ys) ! j) \<longrightarrow> r < Suc a"
        using ap(5) by (auto simp: less_Suc_eq_0_disj nth_Cons')
      then show ?thesis using ap Suc True by (intro exI [of _ "Suc a"] exI [of _ p]) simp
    next
      case False
      obtain a p where ap: "a + p = k'" "a \<le> length (x # xs)" "p \<le> length ys"
        "\<forall>s. occs s (take k' (merge_coins (x # xs) ys)) = occs s (take a (x # xs)) + occs s (take p ys)"
        "\<forall>j<p. \<forall>r<length (x # xs). weight_of ((x # xs) ! r) \<le> weight_of (ys ! j) \<longrightarrow> r < a"
        using "3.IH"(2) [OF False, of k'] "3.prems" Suc by auto
      have heavy: "\<not> weight_of ((x # xs) ! r) \<le> weight_of y" if "r < length (x # xs)" for r
        using "3.prems"(1) False that sorted_nth_mono [of "map weight_of (x # xs)" 0 r]
        by (simp only: nth_map length_map) simp
      have "\<forall>j<Suc p. \<forall>r<length (x # xs). weight_of ((x # xs) ! r) \<le> weight_of ((y # ys) ! j) \<longrightarrow> r < a"
      proof (intro allI impI)
        fix j r
        assume "j < Suc p" and "r < length (x # xs)" and "weight_of ((x # xs) ! r) \<le> weight_of ((y # ys) ! j)"
        then show "r < a" using heavy ap(5) by (cases j) auto
      qed
      then show ?thesis using ap Suc False by (intro exI [of _ a] exI [of _ "Suc p"]) simp
    qed
  qed
qed

section \<open>The levels\<close>

lemma coin_order_props:
  "mset (coin_order weights) = mset [0..<length weights]"
  "sorted (map (\<lambda>s. weights ! s) (coin_order weights))"
proof -
  show "mset (coin_order weights) = mset [0..<length weights]" by (simp add: coin_order_def)
  have "sorted (map (\<lambda>i. (weights ! i, i)) (coin_order weights))" by (simp add: coin_order_def)
  then show "sorted (map (\<lambda>s. weights ! s) (coin_order weights))"
    by (simp add: sorted_wrt_map) (erule sorted_wrt_mono_rel [rotated], auto)
qed

definition coin_level :: "nat list \<Rightarrow> nat \<Rightarrow> coin list" where
  "coin_level weights j = ((\<lambda>level. merge_coins (leaf_coins weights) (pair_up level)) ^^ j) (leaf_coins weights)"

lemma coin_level_Suc: "coin_level weights (Suc j) = merge_coins (leaf_coins weights) (pair_up (coin_level weights j))"
  by (simp add: coin_level_def)

lemma set_coin_order: "set (coin_order weights) = {..<length weights}"
  using mset_eq_setD [OF coin_order_props(1)] by (simp add: atLeast0LessThan)

lemma distinct_coin_order: "distinct (coin_order weights)"
  using mset_eq_imp_distinct_iff [OF coin_order_props(1)] by simp

lemma length_coin_order [simp]: "length (coin_order weights) = length weights"
  by (simp add: coin_order_def)

lemma leaf_coins_ok: "list_all (coin_ok weights) (leaf_coins weights)"
  using set_coin_order [of weights] by (auto simp: leaf_coins_def list_all_iff)

lemma coin_level_ok: "list_all (coin_ok weights) (coin_level weights j)"
proof (induction j)
  case 0
  then show ?case by (simp add: coin_level_def leaf_coins_ok)
next
  case (Suc j)
  then show ?case
    by (simp add: coin_level_Suc merge_coins_props(2) leaf_coins_ok pair_up_props(3))
qed

lemma length_coin_level: "length (coin_level weights (Suc j)) = length weights + length (coin_level weights j) div 2"
  by (simp add: coin_level_Suc merge_coins_props(1) pair_up_props(1) leaf_coins_def)

text \<open>A level lacks at most two coins of \<open>2 * m\<close> once its power of two reaches the number of symbols.\<close>

lemma coin_level_long:
  assumes "length weights \<le> 2 ^ j * d"
  shows "2 * length weights \<le> length (coin_level weights j) + d"
  using assms
proof (induction j arbitrary: d)
  case 0
  then show ?case by (simp add: coin_level_def leaf_coins_def)
next
  case (Suc j)
  then have "2 * length weights \<le> length (coin_level weights j) + 2 * d" by (simp add: mult.assoc mult.left_commute)
  then show ?case by (simp add: length_coin_level)
qed

lemma occs_leaves: "a \<le> length weights \<Longrightarrow>
  occs s (take a (leaf_coins weights)) = (if s \<in> set (take a (coin_order weights)) then 1 else 0)"
proof -
  have "distinct xs \<Longrightarrow> occs s (map (\<lambda>s. Coin (weights ! s) s) xs) = (if s \<in> set xs then 1 else 0)" for xs
    by (induction xs) auto
  then show ?thesis using distinct_coin_order [of weights] by (simp add: leaf_coins_def take_map)
qed

text \<open>The first \<open>k\<close> coins of level \<open>j\<close> weigh \<open>k * 2 ^ j\<close> units of the smallest denomination, a symbol that
  occurs \<open>d\<close> times in them contributing the \<open>d\<close> largest denominations.\<close>

lemma level_width:
  assumes "k \<le> length (coin_level weights j)"
  shows "(\<forall>s < length weights. occs s (take k (coin_level weights j)) \<le> Suc j) \<and>
    (\<Sum>s<length weights. 2 ^ Suc j - 2 ^ (Suc j - occs s (take k (coin_level weights j)))) = k * 2 ^ j"
  using assms
proof (induction j arbitrary: k)
  case 0
  let ?S = "set (take k (coin_order weights))"
  have k: "k \<le> length weights" using 0 by (simp add: coin_level_def leaf_coins_def)
  have sub: "?S \<subseteq> {..<length weights}" using set_coin_order set_take_subset by metis
  have "(\<Sum>s<length weights. 2 ^ Suc 0 - 2 ^ (Suc 0 - occs s (take k (coin_level weights 0)))) =
      (\<Sum>s<length weights. if s \<in> ?S then 1 else (0 :: nat))"
    using k by (intro sum.cong) (simp_all add: coin_level_def occs_leaves)
  also have "\<dots> = card ({..<length weights} \<inter> ?S)" by (simp add: sum.If_cases Int_def)
  also have "{..<length weights} \<inter> ?S = ?S" using sub by blast
  also have "card ?S = k" using distinct_card [OF distinct_take [OF distinct_coin_order]] k by simp
  finally show ?case using k by (simp add: coin_level_def occs_leaves)
next
  case (Suc j)
  let ?leaves = "leaf_coins weights" and ?pairs = "pair_up (coin_level weights j)"
  have sorted: "sorted (map weight_of ?leaves)" using coin_order_props(2) [of weights] by (simp add: leaf_coins_def comp_def)
  have "k \<le> length ?leaves + length ?pairs" using Suc.prems by (simp add: coin_level_Suc merge_coins_props(1))
  from merge_prefix [OF sorted this] obtain a p where ap: "a + p = k" "a \<le> length ?leaves" "p \<le> length ?pairs"
    and occ: "\<And>s. occs s (take k (coin_level weights (Suc j))) = occs s (take a ?leaves) + occs s (take p ?pairs)"
    and lighter: "\<And>x r. x < p \<Longrightarrow> r < length ?leaves \<Longrightarrow> weight_of (?leaves ! r) \<le> weight_of (?pairs ! x) \<Longrightarrow> r < a"
    unfolding coin_level_Suc by blast
  let ?S = "set (take a (coin_order weights))" and ?d = "\<lambda>s. occs s (take (2 * p) (coin_level weights j))"
  have a: "a \<le> length weights" using ap(2) by (simp add: leaf_coins_def)
  have p2: "2 * p \<le> length (coin_level weights j)" using ap(3) by (simp add: pair_up_props(1))
  have d: "occs s (take k (coin_level weights (Suc j))) = (if s \<in> ?S then 1 else 0) + ?d s" for s
    using occ [of s] occs_pairs [OF ap(3)] occs_leaves [OF a] by simp
  have IH: "\<And>s. s < length weights \<Longrightarrow> ?d s \<le> Suc j"
    "(\<Sum>s<length weights. 2 ^ Suc j - 2 ^ (Suc j - ?d s)) = 2 * p * 2 ^ j"
    using Suc.IH [OF p2] by blast+
  have nested: "s \<in> ?S" if s: "s < length weights" and pos: "0 < ?d s" for s
  proof -
    have "occs s cs = 0" if "\<forall>c\<in>set cs. \<not> 0 < occ s c" for cs using that by (induction cs) auto
    then have "\<exists>c \<in> set (take (2 * p) (coin_level weights j)). 0 < occ s c" using pos by (metis less_irrefl)
    then obtain i where i: "i < 2 * p" "0 < occ s (coin_level weights j ! i)"
      using p2 by (auto simp: in_set_conv_nth)
    have ok: "coin_ok weights (coin_level weights j ! i)"
      using coin_level_ok [of weights j] i(1) p2 by (simp add: list_all_length)
    have "s \<in> set (coin_order weights)" using s by (simp add: set_coin_order)
    then obtain r where r: "r < length weights" "coin_order weights ! r = s"
      by (metis in_set_conv_nth length_coin_order)
    have x: "i div 2 < p" using i(1) by simp
    have "i = 2 * (i div 2) \<or> i = 2 * (i div 2) + 1" by presburger
    then have "weight_of (coin_level weights j ! i) \<le> weight_of (?pairs ! (i div 2))"
      using pair_up_props(2) [of "i div 2" "coin_level weights j"] x ap(3) by (elim disjE) (metis le_add1 le_add2 less_le_trans weight_of.simps(2))+
    then have "weight_of (?leaves ! r) \<le> weight_of (?pairs ! (i div 2))"
      using occ_weight [OF ok i(2)] r by (simp add: leaf_coins_def)
    then have "r < a" using lighter [OF x] r(1) by (simp add: leaf_coins_def)
    then show ?thesis using r a by (auto simp: in_set_conv_nth intro!: exI [of _ r])
  qed
  have term_eq: "(2 :: nat) ^ Suc (Suc j) - 2 ^ (Suc (Suc j) - occs s (take k (coin_level weights (Suc j)))) =
      (if s \<in> ?S then 2 ^ Suc j else 0) + (2 ^ Suc j - 2 ^ (Suc j - ?d s))" if s: "s < length weights" for s
  proof (cases "s \<in> ?S")
    case True
    have "(2 :: nat) ^ (Suc j - ?d s) \<le> 2 ^ Suc j" by (intro power_increasing) simp_all
    then show ?thesis using True by (simp add: d)
  next
    case False
    then have "?d s = 0" using nested [OF s] by (metis gr_zeroI)
    then have "occs s (take k (coin_level weights (Suc j))) = 0" using d [of s] False by (simp only: if_False add_0)
    then show ?thesis using False \<open>?d s = 0\<close> by (simp only: if_False add_0 diff_zero diff_self_eq_0)
  qed
  have "(\<Sum>s<length weights. (2 :: nat) ^ Suc (Suc j) - 2 ^ (Suc (Suc j) - occs s (take k (coin_level weights (Suc j))))) =
      (\<Sum>s<length weights. if s \<in> ?S then 2 ^ Suc j else 0) + (\<Sum>s<length weights. 2 ^ Suc j - 2 ^ (Suc j - ?d s))"
    unfolding sum.distrib [symmetric] by (rule sum.cong [OF refl]) (rule term_eq, simp)
  also have "(\<Sum>s<length weights. if s \<in> ?S then 2 ^ Suc j else 0) = a * (2 ^ Suc j :: nat)"
  proof -
    have sub: "?S \<subseteq> {..<length weights}" using set_coin_order set_take_subset by metis
    then have "{..<length weights} \<inter> ?S = ?S" by blast
    moreover have "card ?S = a" using distinct_card [OF distinct_take [OF distinct_coin_order]] a by simp
    ultimately show ?thesis by (simp add: sum.If_cases Int_def)
  qed
  also have "a * 2 ^ Suc j + (\<Sum>s<length weights. 2 ^ Suc j - 2 ^ (Suc j - ?d s)) = k * 2 ^ Suc j"
    unfolding IH(2) using ap(1) by (simp add: algebra_simps flip: ap(1))
  finally have total: "(\<Sum>s<length weights. (2 :: nat) ^ Suc (Suc j) - 2 ^ (Suc (Suc j) - occs s (take k (coin_level weights (Suc j))))) = k * 2 ^ Suc j" .
  have "occs s (take k (coin_level weights (Suc j))) \<le> Suc (Suc j)" if "s < length weights" for s
    using d [of s] IH(1) [OF that] by simp
  then show ?case using total by blast
qed

section \<open>Weights that fit\<close>

text \<open>A level holds every symbol at most \<open>Suc j\<close> times, so its coins together weigh at most \<open>Suc j\<close> times the total.\<close>

lemma weight_occ: "coin_ok weights c \<Longrightarrow> weight_of c = (\<Sum>s<length weights. occ s c * weights ! s)"
proof (induction c)
  case (Coin w s)
  have "(\<Sum>t<length weights. occ t (Coin w s) * weights ! t) = (\<Sum>t<length weights. if t = s then weights ! t else 0)"
    by (intro sum.cong) auto
  then show ?case using Coin by simp
qed (simp add: sum.distrib distrib_right)

lemma weights_occs:
  "list_all (coin_ok weights) level \<Longrightarrow>
   sum_list (map weight_of level) = (\<Sum>s<length weights. occs s level * weights ! s)"
  by (induction level) (simp_all add: weight_occ sum.distrib distrib_right)

lemma pair_up_weights: "sum_list (map weight_of (pair_up level)) \<le> sum_list (map weight_of level)"
  by (induction level rule: pair_up.induct) simp_all

lemma level_weight:
  assumes "c \<in> set (pair_up (coin_level weights j))"
  shows "weight_of c \<le> Suc j * sum_list weights"
proof -
  have "weight_of c \<le> sum_list (map weight_of (pair_up (coin_level weights j)))"
    using assms by (auto intro: member_le_sum_list)
  also have "\<dots> \<le> sum_list (map weight_of (coin_level weights j))" by (rule pair_up_weights)
  also have "\<dots> = (\<Sum>s<length weights. occs s (coin_level weights j) * weights ! s)"
    by (rule weights_occs [OF coin_level_ok])
  also have "\<dots> \<le> (\<Sum>s<length weights. Suc j * weights ! s)"
    using level_width [of "length (coin_level weights j)" weights j] by (intro sum_mono mult_right_mono) simp_all
  also have "\<dots> = Suc j * sum_list weights"
    by (simp add: sum_list_sum_nth atLeast0LessThan sum_distrib_left del: mult_Suc)
  finally show ?thesis .
qed

lemma try_fold_append: "try_fold f (xs @ ys) s = and_then (try_fold f xs s) (try_fold f ys)"
proof (induction xs arbitrary: s)
  case (Cons x xs)
  then show ?case by (cases "f x s") simp_all
qed simp

lemma levels_fit:
  assumes "j * sum_list weights < 2 ^ 64"
  shows "try_fold (\<lambda>_. next_level (leaf_coins weights)) [1..<Suc j] (leaf_coins weights) = Inr (coin_level weights j)"
  using assms
proof (induction j)
  case 0
  then show ?case by (simp add: coin_level_def)
next
  case (Suc j)
  have "weight_of c < 2 ^ 64" if "c \<in> set (pair_up (coin_level weights j))" for c
    using level_weight [OF that] Suc.prems by simp
  then have "package_pairs (coin_level weights j) = Inr (pair_up (coin_level weights j))"
    by (intro package_pairs_fit) blast
  then show ?case using Suc by (simp add: try_fold_append next_level_def coin_level_Suc)
qed

section \<open>Complete code lengths\<close>

lemma package_merge_result:
  assumes m: "2 \<le> length weights" and limit: "1 \<le> limit" "length weights \<le> 2 ^ limit"
    and fit: "(limit - 1) * sum_list weights < 2 ^ 64"
  shows "\<exists>lens. package_merge weights limit = Inr lens \<and> length lens = length weights \<and>
    (\<forall>s<length weights. 1 \<le> lens ! s \<and> lens ! s \<le> limit) \<and>
    (\<Sum>s<length weights. 2 ^ (limit - lens ! s)) = (2 :: nat) ^ limit"
proof -
  let ?m = "length weights"
  obtain j where j: "limit = Suc j" using limit(1) by (cases limit) auto
  let ?coins = "take (2 * ?m - 2) (coin_level weights j)"
  have long: "2 * ?m - 2 \<le> length (coin_level weights j)"
    using coin_level_long [of weights j 2] limit(2) j by (simp add: mult.commute)
  have ok: "list_all (coin_ok weights) ?coins"
    using coin_level_ok [of weights j] by (auto simp: list_all_iff dest: in_set_takeD)
  obtain lens where lens: "try_fold (\<lambda>coin. count_coins [coin]) ?coins (replicate ?m 0) = Inr lens"
    "length lens = ?m" "\<forall>s < ?m. lens ! s = occs s ?coins"
    using count_all_result [OF ok, of "replicate ?m 0"] by auto
  have run: "package_merge weights limit = Inr lens"
    using lens(1) m limit j levels_fit [of j weights] fit by (simp add: package_merge_def Let_def)
  have le: "lens ! s \<le> limit" if "s < ?m" for s
    using level_width [OF long] lens(3) j that by simp
  have widths: "(\<Sum>s<?m. (2 :: nat) ^ limit - 2 ^ (limit - lens ! s)) = (?m - 1) * 2 ^ limit"
  proof -
    have "(\<Sum>s<?m. (2 :: nat) ^ limit - 2 ^ (limit - lens ! s)) = (2 * ?m - 2) * 2 ^ j"
      unfolding j level_width [OF long, THEN conjunct2, symmetric] by (rule sum.cong) (use lens(3) in auto)
    then show ?thesis using j by (simp add: algebra_simps)
  qed
  have "(\<Sum>s<?m. (2 :: nat) ^ (limit - lens ! s)) + (\<Sum>s<?m. 2 ^ limit - 2 ^ (limit - lens ! s)) = (\<Sum>s<?m. 2 ^ limit)"
    unfolding sum.distrib [symmetric]
  proof (rule sum.cong)
    fix s
    have "(2 :: nat) ^ (limit - lens ! s) \<le> 2 ^ limit" by (intro power_increasing) simp_all
    then show "2 ^ (limit - lens ! s) + (2 ^ limit - 2 ^ (limit - lens ! s)) = (2 :: nat) ^ limit" by simp
  qed simp
  moreover have "(\<Sum>s<?m. (2 :: nat) ^ limit) = 2 ^ limit + (?m - 1) * 2 ^ limit"
    using m by (cases ?m) simp_all
  ultimately have kraft: "(\<Sum>s<?m. (2 :: nat) ^ (limit - lens ! s)) = 2 ^ limit" using widths by simp
  have "1 \<le> lens ! s" if s: "s < ?m" for s
  proof (rule ccontr)
    assume "\<not> 1 \<le> lens ! s"
    then have zero: "(2 :: nat) ^ (limit - lens ! s) = 2 ^ limit" by simp
    obtain t where t: "t < ?m" "t \<noteq> s" using m by (metis One_nat_def less_2_cases_iff less_le_trans not_less_eq zero_neq_one)
    have "(\<Sum>u\<in>{s, t}. (2 :: nat) ^ (limit - lens ! u)) \<le> (\<Sum>u<?m. 2 ^ (limit - lens ! u))"
      using s t by (intro sum_mono2) auto
    then have "(2 :: nat) ^ limit + 2 ^ (limit - lens ! t) \<le> 2 ^ limit" using kraft zero t(2) by simp
    then show False by simp
  qed
  then show ?thesis using run lens(2) le kraft by blast
qed

lemma package_merge_codable:
  assumes "2 \<le> length weights" and "1 \<le> limit" and "length weights \<le> 2 ^ limit"
    and "(limit - 1) * sum_list weights < 2 ^ 64"
  shows "\<exists>lens. package_merge weights limit = Inr lens \<and> length lens = length weights \<and>
    (\<forall>l\<in>set lens. 1 \<le> l \<and> l \<le> limit) \<and> (\<Sum>l\<leftarrow>lens. 2 ^ (limit - l)) = (2 :: nat) ^ limit \<and>
    not_oversubscribed lens"
proof -
  obtain lens where lens: "package_merge weights limit = Inr lens" "length lens = length weights"
    "\<forall>s<length weights. 1 \<le> lens ! s \<and> lens ! s \<le> limit"
    "(\<Sum>s<length weights. 2 ^ (limit - lens ! s)) = (2 :: nat) ^ limit"
    using package_merge_result [OF assms] by blast
  have "(\<Sum>s<length lens. if 0 < lens ! s then 2 ^ (limit - lens ! s) else 0) = (\<Sum>s<length weights. 2 ^ (limit - lens ! s) :: nat)"
    using lens(2,3) by (intro sum.cong) auto
  then have "not_oversubscribed lens"
    using lens by (intro kraft_not_oversubscribed [of lens limit]) simp_all
  moreover have "(\<Sum>l\<leftarrow>lens. 2 ^ (limit - l)) = (2 :: nat) ^ limit"
    using lens(2,4) by (simp add: sum_list_sum_nth atLeast0LessThan)
  moreover have "\<forall>l\<in>set lens. 1 \<le> l \<and> l \<le> limit" using lens(2,3) by (auto simp: in_set_conv_nth)
  ultimately show ?thesis using lens(1,2) by blast
qed

text \<open>C30. For at least two symbols, a limit that can hold them and weights whose total, times \<open>limit - 1\<close>, fits
  into 64 bits, no sum of weights overflows and package-merge gives every symbol a length between one and the
  limit, and the lengths fill the code space exactly: the canonical code built from them is never
  oversubscribed and leaves no code unused.\<close>

theorem package_merge_complete:
  assumes "2 \<le> length weights" and "1 \<le> limit" and "length weights \<le> 2 ^ limit"
    and "(limit - 1) * sum_list weights < 2 ^ 64"
  shows "\<exists>lens. package_merge weights limit = Inr lens \<and> length lens = length weights \<and>
    (\<forall>l\<in>set lens. 1 \<le> l \<and> l \<le> limit) \<and> (\<Sum>l\<leftarrow>lens. 2 ^ (limit - l)) = (2 :: nat) ^ limit \<and>
    not_oversubscribed lens"
  using package_merge_codable [OF assms] .

theorem package_merge_complete_witness:
  "\<exists>lens. package_merge [7, 1, 1, 2 ^ 62] 3 = Inr lens \<and> length lens = length [7, 1, 1, 2 ^ 62 :: nat] \<and>
    (\<forall>l\<in>set lens. 1 \<le> l \<and> l \<le> 3) \<and> (\<Sum>l\<leftarrow>lens. 2 ^ (3 - l)) = (2 :: nat) ^ 3 \<and> not_oversubscribed lens"
  by (rule package_merge_complete) simp_all

end
