(* ===== verification/Huffman_Encode.thy ===== *)
theory Huffman_Encode
  imports Package_Merge Mtf Bit_Writer
begin

text \<open>
  The grouped Huffman coder of \<open>src/bz2_encode/huffman.rs\<close>: the number of tables, their initial and
  refined code lengths, the choice of a table for every fifty symbols, the canonical codes, and the
  selectors and lengths as they are written. Proved: for every symbol stream the block encoder can
  produce, building never panics and yields between two and six complete codes over the alphabet
  (\<open>build_codable\<close>), and the codes are the canonical ones the decoder rebuilds.
\<close>

definition ENC_MAX_LEN :: nat where "ENC_MAX_LEN = 17"
definition ENC_GROUP :: nat where "ENC_GROUP = 50"
definition N_ITERS :: nat where "N_ITERS = 4"
definition U64_MAX :: nat where "U64_MAX = 2 ^ 64 - 1"

record coding =
  cd_n_groups :: nat
  cd_selectors :: "nat list"
  cd_lens :: "nat list list"
  cd_codes :: "u32 list list"

definition group_count :: "nat \<Rightarrow> nat" where
  "group_count n_syms =
     (if n_syms \<le> 199 then 2 else if n_syms \<le> 599 then 3 else if n_syms \<le> 1199 then 4
      else if n_syms \<le> 2399 then 5 else 6)"

section \<open>Selecting tables\<close>

definition group_cost :: "nat list \<Rightarrow> nat list \<Rightarrow> error + nat" where
  "group_cost len grp = try_fold (\<lambda>s cost. and_then (index len s) (\<lambda>l. Inr (cost + l))) grp 0"

definition pick_table :: "nat list list \<Rightarrow> nat list \<Rightarrow> error + nat" where
  "pick_table lens grp =
     and_then (try_fold (\<lambda>p best. and_then (group_cost (snd p) grp) (\<lambda>cost.
         Inr (if cost < snd best then (fst p, cost) else best))) (enumerate 0 lens) (0, U64_MAX)) (\<lambda>best.
     Inr (fst best))"

function assign_selectors :: "nat list list \<Rightarrow> nat list \<Rightarrow> nat list \<Rightarrow> error + nat list" where
  "assign_selectors lens syms selectors =
     (if syms = [] then Inr selectors
      else and_then (pick_table lens (take ENC_GROUP syms)) (\<lambda>t.
        assign_selectors lens (drop ENC_GROUP syms) (selectors @ [t])))"
  by pat_completeness auto
termination by (relation "measure (\<lambda>(_, syms, _). length syms)") (auto simp: ENC_GROUP_def)

declare assign_selectors.simps [simp del]

section \<open>Initial lengths\<close>

text \<open>
  The counters and the number of symbols are \<open>u32\<close> in the code. They are the exact numbers here, which
  is the same for fewer than \<open>2 ^ 32\<close> symbols; a block has at most 900000 bytes.
\<close>

definition add_freq :: "nat \<Rightarrow> nat list \<Rightarrow> error + nat list" where
  "add_freq s freq = and_then (index freq s) (\<lambda>f. Inr (freq[s := f + 1]))"

definition checked_minus :: "nat \<Rightarrow> nat \<Rightarrow> error + nat" where
  "checked_minus a b = (if b \<le> a then Inr (a - b) else Inl Panic)"

function grow_part :: "nat list \<Rightarrow> nat \<Rightarrow> nat \<Rightarrow> int \<Rightarrow> nat \<Rightarrow> error + int \<times> nat" where
  "grow_part freq alpha target ge acc =
     (if acc < target \<and> ge < int alpha - 1
      then and_then (index freq (nat (ge + 1))) (\<lambda>f. grow_part freq alpha target (ge + 1) (acc + f))
      else Inr (ge, acc))"
  by pat_completeness auto
termination by (relation "measure (\<lambda>(_, alpha, _, ge, _). nat (int alpha - ge))") auto

declare grow_part.simps [simp del]

definition shrink_part :: "nat list \<Rightarrow> nat \<Rightarrow> nat \<Rightarrow> nat \<Rightarrow> int \<times> nat \<Rightarrow> error + int \<times> nat" where
  "shrink_part freq n_groups n_part gs part =
     (if fst part > int gs \<and> n_part \<noteq> n_groups \<and> n_part \<noteq> 1 \<and> (n_groups - n_part) mod 2 = 1
      then and_then (index freq (nat (fst part))) (\<lambda>f.
           and_then (checked_minus (snd part) f) (\<lambda>acc. Inr (fst part - 1, acc)))
      else Inr part)"

fun initial_parts :: "nat list \<Rightarrow> nat \<Rightarrow> nat \<Rightarrow> nat \<Rightarrow> nat list list \<Rightarrow> nat \<Rightarrow> nat \<Rightarrow> error + nat list list" where
  "initial_parts freq alpha n_groups 0 lens remaining gs = Inr lens"
| "initial_parts freq alpha n_groups (Suc k) lens remaining gs =
     and_then (grow_part freq alpha (remaining div Suc k) (int gs - 1) 0) (\<lambda>part.
     and_then (shrink_part freq n_groups (Suc k) gs part) (\<lambda>part.
     and_then (checked_minus remaining (snd part)) (\<lambda>remaining'.
     initial_parts freq alpha n_groups k
       (lens[k := map (\<lambda>v. if int gs \<le> int v \<and> int v \<le> fst part then 1 else 15) [0..<alpha]])
       remaining' (nat (fst part + 1)))))"

definition initial_lengths :: "nat list \<Rightarrow> nat \<Rightarrow> nat \<Rightarrow> error + nat list list" where
  "initial_lengths syms alpha n_groups =
     and_then (try_fold add_freq syms (replicate alpha 0)) (\<lambda>freq.
     initial_parts freq alpha n_groups n_groups (replicate n_groups (replicate alpha 0)) (length syms) 0)"

section \<open>Refinement and codes\<close>

definition add_table_freq :: "nat \<Rightarrow> nat \<Rightarrow> nat list list \<Rightarrow> error + nat list list" where
  "add_table_freq t s rfreq = and_then (index rfreq t) (\<lambda>row. and_then (add_freq s row) (\<lambda>row. Inr (rfreq[t := row])))"

definition tally_groups :: "nat list \<Rightarrow> nat \<Rightarrow> nat \<Rightarrow> nat list \<Rightarrow> error + nat list list" where
  "tally_groups syms alpha n_groups selectors =
     try_fold (\<lambda>p rfreq. let start = fst p * ENC_GROUP in
       and_then (index_range syms start (min (start + ENC_GROUP) (length syms))) (\<lambda>grp.
       try_fold (add_table_freq (snd p)) grp rfreq)) (enumerate 0 selectors) (replicate n_groups (replicate alpha 0))"

text \<open>A counter of \<open>rfreq\<close> is a \<open>u32\<close>: the count modulo \<open>2 ^ 32\<close>.\<close>

definition refine_table :: "nat list list \<Rightarrow> nat \<Rightarrow> nat list list \<Rightarrow> error + nat list list" where
  "refine_table rfreq t lens =
     and_then (index rfreq t) (\<lambda>row.
     and_then (package_merge (map (\<lambda>f. max (f mod 2 ^ 32) 1) row) ENC_MAX_LEN) (\<lambda>len. Inr (lens[t := len])))"

definition refine_lengths :: "nat list \<Rightarrow> nat \<Rightarrow> nat \<Rightarrow> nat list list \<Rightarrow> error + nat list list" where
  "refine_lengths syms alpha n_groups lens =
     and_then (assign_selectors lens syms []) (\<lambda>selectors.
     and_then (tally_groups syms alpha n_groups selectors) (\<lambda>rfreq.
     try_fold (refine_table rfreq) [0..<length lens] lens))"

definition code_step :: "nat \<Rightarrow> nat \<times> nat \<Rightarrow> u32 list \<times> u32 \<Rightarrow> u32 list \<times> u32" where
  "code_step l p st = (if snd p = l then ((fst st)[fst p := snd st], snd st + 1) else st)"

definition code_level :: "nat list \<Rightarrow> nat \<Rightarrow> u32 list \<times> u32 \<Rightarrow> u32 list \<times> u32" where
  "code_level lens l st = (let st = fold (code_step l) (enumerate 0 lens) st in (fst st, push_bit 1 (snd st)))"

definition canonical_codes :: "nat list \<Rightarrow> error + u32 list" where
  "canonical_codes lens =
     (if lens = [] then Inl Panic
      else Inr (fst (fold (code_level lens) [Min (set lens)..<Suc (Max (set lens))] (replicate (length lens) 0, 0))))"

fun all_codes :: "nat list list \<Rightarrow> error + u32 list list" where
  "all_codes [] = Inr []"
| "all_codes (len # lens) = and_then (canonical_codes len) (\<lambda>c. and_then (all_codes lens) (\<lambda>cs. Inr (c # cs)))"

definition huffman_build :: "nat list \<Rightarrow> nat \<Rightarrow> error + coding" where
  "huffman_build syms alpha =
     (if syms = [] \<or> \<not> alpha \<ge> 3 then Inl Panic
      else let n_groups = group_count (length syms) in
        and_then (initial_lengths syms alpha n_groups) (\<lambda>lens.
        and_then (try_fold (\<lambda>_. refine_lengths syms alpha n_groups) [0..<N_ITERS] lens) (\<lambda>lens.
        and_then (assign_selectors lens syms []) (\<lambda>selectors.
        and_then (all_codes lens) (\<lambda>codes.
        Inr \<lparr>cd_n_groups = n_groups, cd_selectors = selectors, cd_lens = lens, cd_codes = codes\<rparr>)))))"

section \<open>Writing selectors and lengths\<close>

fun write_selectors :: "nat list \<Rightarrow> nat list \<Rightarrow> bit_writer \<Rightarrow> error + bit_writer" where
  "write_selectors pos [] w = Inr w"
| "write_selectors pos (sel # selectors) w =
     and_then (ok_or (position sel pos) Panic) (\<lambda>j.
     write_selectors (move_front pos j) selectors (write_bit 0 ((write_bit 1 ^^ j) w)))"

function write_up :: "nat \<Rightarrow> nat \<Rightarrow> bit_writer \<Rightarrow> nat \<times> bit_writer" where
  "write_up current target w = (if current < target then write_up (current + 1) target (write_bits 2 2 w) else (current, w))"
  by pat_completeness auto
termination by (relation "measure (\<lambda>(current, target, _). target - current)") auto

function write_down :: "nat \<Rightarrow> nat \<Rightarrow> bit_writer \<Rightarrow> nat \<times> bit_writer" where
  "write_down current target w = (if current > target then write_down (current - 1) target (write_bits 2 3 w) else (current, w))"
  by pat_completeness auto
termination by (relation "measure (\<lambda>(current, target, _). current - target)") auto

declare write_up.simps [simp del] write_down.simps [simp del]

fun write_lengths :: "nat list \<Rightarrow> nat \<Rightarrow> bit_writer \<Rightarrow> bit_writer" where
  "write_lengths [] current w = w"
| "write_lengths (len # table) current w =
     (let up = write_up current len w; down = write_down (fst up) len (snd up)
      in write_lengths table (fst down) (write_bit 0 (snd down)))"

fun write_tables :: "nat list list \<Rightarrow> bit_writer \<Rightarrow> error + bit_writer" where
  "write_tables [] w = Inr w"
| "write_tables (table # lens) w =
     and_then (index table 0) (\<lambda>current.
     write_tables lens (write_lengths table current (write_bits 5 (word_of_nat current) w)))"

section \<open>Building never panics\<close>

lemma try_fold_steps:
  assumes "I 0 s" and "\<And>k s. k < length xs \<Longrightarrow> I k s \<Longrightarrow> \<exists>s'. f (xs ! k) s = Inr s' \<and> I (Suc k) s'"
  shows "\<exists>s'. try_fold f xs s = Inr s' \<and> I (length xs) s'"
  using assms
proof (induction xs arbitrary: s I)
  case (Cons x xs)
  obtain s' where s': "f x s = Inr s'" "I (Suc 0) s'" using Cons.prems(2) [of 0 s] Cons.prems(1) by auto
  have "\<exists>t. try_fold f xs s' = Inr t \<and> I (Suc (length xs)) t"
    using Cons.prems(2) [of "Suc _"] by (intro Cons.IH [of "\<lambda>k. I (Suc k)"]) (use s' in auto)
  then show ?case using s' by auto
qed simp

lemma try_fold_keeps:
  assumes "I s" and "\<And>x s. x \<in> set xs \<Longrightarrow> I s \<Longrightarrow> \<exists>s'. f x s = Inr s' \<and> I s'"
  shows "\<exists>s'. try_fold f xs s = Inr s' \<and> I s'"
  using try_fold_steps [of "\<lambda>_. I" s xs f] assms by simp

definition tables_shape :: "nat \<Rightarrow> nat \<Rightarrow> nat list list \<Rightarrow> bool" where
  "tables_shape n alpha lens \<longleftrightarrow> length lens = n \<and> (\<forall>len\<in>set lens. length len = alpha)"

lemma group_cost_ok:
  "\<forall>s\<in>set grp. s < length len \<Longrightarrow> \<exists>cost. group_cost len grp = Inr cost"
  unfolding group_cost_def
  using try_fold_keeps [of "\<lambda>_. True" 0 grp "\<lambda>s cost. and_then (index len s) (\<lambda>l. Inr (cost + l))"] by auto

lemma pick_table_ok:
  assumes "tables_shape n alpha lens" and "\<forall>s\<in>set grp. s < alpha" and "0 < n"
  shows "\<exists>t. pick_table lens grp = Inr t \<and> t < n"
proof -
  let ?f = "\<lambda>p best. and_then (group_cost (snd p) grp) (\<lambda>cost. Inr (if cost < snd best then (fst p, cost) else best))"
  have "\<exists>best. try_fold ?f (enumerate 0 lens) (0, U64_MAX) = Inr best \<and> fst best < n"
  proof (rule try_fold_keeps)
    fix p and best :: "nat \<times> nat"
    assume p: "p \<in> set (enumerate 0 lens)" and b: "fst best < n"
    have "snd p \<in> set lens" using p by (metis map_snd_enumerate list.set_map imageI)
    then obtain cost where "group_cost (snd p) grp = Inr cost"
      using assms group_cost_ok [of grp "snd p"] by (auto simp: tables_shape_def)
    moreover have "fst p < n" using p assms(1) by (auto simp: tables_shape_def in_set_enumerate_eq)
    ultimately show "\<exists>s'. ?f p best = Inr s' \<and> fst s' < n" using b by simp
  qed (use assms(3) in simp)
  then show ?thesis by (auto simp: pick_table_def)
qed

lemma groups_step: "0 < n \<Longrightarrow> Suc ((n - 50 + 49) div 50) = (n + 49) div 50"
proof (cases "n \<ge> 50")
  case True
  then obtain m where "n = 50 + m" using le_Suc_ex by blast
  then show ?thesis by simp
next
  case False
  assume "0 < n"
  then have "(n + 49) div 50 = 1" using False by (intro div_nat_eqI) simp_all
  then show ?thesis using False by simp
qed

lemma assign_selectors_ok:
  assumes "tables_shape n alpha lens" and "\<forall>s\<in>set syms. s < alpha" and "0 < n" and "\<forall>t\<in>set selectors. t < n"
  shows "\<exists>sel. assign_selectors lens syms selectors = Inr sel \<and> (\<forall>t\<in>set sel. t < n) \<and>
    length sel = length selectors + (length syms + 49) div 50"
  using assms
proof (induction lens syms selectors rule: assign_selectors.induct)
  case (1 lens syms selectors)
  show ?case
  proof (cases "syms = []")
    case False
    have "\<forall>s\<in>set (take ENC_GROUP syms). s < alpha" using "1.prems"(2) by (auto dest: in_set_takeD)
    then obtain t where t: "pick_table lens (take ENC_GROUP syms) = Inr t" "t < n"
      using pick_table_ok "1.prems"(1,3) by blast
    have rest: "\<forall>s\<in>set (drop ENC_GROUP syms). s < alpha" using "1.prems"(2) by (auto dest: in_set_dropD)
    obtain sel where "assign_selectors lens (drop ENC_GROUP syms) (selectors @ [t]) = Inr sel" "\<forall>t\<in>set sel. t < n"
      "length sel = length (selectors @ [t]) + (length (drop ENC_GROUP syms) + 49) div 50"
      using "1.IH" [OF False t(1) "1.prems"(1) rest "1.prems"(3)] "1.prems"(4) t(2) by auto
    moreover have "length (selectors @ [t]) + (length (drop ENC_GROUP syms) + 49) div 50 = length selectors + (length syms + 49) div 50"
      using groups_step [of "length syms"] False by (simp add: ENC_GROUP_def)
    ultimately show ?thesis using False t by (simp add: assign_selectors.simps [of lens syms selectors])
  qed (use "1.prems" in \<open>simp add: assign_selectors.simps [of lens "[]" selectors]\<close>)
qed

lemma add_freq_ok: "s < length freq \<Longrightarrow> add_freq s freq = Inr (freq[s := freq ! s + 1])"
  by (simp add: add_freq_def)

lemma add_table_freq_ok:
  assumes "tables_shape n alpha rfreq" and "t < n" and "s < alpha"
  shows "\<exists>r. add_table_freq t s rfreq = Inr r \<and> tables_shape n alpha r"
proof -
  have "length (rfreq ! t) = alpha" using assms by (simp add: tables_shape_def)
  then show ?thesis
    using assms by (auto simp: add_table_freq_def tables_shape_def add_freq_ok dest!: set_update_subset_insert [THEN subsetD])
qed

lemma tally_groups_ok:
  assumes "\<forall>s\<in>set syms. s < alpha" and "\<forall>t\<in>set selectors. t < n" and "length selectors = (length syms + 49) div 50"
  shows "\<exists>r. tally_groups syms alpha n selectors = Inr r \<and> tables_shape n alpha r"
  unfolding tally_groups_def
proof (rule try_fold_keeps)
  show "tables_shape n alpha (replicate n (replicate alpha 0))" by (simp add: tables_shape_def)
  fix p and rfreq :: "nat list list"
  assume p: "p \<in> set (enumerate 0 selectors)" and r: "tables_shape n alpha rfreq"
  have "fst p < length selectors" "snd p = selectors ! fst p" using p by (simp_all add: in_set_enumerate_eq)
  then have t: "snd p < n" using assms(2) by simp
  have "fst p < (length syms + 49) div 50" using p assms(3) by (simp add: in_set_enumerate_eq)
  then have start: "fst p * ENC_GROUP \<le> length syms" by (simp add: ENC_GROUP_def)
  let ?grp = "slice_of syms (fst p * ENC_GROUP) (min (fst p * ENC_GROUP + ENC_GROUP) (length syms))"
  have "\<forall>s\<in>set ?grp. s < alpha" using assms(1) by (auto simp: slice_of_def dest!: in_set_takeD in_set_dropD)
  then have "\<exists>r. try_fold (add_table_freq (snd p)) ?grp rfreq = Inr r \<and> tables_shape n alpha r"
    using r t add_table_freq_ok by (intro try_fold_keeps) auto
  then show "\<exists>s'. (let start = fst p * ENC_GROUP in
      and_then (index_range syms start (min (start + ENC_GROUP) (length syms))) (\<lambda>grp.
      try_fold (add_table_freq (snd p)) grp rfreq)) = Inr s' \<and> tables_shape n alpha s'"
    using start by (simp add: Let_def)
qed

text \<open>A table the decoder accepts: lengths within the limit that are not oversubscribed.\<close>

definition codable :: "nat \<Rightarrow> nat list \<Rightarrow> bool" where
  "codable alpha len \<longleftrightarrow> length len = alpha \<and> (\<forall>l\<in>set len. 1 \<le> l \<and> l \<le> ENC_MAX_LEN) \<and> not_oversubscribed len"

text \<open>Frequencies are 32 bits wide and the alphabet is small, so the sums of package-merge fit into 64 bits.\<close>

lemma frequencies_fit:
  assumes "length row \<le> 2 ^ 17"
  shows "(ENC_MAX_LEN - 1) * sum_list (map (\<lambda>f. max (f mod 2 ^ 32) 1) row) < 2 ^ 64"
proof -
  have "sum_list (map (\<lambda>f. max (f mod 2 ^ 32) 1) row) \<le> sum_list (map (\<lambda>f. 2 ^ 32) row)"
    by (rule sum_list_mono) (simp add: less_imp_le)
  also have "\<dots> \<le> 2 ^ 17 * 2 ^ 32" using assms by (simp add: sum_list_triv)
  finally show ?thesis by (simp add: ENC_MAX_LEN_def)
qed

lemma refine_tables_ok:
  assumes "tables_shape n alpha rfreq" and "length lens = n" and "2 \<le> alpha" and "alpha \<le> 2 ^ 17"
  shows "\<exists>r. try_fold (refine_table rfreq) [0..<length lens] lens = Inr r \<and> length r = n \<and> (\<forall>len\<in>set r. codable alpha len)"
proof -
  have "\<exists>r. try_fold (refine_table rfreq) [0..<n] lens = Inr r \<and> length r = n \<and> (\<forall>t < length [0..<n]. codable alpha (r ! t))"
  proof (rule try_fold_steps [where I = "\<lambda>k r. length r = n \<and> (\<forall>t<k. codable alpha (r ! t))"])
    fix k and r :: "nat list list"
    assume k: "k < length [0..<n]" and r: "length r = n \<and> (\<forall>t<k. codable alpha (r ! t))"
    have len: "length (map (\<lambda>f. max (f mod 2 ^ 32) 1) (rfreq ! k)) = alpha" using k assms(1) by (simp add: tables_shape_def)
    obtain len where "package_merge (map (\<lambda>f. max (f mod 2 ^ 32) 1) (rfreq ! k)) ENC_MAX_LEN = Inr len" "codable alpha len"
    proof -
      have "\<exists>lens. package_merge (map (\<lambda>f. max (f mod 2 ^ 32) 1) (rfreq ! k)) ENC_MAX_LEN = Inr lens \<and>
          length lens = length (map (\<lambda>f. max (f mod 2 ^ 32) 1) (rfreq ! k)) \<and>
          (\<forall>l\<in>set lens. 1 \<le> l \<and> l \<le> ENC_MAX_LEN) \<and> not_oversubscribed lens"
        using package_merge_codable [of "map (\<lambda>f. max (f mod 2 ^ 32) 1) (rfreq ! k)" ENC_MAX_LEN] len assms(3,4)
          frequencies_fit [of "rfreq ! k"]
        unfolding ENC_MAX_LEN_def by auto
      then show ?thesis using that len by (auto simp: codable_def)
    qed
    then show "\<exists>s'. refine_table rfreq ([0..<n] ! k) r = Inr s' \<and> length s' = n \<and> (\<forall>t<Suc k. codable alpha (s' ! t))"
      using k r assms(1) by (auto simp: refine_table_def tables_shape_def nth_list_update less_Suc_eq)
  qed (use assms(2) in simp)
  then show ?thesis using assms(2) by (auto simp: in_set_conv_nth)
qed

lemma refine_lengths_ok:
  assumes "tables_shape n alpha lens" and "\<forall>s\<in>set syms. s < alpha" and "0 < n" and "2 \<le> alpha" and "alpha \<le> 2 ^ 17"
  shows "\<exists>r. refine_lengths syms alpha n lens = Inr r \<and> length r = n \<and> (\<forall>len\<in>set r. codable alpha len)"
proof -
  obtain sel where sel: "assign_selectors lens syms [] = Inr sel" "\<forall>t\<in>set sel. t < n" "length sel = (length syms + 49) div 50"
    using assign_selectors_ok [OF assms(1-3), of "[]"] by auto
  obtain rf where rf: "tally_groups syms alpha n sel = Inr rf" "tables_shape n alpha rf"
    using tally_groups_ok [OF assms(2) sel(2,3)] by auto
  show ?thesis
    using refine_tables_ok [OF rf(2) _ assms(4,5), of lens] assms(1) sel(1) rf(1)
    by (auto simp: refine_lengths_def tables_shape_def)
qed

text \<open>The running total of a part is the frequency of the symbols from \<open>gs\<close> up to and with \<open>ge\<close>.\<close>

definition part_ok :: "nat list \<Rightarrow> nat \<Rightarrow> int \<times> nat \<Rightarrow> bool" where
  "part_ok freq gs part \<longleftrightarrow> int gs \<le> fst part + 1 \<and> fst part + 1 \<le> int (length freq) \<and>
     snd part = (\<Sum>v=gs..<nat (fst part + 1). freq ! v)"

lemma sum_next: "gs \<le> h \<Longrightarrow> (\<Sum>v=gs..<Suc h. freq ! v) = (\<Sum>v=gs..<h. freq ! v) + (freq ! h :: nat)"
  by simp

lemma grow_part_ok:
  "part_ok freq gs (ge, acc) \<Longrightarrow> length freq = alpha \<Longrightarrow>
   \<exists>part. grow_part freq alpha target ge acc = Inr part \<and> part_ok freq gs part"
proof (induction freq alpha target ge acc rule: grow_part.induct)
  case (1 freq alpha target ge acc)
  show ?case
  proof (cases "acc < target \<and> ge < int alpha - 1")
    case True
    have h: "nat (ge + 1 + 1) = Suc (nat (ge + 1))" and le: "gs \<le> nat (ge + 1)" and less: "nat (ge + 1) < length freq"
      using "1.prems" True by (auto simp: part_ok_def)
    have "part_ok freq gs (ge + 1, acc + freq ! nat (ge + 1))"
      using "1.prems" True h le sum_next [OF le, of freq] by (auto simp: part_ok_def)
    then show ?thesis
      using "1.IH" [OF True index_less [OF less]] "1.prems"(2) True less by (simp add: grow_part.simps [of freq alpha target ge acc])
  next
    case False
    then have "grow_part freq alpha target ge acc = Inr (ge, acc)"
      by (subst grow_part.simps) (simp only: if_False)
    then show ?thesis using "1.prems"(1) by blast
  qed
qed

lemma shrink_part_ok:
  assumes "part_ok freq gs part"
  shows "\<exists>part'. shrink_part freq n_groups n_part gs part = Inr part' \<and> part_ok freq gs part'"
proof (cases "fst part > int gs \<and> n_part \<noteq> n_groups \<and> n_part \<noteq> 1 \<and> (n_groups - n_part) mod 2 = 1")
  case True
  obtain h where h: "fst part = int h" "gs < h" "h < length freq"
    using True assms by (cases "fst part") (auto simp: part_ok_def)
  then have "nat (fst part + 1) = Suc h" by simp
  then have acc: "snd part = (\<Sum>v=gs..<h. freq ! v) + freq ! h"
    using assms h(2) by (simp add: part_ok_def)
  then show ?thesis using True h by (simp add: shrink_part_def checked_minus_def part_ok_def)
next
  case False
  then have "shrink_part freq n_groups n_part gs part = Inr part" by (simp only: shrink_part_def if_False)
  then show ?thesis using assms by blast
qed

lemma initial_parts_ok:
  assumes "gs \<le> length freq" and "remaining = (\<Sum>v=gs..<length freq. freq ! v)" and "length freq = alpha"
    and "tables_shape n alpha lens" and "k \<le> n"
  shows "\<exists>r. initial_parts freq alpha n k lens remaining gs = Inr r \<and> tables_shape n alpha r"
  using assms
proof (induction k arbitrary: lens remaining gs)
  case (Suc k)
  have "part_ok freq gs (int gs - 1, 0)" using Suc.prems(1) by (simp add: part_ok_def)
  then obtain part where part: "grow_part freq alpha (remaining div Suc k) (int gs - 1) 0 = Inr part" "part_ok freq gs part"
    using grow_part_ok Suc.prems(3) by blast
  then obtain part' where part': "shrink_part freq n (Suc k) gs part = Inr part'" "part_ok freq gs part'"
    using shrink_part_ok by blast
  let ?h = "nat (fst part' + 1)"
  have h: "gs \<le> ?h" "?h \<le> length freq" using part'(2) by (auto simp: part_ok_def)
  have split: "remaining = snd part' + (\<Sum>v=?h..<length freq. freq ! v)"
    using part'(2) Suc.prems(2) sum.atLeastLessThan_concat [OF h, of "(!) freq"] by (simp add: part_ok_def)
  have "tables_shape n alpha (lens[k := map (\<lambda>v. if int gs \<le> int v \<and> int v \<le> fst part' then 1 else 15) [0..<alpha]])"
    using Suc.prems(4) by (auto simp: tables_shape_def dest!: set_update_subset_insert [THEN subsetD])
  then show ?case
    using Suc.IH [OF h(2) _ Suc.prems(3), of "remaining - snd part'"] Suc.prems(5) split part(1) part'(1)
    by (simp add: checked_minus_def)
qed simp

lemma tally_ok:
  assumes "\<forall>s\<in>set syms. s < length freq"
  shows "\<exists>f. try_fold add_freq syms freq = Inr f \<and> length f = length freq \<and> sum_list f = sum_list freq + length syms"
  using assms
proof (induction syms arbitrary: freq)
  case (Cons s syms)
  have "sum_list (freq[s := freq ! s + 1]) = sum_list freq + 1"
    using Cons.prems by (simp add: sum_list_update)
  then show ?case using Cons.IH [of "freq[s := freq ! s + 1]"] Cons.prems by (simp add: add_freq_ok)
qed simp

lemma initial_lengths_ok:
  assumes "\<forall>s\<in>set syms. s < alpha"
  shows "\<exists>r. initial_lengths syms alpha n = Inr r \<and> tables_shape n alpha r"
proof -
  obtain f where f: "try_fold add_freq syms (replicate alpha 0) = Inr f" "length f = alpha" "sum_list f = length syms"
    using tally_ok [of syms "replicate alpha 0"] assms by auto
  have "length syms = (\<Sum>v=0..<length f. f ! v)" using f(3) by (simp add: sum_list_sum_nth)
  then show ?thesis
    using initial_parts_ok [of 0 f "length syms" alpha n "replicate n (replicate alpha 0)" n] f
    by (simp add: initial_lengths_def tables_shape_def)
qed

section \<open>The canonical codes\<close>

definition codes_done :: "nat list \<Rightarrow> nat \<Rightarrow> u32 list \<Rightarrow> bool" where
  "codes_done lens l codes \<longleftrightarrow> length codes = length lens \<and>
     (\<forall>i<length lens. lens ! i < l \<longrightarrow> codes ! i = word_of_nat (code_of lens i))"

lemma code_step_fold:
  assumes "k \<le> length lens" and "length codes = length lens"
  shows "\<exists>codes'. fold (code_step l) (take k (enumerate 0 lens)) (codes, word_of_nat start) =
      (codes', word_of_nat (start + count_list (take k lens) l)) \<and> length codes' = length lens \<and>
      (\<forall>i<length lens. codes' ! i = (if i < k \<and> lens ! i = l then word_of_nat (start + count_list (take i lens) l) else codes ! i))"
  using assms(1)
proof (induction k)
  case 0
  then show ?case using assms(2) by simp
next
  case (Suc k)
  then obtain codes' where IH: "fold (code_step l) (take k (enumerate 0 lens)) (codes, word_of_nat start) =
      (codes', word_of_nat (start + count_list (take k lens) l))" "length codes' = length lens"
      "\<forall>i<length lens. codes' ! i = (if i < k \<and> lens ! i = l then word_of_nat (start + count_list (take i lens) l) else codes ! i)"
    by auto
  have k: "k < length (enumerate 0 lens)" using Suc.prems by simp
  have "fold (code_step l) (take (Suc k) (enumerate 0 lens)) (codes, word_of_nat start) =
      code_step l (k, lens ! k) (codes', word_of_nat (start + count_list (take k lens) l))"
    using IH(1) k nth_enumerate_eq [of k lens 0] by (simp only: take_Suc_conv_app_nth fold_append comp_def) simp
  moreover have "code_step l (k, lens ! k) (codes', word_of_nat (start + count_list (take k lens) l)) =
      (if lens ! k = l then codes'[k := word_of_nat (start + count_list (take k lens) l)] else codes',
       word_of_nat (start + count_list (take (Suc k) lens) l))"
    using Suc.prems by (simp add: code_step_def take_Suc_conv_app_nth add.assoc)
  moreover have "\<forall>i<length lens. (if lens ! k = l then codes'[k := word_of_nat (start + count_list (take k lens) l)] else codes') ! i =
      (if i < Suc k \<and> lens ! i = l then word_of_nat (start + count_list (take i lens) l) else codes ! i)"
    using IH(2,3) Suc.prems by (auto simp: nth_list_update less_Suc_eq)
  ultimately show ?case using IH(2) by (simp only: prod.inject) auto
qed

lemma code_level_done:
  assumes "codes_done lens l codes" and "0 < l"
  shows "\<exists>codes'. code_level lens l (codes, word_of_nat (first_code lens l)) =
      (codes', word_of_nat (first_code lens (Suc l))) \<and> codes_done lens (Suc l) codes'"
proof -
  have len: "length codes = length lens" using assms(1) by (simp add: codes_done_def)
  obtain codes' where c: "fold (code_step l) (enumerate 0 lens) (codes, word_of_nat (first_code lens l)) =
      (codes', word_of_nat (first_code lens l + count_list lens l))" "length codes' = length lens"
      "\<forall>i<length lens. codes' ! i = (if lens ! i = l then word_of_nat (first_code lens l + count_list (take i lens) l) else codes ! i)"
    using code_step_fold [OF order_refl len, of l "first_code lens l"] by (auto simp: take_all)
  have "push_bit 1 (word_of_nat (first_code lens l + count_list lens l) :: u32) = word_of_nat (first_code lens (Suc l))"
    using assms(2) by (simp add: codes_of_length_def push_bit_eq_mult del: of_nat_add) (simp add: algebra_simps)
  moreover have "codes_done lens (Suc l) codes'"
    using c(2,3) assms(1) by (auto simp: codes_done_def code_of_def rank_def less_Suc_eq)
  ultimately show ?thesis using c(1) by (simp only: code_level_def Let_def fst_conv snd_conv) blast
qed

lemma code_levels_done:
  assumes "codes_done lens l codes" and "0 < l"
  shows "\<exists>codes'. fold (code_level lens) [l..<l + n] (codes, word_of_nat (first_code lens l)) =
      (codes', word_of_nat (first_code lens (l + n))) \<and> codes_done lens (l + n) codes'"
proof (induction n)
  case 0
  then show ?case using assms(1) by simp
next
  case (Suc n)
  then obtain codes' where c: "fold (code_level lens) [l..<l + n] (codes, word_of_nat (first_code lens l)) =
      (codes', word_of_nat (first_code lens (l + n)))" "codes_done lens (l + n) codes'" by blast
  show ?case
    using code_level_done [OF c(2)] assms(2) c(1) by (auto simp del: first_code.simps)
qed

lemma first_code_zero: "(\<And>x. x \<in> set lens \<Longrightarrow> l \<le> x) \<Longrightarrow> first_code lens l = 0"
proof (induction l)
  case (Suc l)
  then have "l \<notin> set lens" by fastforce
  then have "codes_of_length lens l = 0" by (simp add: codes_of_length_def count_list_0_iff)
  moreover have "first_code lens l = 0" using Suc by (meson Suc_leD)
  ultimately show ?case by simp
qed simp

lemma canonical_codes_result:
  assumes "lens \<noteq> []" and "0 \<notin> set lens"
  shows "\<exists>codes. canonical_codes lens = Inr codes \<and> length codes = length lens \<and>
    (\<forall>i<length lens. codes ! i = word_of_nat (code_of lens i))"
proof -
  let ?min = "Min (set lens)" and ?max = "Max (set lens)"
  have bounds: "x \<in> set lens \<Longrightarrow> ?min \<le> x \<and> x \<le> ?max" for x by simp
  have min_in: "?min \<in> set lens" using assms(1) by simp
  have pos: "0 < ?min" using min_in assms(2) by (metis gr0I)
  have start: "first_code lens ?min = 0" using bounds by (intro first_code_zero) simp
  have "codes_done lens ?min (replicate (length lens) 0)"
    unfolding codes_done_def using bounds [OF nth_mem] by (auto simp: not_less [symmetric] simp del: Min_le Min_le_iff)
  then obtain codes where c: "fold (code_level lens) [?min..<?min + (Suc ?max - ?min)] (replicate (length lens) 0, word_of_nat (first_code lens ?min)) =
      (codes, word_of_nat (first_code lens (?min + (Suc ?max - ?min))))" "codes_done lens (?min + (Suc ?max - ?min)) codes"
    using code_levels_done [OF _ pos] by blast
  have "?min + (Suc ?max - ?min) = Suc ?max" using bounds [OF min_in] by simp
  then show ?thesis
    using c assms(1) start bounds by (auto simp: canonical_codes_def codes_done_def less_Suc_eq_le simp del: upt_Suc)
qed

definition codes_ok :: "nat list \<Rightarrow> u32 list \<Rightarrow> bool" where
  "codes_ok len codes \<longleftrightarrow> length codes = length len \<and> (\<forall>s<length len. unat (codes ! s) = code_of len s)"

lemma codable_codes:
  assumes "codable alpha len" and "0 < alpha"
  shows "\<exists>codes. canonical_codes len = Inr codes \<and> codes_ok len codes"
proof -
  have pos: "0 \<notin> set len" and ne: "len \<noteq> []" using assms by (auto simp: codable_def)
  obtain codes where c: "canonical_codes len = Inr codes" "length codes = length len"
    "\<forall>i<length len. codes ! i = word_of_nat (code_of len i)"
    using canonical_codes_result [OF ne pos] by blast
  have "unat (codes ! s) = code_of len s" if s: "s < length len" for s
  proof -
    have "1 \<le> len ! s \<and> len ! s \<le> ENC_MAX_LEN" using assms(1) s nth_mem [OF s] unfolding codable_def by blast
    then have l: "0 < len ! s" "len ! s \<le> 32" by (simp_all add: ENC_MAX_LEN_def)
    then have "code_of len s < 2 ^ (len ! s)"
      using assms(1) s by (intro code_of_less) (auto simp: codable_def has_code_def)
    also have "(2 :: nat) ^ (len ! s) \<le> 2 ^ 32" using l(2) by (intro power_increasing) simp_all
    finally have "code_of len s < 2 ^ 32" .
    then show ?thesis using c(3) s by (simp add: unat_of_nat)
  qed
  then show ?thesis using c by (auto simp: codes_ok_def)
qed

lemma all_codes_ok:
  assumes "\<forall>len\<in>set lens. codable alpha len" and "0 < alpha"
  shows "\<exists>codes. all_codes lens = Inr codes \<and> list_all2 codes_ok lens codes"
  using assms(1)
proof (induction lens)
  case (Cons len lens)
  then show ?case using codable_codes [OF _ assms(2), of len] by auto
qed simp

lemma group_count_range: "2 \<le> group_count n" "group_count n \<le> 6"
  by (simp_all add: group_count_def)

definition coding_ok :: "nat list \<Rightarrow> nat \<Rightarrow> coding \<Rightarrow> bool" where
  "coding_ok syms alpha c \<longleftrightarrow> 2 \<le> cd_n_groups c \<and> cd_n_groups c \<le> 6 \<and>
     length (cd_selectors c) = (length syms + 49) div 50 \<and> (\<forall>t\<in>set (cd_selectors c). t < cd_n_groups c) \<and>
     length (cd_lens c) = cd_n_groups c \<and> (\<forall>len\<in>set (cd_lens c). codable alpha len) \<and>
     list_all2 codes_ok (cd_lens c) (cd_codes c)"

lemma huffman_build_result:
  assumes "syms \<noteq> []" and "\<forall>s\<in>set syms. s < alpha" and "3 \<le> alpha" and "alpha \<le> 2 ^ 17"
  shows "\<exists>c. huffman_build syms alpha = Inr c \<and> coding_ok syms alpha c"
proof -
  let ?n = "group_count (length syms)"
  let ?good = "\<lambda>lens. length lens = ?n \<and> (\<forall>len\<in>set lens. codable alpha len)"
  have n: "0 < ?n" using group_count_range(1) [of "length syms"] by simp
  have shape: "?good lens \<Longrightarrow> tables_shape ?n alpha lens" for lens by (auto simp: tables_shape_def codable_def)
  obtain l0 where l0: "initial_lengths syms alpha ?n = Inr l0" "tables_shape ?n alpha l0"
    using initial_lengths_ok [OF assms(2)] by blast
  have "\<exists>l. try_fold (\<lambda>_. refine_lengths syms alpha ?n) [0..<N_ITERS] l0 = Inr l \<and>
      (tables_shape ?n alpha l \<and> (length [0..<N_ITERS] = 0 \<or> ?good l))"
  proof (rule try_fold_steps [where I = "\<lambda>k :: nat. \<lambda>l. tables_shape ?n alpha l \<and> (k = 0 \<or> ?good l)"])
    fix k :: nat and l :: "nat list list"
    assume "tables_shape ?n alpha l \<and> (k = 0 \<or> ?good l)"
    then obtain r where "refine_lengths syms alpha ?n l = Inr r" "?good r"
      using refine_lengths_ok [OF _ assms(2) n _ assms(4), of l] assms(3) by auto
    then show "\<exists>s'. refine_lengths syms alpha ?n l = Inr s' \<and> tables_shape ?n alpha s' \<and> (Suc k = 0 \<or> ?good s')"
      using shape by blast
  qed (use l0 in simp)
  then obtain l where l: "try_fold (\<lambda>_. refine_lengths syms alpha ?n) [0..<N_ITERS] l0 = Inr l"
    "tables_shape ?n alpha l" "?good l"
    by (auto simp: N_ITERS_def)
  obtain sel where sel: "assign_selectors l syms [] = Inr sel" "\<forall>t\<in>set sel. t < ?n" "length sel = (length syms + 49) div 50"
    using assign_selectors_ok [OF l(2) assms(2) n, of "[]"] by auto
  obtain codes where codes: "all_codes l = Inr codes" "list_all2 codes_ok l codes"
    using all_codes_ok [of l alpha] l(3) assms(3) by auto
  have "huffman_build syms alpha = Inr \<lparr>cd_n_groups = ?n, cd_selectors = sel, cd_lens = l, cd_codes = codes\<rparr>"
    using assms(1,3) l0(1) l(1) sel(1) codes(1) by (simp add: huffman_build_def Let_def)
  then show ?thesis
    using sel l(3) codes(2) group_count_range by (simp add: coding_ok_def)
qed

text \<open>C31. Building the coding of a symbol stream never panics (no index out of range, no subtraction below
  zero, no failed assertion) and returns between two and six tables over the whole alphabet, each with
  lengths of 1 to 17 that are not oversubscribed, one table for every fifty symbols, and as codes the
  canonical codes of the lengths.\<close>

theorem build_codable:
  assumes "syms \<noteq> []" and "\<forall>s\<in>set syms. s < alpha" and "3 \<le> alpha" and "alpha \<le> 258"
  shows "\<exists>c. huffman_build syms alpha = Inr c \<and> 2 \<le> cd_n_groups c \<and> cd_n_groups c \<le> 6 \<and>
    length (cd_selectors c) = (length syms + 49) div 50 \<and> (\<forall>t\<in>set (cd_selectors c). t < cd_n_groups c) \<and>
    length (cd_lens c) = cd_n_groups c \<and>
    (\<forall>len\<in>set (cd_lens c). length len = alpha \<and> (\<forall>l\<in>set len. 1 \<le> l \<and> l \<le> 17) \<and> not_oversubscribed len) \<and>
    list_all2 (\<lambda>len codes. length codes = alpha \<and> (\<forall>s<alpha. unat (codes ! s) = code_of len s)) (cd_lens c) (cd_codes c)"
proof -
  have "alpha \<le> 2 ^ 17" using assms(4) by simp
  then obtain c where c: "huffman_build syms alpha = Inr c" "coding_ok syms alpha c"
    using huffman_build_result [OF assms(1-3)] by blast
  have "list_all2 (\<lambda>len codes. length codes = alpha \<and> (\<forall>s<alpha. unat (codes ! s) = code_of len s)) (cd_lens c) (cd_codes c)"
  proof (rule list.rel_mono_strong)
    show "list_all2 codes_ok (cd_lens c) (cd_codes c)" using c(2) by (simp add: coding_ok_def)
    fix len codes assume "len \<in> set (cd_lens c)" and "codes \<in> set (cd_codes c)" and "codes_ok len codes"
    then show "length codes = alpha \<and> (\<forall>s<alpha. unat (codes ! s) = code_of len s)"
      using c(2) by (auto simp: coding_ok_def codable_def codes_ok_def)
  qed
  then show ?thesis using c by (auto simp: coding_ok_def codable_def ENC_MAX_LEN_def)
qed

theorem build_codable_witness: "\<exists>c. huffman_build [0, 2, 1, 2] 3 = Inr c \<and> cd_n_groups c \<le> 6"
  using build_codable [of "[0, 2, 1, 2]" 3] by auto

section \<open>What the writer emits\<close>

definition unary_bits :: "nat \<Rightarrow> bool list" where
  "unary_bits j = replicate j True @ [False]"

fun selector_bits :: "nat list \<Rightarrow> nat list \<Rightarrow> bool list" where
  "selector_bits pos [] = []"
| "selector_bits pos (sel # selectors) =
     unary_bits (the (position sel pos)) @ selector_bits (move_front pos (the (position sel pos))) selectors"

definition delta_bits :: "nat \<Rightarrow> nat \<Rightarrow> bool list" where
  "delta_bits current target =
     concat (replicate (target - current) [True, False]) @ concat (replicate (current - target) [True, True]) @ [False]"

fun length_bits :: "nat \<Rightarrow> nat list \<Rightarrow> bool list" where
  "length_bits current [] = []"
| "length_bits current (len # table) = delta_bits current len @ length_bits len table"

definition table_bits :: "nat list \<Rightarrow> bool list" where
  "table_bits table = to_bits 5 (table ! 0) @ length_bits (table ! 0) table"

lemma write_ones: "writer_ok w \<Longrightarrow> writer_ok ((write_bit 1 ^^ j) w) \<and> writer_bits ((write_bit 1 ^^ j) w) = writer_bits w @ replicate j True"
  by (induction j) (simp_all add: replicate_append_same bit_Suc_0_iff)

lemma write_selectors_bits:
  assumes "writer_ok w" and "set selectors \<subseteq> set pos"
  shows "\<exists>w'. write_selectors pos selectors w = Inr w' \<and> writer_ok w' \<and>
    writer_bits w' = writer_bits w @ selector_bits pos selectors"
  using assms
proof (induction selectors arbitrary: pos w)
  case (Cons sel selectors)
  obtain j where j: "position sel pos = Some j" using Cons.prems(2) position_in [of sel pos] by auto
  then have "j < length pos" by (simp add: position_Some_iff)
  then have sub: "set selectors \<subseteq> set (move_front pos j)" using Cons.prems(2) set_move_front [of j pos] by simp
  let ?w = "write_bit 0 ((write_bit 1 ^^ j) w)"
  have w: "writer_ok ?w" "writer_bits ?w = writer_bits w @ unary_bits j"
    using write_ones [OF Cons.prems(1), of j] by (simp_all add: unary_bits_def)
  show ?case using Cons.IH [OF w(1) sub] w(2) j by simp
qed simp

lemma two_bits: "to_bits 2 2 = [True, False]" "to_bits 2 3 = [True, True]" "to_bits 2 (Suc 0) = [False, True]"
  by code_simp+

lemma write_up_bits:
  "writer_ok w \<Longrightarrow> fst (write_up c t w) = max c t \<and> writer_ok (snd (write_up c t w)) \<and>
    writer_bits (snd (write_up c t w)) = writer_bits w @ concat (replicate (t - c) [True, False])"
proof (induction c t w rule: write_up.induct)
  case (1 c t w)
  show ?case
  proof (cases "c < t")
    case True
    then have "t - c = Suc (t - (c + 1))" by simp
    then show ?thesis
      using 1(1) [OF True] 1(2) True by (simp add: write_up.simps [of c t w] write_bits_bits two_bits)
  qed (use 1(2) in \<open>simp add: write_up.simps [of c t w]\<close>)
qed

lemma write_down_bits:
  "writer_ok w \<Longrightarrow> fst (write_down c t w) = min c t \<and> writer_ok (snd (write_down c t w)) \<and>
    writer_bits (snd (write_down c t w)) = writer_bits w @ concat (replicate (c - t) [True, True])"
proof (induction c t w rule: write_down.induct)
  case (1 c t w)
  show ?case
  proof (cases "c > t")
    case True
    then have "c - t = Suc (c - 1 - t)" by simp
    then show ?thesis
      using 1(1) [OF True] 1(2) True by (simp add: write_down.simps [of c t w] write_bits_bits two_bits)
  qed (use 1(2) in \<open>simp add: write_down.simps [of c t w]\<close>)
qed

lemma write_lengths_bits:
  "writer_ok w \<Longrightarrow> writer_ok (write_lengths table c w) \<and> writer_bits (write_lengths table c w) = writer_bits w @ length_bits c table"
proof (induction table arbitrary: c w)
  case (Cons len table)
  let ?up = "write_up c len w" let ?down = "write_down (fst ?up) len (snd ?up)"
  have up: "fst ?up = max c len" "writer_ok (snd ?up)"
    "writer_bits (snd ?up) = writer_bits w @ concat (replicate (len - c) [True, False])"
    using write_up_bits [OF Cons.prems] by simp_all
  have down: "fst ?down = len" "writer_ok (snd ?down)"
    "writer_bits (snd ?down) = writer_bits (snd ?up) @ concat (replicate (max c len - len) [True, True])"
    using write_down_bits [OF up(2), of "fst ?up" len] up(1) by simp_all
  have "max c len - len = c - len" by simp
  then show ?case
    using Cons.IH [of "write_bit 0 (snd ?down)" len] up(3) down by (simp add: Let_def delta_bits_def)
qed simp

lemma write_tables_bits:
  assumes "writer_ok w" and "\<forall>table\<in>set lens. table \<noteq> [] \<and> (\<forall>l\<in>set table. l < 32)"
  shows "\<exists>w'. write_tables lens w = Inr w' \<and> writer_ok w' \<and> writer_bits w' = writer_bits w @ concat (map table_bits lens)"
  using assms
proof (induction lens arbitrary: w)
  case (Cons table lens)
  have t: "0 < length table" "table ! 0 < 32" using Cons.prems(2) by auto
  let ?w = "write_lengths table (table ! 0) (write_bits 5 (word_of_nat (table ! 0)) w)"
  have "unat (word_of_nat (table ! 0) :: u32) = table ! 0" using t(2) by (simp add: unat_of_nat)
  then have w: "writer_ok ?w" "writer_bits ?w = writer_bits w @ table_bits table"
    using write_lengths_bits [of "write_bits 5 (word_of_nat (table ! 0)) w"] write_bits_bits [OF Cons.prems(1), of 5 "word_of_nat (table ! 0)"]
    by (simp_all add: table_bits_def)
  then show ?case using Cons.IH [OF w(1)] Cons.prems(2) t(1) by simp
qed simp

end
