(* ===== verification/Bz2_Encoder.thy ===== *)
theory Bz2_Encoder
  imports Huffman_Encode Crc Rle1 Streaming Options
begin

text \<open>
  \<open>src/bz2_encode/mod.rs\<close>: encoding a block (block sort, move-to-front, Huffman coding, bits) and the
  \<open>Encoder\<close> that splits its input into blocks at run boundaries, encodes them on the ordered pool and
  splices their bits into one stream.
\<close>

definition AUTO_WORKERS :: nat where "AUTO_WORKERS = 12"

section \<open>Encoding a block\<close>

record block_job =
  bj_rle :: bytes
  bj_crc :: u32
  bj_input_len :: nat

record bz2_encoded =
  zb_bytes :: bytes
  zb_bit_len :: nat
  zb_crc :: u32
  zb_input_len :: nat

definition chunk_of :: "bool list \<Rightarrow> nat \<Rightarrow> bool list" where
  "chunk_of used i = take 16 (drop (16 * i) used)"

definition map_word :: "bool list \<Rightarrow> u32" where
  "map_word flags = fold (\<lambda>p w. if snd p then w OR push_bit (15 - fst p) 1 else w) (enumerate 0 flags) 0"

definition write_symbol_map :: "bytes \<Rightarrow> bit_writer \<Rightarrow> bit_writer" where
  "write_symbol_map used_bytes w =
     (let used = fold (\<lambda>b used. used[unat b := True]) used_bytes (replicate 256 False);
          groups = map_word (map (\<lambda>i. True \<in> set (chunk_of used i)) [0..<16])
      in fold (\<lambda>i w. if groups AND push_bit (15 - i) 1 = 0 then w else write_bits 16 (map_word (chunk_of used i)) w)
           [0..<16] (write_bits 16 groups w))"

definition write_symbol :: "nat list \<Rightarrow> u32 list \<Rightarrow> nat \<Rightarrow> bit_writer \<Rightarrow> error + bit_writer" where
  "write_symbol lengths codes symbol w =
     and_then (index lengths symbol) (\<lambda>l. and_then (index codes symbol) (\<lambda>c. Inr (write_bits l c w)))"

definition write_group :: "nat list \<Rightarrow> coding \<Rightarrow> nat \<times> nat \<Rightarrow> bit_writer \<Rightarrow> error + bit_writer" where
  "write_group syms c p w =
     (let start = fst p * ENC_GROUP; stop = min (start + ENC_GROUP) (length syms) in
      and_then (index (cd_lens c) (snd p)) (\<lambda>lengths.
      and_then (index (cd_codes c) (snd p)) (\<lambda>codes.
      and_then (index_range syms start stop) (\<lambda>grp.
      try_fold (write_symbol lengths codes) grp w))))"

definition bz2_encode_block :: "block_job \<Rightarrow> error + bz2_encoded" where
  "bz2_encode_block job =
     and_then (bwt_transform (bj_rle job)) (\<lambda>t.
     and_then (mtf_encode (fst t)) (\<lambda>symbols.
     and_then (huffman_build (sy_syms symbols) (alpha_size symbols)) (\<lambda>c.
     let w = write_magic BLOCK_MARK bw_new;
         w = write_u32 (bj_crc job) w;
         w = write_bit 0 w;
         w = write_bits 24 (word_of_nat (snd t)) w;
         w = write_symbol_map (sy_in_use symbols) w;
         w = write_bits 3 (word_of_nat (cd_n_groups c)) w;
         w = write_bits 15 (word_of_nat (length (cd_selectors c))) w
     in and_then (write_selectors [0..<cd_n_groups c] (cd_selectors c) w) (\<lambda>w.
        and_then (write_tables (cd_lens c) w) (\<lambda>w.
        and_then (try_fold (write_group (sy_syms symbols) c) (enumerate 0 (cd_selectors c)) w) (\<lambda>w.
        Inr \<lparr>zb_bytes = fst (finish_bits w), zb_bit_len = snd (finish_bits w), zb_crc = bj_crc job,
             zb_input_len = bj_input_len job\<rparr>))))))"

section \<open>The stream encoder\<close>

definition bz2_reservation :: "nat \<Rightarrow> nat" where
  "bz2_reservation block_limit = sat_mul block_limit 32"

record bz2_writer =
  zw_output :: bytes
  zw_bits :: bit_writer
  zw_combined :: u32
  zw_input_len :: nat
  zw_output_len :: nat
  zw_blocks :: nat

record bz2_encoder =
  ze_pool :: "bz2_encoded streaming \<times> bz2_writer"
  ze_block_limit :: nat
  ze_reservation :: nat
  ze_block :: bytes
  ze_block_crc :: bz2_crc
  ze_block_input_len :: nat
  ze_runs :: splitter

record bz2_encode_report =
  zr_input_len :: nat
  zr_output_len :: nat
  zr_blocks :: nat

definition drain_bits :: "bz2_writer \<Rightarrow> bz2_writer" where
  "drain_bits w =
     (let d = bw_drain (zw_bits w)
      in w\<lparr>zw_bits := snd d, zw_output := zw_output w @ fst d, zw_output_len := zw_output_len w + length (fst d)\<rparr>)"

definition bz2_new :: "nat option \<Rightarrow> encode_options \<Rightarrow> error + bz2_encoder" where
  "bz2_new available options =
     and_then (encode_validate options) (\<lambda>options.
     let level = level_or options 9; block_limit = level * 100000 - 19; reservation = bz2_reservation block_limit in
     if reservation > eo_memory_limit options then Inl (InvalidConfiguration MemoryLimitTooSmall)
     else let requested = encode_resolved_threads available options;
              requested = (if eo_threads options = 0 then min requested AUTO_WORKERS else requested);
              workers = min requested (max (eo_memory_limit options div reservation) 1);
              writer = \<lparr>zw_output = [], zw_bits = bw_new, zw_combined = 0, zw_input_len = 0, zw_output_len = 0, zw_blocks = 0\<rparr>;
              header = fold write_u8 [0x42, 0x5a, 0x68, 0x30 + word_of_nat level] (zw_bits writer)
       in Inr \<lparr>ze_pool = (streaming_new workers (eo_memory_limit options), drain_bits (writer\<lparr>zw_bits := header\<rparr>)),
               ze_block_limit = block_limit, ze_reservation = reservation, ze_block = [], ze_block_crc = crc_new,
               ze_block_input_len = 0, ze_runs = splitter_new\<rparr>)"

definition bz2_commit :: "bz2_writer \<Rightarrow> bz2_encoded \<Rightarrow> error + bz2_writer" where
  "bz2_commit w block =
     and_then (write_buffer (zb_bytes block) (zb_bit_len block) (zw_bits w)) (\<lambda>bits.
     let w = drain_bits (w\<lparr>zw_bits := bits\<rparr>)
     in Inr (w\<lparr>zw_combined := word_rotl 1 (zw_combined w) XOR zb_crc block,
            zw_input_len := zw_input_len w + zb_input_len block, zw_blocks := zw_blocks w + 1\<rparr>))"

text \<open>A job that panics is a worker that panicked.\<close>

definition bz2_job :: "block_job \<Rightarrow> bz2_encoded option" where
  "bz2_job job = (case bz2_encode_block job of Inl _ \<Rightarrow> None | Inr b \<Rightarrow> Some b)"

definition submit_block :: "bz2_encoded schedule \<Rightarrow> bz2_encoder \<Rightarrow> error + bz2_encoder" where
  "submit_block pick e =
     (if ze_block e = [] then Inr e
      else and_then (submit_ordered pick bz2_commit (ze_reservation e)
             (bz2_job \<lparr>bj_rle = ze_block e, bj_crc = crc_finish (ze_block_crc e), bj_input_len = ze_block_input_len e\<rparr>)
             (ze_pool e)) (\<lambda>pool.
           Inr (e\<lparr>ze_pool := pool, ze_block := [], ze_block_crc := crc_new, ze_block_input_len := 0\<rparr>)))"

definition commit_group :: "bz2_encoded schedule \<Rightarrow> run_group \<Rightarrow> bz2_encoder \<Rightarrow> error + bz2_encoder" where
  "commit_group pick g e =
     and_then (if length (ze_block e) + encoded_len g > ze_block_limit e then submit_block pick e else Inr e) (\<lambda>e.
     Inr (e\<lparr>ze_block := write_into g (ze_block e),
            ze_block_crc := push_repeat (rg_byte g) (rg_raw_len g) (ze_block_crc e),
            ze_block_input_len := ze_block_input_len e + rg_raw_len g\<rparr>))"

definition commit_run :: "bz2_encoded schedule \<Rightarrow> run_group option \<times> splitter \<Rightarrow> bz2_encoder \<Rightarrow> error + bz2_encoder" where
  "commit_run pick r e =
     (let e = e\<lparr>ze_runs := snd r\<rparr> in case fst r of None \<Rightarrow> Inr e | Some g \<Rightarrow> commit_group pick g e)"

definition bz2_write :: "bz2_encoded schedule \<Rightarrow> bytes \<Rightarrow> bz2_encoder \<Rightarrow> error + bz2_encoder" where
  "bz2_write pick bs e = try_fold (\<lambda>b e. commit_run pick (splitter_push b (ze_runs e)) e) bs e"

definition bz2_flush :: "bz2_encoder \<Rightarrow> bz2_encoder" where
  "bz2_flush e = e\<lparr>ze_pool := (fst (ze_pool e), drain_bits (snd (ze_pool e)))\<rparr>"

definition bz2_finish :: "bz2_encoded schedule \<Rightarrow> bz2_encoder \<Rightarrow> error + bytes \<times> bz2_encode_report" where
  "bz2_finish pick e =
     and_then (commit_run pick (splitter_finish (ze_runs e)) e) (\<lambda>e.
     and_then (submit_block pick e) (\<lambda>e.
     and_then (drain pick bz2_commit (ze_pool e)) (\<lambda>pool.
     let w = snd pool;
         trailing = bw_finish (write_u32 (zw_combined w) (write_magic END_MARK (zw_bits w)))
     in Inr (zw_output w @ trailing,
          \<lparr>zr_input_len = zw_input_len w, zr_output_len = zw_output_len w + length trailing, zr_blocks = zw_blocks w\<rparr>))))"

text \<open>\<open>io::copy\<close> writes the input in chunks of its own choosing; a chunk may also be followed by a \<open>flush\<close>.\<close>

fun bz2_write_all :: "bz2_encoded schedule \<Rightarrow> (bytes \<times> bool) list \<Rightarrow> bz2_encoder \<Rightarrow> error + bz2_encoder" where
  "bz2_write_all pick [] e = Inr e"
| "bz2_write_all pick (chunk # chunks) e =
     and_then (bz2_write pick (fst chunk) e) (\<lambda>e. bz2_write_all pick chunks (if snd chunk then bz2_flush e else e))"

definition bz2_compress ::
  "nat option \<Rightarrow> bz2_encoded schedule \<Rightarrow> encode_options \<Rightarrow> (bytes \<times> bool) list \<Rightarrow> error + bytes \<times> bz2_encode_report" where
  "bz2_compress available pick options chunks =
     and_then (bz2_new available options) (\<lambda>e.
     and_then (bz2_write_all pick chunks e) (bz2_finish pick))"

end
