(* ===== verification/Inflate.thy ===== *)
theory Inflate
  imports History Options
begin

text \<open>
  The DEFLATE decoder of \<open>src/gzip.rs\<close>: the least-significant-bit-first reader \<open>Bits\<close>, the Huffman
  lookup table, the three block kinds and the trait \<open>DeflateOutput\<close> they write through, a record of
  operations here. A reader is its bit position in the data. The symbol loop of a block carries fuel,
  one step for every bit of the input: a table from \<open>inf_huffman_new\<close> consumes a bit at every step.
\<close>

section \<open>The bit reader\<close>

definition gz_error :: "gzip_reason \<Rightarrow> error" where
  "gz_error r = InvalidGzip r"

definition data_bits :: "bytes \<Rightarrow> nat" where
  "data_bits data = sat_mul (length data) 8"

definition inf_at :: "bytes \<Rightarrow> nat \<Rightarrow> error + nat" where
  "inf_at data bit_pos = (if bit_pos > data_bits data then Inl (gz_error (EndOfDeflate bit_pos)) else Inr bit_pos)"

definition inf_new :: "nat \<Rightarrow> nat" where
  "inf_new start_byte = sat_mul start_byte 8"

definition word_at :: "bytes \<Rightarrow> nat \<Rightarrow> u64" where
  "word_at data i =
     (if length data - i \<ge> 8 then u64_from_le (slice_of data i (i + 8))
      else fold (\<lambda>p w. w OR push_bit (fst p * 8) (ucast (snd p))) (enumerate 0 (take 8 (drop i data))) 0)"

definition inf_peek :: "bytes \<Rightarrow> nat \<Rightarrow> nat \<Rightarrow> error + u32" where
  "inf_peek data pos count =
     (case checked_add pos count of
        None \<Rightarrow> Inl (gz_error (EndOfDeflate pos))
      | Some stop \<Rightarrow>
          if stop > data_bits data then Inl (gz_error (EndOfDeflate pos))
          else (let shift = pos mod 8; mask = (if count = 0 then 0 else push_bit count 1 - 1)
                in Inr (ucast (drop_bit shift (word_at data (pos div 8)) AND mask))))"

definition inf_read :: "bytes \<Rightarrow> nat \<Rightarrow> nat \<Rightarrow> error + u32 \<times> nat" where
  "inf_read data pos count =
     (if count = 0 then Inr (0, pos)
      else and_then (inf_peek data pos count) (\<lambda>v. Inr (v, pos + count)))"

definition inf_align :: "nat \<Rightarrow> nat" where
  "inf_align pos = sat_add pos 7 div 8 * 8"

definition read_aligned_bytes :: "bytes \<Rightarrow> nat \<Rightarrow> nat \<Rightarrow> error + bytes \<times> nat" where
  "read_aligned_bytes data pos count =
     (if pos mod 8 \<noteq> 0 then Inl (gz_error (Unaligned pos))
      else let start = pos div 8 in
        and_then (ok_or (checked_add start count) (gz_error DeflateOverflow)) (\<lambda>stop.
        and_then (ok_or (get_range data start stop) (gz_error (TruncatedStored pos))) (\<lambda>bs.
        Inr (bs, stop * 8))))"

section \<open>The Huffman table\<close>

definition MAX_CODE_BITS :: nat where "MAX_CODE_BITS = 15"

record inf_huffman =
  ih_table :: "u16 list"
  ih_max :: nat

fun count_lengths :: "nat list \<Rightarrow> nat list \<times> nat \<Rightarrow> error + nat list \<times> nat" where
  "count_lengths [] st = Inr st"
| "count_lengths (l # ls) st =
     (if l > MAX_CODE_BITS then Inl (gz_error CodeLengthTooLong)
      else count_lengths ls (if l \<noteq> 0 then ((fst st)[l := fst st ! l + 1], max (snd st) l) else st))"

fun kraft_check :: "nat list \<Rightarrow> int \<Rightarrow> error + int" where
  "kraft_check [] remaining = Inr remaining"
| "kraft_check (c # counts) remaining =
     (let remaining = remaining * 2 - int c in
      if remaining < 0 then Inl (gz_error Oversubscribed) else kraft_check counts remaining)"

definition start_step :: "nat list \<Rightarrow> nat \<Rightarrow> nat list \<times> nat \<Rightarrow> nat list \<times> nat" where
  "start_step counts bits st =
     (let code = (snd st + counts ! (bits - 1)) * 2 in ((fst st)[bits := code], code))"

definition start_codes :: "nat list \<Rightarrow> nat list" where
  "start_codes counts = fst (fold (start_step counts) [1..<length counts] (replicate (length counts) 0, 0))"

definition reverse_bits16 :: "u16 \<Rightarrow> u16" where
  "reverse_bits16 w = fold (\<lambda>i r. if bit w i then r OR push_bit (15 - i) 1 else r) [0..<16] 0"

definition reverse_low_bits :: "nat \<Rightarrow> nat \<Rightarrow> nat" where
  "reverse_low_bits v count = unat (drop_bit (16 - count) (reverse_bits16 (word_of_nat v)))"

definition pack_entry :: "nat \<Rightarrow> nat \<Rightarrow> u16" where
  "pack_entry l symbol = push_bit 9 (word_of_nat l) OR word_of_nat symbol"

fun fill_suffixes :: "nat list \<Rightarrow> nat \<Rightarrow> nat \<Rightarrow> u16 \<Rightarrow> u16 list \<Rightarrow> error + u16 list" where
  "fill_suffixes [] reversed l packed table = Inr table"
| "fill_suffixes (s # suffixes) reversed l packed table =
     (let i = reversed OR push_bit l s in
      if i < length table then fill_suffixes suffixes reversed l packed (table[i := packed]) else Inl Panic)"

fun fill_table :: "(nat \<times> nat) list \<Rightarrow> nat \<Rightarrow> nat list \<Rightarrow> u16 list \<Rightarrow> error + u16 list" where
  "fill_table [] max_bits starts table = Inr table"
| "fill_table (p # ps) max_bits starts table =
     (let symbol = fst p; l = snd p in
      if l = 0 then fill_table ps max_bits starts table
      else and_then (index starts l) (\<lambda>canonical.
        and_then (fill_suffixes [0..<2 ^ (max_bits - l)] (reverse_low_bits canonical l) l (pack_entry l symbol) table) (\<lambda>table.
        fill_table ps max_bits (starts[l := canonical + 1]) table)))"

definition inf_huffman_new :: "nat list \<Rightarrow> error + inf_huffman" where
  "inf_huffman_new lengths =
     and_then (count_lengths lengths (replicate (MAX_CODE_BITS + 1) 0, 0)) (\<lambda>st.
     let counts = fst st; max_bits = snd st in
     if max_bits = 0 then Inr \<lparr>ih_table = [], ih_max = 0\<rparr>
     else and_then (kraft_check (tl counts) 1) (\<lambda>_.
       and_then (fill_table (enumerate 0 lengths) max_bits (start_codes counts) (replicate (2 ^ max_bits) (- 1))) (\<lambda>table.
       Inr \<lparr>ih_table = table, ih_max = max_bits\<rparr>)))"

definition inf_decode :: "inf_huffman \<Rightarrow> bytes \<Rightarrow> nat \<Rightarrow> error + nat \<times> nat" where
  "inf_decode h data pos =
     (if ih_max h = 0 then Inl (gz_error (EmptyTable pos))
      else let remaining = data_bits data - pos; peek_bits = min (ih_max h) remaining in
        and_then (inf_peek data pos peek_bits) (\<lambda>v.
        and_then (index (ih_table h) (unat v)) (\<lambda>packed.
        if packed = - 1 then Inl (gz_error (InvalidCode pos))
        else let l = unat (drop_bit 9 packed) in
          if l > remaining then Inl (gz_error (TruncatedCode pos))
          else Inr (unat (packed AND 0x1ff), pos + l))))"

section \<open>Dynamic and fixed tables\<close>

definition CODE_ORDER :: "nat list" where
  "CODE_ORDER = [16, 17, 18, 0, 8, 7, 9, 6, 10, 5, 11, 4, 12, 3, 13, 2, 14, 1, 15]"

fun read_code_lengths :: "bytes \<Rightarrow> nat list \<Rightarrow> nat list \<Rightarrow> nat \<Rightarrow> error + nat list \<times> nat" where
  "read_code_lengths data [] lengths pos = Inr (lengths, pos)"
| "read_code_lengths data (symbol # symbols) lengths pos =
     and_then (inf_read data pos 3) (\<lambda>r. read_code_lengths data symbols (lengths[symbol := unat (fst r)]) (snd r))"

definition append_lengths :: "nat list \<Rightarrow> nat \<Rightarrow> nat \<Rightarrow> nat \<Rightarrow> nat \<Rightarrow> error + nat list" where
  "append_lengths lengths whole v count bit_pos =
     (if sat_add (length lengths) count > whole then Inl (gz_error (RepeatExceedsTable bit_pos))
      else Inr (lengths @ replicate count v))"

definition length_symbol :: "bytes \<Rightarrow> nat \<Rightarrow> nat list \<Rightarrow> nat \<Rightarrow> nat \<Rightarrow> error + nat list \<times> nat" where
  "length_symbol data whole lengths symbol pos =
     (if symbol \<le> 15 then Inr (lengths @ [symbol], pos)
      else if symbol = 16
      then (if lengths = [] then Inl (gz_error (RepeatWithoutPrevious pos))
            else and_then (inf_read data pos 2) (\<lambda>r.
              and_then (append_lengths lengths whole (last lengths) (unat (fst r) + 3) (snd r)) (\<lambda>ls. Inr (ls, snd r))))
      else if symbol = 17
      then and_then (inf_read data pos 3) (\<lambda>r.
             and_then (append_lengths lengths whole 0 (unat (fst r) + 3) (snd r)) (\<lambda>ls. Inr (ls, snd r)))
      else if symbol = 18
      then and_then (inf_read data pos 7) (\<lambda>r.
             and_then (append_lengths lengths whole 0 (unat (fst r) + 11) (snd r)) (\<lambda>ls. Inr (ls, snd r)))
      else Inl (gz_error (CodeLengthSymbol pos)))"

lemma length_symbol_grows: "length_symbol data whole lengths symbol pos = Inr r \<Longrightarrow> length lengths < length (fst r)"
  by (auto simp: length_symbol_def append_lengths_def and_then_Inr_iff split: if_splits)

function read_all_lengths :: "bytes \<Rightarrow> inf_huffman \<Rightarrow> nat \<Rightarrow> nat list \<Rightarrow> nat \<Rightarrow> error + nat list \<times> nat" where
  "read_all_lengths data code_table whole lengths pos =
     (if length lengths < whole
      then and_then (inf_decode code_table data pos) (\<lambda>r.
           and_then (length_symbol data whole lengths (fst r) (snd r)) (\<lambda>r.
           read_all_lengths data code_table whole (fst r) (snd r)))
      else Inr (lengths, pos))"
  by pat_completeness auto
termination
  by (relation "measure (\<lambda>(_, _, whole, lengths, _). whole - length lengths)") (auto dest!: length_symbol_grows)

declare read_all_lengths.simps [simp del]

definition dynamic_tables :: "bytes \<Rightarrow> nat \<Rightarrow> error + (inf_huffman \<times> inf_huffman) \<times> nat" where
  "dynamic_tables data pos =
     and_then (inf_read data pos 5) (\<lambda>r. let literal_count = unat (fst r) + 257 in
     and_then (inf_read data (snd r) 5) (\<lambda>r. let distance_count = unat (fst r) + 1 in
     and_then (inf_read data (snd r) 4) (\<lambda>r. let code_count = unat (fst r) + 4 in
     and_then (index_range CODE_ORDER 0 code_count) (\<lambda>symbols.
     and_then (read_code_lengths data symbols (replicate 19 0) (snd r)) (\<lambda>r.
     and_then (inf_huffman_new (fst r)) (\<lambda>code_table. let whole = literal_count + distance_count in
     and_then (read_all_lengths data code_table whole [] (snd r)) (\<lambda>r. let lengths = fst r in
     and_then (index lengths 256) (\<lambda>end_length.
     if end_length = 0 then Inl (gz_error (NoEndOfBlock (snd r)))
     else and_then (inf_huffman_new (take literal_count lengths)) (\<lambda>literal.
       and_then (inf_huffman_new (drop literal_count lengths)) (\<lambda>distance.
       Inr ((literal, distance), snd r)))))))))))"

definition FIXED_LITERALS :: "nat list" where
  "FIXED_LITERALS = replicate 144 8 @ replicate 112 9 @ replicate 24 7 @ replicate 8 8"

definition fixed_tables :: "error + inf_huffman \<times> inf_huffman" where
  "fixed_tables =
     and_then (inf_huffman_new FIXED_LITERALS) (\<lambda>literal.
     and_then (inf_huffman_new (replicate 32 5)) (\<lambda>distance. Inr (literal, distance)))"

section \<open>Blocks\<close>

text \<open>The trait \<open>DeflateOutput\<close>.\<close>

record 'o deflate_output =
  do_total :: "'o \<Rightarrow> nat"
  do_emit :: "byte \<Rightarrow> 'o \<Rightarrow> error + 'o"
  do_extend :: "bytes \<Rightarrow> 'o \<Rightarrow> error + 'o"
  do_copy :: "nat \<Rightarrow> nat \<Rightarrow> 'o \<Rightarrow> error + 'o"

datatype block_kind = StoredBlock | FixedHuffman | DynamicHuffman

record inf_block =
  ib_member :: nat
  ib_kind :: block_kind
  ib_final :: bool
  ib_start_bit :: nat
  ib_end_bit :: nat
  ib_decoded_start :: nat
  ib_decoded_len :: nat

definition LENGTH_BASE :: "nat list" where
  "LENGTH_BASE = [3, 4, 5, 6, 7, 8, 9, 10, 11, 13, 15, 17, 19, 23, 27, 31, 35, 43, 51, 59, 67, 83, 99, 115, 131, 163, 195, 227, 258]"

definition LENGTH_EXTRA :: "nat list" where
  "LENGTH_EXTRA = [0, 0, 0, 0, 0, 0, 0, 0, 1, 1, 1, 1, 2, 2, 2, 2, 3, 3, 3, 3, 4, 4, 4, 4, 5, 5, 5, 5, 0]"

definition DISTANCE_BASE :: "nat list" where
  "DISTANCE_BASE = [1, 2, 3, 4, 5, 7, 9, 13, 17, 25, 33, 49, 65, 97, 129, 193, 257, 385, 513, 769, 1025, 1537, 2049, 3073, 4097,
     6145, 8193, 12289, 16385, 24577]"

definition DISTANCE_EXTRA :: "nat list" where
  "DISTANCE_EXTRA = [0, 0, 0, 0, 1, 1, 2, 2, 3, 3, 4, 4, 5, 5, 6, 6, 7, 7, 8, 8, 9, 9, 10, 10, 11, 11, 12, 12, 13, 13]"

definition decode_stored :: "'o deflate_output \<Rightarrow> bytes \<Rightarrow> nat \<Rightarrow> 'o \<Rightarrow> error + nat \<times> 'o" where
  "decode_stored ops data pos out =
     and_then (inf_read data (inf_align pos) 16) (\<lambda>r. let len = ucast (fst r) :: u16 in
     and_then (inf_read data (snd r) 16) (\<lambda>r. let complement = ucast (fst r) :: u16 in
     if len \<noteq> NOT complement then Inl (gz_error (LengthComplement (snd r - 16)))
     else and_then (read_aligned_bytes data (snd r) (unat len)) (\<lambda>b.
       and_then (do_extend ops (fst b) out) (\<lambda>out. Inr (snd b, out)))))"

text \<open>A match after its length symbol: length, distance and the position after them.\<close>

definition read_match :: "inf_huffman \<Rightarrow> bytes \<Rightarrow> nat \<Rightarrow> nat \<Rightarrow> error + (nat \<times> nat) \<times> nat" where
  "read_match distance data length_index pos =
     and_then (index LENGTH_BASE length_index) (\<lambda>base.
     and_then (index LENGTH_EXTRA length_index) (\<lambda>extra.
     and_then (inf_read data pos extra) (\<lambda>r. let len = base + unat (fst r) in
     and_then (inf_decode distance data (snd r)) (\<lambda>r.
     if fst r \<ge> length DISTANCE_BASE then Inl (gz_error (DistanceSymbol (snd r)))
     else and_then (index DISTANCE_BASE (fst r)) (\<lambda>base.
       and_then (index DISTANCE_EXTRA (fst r)) (\<lambda>extra.
       and_then (inf_read data (snd r) extra) (\<lambda>r. Inr ((len, base + unat (fst r)), snd r))))))))"

fun inf_symbols :: "'o deflate_output \<Rightarrow> inf_huffman \<Rightarrow> inf_huffman \<Rightarrow> bytes \<Rightarrow> nat \<Rightarrow> nat \<Rightarrow> 'o \<Rightarrow> error + nat \<times> 'o" where
  "inf_symbols ops literal distance data 0 pos out = Inl Unending"
| "inf_symbols ops literal distance data (Suc fuel) pos out =
     and_then (inf_decode literal data pos) (\<lambda>r.
       if fst r \<le> 255
       then and_then (do_emit ops (word_of_nat (fst r)) out) (\<lambda>out.
            inf_symbols ops literal distance data fuel (snd r) out)
       else if fst r = 256 then Inr (snd r, out)
       else if fst r \<le> 285
       then and_then (read_match distance data (fst r - 257) (snd r)) (\<lambda>m.
            and_then (do_copy ops (snd (fst m)) (fst (fst m)) out) (\<lambda>out.
            inf_symbols ops literal distance data fuel (snd m) out))
       else Inl (gz_error (LiteralSymbol (snd r))))"

definition decode_huffman_block ::
  "'o deflate_output \<Rightarrow> inf_huffman \<Rightarrow> inf_huffman \<Rightarrow> bytes \<Rightarrow> nat \<Rightarrow> 'o \<Rightarrow> error + nat \<times> 'o" where
  "decode_huffman_block ops literal distance data pos out =
     inf_symbols ops literal distance data (8 * length data + 1) pos out"

definition block_content :: "'o deflate_output \<Rightarrow> bytes \<Rightarrow> nat \<Rightarrow> nat \<Rightarrow> 'o \<Rightarrow> error + block_kind \<times> nat \<times> 'o" where
  "block_content ops data kind pos out =
     (if kind = 0 then and_then (decode_stored ops data pos out) (\<lambda>r. Inr (StoredBlock, r))
      else if kind = 1
      then and_then fixed_tables (\<lambda>t.
           and_then (decode_huffman_block ops (fst t) (snd t) data pos out) (\<lambda>r. Inr (FixedHuffman, r)))
      else if kind = 2
      then and_then (dynamic_tables data pos) (\<lambda>t.
           and_then (decode_huffman_block ops (fst (fst t)) (snd (fst t)) data (snd t) out) (\<lambda>r. Inr (DynamicHuffman, r)))
      else Inl (gz_error (ReservedBlockType (pos - 2))))"

definition inf_block_at :: "'o deflate_output \<Rightarrow> bytes \<Rightarrow> nat \<Rightarrow> nat \<Rightarrow> 'o \<Rightarrow> error + inf_block \<times> nat \<times> 'o" where
  "inf_block_at ops data member_no pos out =
     and_then (inf_read data pos 1) (\<lambda>f.
     and_then (inf_read data (snd f) 2) (\<lambda>k.
     and_then (block_content ops data (unat (fst k)) (snd k) out) (\<lambda>c.
     let pos' = fst (snd c); out' = snd (snd c) in
     Inr (\<lparr>ib_member = member_no, ib_kind = fst c, ib_final = (fst f \<noteq> 0), ib_start_bit = pos, ib_end_bit = pos',
           ib_decoded_start = do_total ops out, ib_decoded_len = do_total ops out' - do_total ops out\<rparr>, pos', out'))))"

section \<open>Every step advances\<close>

named_theorems inf_onwards "the reader's position never moves back"

lemma inf_read_onwards [inf_onwards]: "inf_read data pos n = Inr r \<Longrightarrow> snd r = pos + n"
  by (auto simp: inf_read_def and_then_Inr_iff split: if_splits)

lemma inf_peek_in_range: "inf_peek data pos n = Inr v \<Longrightarrow> pos + n \<le> data_bits data"
  by (auto simp: inf_peek_def checked_add_Some_iff split: option.splits if_splits)

lemma inf_read_in_range: "inf_read data pos n = Inr r \<Longrightarrow> 0 < n \<Longrightarrow> pos + n \<le> data_bits data"
  by (auto simp: inf_read_def and_then_Inr_iff dest: inf_peek_in_range)

lemma inf_decode_onwards [inf_onwards]: "inf_decode h data pos = Inr r \<Longrightarrow> pos \<le> snd r"
  by (auto simp: inf_decode_def and_then_Inr_iff Let_def split: if_splits)

lemma inf_decode_in_range: "inf_decode h data pos = Inr r \<Longrightarrow> pos \<le> data_bits data \<Longrightarrow> snd r \<le> data_bits data"
  by (auto simp: inf_decode_def and_then_Inr_iff Let_def split: if_splits)

lemma read_match_onwards [inf_onwards]: "read_match d data i pos = Inr r \<Longrightarrow> pos \<le> snd r"
  by (auto simp: read_match_def and_then_Inr_iff Let_def split: if_splits dest!: inf_read_onwards inf_decode_onwards)

text \<open>The three ways a step of the symbol loop returns.\<close>

lemma inf_symbols_cases:
  assumes "inf_symbols ops l d data (Suc fuel) pos out = Inr r"
  obtains (literal) c out' where "inf_decode l data pos = Inr c" "fst c \<le> 255" "do_emit ops (word_of_nat (fst c)) out = Inr out'"
      "inf_symbols ops l d data fuel (snd c) out' = Inr r"
    | (stop) c where "inf_decode l data pos = Inr c" "fst c = 256" "r = (snd c, out)"
    | (copied) c m out' where "inf_decode l data pos = Inr c" "256 < fst c" "fst c \<le> 285"
      "read_match d data (fst c - 257) (snd c) = Inr m" "do_copy ops (snd (fst m)) (fst (fst m)) out = Inr out'"
      "inf_symbols ops l d data fuel (snd m) out' = Inr r"
proof -
  obtain c where c: "inf_decode l data pos = Inr c" using assms by (auto simp: and_then_Inr_iff)
  consider "fst c \<le> 255" | "fst c = 256" | "256 < fst c" by linarith
  then show ?thesis
  proof cases
    case 1
    then show ?thesis using assms c literal [of c] by (cases c) (auto simp: and_then_Inr_iff)
  next
    case 2
    then show ?thesis using assms c stop by auto
  next
    case 3
    then show ?thesis using assms c copied [OF c 3] by (auto simp: and_then_Inr_iff split: if_splits)
  qed
qed

lemma inf_symbols_onwards [inf_onwards]: "inf_symbols ops l d data fuel pos out = Inr r \<Longrightarrow> pos \<le> fst r"
proof (induction fuel arbitrary: pos out)
  case (Suc fuel)
  from Suc.prems show ?case
  proof (cases rule: inf_symbols_cases)
    case (literal c out')
    then show ?thesis using Suc.IH inf_decode_onwards le_trans by blast
  next
    case (stop c)
    then show ?thesis using inf_decode_onwards by fastforce
  next
    case (copied c m out')
    then show ?thesis using Suc.IH inf_decode_onwards read_match_onwards le_trans by meson
  qed
qed simp

lemma read_aligned_onwards: "read_aligned_bytes data pos n = Inr r \<Longrightarrow> pos \<le> snd r"
  by (auto simp: read_aligned_bytes_def and_then_Inr_iff ok_or_Inr_iff checked_add_Some_iff Let_def split: if_splits)

lemma decode_stored_onwards [inf_onwards]: "decode_stored ops data pos out = Inr r \<Longrightarrow> pos \<le> fst r"
proof -
  assume "decode_stored ops data pos out = Inr r"
  then obtain a b c where r: "inf_read data (inf_align pos) 16 = Inr a" "inf_read data (snd a) 16 = Inr b"
    "read_aligned_bytes data (snd b) (unat (ucast (fst a) :: u16)) = Inr c" "fst r = snd c"
    unfolding decode_stored_def Let_def by (auto simp: and_then_Inr_iff split: if_splits)
  have "inf_align pos + 16 \<le> data_bits data" using inf_read_in_range [OF r(1)] by simp
  also have "data_bits data \<le> usize_max" by (simp add: data_bits_def sat_mul_def)
  finally have "pos \<le> inf_align pos" by (simp add: inf_align_def sat_add_def usize_max_def)
  then show ?thesis using inf_read_onwards [OF r(1)] inf_read_onwards [OF r(2)] read_aligned_onwards [OF r(3)] r(4) by simp
qed

lemma read_code_lengths_onwards: "read_code_lengths data symbols lengths pos = Inr r \<Longrightarrow> pos \<le> snd r"
proof (induction symbols arbitrary: lengths pos)
  case (Cons symbol symbols)
  then obtain a where "inf_read data pos 3 = Inr a" "read_code_lengths data symbols (lengths[symbol := unat (fst a)]) (snd a) = Inr r"
    by (auto simp: and_then_Inr_iff)
  then show ?case using Cons.IH inf_read_onwards by fastforce
qed auto

lemma length_symbol_onwards: "length_symbol data whole lengths symbol pos = Inr r \<Longrightarrow> pos \<le> snd r"
  by (auto simp: length_symbol_def and_then_Inr_iff split: if_splits dest!: inf_read_onwards)

lemma read_all_lengths_onwards: "read_all_lengths data h whole lengths pos = Inr r \<Longrightarrow> pos \<le> snd r"
proof (induction data h whole lengths pos rule: read_all_lengths.induct)
  case (1 data h whole lengths pos)
  show ?case
  proof (cases "length lengths < whole")
    case True
    then obtain a b where ab: "inf_decode h data pos = Inr a" "length_symbol data whole lengths (fst a) (snd a) = Inr b"
      "read_all_lengths data h whole (fst b) (snd b) = Inr r"
      using 1(2) by (auto simp: read_all_lengths.simps [of data h whole lengths pos] and_then_Inr_iff)
    then show ?thesis using "1.IH" [OF True ab(1,2)] inf_decode_onwards [OF ab(1)] length_symbol_onwards [OF ab(2)] by simp
  qed (use 1(2) in \<open>auto simp: read_all_lengths.simps [of data h whole lengths pos]\<close>)
qed

lemma dynamic_tables_onwards [inf_onwards]: "dynamic_tables data pos = Inr r \<Longrightarrow> pos \<le> snd r"
  unfolding dynamic_tables_def Let_def
  by (auto simp: and_then_Inr_iff split: if_splits
      dest!: inf_read_onwards read_code_lengths_onwards read_all_lengths_onwards)

lemma block_content_onwards [inf_onwards]: "block_content ops data kind pos out = Inr r \<Longrightarrow> pos \<le> fst (snd r)"
  unfolding block_content_def decode_huffman_block_def
  by (auto simp: and_then_Inr_iff simp del: inf_symbols.simps split: if_splits
      dest!: decode_stored_onwards inf_symbols_onwards dynamic_tables_onwards)

lemma inf_block_advances:
  "inf_block_at ops data member_no pos out = Inr r \<Longrightarrow> data_bits data - fst (snd r) < data_bits data - pos \<and> pos < fst (snd r)"
proof -
  assume "inf_block_at ops data member_no pos out = Inr r"
  then obtain f k c where r: "inf_read data pos 1 = Inr f" "inf_read data (snd f) 2 = Inr k"
    "block_content ops data (unat (fst k)) (snd k) out = Inr c" "fst (snd r) = fst (snd c)"
    unfolding inf_block_at_def Let_def by (auto simp: and_then_Inr_iff)
  show ?thesis
    using inf_read_onwards [OF r(1)] inf_read_onwards [OF r(2)] inf_read_in_range [OF r(1)] block_content_onwards [OF r(3)] r(4) by simp
qed

end
