(* ===== verification/Gzip_Output.thy ===== *)
theory Gzip_Output
  imports Inflate
begin

text \<open>
  The two outputs of the DEFLATE decoder of \<open>src/gzip.rs\<close>: \<open>Emitter\<close>, which writes to the sink and
  keeps a window of history, and \<open>MarkerOutput\<close>, which decodes a segment whose history is not known
  yet, writing markers for the bytes it copies from there; and the resolution of the markers. A sink
  is the bytes it has received, a CRC hasher the bytes it has been fed (\<open>combine\<close> is then an append).
\<close>

definition WINDOW :: nat where "WINDOW = 32 * 1024"
definition OUTPUT_CHUNK :: nat where "OUTPUT_CHUNK = 64 * 1024"
definition HISTORY_COMPACT :: nat where "HISTORY_COMPACT = 1024 * 1024"
definition PARALLEL_GRID :: nat where "PARALLEL_GRID = 512 * 1024"
definition GZ_MIN_PARALLEL :: nat where "GZ_MIN_PARALLEL = 16 * 1024 * 1024"
definition PARALLEL_OUTPUT_LIMIT :: nat where "PARALLEL_OUTPUT_LIMIT = 8 * 1024 * 1024"
definition PARALLEL_JOB_MEMORY :: nat where "PARALLEL_JOB_MEMORY = 2 * PARALLEL_OUTPUT_LIMIT + 64 * 1024"

section \<open>The serial output\<close>

record emitter =
  em_output :: bytes
  em_buffer :: bytes
  em_history_len :: nat
  em_hashed :: bytes
  em_member_decoded :: nat
  em_decoded_base :: nat

definition emitter_new :: "bytes \<Rightarrow> nat \<Rightarrow> emitter" where
  "emitter_new output decoded_base = \<lparr>em_output = output, em_buffer = [], em_history_len = 0, em_hashed = [],
     em_member_decoded = 0, em_decoded_base = decoded_base\<rparr>"

definition flush_pending :: "emitter \<Rightarrow> emitter" where
  "flush_pending e =
     (let pending = drop (em_history_len e) (em_buffer e) in
      if pending = [] then e
      else let e = e\<lparr>em_output := em_output e @ pending, em_hashed := em_hashed e @ pending,
                     em_history_len := length (em_buffer e)\<rparr> in
        if length (em_buffer e) \<ge> HISTORY_COMPACT
        then let keep = min (length (em_buffer e)) WINDOW; start = length (em_buffer e) - keep;
                 buffer = copy_within (em_buffer e) start (length (em_buffer e)) 0
             in e\<lparr>em_buffer := take keep buffer, em_history_len := keep\<rparr>
        else e)"

definition emitter_grow :: "bytes \<Rightarrow> nat \<Rightarrow> emitter \<Rightarrow> error + emitter" where
  "emitter_grow buffer n e =
     and_then (ok_or (checked_add (em_member_decoded e) n) (gz_error GzipDecodedOverflow)) (\<lambda>decoded.
     let e = e\<lparr>em_buffer := buffer, em_member_decoded := decoded\<rparr>
     in Inr (if length (em_buffer e) - em_history_len e \<ge> OUTPUT_CHUNK then flush_pending e else e))"

definition emit_byte :: "byte \<Rightarrow> emitter \<Rightarrow> error + emitter" where
  "emit_byte b e = emitter_grow (em_buffer e @ [b]) 1 e"

definition extend_bytes :: "bytes \<Rightarrow> emitter \<Rightarrow> error + emitter" where
  "extend_bytes bs e = emitter_grow (em_buffer e @ bs) (length bs) e"

definition emitter_copy :: "nat \<Rightarrow> nat \<Rightarrow> emitter \<Rightarrow> error + emitter" where
  "emitter_copy distance len e =
     (let available = min (em_member_decoded e) WINDOW in
      if distance = 0 \<or> distance > available then Inl (gz_error (BackReference distance available))
      else and_then (extend_match (em_buffer e) distance len) (\<lambda>buffer. emitter_grow buffer len e))"

definition emitter_ops :: "emitter deflate_output" where
  "emitter_ops = \<lparr>do_total = (\<lambda>e. em_decoded_base e + em_member_decoded e), do_emit = emit_byte, do_extend = extend_bytes,
     do_copy = emitter_copy\<rparr>"

definition emitter_finish :: "(bytes \<Rightarrow> u32) \<Rightarrow> emitter \<Rightarrow> (u32 \<times> nat) \<times> emitter" where
  "emitter_finish crc e = (let e = flush_pending e in ((crc (em_hashed e), em_member_decoded e), e))"

section \<open>The output of a segment\<close>

datatype initial_history = EmptyHistory | UnknownHistory

record marker_output =
  mo_marked :: "u16 list"
  mo_clean :: bytes
  mo_clean_start :: nat
  mo_history :: initial_history
  mo_limit :: nat
  mo_clean_mode :: bool

definition marker_new :: "initial_history \<Rightarrow> nat \<Rightarrow> marker_output" where
  "marker_new history limit = \<lparr>mo_marked = [], mo_clean = [], mo_clean_start = 0, mo_history = history, mo_limit = limit,
     mo_clean_mode = (history = EmptyHistory)\<rparr>"

definition marker_len :: "marker_output \<Rightarrow> nat" where
  "marker_len m = length (mo_marked m) + (length (mo_clean m) - mo_clean_start m)"

definition ensure_capacity :: "nat \<Rightarrow> marker_output \<Rightarrow> error + unit" where
  "ensure_capacity additional m =
     (if additional > mo_limit m - marker_len m then Inl (gz_error ChunkBudget) else Inr ())"

definition try_clean :: "marker_output \<Rightarrow> marker_output" where
  "try_clean m =
     (if mo_clean_mode m \<or> length (mo_marked m) < WINDOW then m
      else let suffix = drop (length (mo_marked m) - WINDOW) (mo_marked m) in
        if \<exists>symbol\<in>set suffix. symbol > 255 then m
        else m\<lparr>mo_clean := map ucast suffix, mo_clean_start := WINDOW, mo_clean_mode := True\<rparr>)"

definition marker_emit :: "byte \<Rightarrow> marker_output \<Rightarrow> error + marker_output" where
  "marker_emit b m =
     and_then (ensure_capacity 1 m) (\<lambda>_.
     Inr (if mo_clean_mode m then m\<lparr>mo_clean := mo_clean m @ [b]\<rparr> else m\<lparr>mo_marked := mo_marked m @ [ucast b]\<rparr>))"

definition marker_extend :: "bytes \<Rightarrow> marker_output \<Rightarrow> error + marker_output" where
  "marker_extend bs m =
     and_then (ensure_capacity (length bs) m) (\<lambda>_.
     Inr (if mo_clean_mode m then m\<lparr>mo_clean := mo_clean m @ bs\<rparr> else m\<lparr>mo_marked := mo_marked m @ map ucast bs\<rparr>))"

definition copy_clean :: "nat \<Rightarrow> nat \<Rightarrow> marker_output \<Rightarrow> error + marker_output" where
  "copy_clean distance len m =
     (let available = min (length (mo_clean m)) WINDOW in
      if distance = 0 \<or> distance > available then Inl (gz_error (BackReference distance available))
      else and_then (extend_match (mo_clean m) distance len) (\<lambda>clean. Inr (m\<lparr>mo_clean := clean\<rparr>)))"

definition copy_marked :: "nat \<Rightarrow> nat \<Rightarrow> marker_output \<Rightarrow> error + marker_output" where
  "copy_marked distance len m =
     (let available = (case mo_history m of EmptyHistory \<Rightarrow> min (length (mo_marked m)) WINDOW | UnknownHistory \<Rightarrow> WINDOW) in
      if distance = 0 \<or> distance > available then Inl (gz_error (BackReference distance available))
      else let append_start = length (mo_marked m);
               from_window = (if distance > append_start then min (distance - append_start) len else 0);
               first = WINDOW + append_start - distance;
               marked = mo_marked m @ map (\<lambda>offset. word_of_nat (WINDOW + first + offset)) [0..<from_window]
           in if from_window < len
              then and_then (extend_match marked distance (len - from_window)) (\<lambda>marked. Inr (m\<lparr>mo_marked := marked\<rparr>))
              else Inr (m\<lparr>mo_marked := marked\<rparr>))"

definition marker_copy :: "nat \<Rightarrow> nat \<Rightarrow> marker_output \<Rightarrow> error + marker_output" where
  "marker_copy distance len m =
     and_then (ensure_capacity len m) (\<lambda>_. if mo_clean_mode m then copy_clean distance len m else copy_marked distance len m)"

definition marker_ops :: "marker_output deflate_output" where
  "marker_ops = \<lparr>do_total = marker_len, do_emit = marker_emit, do_extend = marker_extend, do_copy = marker_copy\<rparr>"

section \<open>Resolving the markers\<close>

definition resolve_symbol :: "bytes \<Rightarrow> u16 \<Rightarrow> error + byte" where
  "resolve_symbol predecessor symbol =
     (if symbol \<le> 255 then Inr (ucast symbol)
      else if unat symbol < WINDOW then Inl Panic
      else let i = unat symbol - WINDOW; missing = WINDOW - length predecessor in
        if i < missing then Inl (gz_error UnavailableHistory) else index predecessor (i - missing))"

definition lookup_symbol :: "bytes \<Rightarrow> u16 \<Rightarrow> byte" where
  "lookup_symbol predecessor symbol =
     (if symbol \<le> 255 then ucast symbol else if unat symbol < WINDOW then 0 else predecessor ! (unat symbol - WINDOW))"

fun resolve_each :: "bytes \<Rightarrow> u16 list \<Rightarrow> error + bytes" where
  "resolve_each predecessor [] = Inr []"
| "resolve_each predecessor (symbol # symbols) =
     and_then (resolve_symbol predecessor symbol) (\<lambda>b. and_then (resolve_each predecessor symbols) (\<lambda>bs. Inr (b # bs)))"

definition resolve_symbols :: "u16 list \<Rightarrow> bytes \<Rightarrow> error + bytes" where
  "resolve_symbols symbols predecessor =
     (if length predecessor = WINDOW \<and> length symbols \<ge> 128 * 1024 then Inr (map (lookup_symbol predecessor) symbols)
      else resolve_each predecessor symbols)"

end
