(* ===== verification/Gzip.thy ===== *)
theory Gzip
  imports Gzip_Output
begin

text \<open>
  The rest of \<open>src/gzip.rs\<close>: segments and the search for block boundaries to start them at, the
  serial and the parallel DEFLATE stream, member headers and trailers. The parallel stream is the
  consumer of the staged pipeline: a primary result is the result of its job (\<open>Pipeline\<close>), a job that
  does not exist is waited for without end, and staged tasks are resolved in the order of submission.
\<close>

section \<open>Segments\<close>

record gz_segment =
  sg_start_bit :: nat
  sg_end_bit :: nat
  sg_marked :: "u16 list"
  sg_clean :: bytes
  sg_clean_start :: nat
  sg_clean_hashed :: bytes
  sg_blocks :: "inf_block list"
  sg_final :: bool

definition clean_output :: "gz_segment \<Rightarrow> bytes" where
  "clean_output s = drop (sg_clean_start s) (sg_clean s)"

text \<open>The loop returns the end, the output, the blocks and whether the last block was final.\<close>

function segment_loop ::
  "bytes \<Rightarrow> nat \<Rightarrow> nat \<Rightarrow> marker_output \<Rightarrow> inf_block list \<Rightarrow> error + nat \<times> marker_output \<times> inf_block list \<times> bool" where
  "segment_loop data stop_bit pos m blocks =
     and_then (inf_block_at marker_ops data 0 pos m) (\<lambda>r.
     let block = fst r; pos' = fst (snd r); m' = try_clean (snd (snd r)); blocks' = blocks @ [block] in
     if ib_final block then Inr (inf_align pos', m', blocks', True)
     else if pos' \<ge> stop_bit \<and> ib_kind block = DynamicHuffman then Inr (pos', m', blocks', False)
     else segment_loop data stop_bit pos' m' blocks')"
  by pat_completeness auto
termination
  by (relation "measure (\<lambda>(data, _, pos, _). data_bits data - pos)") (auto dest: inf_block_advances)

declare segment_loop.simps [simp del]

definition decode_segment :: "bytes \<Rightarrow> nat \<Rightarrow> nat \<Rightarrow> initial_history \<Rightarrow> nat \<Rightarrow> error + gz_segment" where
  "decode_segment data start_bit stop_bit history output_limit =
     and_then (inf_at data start_bit) (\<lambda>pos.
     and_then (segment_loop data stop_bit pos (marker_new history output_limit) []) (\<lambda>r.
     let m = fst (snd r) in
     Inr \<lparr>sg_start_bit = start_bit, sg_end_bit = fst r, sg_marked = mo_marked m, sg_clean = mo_clean m,
          sg_clean_start = mo_clean_start m, sg_clean_hashed = drop (mo_clean_start m) (mo_clean m),
          sg_blocks = fst (snd (snd r)), sg_final = snd (snd (snd r))\<rparr>))"

definition precode_counts :: "u64 \<Rightarrow> nat \<Rightarrow> nat list \<times> nat" where
  "precode_counts lengths count = fold (\<lambda>i st. let l = unat (drop_bit (i * 3) lengths AND 7) in
     if l \<noteq> 0 then ((fst st)[l := fst st ! l + 1], snd st + 1) else st) [0..<count] (replicate 8 0, 0)"

fun precode_remaining :: "nat list \<Rightarrow> int \<Rightarrow> int option" where
  "precode_remaining [] remaining = Some remaining"
| "precode_remaining (c # counts) remaining =
     (let remaining = remaining * 2 - int c in if remaining < 0 then None else precode_remaining counts remaining)"

definition valid_precode_shape :: "bytes \<Rightarrow> nat \<Rightarrow> bool" where
  "valid_precode_shape data block_bit =
     (case checked_add block_bit 13 of
        None \<Rightarrow> False
      | Some precode_bit \<Rightarrow>
          (case checked_add precode_bit (4 + 19 * 3) of
             None \<Rightarrow> False
           | Some stop \<Rightarrow>
               if stop > data_bits data then False
               else let byte_pos = precode_bit div 8; shift = precode_bit mod 8; low = word_at data byte_pos;
                        bits = (if shift = 0 then low
                          else drop_bit shift low OR
                            push_bit (64 - shift) (case get_at data (byte_pos + 8) of None \<Rightarrow> 0 | Some b \<Rightarrow> ucast b));
                        st = precode_counts (drop_bit 4 bits) (4 + unat (bits AND 15))
                    in if snd st = 0 then False
                       else (case precode_remaining (tl (fst st)) 1 of
                               None \<Rightarrow> False | Some remaining \<Rightarrow> remaining = 0 \<or> snd st = 1)))"

definition header_window :: "bytes \<Rightarrow> nat \<Rightarrow> u16" where
  "header_window data i =
     ucast (data ! i) OR push_bit 8 (case get_at data (i + 1) of None \<Rightarrow> 0 | Some b \<Rightarrow> ucast b)"

fun find_from :: "bytes \<Rightarrow> nat \<Rightarrow> nat \<Rightarrow> nat list \<Rightarrow> nat option" where
  "find_from data start_bit stop [] = None"
| "find_from data start_bit stop (b # bs) =
     (if b < start_bit \<or> sat_add b 13 \<ge> stop \<or> drop_bit (b mod 8) (header_window data (b div 8)) AND 7 \<noteq> 4
      then find_from data start_bit stop bs
      else (case and_then (inf_at data (b + 3)) (\<lambda>pos. inf_read data pos 5) of
              Inl _ \<Rightarrow> None
            | Inr r \<Rightarrow>
                if unat (fst r) > 29 then find_from data start_bit stop bs
                else (case inf_read data (snd r) 5 of
                        Inl _ \<Rightarrow> None
                      | Inr r \<Rightarrow>
                          if unat (fst r) > 29 \<or> \<not> valid_precode_shape data b then find_from data start_bit stop bs
                          else (case inf_at data (b + 3) of
                                  Inl _ \<Rightarrow> None
                                | Inr pos \<Rightarrow>
                                    (case dynamic_tables data pos of
                                       Inl _ \<Rightarrow> find_from data start_bit stop bs | Inr _ \<Rightarrow> Some b)))))"

definition find_dynamic_boundary :: "bytes \<Rightarrow> nat \<Rightarrow> nat \<Rightarrow> nat option" where
  "find_dynamic_boundary data start_bit end_bit =
     (let stop = min end_bit (data_bits data); first_byte = start_bit div 8; last_byte = min ((stop + 7) div 8) (length data)
      in find_from data start_bit stop [first_byte * 8..<last_byte * 8])"

lemma find_from_range: "stop \<le> usize_max \<Longrightarrow> find_from data start_bit stop bs = Some b \<Longrightarrow> start_bit \<le> b \<and> b < stop"
proof (induction bs)
  case (Cons c bs)
  show ?case
  proof (cases "c < start_bit \<or> sat_add c 13 \<ge> stop \<or> drop_bit (c mod 8) (header_window data (c div 8)) AND 7 \<noteq> 4")
    case False
    then show ?thesis
      using Cons False by (auto simp: sat_add_def split: sum.splits if_splits)
  qed (use Cons in simp)
qed simp

record gzip_job =
  gj_search_start :: nat
  gj_search_end :: nat
  gj_stop_bit :: nat
  gj_output_limit :: nat

function search_segment :: "bytes \<Rightarrow> gzip_job \<Rightarrow> nat \<Rightarrow> error + gz_segment" where
  "search_segment data job search =
     (case find_dynamic_boundary data search (gj_search_end job) of
        None \<Rightarrow> Inl (gz_error (NoBoundary (gj_search_start job)))
      | Some start \<Rightarrow>
          (case decode_segment data start (gj_stop_bit job) UnknownHistory (gj_output_limit job) of
             Inr segment \<Rightarrow> Inr segment
           | Inl _ \<Rightarrow> search_segment data job (start + 1)))"
  by pat_completeness auto
termination
proof (relation "measure (\<lambda>(data, job, search). data_bits data - search)", goal_cases)
  case (2 data job search start e)
  have "min (gj_search_end job) (data_bits data) \<le> usize_max" by (simp add: data_bits_def sat_mul_def)
  then have "search \<le> start" "start < data_bits data"
    using 2(1) find_from_range unfolding find_dynamic_boundary_def Let_def by (metis min_less_iff_conj)+
  then show ?case by simp
qed simp

declare search_segment.simps [simp del]

definition run_gzip_job :: "bytes \<Rightarrow> gzip_job \<Rightarrow> error + gz_segment" where
  "run_gzip_job data job = search_segment data job (gj_search_start job)"

section \<open>Resolving and committing segments\<close>

definition successor_window :: "gz_segment \<Rightarrow> bytes \<Rightarrow> error + bytes" where
  "successor_window s predecessor =
     (let clean = clean_output s in
      if length clean \<ge> WINDOW then Inr (drop (length clean - WINDOW) clean)
      else let marked_count = min (WINDOW - length clean) (length (sg_marked s)) in
        and_then (resolve_symbols (drop (length (sg_marked s) - marked_count) (sg_marked s)) predecessor) (\<lambda>marked.
        let keep = min (WINDOW - (length marked + length clean)) (length predecessor)
        in Inr (drop (length predecessor - keep) predecessor @ marked @ clean)))"

record resolved_segment =
  rs_marked :: bytes
  rs_clean :: bytes
  rs_clean_start :: nat
  rs_blocks :: "inf_block list"
  rs_end_bit :: nat
  rs_hashed :: bytes

definition resolve_segment :: "gz_segment \<Rightarrow> bytes \<Rightarrow> error + resolved_segment" where
  "resolve_segment s predecessor =
     and_then (resolve_symbols (sg_marked s) predecessor) (\<lambda>marked.
     Inr \<lparr>rs_marked = marked, rs_clean = sg_clean s, rs_clean_start = sg_clean_start s, rs_blocks = sg_blocks s,
          rs_end_bit = sg_end_bit s, rs_hashed = marked @ sg_clean_hashed s\<rparr>)"

record gz_committer =
  sc_member :: nat
  sc_decoded_base :: nat
  sc_decoded :: nat
  sc_output :: bytes
  sc_hashed :: bytes
  sc_blocks :: "inf_block list"
  sc_progress :: "(nat \<times> nat) list"

definition commit_segment :: "resolved_segment \<Rightarrow> gz_committer \<Rightarrow> error + gz_committer" where
  "commit_segment s c =
     (let decoded_len = length (rs_marked s) + length (rs_clean s) - rs_clean_start s;
          blocks = map (\<lambda>b. b\<lparr>ib_member := sc_member c,
            ib_decoded_start := ib_decoded_start b + (sc_decoded_base c + sc_decoded c)\<rparr>) (rs_blocks s) in
      and_then (ok_or (checked_add (sc_decoded c) decoded_len) (gz_error GzipDecodedOverflow)) (\<lambda>decoded.
      Inr (c\<lparr>sc_output := sc_output c @ rs_marked s @ drop (rs_clean_start s) (rs_clean s),
             sc_hashed := sc_hashed c @ rs_hashed s, sc_decoded := decoded, sc_blocks := sc_blocks c @ blocks,
             sc_progress := sc_progress c @ [((rs_end_bit s + 7) div 8, sc_decoded_base c + decoded)]\<rparr>)))"

section \<open>The serial stream\<close>

record deflate_report =
  dr_source_len :: nat
  dr_end_bit :: nat
  dr_decoded_len :: nat
  dr_crc :: u32
  dr_blocks :: "inf_block list"
  dr_speculative :: nat
  dr_fallback :: nat

function serial_loop ::
  "'o deflate_output \<Rightarrow> bytes \<Rightarrow> nat \<Rightarrow> nat \<Rightarrow> 'o \<Rightarrow> inf_block list \<Rightarrow> (nat \<times> nat) list \<Rightarrow>
   error + nat \<times> 'o \<times> inf_block list \<times> (nat \<times> nat) list" where
  "serial_loop ops data member_no pos out blocks progress =
     and_then (inf_block_at ops data member_no pos out) (\<lambda>r.
     let pos' = fst (snd r); out' = snd (snd r); blocks' = blocks @ [fst r];
         progress' = progress @ [((pos' + 7) div 8, do_total ops out')] in
     if ib_final (fst r) then Inr (pos', out', blocks', progress')
     else serial_loop ops data member_no pos' out' blocks' progress')"
  by pat_completeness auto
termination
  by (relation "measure (\<lambda>(_, data, _, pos, _). data_bits data - pos)") (auto dest: inf_block_advances)

declare serial_loop.simps [simp del]

text \<open>What a stream leaves: the sink, the progress reported and the report.\<close>

record stream_result =
  sr_output :: bytes
  sr_progress :: "(nat \<times> nat) list"
  sr_report :: deflate_report

record deflate_stream =
  ds_start_byte :: nat
  ds_end_byte :: nat
  ds_member :: nat
  ds_decoded_base :: nat

definition serial_stream :: "(bytes \<Rightarrow> u32) \<Rightarrow> bytes \<Rightarrow> nat \<Rightarrow> bytes \<Rightarrow> nat \<Rightarrow> nat \<Rightarrow> (nat \<times> nat) list \<Rightarrow> error + stream_result" where
  "serial_stream crc data start_byte output member_no decoded_base progress =
     and_then (serial_loop emitter_ops data member_no (inf_new start_byte) (emitter_new output decoded_base) [] progress) (\<lambda>r.
     let fin = emitter_finish crc (fst (snd r)) in
     Inr \<lparr>sr_output = em_output (snd fin), sr_progress = snd (snd (snd r)),
          sr_report = \<lparr>dr_source_len = length data - start_byte, dr_end_bit = fst r, dr_decoded_len = snd (fst fin),
            dr_crc = fst (fst fin), dr_blocks = fst (snd (snd r)), dr_speculative = 0, dr_fallback = 0\<rparr>\<rparr>)"

section \<open>The parallel stream\<close>

text \<open>The second conjunct only makes the recursion well-founded beyond the machine's range.\<close>

function grid_jobs :: "nat \<Rightarrow> nat \<Rightarrow> gzip_job list" where
  "grid_jobs grid end_byte =
     (if grid < end_byte \<and> grid < usize_max
      then \<lparr>gj_search_start = grid * 8, gj_search_end = min (sat_add grid (2 * PARALLEL_GRID)) end_byte * 8,
            gj_stop_bit = min (sat_add grid PARALLEL_GRID) end_byte * 8, gj_output_limit = PARALLEL_OUTPUT_LIMIT\<rparr> #
           grid_jobs (sat_add grid PARALLEL_GRID) end_byte
      else [])"
  by pat_completeness auto
termination
  by (relation "measure (\<lambda>(grid, end_byte). usize_max - grid)") (auto simp: sat_add_def PARALLEL_GRID_def)

declare grid_jobs.simps [simp del]

record parallel_state =
  ps_key :: nat
  ps_next_start :: nat
  ps_final :: bool
  ps_predecessor :: bytes
  ps_outstanding :: "(gz_segment \<times> bytes) list"
  ps_committer :: gz_committer
  ps_speculative :: nat
  ps_fallback :: nat

definition take_primary_result :: "bytes \<Rightarrow> gzip_job list \<Rightarrow> nat \<Rightarrow> error + (error + gz_segment)" where
  "take_primary_result data jobs key =
     (if 1 \<le> key \<and> key \<le> length jobs then Inr (run_gzip_job data (jobs ! (key - 1))) else Inl Unending)"

text \<open>\<open>take_stage\<close> and commit of the oldest outstanding task, and of all of them.\<close>

definition commit_task :: "gz_segment \<times> bytes \<Rightarrow> gz_committer \<Rightarrow> error + gz_committer" where
  "commit_task t c = and_then (resolve_segment (fst t) (snd t)) (\<lambda>r. commit_segment r c)"

fun commit_tasks :: "(gz_segment \<times> bytes) list \<Rightarrow> gz_committer \<Rightarrow> error + gz_committer" where
  "commit_tasks [] c = Inr c"
| "commit_tasks (t # ts) c = and_then (commit_task t c) (commit_tasks ts)"

text \<open>A segment resolved and committed at once: the initial one and a fallback.\<close>

definition commit_now :: "gz_segment \<Rightarrow> parallel_state \<Rightarrow> error + parallel_state" where
  "commit_now segment s =
     and_then (successor_window segment (ps_predecessor s)) (\<lambda>window.
     and_then (commit_task (segment, ps_predecessor s) (ps_committer s)) (\<lambda>c.
     Inr (s\<lparr>ps_next_start := sg_end_bit segment, ps_final := sg_final segment, ps_predecessor := window, ps_committer := c\<rparr>)))"

definition fallback_segment :: "bytes \<Rightarrow> nat \<Rightarrow> nat \<Rightarrow> parallel_state \<Rightarrow> error + parallel_state" where
  "fallback_segment data start_byte end_byte s =
     (let estimated_stop = min (sat_add start_byte ((ps_key s + 1) * PARALLEL_GRID)) end_byte * 8 in
      and_then (commit_tasks (ps_outstanding s) (ps_committer s)) (\<lambda>c.
      and_then (decode_segment data (ps_next_start s) estimated_stop UnknownHistory PARALLEL_OUTPUT_LIMIT) (\<lambda>segment.
      and_then (commit_now segment (s\<lparr>ps_outstanding := [], ps_committer := c\<rparr>)) (\<lambda>s.
      Inr (s\<lparr>ps_key := ps_key s + 1, ps_fallback := ps_fallback s + 1\<rparr>)))))"

definition accept_segment :: "nat \<Rightarrow> gz_segment \<Rightarrow> parallel_state \<Rightarrow> error + parallel_state" where
  "accept_segment threads segment s =
     and_then (successor_window segment (ps_predecessor s)) (\<lambda>window.
     let s = s\<lparr>ps_next_start := sg_end_bit segment, ps_final := sg_final segment, ps_predecessor := window,
               ps_outstanding := ps_outstanding s @ [(segment, ps_predecessor s)], ps_key := ps_key s + 1,
               ps_speculative := ps_speculative s + 1\<rparr> in
     if length (ps_outstanding s) \<ge> threads
     then and_then (commit_task (hd (ps_outstanding s)) (ps_committer s)) (\<lambda>c.
          Inr (s\<lparr>ps_outstanding := tl (ps_outstanding s), ps_committer := c\<rparr>))
     else Inr s)"

definition parallel_step :: "bytes \<Rightarrow> nat \<Rightarrow> nat \<Rightarrow> nat \<Rightarrow> gzip_job list \<Rightarrow> parallel_state \<Rightarrow> error + parallel_state" where
  "parallel_step data start_byte end_byte threads jobs s =
     and_then (take_primary_result data jobs (ps_key s)) (\<lambda>speculative.
     case speculative of
       Inr segment \<Rightarrow>
         if sg_start_bit segment = ps_next_start s then accept_segment threads segment s
         else fallback_segment data start_byte end_byte s
     | Inl _ \<Rightarrow> fallback_segment data start_byte end_byte s)"

lemma accept_segment_key: "accept_segment threads segment s = Inr s' \<Longrightarrow> ps_key s' = ps_key s + 1"
  by (auto simp: accept_segment_def Let_def and_then_Inr_iff split: if_splits)

lemma fallback_segment_key: "fallback_segment data start_byte end_byte s = Inr s' \<Longrightarrow> ps_key s' = ps_key s + 1"
  by (auto simp: fallback_segment_def commit_now_def Let_def and_then_Inr_iff)

lemma parallel_step_key:
  "parallel_step data start_byte end_byte threads jobs s = Inr s' \<Longrightarrow> ps_key s' = ps_key s + 1 \<and> ps_key s \<le> length jobs"
  unfolding parallel_step_def take_primary_result_def
  by (auto split: sum.splits if_splits dest: accept_segment_key fallback_segment_key)

function parallel_loop :: "bytes \<Rightarrow> nat \<Rightarrow> nat \<Rightarrow> nat \<Rightarrow> gzip_job list \<Rightarrow> parallel_state \<Rightarrow> error + parallel_state" where
  "parallel_loop data start_byte end_byte threads jobs s =
     (if ps_final s then Inr s
      else and_then (parallel_step data start_byte end_byte threads jobs s)
        (parallel_loop data start_byte end_byte threads jobs))"
  by pat_completeness auto
termination
  by (relation "measure (\<lambda>(_, _, _, _, jobs, s). length jobs + 1 - ps_key s)") (auto dest!: parallel_step_key)

declare parallel_loop.simps [simp del]

definition parallel_stream ::
  "(bytes \<Rightarrow> u32) \<Rightarrow> bytes \<Rightarrow> nat \<Rightarrow> nat \<Rightarrow> nat \<Rightarrow> nat \<Rightarrow> bytes \<Rightarrow> nat \<Rightarrow> nat \<Rightarrow> (nat \<times> nat) list \<Rightarrow> gz_segment \<Rightarrow>
   error + stream_result" where
  "parallel_stream crc data start_byte end_byte memory threads output member_no decoded_base progress initial =
     (let jobs = grid_jobs (sat_add start_byte PARALLEL_GRID) end_byte;
          budget = min memory (sat_mul PARALLEL_JOB_MEMORY (sat_add threads 2));
          c = \<lparr>sc_member = member_no, sc_decoded_base = decoded_base, sc_decoded = 0, sc_output = output, sc_hashed = [],
               sc_blocks = [], sc_progress = progress\<rparr>;
          s = \<lparr>ps_key = 1, ps_next_start = sg_end_bit initial, ps_final = sg_final initial, ps_predecessor = [],
               ps_outstanding = [], ps_committer = c, ps_speculative = 0, ps_fallback = 0\<rparr> in
      if jobs \<noteq> [] \<and> PARALLEL_JOB_MEMORY > budget then Inl (InvalidConfiguration ReservationExceedsLimit)
      else and_then (commit_now initial s) (\<lambda>s.
        and_then (parallel_loop data start_byte end_byte threads jobs s) (\<lambda>s.
        and_then (commit_tasks (ps_outstanding s) (ps_committer s)) (\<lambda>c.
        Inr \<lparr>sr_output = sc_output c, sr_progress = sc_progress c,
             sr_report = \<lparr>dr_source_len = end_byte - start_byte, dr_end_bit = ps_next_start s, dr_decoded_len = sc_decoded c,
               dr_crc = crc (sc_hashed c), dr_blocks = sc_blocks c, dr_speculative = ps_speculative s,
               dr_fallback = ps_fallback s\<rparr>\<rparr>))))"

definition decompress_deflate_stream ::
  "(bytes \<Rightarrow> u32) \<Rightarrow> nat option \<Rightarrow> bytes \<Rightarrow> deflate_stream \<Rightarrow> bytes \<Rightarrow> decode_options \<Rightarrow> (nat \<times> nat) list \<Rightarrow> error + stream_result" where
  "decompress_deflate_stream crc available data stream output options progress =
     (let start_byte = ds_start_byte stream; end_byte = ds_end_byte stream in
      and_then (ok_or (get_range data 0 end_byte) (gz_error DeflateEnd)) (\<lambda>data.
      if start_byte > end_byte then Inl (gz_error DeflateStart)
      else let threads = (if end_byte - start_byte < GZ_MIN_PARALLEL \<or> do_memory_limit options < PARALLEL_JOB_MEMORY then 1
                          else decode_resolved_threads available options);
               serial = serial_stream crc data start_byte output (ds_member stream) (ds_decoded_base stream) progress in
        if threads = 1 then serial
        else (case decode_segment data (start_byte * 8) (min (sat_add start_byte PARALLEL_GRID) end_byte * 8) EmptyHistory
                PARALLEL_OUTPUT_LIMIT of
                Inl _ \<Rightarrow> serial
              | Inr segment \<Rightarrow>
                  parallel_stream crc data start_byte end_byte (do_memory_limit options) threads output (ds_member stream)
                    (ds_decoded_base stream) progress segment)))"

section \<open>Members\<close>

record gzip_header =
  gh_deflate_start :: nat
  gh_mtime :: u32
  gh_extra_flags :: byte
  gh_operating_system :: byte
  gh_name :: "bytes option"
  gh_comment :: "bytes option"

definition read_zero_terminated :: "bytes \<Rightarrow> nat \<Rightarrow> error + bytes \<times> nat" where
  "read_zero_terminated data cursor =
     (if cursor > length data then Inl (gz_error (TruncatedText cursor))
      else let rest = drop cursor data; text = takeWhile (\<lambda>b. b \<noteq> 0) rest in
        if length text = length rest then Inl (gz_error (UnterminatedText cursor))
        else and_then (ok_or (checked_add cursor (length text + 1)) (gz_error HeaderOverflow)) (\<lambda>cursor.
          Inr (text, cursor)))"

definition optional_text :: "bool \<Rightarrow> bytes \<Rightarrow> nat \<Rightarrow> error + bytes option \<times> nat" where
  "optional_text present data cursor =
     (if present then and_then (read_zero_terminated data cursor) (\<lambda>r. Inr (Some (fst r), snd r)) else Inr (None, cursor))"

definition skip_extra :: "bool \<Rightarrow> bytes \<Rightarrow> nat \<Rightarrow> error + nat" where
  "skip_extra present data cursor =
     (if present
      then and_then (ok_or (get_range data cursor (cursor + 2)) (gz_error (TruncatedExtraLength cursor))) (\<lambda>bs.
           let len = unat (u16_from_le bs) in
           and_then (ok_or (checked_add cursor (2 + len)) (gz_error HeaderOverflow)) (\<lambda>cursor.
           if cursor > length data then Inl (gz_error (TruncatedExtra (cursor - len))) else Inr cursor))
      else Inr cursor)"

definition check_header_crc :: "(bytes \<Rightarrow> u32) \<Rightarrow> bool \<Rightarrow> bytes \<Rightarrow> nat \<Rightarrow> nat \<Rightarrow> error + nat" where
  "check_header_crc crc present data start cursor =
     (if present
      then and_then (ok_or (get_range data cursor (cursor + 2)) (gz_error (TruncatedHeaderCrc cursor))) (\<lambda>bs.
           and_then (index_range data start cursor) (\<lambda>covered.
           if ucast (crc covered) \<noteq> u16_from_le bs then Inl (gz_error (HeaderCrcMismatch cursor)) else Inr (cursor + 2)))
      else Inr cursor)"

definition parse_header :: "(bytes \<Rightarrow> u32) \<Rightarrow> bytes \<Rightarrow> nat \<Rightarrow> error + gzip_header" where
  "parse_header crc data start =
     and_then (ok_or (checked_add start 10) (gz_error HeaderOverflow)) (\<lambda>fixed_end.
     and_then (ok_or (get_range data start fixed_end) (gz_error (TruncatedHeader start))) (\<lambda>fixed.
     if take 2 fixed \<noteq> [0x1f, 0x8b] then Inl (gz_error (MissingMagic start))
     else if fixed ! 2 \<noteq> 8 then Inl (gz_error (CompressionMethod (start + 2)))
     else let flags = fixed ! 3 in
       if flags AND 0xe0 \<noteq> 0 then Inl (gz_error (ReservedFlags (start + 3)))
       else and_then (skip_extra (flags AND 4 \<noteq> 0) data fixed_end) (\<lambda>cursor.
         and_then (optional_text (flags AND 8 \<noteq> 0) data cursor) (\<lambda>name.
         and_then (optional_text (flags AND 16 \<noteq> 0) data (snd name)) (\<lambda>comment.
         and_then (check_header_crc crc (flags AND 2 \<noteq> 0) data start (snd comment)) (\<lambda>cursor.
         Inr \<lparr>gh_deflate_start = cursor, gh_mtime = u32_from_le (slice_of fixed 4 8), gh_extra_flags = fixed ! 8,
              gh_operating_system = fixed ! 9, gh_name = fst name, gh_comment = fst comment\<rparr>))))))"

record gzip_member =
  gm_compressed_start :: nat
  gm_deflate_start :: nat
  gm_compressed_end :: nat
  gm_decoded_start :: nat
  gm_decoded_len :: nat
  gm_expected_crc :: u32
  gm_header :: gzip_header

record gzip_state =
  gs_members :: "gzip_member list"
  gs_blocks :: "inf_block list"
  gs_output :: bytes
  gs_progress :: "(nat \<times> nat) list"
  gs_decoded :: nat
  gs_speculative :: nat
  gs_fallback :: nat

definition gzip_start :: gzip_state where
  "gzip_start = \<lparr>gs_members = [], gs_blocks = [], gs_output = [], gs_progress = [], gs_decoded = 0, gs_speculative = 0, gs_fallback = 0\<rparr>"

definition decode_member ::
  "(bytes \<Rightarrow> u32) \<Rightarrow> nat option \<Rightarrow> bytes \<Rightarrow> decode_options \<Rightarrow> nat \<Rightarrow> gzip_state \<Rightarrow> error + gzip_state \<times> nat" where
  "decode_member crc available data options start s =
     and_then (parse_header crc data start) (\<lambda>header.
     if length (gs_members s) \<ge> 2 ^ 32 then Inl (gz_error TooManyMembers)
     else and_then (decompress_deflate_stream crc available data
         \<lparr>ds_start_byte = gh_deflate_start header, ds_end_byte = length data, ds_member = length (gs_members s),
          ds_decoded_base = gs_decoded s\<rparr> (gs_output s) options (gs_progress s)) (\<lambda>r.
       let report = sr_report r; trailer = (dr_end_bit report + 7) div 8 in
       and_then (ok_or (checked_add trailer 8) (gz_error TrailerOverflow)) (\<lambda>trailer_end.
       and_then (ok_or (get_range data trailer trailer_end) (gz_error (TruncatedTrailer trailer))) (\<lambda>bs.
       let expected_crc = u32_from_le (take 4 bs); expected_size = u32_from_le (drop 4 bs) in
       if dr_crc report \<noteq> expected_crc then Inl (gz_error (Crc32Mismatch trailer))
       else if word_of_nat (dr_decoded_len report) \<noteq> expected_size then Inl (gz_error (SizeMismatch (trailer + 4)))
       else and_then (ok_or (checked_add (gs_decoded s) (dr_decoded_len report)) (gz_error GzipDecodedOverflow)) (\<lambda>decoded.
         Inr (\<lparr>gs_members = gs_members s @ [\<lparr>gm_compressed_start = start, gm_deflate_start = gh_deflate_start header,
                 gm_compressed_end = trailer_end, gm_decoded_start = decoded - dr_decoded_len report,
                 gm_decoded_len = dr_decoded_len report, gm_expected_crc = expected_crc, gm_header = header\<rparr>],
               gs_blocks = gs_blocks s @ dr_blocks report, gs_output = sr_output r,
               gs_progress = sr_progress r @ [(trailer_end, decoded)], gs_decoded = decoded,
               gs_speculative = gs_speculative s + dr_speculative report, gs_fallback = gs_fallback s + dr_fallback report\<rparr>,
              trailer_end))))))"

text \<open>A member that does not advance would be decoded again for ever.\<close>

function gzip_members ::
  "(bytes \<Rightarrow> u32) \<Rightarrow> nat option \<Rightarrow> bytes \<Rightarrow> decode_options \<Rightarrow> nat \<Rightarrow> gzip_state \<Rightarrow> error + gzip_state" where
  "gzip_members crc available data options pos s =
     (if pos \<ge> length data then Inr s
      else if gs_members s \<noteq> [] \<and> (\<forall>b\<in>set (drop pos data). b = 0) then Inr s
      else and_then (decode_member crc available data options pos s) (\<lambda>r.
        if snd r \<le> pos then Inl Unending else gzip_members crc available data options (snd r) (fst r)))"
  by pat_completeness auto
termination
  by (relation "measure (\<lambda>(_, _, data, _, pos, _). length data - pos)") auto

declare gzip_members.simps [simp del]

definition gzip_decompress :: "(bytes \<Rightarrow> u32) \<Rightarrow> nat option \<Rightarrow> bytes \<Rightarrow> decode_options \<Rightarrow> error + gzip_state" where
  "gzip_decompress crc available data options =
     and_then (decode_validate options) (\<lambda>options.
     and_then (gzip_members crc available data options 0 gzip_start) (\<lambda>s.
     if gs_members s = [] then Inl (gz_error NoMembers)
     else Inr (s\<lparr>gs_progress := gs_progress s @ [(length data, gs_decoded s)]\<rparr>)))"

definition deflate_decompress :: "(bytes \<Rightarrow> u32) \<Rightarrow> nat option \<Rightarrow> bytes \<Rightarrow> decode_options \<Rightarrow> error + stream_result" where
  "deflate_decompress crc available data options =
     and_then (decode_validate options) (\<lambda>options.
     and_then (decompress_deflate_stream crc available data
       \<lparr>ds_start_byte = 0, ds_end_byte = length data, ds_member = 0, ds_decoded_base = 0\<rparr> [] options []) (\<lambda>r.
     if (dr_end_bit (sr_report r) + 7) div 8 \<noteq> length data then Inl (gz_error (TrailingDeflate (dr_end_bit (sr_report r))))
     else Inr (r\<lparr>sr_progress := sr_progress r @ [(length data, dr_decoded_len (sr_report r))]\<rparr>)))"

end
