(* ===== verification/Deflate_Codes.thy ===== *)
theory Deflate_Codes
  imports Inflate
begin

text \<open>
  The code-building half of \<open>src/deflate_encode.rs\<close>: the least-significant-bit-first \<open>BitWriter\<close>, the
  fixed code, the symbols of lengths and distances, and the dynamic code: code lengths from a Huffman
  tree over the frequencies, halving the frequencies until the tree is shallow enough, and the
  bit-reversed canonical codes. Counts and node weights are natural numbers: a segment has at most
  \<open>2 ^ 20\<close> tokens, so the code's 32-bit frequencies and 64-bit sums do not wrap.
\<close>

section \<open>The bit writer\<close>

record lsb_writer =
  lb_bytes :: bytes
  lb_pending :: u64
  lb_bits :: nat

definition lsb_new :: lsb_writer where
  "lsb_new = \<lparr>lb_bytes = [], lb_pending = 0, lb_bits = 0\<rparr>"

function lsb_drain :: "lsb_writer \<Rightarrow> lsb_writer" where
  "lsb_drain w =
     (if lb_bits w \<ge> 8
      then lsb_drain (w\<lparr>lb_bytes := lb_bytes w @ [ucast (lb_pending w)], lb_pending := drop_bit 8 (lb_pending w),
             lb_bits := lb_bits w - 8\<rparr>)
      else w)"
  by pat_completeness auto
termination
  by (relation "measure lb_bits") auto

declare lsb_drain.simps [simp del]

definition lsb_write :: "u32 \<Rightarrow> nat \<Rightarrow> lsb_writer \<Rightarrow> lsb_writer" where
  "lsb_write v count w =
     lsb_drain (w\<lparr>lb_pending := lb_pending w OR push_bit (lb_bits w) (ucast v), lb_bits := lb_bits w + count\<rparr>)"

definition lsb_align_zero :: "lsb_writer \<Rightarrow> lsb_writer" where
  "lsb_align_zero w =
     (if lb_bits w \<noteq> 0 then w\<lparr>lb_bytes := lb_bytes w @ [ucast (lb_pending w)], lb_pending := 0, lb_bits := 0\<rparr> else w)"

definition lsb_write_aligned :: "bytes \<Rightarrow> lsb_writer \<Rightarrow> lsb_writer" where
  "lsb_write_aligned bs w = w\<lparr>lb_bytes := lb_bytes w @ bs\<rparr>"

definition lsb_finish_aligned :: "lsb_writer \<Rightarrow> bytes" where
  "lsb_finish_aligned w = lb_bytes (lsb_align_zero w)"

section \<open>The fixed code\<close>

definition reverse_code :: "u16 \<Rightarrow> nat \<Rightarrow> u16" where
  "reverse_code code bits = drop_bit (16 - bits) (reverse_bits16 code)"

definition fixed_code :: "nat \<Rightarrow> error + u16 \<times> nat" where
  "fixed_code symbol =
     (if symbol \<le> 143 then Inr (reverse_code (0x30 + word_of_nat symbol) 8, 8)
      else if symbol \<le> 255 then Inr (reverse_code (0x190 + word_of_nat (symbol - 144)) 9, 9)
      else if symbol \<le> 279 then Inr (reverse_code (word_of_nat (symbol - 256)) 7, 7)
      else if symbol \<le> 287 then Inr (reverse_code (0xc0 + word_of_nat (symbol - 280)) 8, 8)
      else Inl Panic)"

definition write_fixed_symbol :: "nat \<Rightarrow> lsb_writer \<Rightarrow> error + lsb_writer" where
  "write_fixed_symbol symbol w = and_then (fixed_code symbol) (\<lambda>c. Inr (lsb_write (ucast (fst c)) (snd c) w))"

section \<open>Symbols of lengths and distances\<close>

fun symbol_from :: "nat list \<Rightarrow> nat \<Rightarrow> nat list \<Rightarrow> nat list \<Rightarrow> error + nat \<times> u32 \<times> nat" where
  "symbol_from [] v bases extras = Inl Panic"
| "symbol_from (i # indices) v bases extras =
     and_then (index bases i) (\<lambda>base.
       if v \<ge> base then and_then (index extras i) (\<lambda>extra. Inr (i, word_of_nat (v - base), extra))
       else symbol_from indices v bases extras)"

definition symbol_for :: "nat \<Rightarrow> nat list \<Rightarrow> nat list \<Rightarrow> error + nat \<times> u32 \<times> nat" where
  "symbol_for v bases extras = symbol_from (rev [0..<length bases]) v bases extras"

section \<open>Code lengths\<close>

text \<open>\<open>std::collections::BinaryHeap\<close> of reversed pairs: \<open>pop\<close> yields the least (weight, node).\<close>

fun heap_push :: "nat \<times> nat \<Rightarrow> (nat \<times> nat) list \<Rightarrow> (nat \<times> nat) list" where
  "heap_push x [] = [x]"
| "heap_push x (y # ys) =
     (if fst x < fst y \<or> fst x = fst y \<and> snd x \<le> snd y then x # y # ys else y # heap_push x ys)"

lemma length_heap_push [simp]: "length (heap_push x ys) = Suc (length ys)"
  by (induction ys) auto

definition initial_heap :: "nat list \<Rightarrow> (nat \<times> nat) list" where
  "initial_heap scaled =
     fold (\<lambda>p heap. if snd p \<noteq> 0 then heap_push (snd p, fst p) heap else heap) (enumerate 0 scaled) []"

fun join_nodes :: "(nat \<times> nat) list \<Rightarrow> (nat \<times> nat) option list \<Rightarrow> (nat \<times> nat) list \<times> (nat \<times> nat) option list" where
  "join_nodes (left # right # heap) children =
     join_nodes (heap_push (fst left + fst right, length children) heap) (children @ [Some (snd left, snd right)])"
| "join_nodes heap children = (heap, children)"

text \<open>
  The walk over the tree. Every node is pushed once, so a step for every node is enough.
\<close>

fun walk_tree :: "nat \<Rightarrow> (nat \<times> nat) option list \<Rightarrow> nat \<Rightarrow> (nat \<times> nat) list \<Rightarrow> nat list \<Rightarrow> error + nat list" where
  "walk_tree fuel children n [] lengths = Inr lengths"
| "walk_tree 0 children n (node # stack) lengths = Inl Unending"
| "walk_tree (Suc fuel) children n (node # stack) lengths =
     (if fst node < n then walk_tree fuel children n stack (lengths[fst node := max (snd node) 1])
      else and_then (index children (fst node)) (\<lambda>c. and_then (ok_or c Panic) (\<lambda>lr.
        walk_tree fuel children n ((snd lr, snd node + 1) # (fst lr, snd node + 1) # stack) lengths)))"

definition tree_lengths :: "nat list \<Rightarrow> error + nat list" where
  "tree_lengths scaled =
     (let t = join_nodes (initial_heap scaled) (replicate (length scaled) None) in
      and_then (index (fst t) 0) (\<lambda>root.
      walk_tree (length (snd t)) (snd t) (length scaled) [(snd root, 0)] (replicate (length scaled) 0)))"

definition halve :: "nat list \<Rightarrow> nat list" where
  "halve scaled = map (\<lambda>f. if f \<noteq> 0 then (f + 1) div 2 else f) scaled"

text \<open>The retry loop: after 32 rounds every 32-bit frequency has become 0 or 1 and halving changes nothing.\<close>

fun lengths_loop :: "nat \<Rightarrow> nat list \<Rightarrow> nat \<Rightarrow> error + nat list" where
  "lengths_loop 0 scaled max_bits = Inl Unending"
| "lengths_loop (Suc fuel) scaled max_bits =
     and_then (tree_lengths scaled) (\<lambda>lengths.
       if fold max lengths 0 \<le> max_bits then Inr lengths else lengths_loop fuel (halve scaled) max_bits)"

definition huffman_lengths :: "nat list \<Rightarrow> nat \<Rightarrow> error + nat list" where
  "huffman_lengths frequencies max_bits = lengths_loop 33 frequencies max_bits"

definition ensure_two :: "nat list \<Rightarrow> error + nat list" where
  "ensure_two frequencies =
     (let active = map fst (filter (\<lambda>p. snd p \<noteq> 0) (enumerate 0 frequencies)) in
      if length active \<ge> 2 then Inr frequencies
      else if active = []
      then (if 1 < length frequencies then Inr (frequencies[0 := 1, 1 := 1]) else Inl Panic)
      else let other = (if hd active = 0 then 1 else 0) in
        if other < length frequencies then Inr (frequencies[other := 1]) else Inl Panic)"

section \<open>Codes\<close>

fun code_counts :: "nat list \<Rightarrow> u16 list \<Rightarrow> error + u16 list" where
  "code_counts [] counts = Inr counts"
| "code_counts (l # ls) counts =
     (if l \<noteq> 0 then and_then (index counts l) (\<lambda>c. code_counts ls (counts[l := c + 1])) else code_counts ls counts)"

definition next_first :: "u16 list \<Rightarrow> nat \<Rightarrow> u16 list \<times> u16 \<Rightarrow> u16 list \<times> u16" where
  "next_first counts bits st =
     (let code = push_bit 1 (snd st + counts ! (bits - 1)) in ((fst st)[bits := code], code))"

fun assign_codes :: "nat list \<Rightarrow> u16 list \<Rightarrow> error + u16 list" where
  "assign_codes [] first = Inr []"
| "assign_codes (l # ls) first =
     (if l = 0 then and_then (assign_codes ls first) (\<lambda>codes. Inr (0 # codes))
      else and_then (index first l) (\<lambda>code.
        and_then (assign_codes ls (first[l := code + 1])) (\<lambda>codes. Inr (reverse_code code l # codes))))"

definition huffman_codes :: "nat list \<Rightarrow> nat \<Rightarrow> error + u16 list" where
  "huffman_codes lengths max_bits =
     and_then (code_counts lengths (replicate (max_bits + 1) 0)) (\<lambda>counts.
     assign_codes lengths (fst (fold (next_first counts) [1..<length counts] (replicate (length counts) 0, 0))))"

end
