(* ===== verification/Deflate_Encode.thy ===== *)
theory Deflate_Encode
  imports Deflate_Codes Match_Finder Streaming Bwt
begin

text \<open>
  The rest of \<open>src/deflate_encode.rs\<close>: tokens, blocks, segments and the \<open>Encoder\<close> that splits its
  input into segments, compresses each behind a window of the input before it on the ordered pool and
  writes them in order; and the gzip \<open>Encoder\<close> of \<open>src/gzip.rs\<close> around it. A CRC hasher is the bytes
  it has been fed, so combining two is an append.
\<close>

definition DE_WINDOW :: nat where "DE_WINDOW = 32 * 1024"
definition TARGET_SEGMENT_SIZE :: nat where "TARGET_SEGMENT_SIZE = 1024 * 1024"
definition MIN_SEGMENT_SIZE :: nat where "MIN_SEGMENT_SIZE = 64 * 1024"
definition MAX_MATCH :: nat where "MAX_MATCH = 258"

section \<open>Tokens\<close>

datatype token = LiteralToken byte | MatchToken u16 u16

definition chain_depth :: "nat \<Rightarrow> error + nat" where
  "chain_depth level =
     (if level = 1 then Inr 4 else if level = 2 then Inr 8 else if level = 3 then Inr 16 else if level = 4 then Inr 32
      else if level = 5 then Inr 48 else if level = 6 then Inr 64 else if level = 7 then Inr 96
      else if level = 8 then Inr 192 else if level = 9 then Inr 384 else Inl Panic)"

definition lazy_literal :: "bytes \<Rightarrow> nat \<Rightarrow> nat \<Rightarrow> nat \<Rightarrow> nat \<Rightarrow> hash_chain \<Rightarrow> bool" where
  "lazy_literal bytes level max_chain position len finder \<longleftrightarrow>
     level \<ge> 4 \<and> position + 1 < length bytes \<and>
     fst (best_match finder bytes (position + 1) MAX_MATCH 3 (max_chain div 2)) > len + 1"

function tokenize_loop :: "bytes \<Rightarrow> nat \<Rightarrow> nat \<Rightarrow> nat \<Rightarrow> hash_chain \<Rightarrow> token list" where
  "tokenize_loop bytes level max_chain position finder =
     (if position < length bytes
      then let m = best_match finder bytes position MAX_MATCH 3 max_chain; len = fst m;
               finder = chain_insert finder bytes position in
        if len = 0
        then LiteralToken (bytes ! position) # tokenize_loop bytes level max_chain (position + 1) finder
        else if lazy_literal bytes level max_chain position len finder
        then LiteralToken (bytes ! position) # tokenize_loop bytes level max_chain (position + 1) finder
        else MatchToken (word_of_nat len) (word_of_nat (snd m)) #
             tokenize_loop bytes level max_chain (position + len)
               (fold (\<lambda>p f. chain_insert f bytes p) [position + 1..<position + len] finder)
      else [])"
  by pat_completeness auto
termination
  by (relation "measure (\<lambda>(bytes, level, max_chain, position, finder). length bytes - position)") auto

declare tokenize_loop.simps [simp del]

definition tokenize :: "bytes \<Rightarrow> nat \<Rightarrow> nat \<Rightarrow> error + token list" where
  "tokenize bytes prefix_len level =
     and_then (chain_depth level) (\<lambda>max_chain.
     let finder = chain_new (length bytes) DE_WINDOW max_chain; dictionary_start = prefix_len - DE_WINDOW;
         finder = fold (\<lambda>p f. chain_insert f bytes p) [dictionary_start..<prefix_len] finder
     in Inr (tokenize_loop bytes level max_chain prefix_len finder))"

section \<open>Blocks\<close>

definition sync_boundary :: "lsb_writer \<Rightarrow> lsb_writer" where
  "sync_boundary w = lsb_write_aligned [0, 0, 0xff, 0xff] (lsb_align_zero (lsb_write 0 3 w))"

definition write_match :: "nat \<Rightarrow> nat \<Rightarrow> lsb_writer \<Rightarrow> error + lsb_writer" where
  "write_match len distance w =
     and_then (symbol_for len LENGTH_BASE LENGTH_EXTRA) (\<lambda>s.
     and_then (write_fixed_symbol (257 + fst s) w) (\<lambda>w.
     let w = lsb_write (fst (snd s)) (snd (snd s)) w in
     and_then (symbol_for distance DISTANCE_BASE DISTANCE_EXTRA) (\<lambda>s.
     let w = lsb_write (ucast (reverse_code (word_of_nat (fst s)) 5)) 5 w
     in Inr (lsb_write (fst (snd s)) (snd (snd s)) w))))"

fun write_fixed_token :: "token \<Rightarrow> lsb_writer \<Rightarrow> error + lsb_writer" where
  "write_fixed_token (LiteralToken b) w = write_fixed_symbol (unat b) w"
| "write_fixed_token (MatchToken len distance) w = write_match (unat len) (unat distance) w"

definition encode_fixed :: "token list \<Rightarrow> error + bytes" where
  "encode_fixed tokens =
     and_then (try_fold write_fixed_token tokens (lsb_write 2 3 lsb_new)) (\<lambda>w.
     and_then (write_fixed_symbol 256 w) (\<lambda>w. Inr (lsb_finish_aligned (sync_boundary w))))"

definition bump :: "nat \<Rightarrow> nat list \<Rightarrow> error + nat list" where
  "bump i xs = and_then (index xs i) (\<lambda>v. Inr (xs[i := v + 1]))"

fun count_token :: "token \<Rightarrow> nat list \<times> nat list \<Rightarrow> error + nat list \<times> nat list" where
  "count_token (LiteralToken b) st = and_then (bump (unat b) (fst st)) (\<lambda>literals. Inr (literals, snd st))"
| "count_token (MatchToken len distance) st =
     and_then (symbol_for (unat len) LENGTH_BASE LENGTH_EXTRA) (\<lambda>l.
     and_then (symbol_for (unat distance) DISTANCE_BASE DISTANCE_EXTRA) (\<lambda>d.
     and_then (bump (257 + fst l) (fst st)) (\<lambda>literals.
     and_then (bump (fst d) (snd st)) (\<lambda>distances. Inr (literals, distances)))))"

definition frequencies :: "token list \<Rightarrow> error + nat list \<times> nat list" where
  "frequencies tokens =
     and_then (try_fold count_token tokens (replicate 286 0, replicate 30 0)) (\<lambda>st.
     and_then (bump 256 (fst st)) (\<lambda>literals.
     and_then (ensure_two literals) (\<lambda>literals.
     and_then (ensure_two (snd st)) (\<lambda>distances. Inr (literals, distances)))))"

definition CODE_LENGTH_ORDER :: "nat list" where
  "CODE_LENGTH_ORDER = [16, 17, 18, 0, 8, 7, 9, 6, 10, 5, 11, 4, 12, 3, 13, 2, 14, 1, 15]"

definition write_code :: "u16 list \<Rightarrow> nat list \<Rightarrow> nat \<Rightarrow> lsb_writer \<Rightarrow> error + lsb_writer" where
  "write_code codes lengths symbol w =
     and_then (index codes symbol) (\<lambda>c. and_then (index lengths symbol) (\<lambda>l. Inr (lsb_write (ucast c) l w)))"

text \<open>\<open>iter().rposition(..).unwrap()\<close>.\<close>

definition last_position :: "('a \<Rightarrow> bool) \<Rightarrow> 'a list \<Rightarrow> error + nat" where
  "last_position P xs = ok_or (List.find (\<lambda>i. P (xs ! i)) (rev [0..<length xs])) Panic"

fun write_dynamic_token :: "u16 list \<Rightarrow> nat list \<Rightarrow> u16 list \<Rightarrow> nat list \<Rightarrow> token \<Rightarrow> lsb_writer \<Rightarrow> error + lsb_writer" where
  "write_dynamic_token lcodes llens dcodes dlens (LiteralToken b) w = write_code lcodes llens (unat b) w"
| "write_dynamic_token lcodes llens dcodes dlens (MatchToken len distance) w =
     and_then (symbol_for (unat len) LENGTH_BASE LENGTH_EXTRA) (\<lambda>s.
     and_then (write_code lcodes llens (257 + fst s) w) (\<lambda>w.
     let w = lsb_write (fst (snd s)) (snd (snd s)) w in
     and_then (symbol_for (unat distance) DISTANCE_BASE DISTANCE_EXTRA) (\<lambda>s.
     and_then (write_code dcodes dlens (fst s) w) (\<lambda>w. Inr (lsb_write (fst (snd s)) (snd (snd s)) w)))))"

definition trimmed :: "nat list \<Rightarrow> nat \<Rightarrow> error + nat" where
  "trimmed lengths least = and_then (last_position (\<lambda>l. l \<noteq> 0) lengths) (\<lambda>p. Inr (max p least + 1))"

definition code_length_lengths :: "nat list \<Rightarrow> error + nat list" where
  "code_length_lengths all_lengths =
     and_then (try_fold bump all_lengths (replicate 19 0)) (\<lambda>f.
     and_then (ensure_two f) (\<lambda>f. huffman_lengths f 7))"

definition write_table :: "nat \<Rightarrow> nat \<Rightarrow> nat list \<Rightarrow> lsb_writer \<Rightarrow> error + lsb_writer" where
  "write_table literal_count distance_count all_lengths w =
     and_then (code_length_lengths all_lengths) (\<lambda>cl_lens.
     and_then (last_position (\<lambda>symbol. cl_lens ! symbol \<noteq> 0) CODE_LENGTH_ORDER) (\<lambda>p. let code_length_count = max p 3 + 1 in
     and_then (huffman_codes cl_lens 7) (\<lambda>cl_codes.
     let w = lsb_write (word_of_nat (literal_count - 257)) 5 w;
         w = lsb_write (word_of_nat (distance_count - 1)) 5 w;
         w = lsb_write (word_of_nat (code_length_count - 4)) 4 w;
         w = fold (\<lambda>symbol w. lsb_write (word_of_nat (cl_lens ! symbol)) 3 w) (take code_length_count CODE_LENGTH_ORDER) w
     in try_fold (write_code cl_codes cl_lens) all_lengths w)))"

definition encode_dynamic :: "token list \<Rightarrow> error + bytes" where
  "encode_dynamic tokens =
     and_then (frequencies tokens) (\<lambda>f.
     and_then (huffman_lengths (fst f) 15) (\<lambda>llens.
     and_then (huffman_lengths (snd f) 15) (\<lambda>dlens.
     and_then (trimmed llens 256) (\<lambda>literal_count.
     and_then (trimmed dlens 0) (\<lambda>distance_count.
     and_then (huffman_codes llens 15) (\<lambda>lcodes.
     and_then (huffman_codes dlens 15) (\<lambda>dcodes.
     and_then (write_table literal_count distance_count (take literal_count llens @ take distance_count dlens)
       (lsb_write 4 3 lsb_new)) (\<lambda>w.
     and_then (try_fold (write_dynamic_token lcodes llens dcodes dlens) tokens w) (\<lambda>w.
     and_then (write_code lcodes llens 256 w) (\<lambda>w. Inr (lsb_finish_aligned (sync_boundary w))))))))))))"

function chunks_of :: "nat \<Rightarrow> 'a list \<Rightarrow> 'a list list" where
  "chunks_of n xs = (if xs = [] \<or> n = 0 then [] else take n xs # chunks_of n (drop n xs))"
  by pat_completeness auto
termination
  by (relation "measure (\<lambda>(n, xs). length xs)") auto

declare chunks_of.simps [simp del]

definition write_stored :: "bytes \<Rightarrow> lsb_writer \<Rightarrow> lsb_writer" where
  "write_stored chunk w =
     (let w = lsb_align_zero (lsb_write 0 3 w); len = word_of_nat (length chunk) :: u16
      in lsb_write_aligned chunk (lsb_write_aligned (u16_to_le (NOT len)) (lsb_write_aligned (u16_to_le len) w)))"

definition encode_stored :: "bytes \<Rightarrow> bytes" where
  "encode_stored bytes = lsb_finish_aligned (fold write_stored (chunks_of 65535 bytes) lsb_new)"

section \<open>Segments\<close>

record deflate_segment =
  seg_encoded :: bytes
  seg_input_len :: nat
  seg_hashed :: bytes

definition encode_segment :: "bytes \<Rightarrow> nat \<Rightarrow> nat \<Rightarrow> error + deflate_segment" where
  "encode_segment buffer prefix_len level =
     and_then (index_range buffer prefix_len (length buffer)) (\<lambda>plain.
     and_then (tokenize buffer prefix_len level) (\<lambda>tokens.
     and_then (encode_fixed tokens) (\<lambda>fixed.
     and_then (encode_dynamic tokens) (\<lambda>dynamic.
     let stored = encode_stored plain;
         encoded = (if length dynamic < length fixed then dynamic else fixed);
         encoded = (if length encoded < length stored then encoded else stored)
     in Inr \<lparr>seg_encoded = encoded, seg_input_len = length plain, seg_hashed = plain\<rparr>))))"

definition deflate_reservation :: "nat \<Rightarrow> nat" where
  "deflate_reservation segment_size = sat_add (sat_mul (segment_size + DE_WINDOW) 6) (2 ^ 16 * 8)"

function shrink_segment :: "nat \<Rightarrow> nat \<Rightarrow> nat" where
  "shrink_segment limit n =
     (if n > MIN_SEGMENT_SIZE \<and> deflate_reservation n > limit then shrink_segment limit (n div 2) else n)"
  by pat_completeness auto
termination
  by (relation "measure snd") (auto simp: MIN_SEGMENT_SIZE_def)

declare shrink_segment.simps [simp del]

definition segment_size :: "nat \<Rightarrow> error + nat" where
  "segment_size memory_limit =
     (let n = shrink_segment memory_limit TARGET_SEGMENT_SIZE in
      if deflate_reservation n > memory_limit then Inl (InvalidConfiguration MemoryLimitTooSmall) else Inr n)"

definition deflate_validate :: "encode_options \<Rightarrow> error + encode_options" where
  "deflate_validate options =
     and_then (encode_validate options) (\<lambda>options.
     and_then (segment_size (eo_memory_limit options)) (\<lambda>_. Inr options))"

definition final_block :: bytes where
  "final_block = lsb_finish_aligned (lsb_write_aligned [0, 0, 0xff, 0xff] (lsb_align_zero (lsb_write 1 3 lsb_new)))"

record deflate_encode_report =
  der_input_len :: nat
  der_output_len :: nat
  der_crc :: u32

definition next_previous :: "bytes \<Rightarrow> bytes \<Rightarrow> bytes" where
  "next_previous chunk previous =
     (let keep = min (length chunk) DE_WINDOW in
      if length chunk \<ge> DE_WINDOW then drop (length chunk - keep) chunk
      else let previous = previous @ chunk in
        if length previous > DE_WINDOW
        then take DE_WINDOW (copy_within previous (length previous - DE_WINDOW) (length previous) 0)
        else previous)"

fun serial_segments :: "bytes list \<Rightarrow> nat \<Rightarrow> bytes \<Rightarrow> bytes \<times> bytes \<Rightarrow> error + bytes \<times> bytes" where
  "serial_segments [] level previous st = Inr st"
| "serial_segments (chunk # chunks) level previous st =
     and_then (encode_segment (previous @ chunk) (length previous) level) (\<lambda>segment.
     serial_segments chunks level (next_previous chunk previous) (fst st @ seg_encoded segment, snd st @ seg_hashed segment))"

definition compress_bytes_serial :: "(bytes \<Rightarrow> u32) \<Rightarrow> bytes \<Rightarrow> nat \<Rightarrow> error + bytes \<times> deflate_encode_report" where
  "compress_bytes_serial crc data level =
     and_then (serial_segments (chunks_of TARGET_SEGMENT_SIZE data) level [] ([], [])) (\<lambda>st.
     let out = fst st @ final_block
     in Inr (out, \<lparr>der_input_len = length data, der_output_len = length out, der_crc = crc (snd st)\<rparr>))"

section \<open>The streaming encoder\<close>

record deflate_writer =
  dw_output :: bytes
  dw_hashed :: bytes
  dw_input_len :: nat
  dw_output_len :: nat

record deflate_encoder =
  de_pool :: "deflate_segment streaming \<times> deflate_writer"
  de_level :: nat
  de_buffer :: bytes
  de_prefix_len :: nat
  de_segment_size :: nat
  de_reservation :: nat

definition deflate_new :: "nat option \<Rightarrow> encode_options \<Rightarrow> bytes \<Rightarrow> error + deflate_encoder" where
  "deflate_new available options out =
     and_then (deflate_validate options) (\<lambda>options.
     and_then (segment_size (eo_memory_limit options)) (\<lambda>n.
     let reservation = deflate_reservation n;
         workers = min (encode_resolved_threads available options) (max (eo_memory_limit options div reservation) 1)
     in Inr \<lparr>de_pool = (streaming_new workers (eo_memory_limit options),
                \<lparr>dw_output = out, dw_hashed = [], dw_input_len = 0, dw_output_len = 0\<rparr>),
             de_level = level_or options 6, de_buffer = [], de_prefix_len = 0, de_segment_size = n,
             de_reservation = reservation\<rparr>))"

definition deflate_commit :: "deflate_writer \<Rightarrow> deflate_segment \<Rightarrow> error + deflate_writer" where
  "deflate_commit w segment =
     Inr (w\<lparr>dw_output := dw_output w @ seg_encoded segment, dw_hashed := dw_hashed w @ seg_hashed segment,
           dw_input_len := dw_input_len w + seg_input_len segment,
           dw_output_len := dw_output_len w + length (seg_encoded segment)\<rparr>)"

text \<open>A job that panics is a worker that panicked.\<close>

definition deflate_job :: "bytes \<Rightarrow> nat \<Rightarrow> nat \<Rightarrow> deflate_segment option" where
  "deflate_job buffer prefix_len level =
     (case encode_segment buffer prefix_len level of Inl _ \<Rightarrow> None | Inr s \<Rightarrow> Some s)"

definition deflate_submit_buffer :: "deflate_segment schedule \<Rightarrow> deflate_encoder \<Rightarrow> error + deflate_encoder" where
  "deflate_submit_buffer pick e =
     (if length (de_buffer e) = de_prefix_len e then Inr e
      else let keep = min (length (de_buffer e)) DE_WINDOW in
        and_then (submit_ordered pick deflate_commit (de_reservation e)
          (deflate_job (de_buffer e) (de_prefix_len e) (de_level e)) (de_pool e)) (\<lambda>pool.
        Inr (e\<lparr>de_pool := pool, de_buffer := drop (length (de_buffer e) - keep) (de_buffer e), de_prefix_len := keep\<rparr>)))"

definition flush_segments :: "deflate_segment schedule \<Rightarrow> deflate_encoder \<Rightarrow> error + deflate_encoder" where
  "flush_segments pick e =
     and_then (deflate_submit_buffer pick e) (\<lambda>e.
     and_then (drain pick deflate_commit (de_pool e)) (\<lambda>pool. Inr (e\<lparr>de_pool := pool\<rparr>)))"

definition deflate_finish ::
  "(bytes \<Rightarrow> u32) \<Rightarrow> deflate_segment schedule \<Rightarrow> deflate_encoder \<Rightarrow> error + bytes \<times> deflate_encode_report" where
  "deflate_finish crc pick e =
     and_then (flush_segments pick e) (\<lambda>e. let w = snd (de_pool e) in
     Inr (dw_output w @ final_block,
       \<lparr>der_input_len = dw_input_len w, der_output_len = dw_output_len w + length final_block, der_crc = crc (dw_hashed w)\<rparr>))"

text \<open>As in the LZ4 encoder, a loop of \<open>write\<close> that cannot advance is reported as \<open>Unending\<close>.\<close>

function deflate_write :: "deflate_segment schedule \<Rightarrow> deflate_encoder \<Rightarrow> bytes \<Rightarrow> error + deflate_encoder" where
  "deflate_write pick e bytes =
     (if bytes = [] then Inr e
      else let used = length (de_buffer e) - de_prefix_len e; taken = min (length bytes) (de_segment_size e - used) in
        if taken = 0 then Inl Unending
        else let e = e\<lparr>de_buffer := de_buffer e @ take taken bytes\<rparr> in
          and_then (if length (de_buffer e) - de_prefix_len e = de_segment_size e then deflate_submit_buffer pick e else Inr e) (\<lambda>e.
          deflate_write pick e (drop taken bytes)))"
  by pat_completeness auto
termination
  by (relation "measure (\<lambda>(pick, e, bytes). length bytes)") auto

declare deflate_write.simps [simp del]

fun deflate_write_all :: "deflate_segment schedule \<Rightarrow> (bytes \<times> bool) list \<Rightarrow> deflate_encoder \<Rightarrow> error + deflate_encoder" where
  "deflate_write_all pick [] e = Inr e"
| "deflate_write_all pick (chunk # chunks) e =
     and_then (deflate_write pick e (fst chunk)) (\<lambda>e.
     and_then (if snd chunk then flush_segments pick e else Inr e) (deflate_write_all pick chunks))"

definition deflate_compress ::
  "(bytes \<Rightarrow> u32) \<Rightarrow> nat option \<Rightarrow> deflate_segment schedule \<Rightarrow> encode_options \<Rightarrow> (bytes \<times> bool) list \<Rightarrow>
   error + bytes \<times> deflate_encode_report" where
  "deflate_compress crc available pick options chunks =
     and_then (deflate_new available options []) (\<lambda>e.
     and_then (deflate_write_all pick chunks e) (deflate_finish crc pick))"

section \<open>The gzip encoder\<close>

definition gzip_new :: "nat option \<Rightarrow> encode_options \<Rightarrow> error + deflate_encoder" where
  "gzip_new available options =
     and_then (deflate_validate options) (\<lambda>options.
     let level = level_or options 6;
         extra_flags = (if 1 \<le> level \<and> level \<le> 2 then 4 else if 8 \<le> level \<and> level \<le> 9 then 2 else 0)
     in deflate_new available options [0x1f, 0x8b, 8, 0, 0, 0, 0, 0, extra_flags, 255])"

definition gzip_finish ::
  "(bytes \<Rightarrow> u32) \<Rightarrow> deflate_segment schedule \<Rightarrow> deflate_encoder \<Rightarrow> error + bytes \<times> deflate_encode_report" where
  "gzip_finish crc pick e =
     and_then (deflate_finish crc pick e) (\<lambda>r.
     Inr (fst r @ u32_to_le (der_crc (snd r)) @ u32_to_le (word_of_nat (der_input_len (snd r))),
       (snd r)\<lparr>der_output_len := der_output_len (snd r) + 18\<rparr>))"

definition gzip_compress ::
  "(bytes \<Rightarrow> u32) \<Rightarrow> nat option \<Rightarrow> deflate_segment schedule \<Rightarrow> encode_options \<Rightarrow> (bytes \<times> bool) list \<Rightarrow>
   error + bytes \<times> deflate_encode_report" where
  "gzip_compress crc available pick options chunks =
     and_then (gzip_new available options) (\<lambda>e.
     and_then (deflate_write_all pick chunks e) (gzip_finish crc pick))"

end
