(* ===== verification/Block_Index.thy ===== *)
theory Block_Index
  imports Errors
begin

text \<open>
  \<open>src/index.rs\<close>: the block index of a bzip2 file, its file format and the validation of a loaded
  index. BLAKE3 is the parameter \<open>blake3\<close>. Reading and writing the file itself is not modelled.
\<close>

definition INDEX_MAGIC :: bytes where "INDEX_MAGIC = [0x46, 0x42, 0x5a, 0x32, 0x49, 0x44, 0x58, 0]"
definition INDEX_VERSION :: u32 where "INDEX_VERSION = 1"
definition CHECKSUM_LEN :: nat where "CHECKSUM_LEN = 32"

record block_index =
  bi_start :: nat
  bi_end :: nat
  bi_decoded_start :: nat
  bi_decoded_len :: nat
  bi_crc :: u32
  bi_stream :: nat

record stream_index =
  si_header :: nat
  si_level :: byte
  si_first :: nat
  si_count :: nat
  si_decoded_start :: nat
  si_decoded_len :: nat
  si_eos :: nat
  si_crc :: u32

record bz2_index =
  xi_source_len :: nat
  xi_source_hash :: bytes
  xi_decoded_len :: nat
  xi_streams :: "stream_index list"
  xi_blocks :: "block_index list"

definition index_new :: "(bytes \<Rightarrow> bytes) \<Rightarrow> bytes \<Rightarrow> nat \<Rightarrow> stream_index list \<Rightarrow> block_index list \<Rightarrow> bz2_index" where
  "index_new blake3 source decoded_len streams blocks =
     \<lparr>xi_source_len = length source, xi_source_hash = blake3 source, xi_decoded_len = decoded_len,
      xi_streams = streams, xi_blocks = blocks\<rparr>"

section \<open>Writing\<close>

definition put_u32 :: "u32 \<Rightarrow> bytes" where "put_u32 v = u32_to_le v"
definition put_u64 :: "nat \<Rightarrow> bytes" where "put_u64 v = u64_to_le (word_of_nat v)"

definition put_stream :: "stream_index \<Rightarrow> bytes" where
  "put_stream s = put_u64 (si_header s) @ [si_level s] @ put_u64 (si_first s) @ put_u64 (si_count s) @
     put_u64 (si_decoded_start s) @ put_u64 (si_decoded_len s) @ put_u64 (si_eos s) @ put_u32 (si_crc s)"

definition put_block :: "block_index \<Rightarrow> bytes" where
  "put_block b = put_u64 (bi_start b) @ put_u64 (bi_end b) @ put_u64 (bi_decoded_start b) @
     put_u64 (bi_decoded_len b) @ put_u32 (bi_crc b) @ put_u64 (bi_stream b)"

definition index_payload :: "bz2_index \<Rightarrow> bytes" where
  "index_payload x = INDEX_MAGIC @ put_u32 INDEX_VERSION @ put_u64 (xi_source_len x) @ xi_source_hash x @
     put_u64 (xi_decoded_len x) @ put_u64 (length (xi_streams x)) @ put_u64 (length (xi_blocks x)) @
     concat (map put_stream (xi_streams x)) @ concat (map put_block (xi_blocks x))"

definition index_to_bytes :: "(bytes \<Rightarrow> bytes) \<Rightarrow> bz2_index \<Rightarrow> bytes" where
  "index_to_bytes blake3 x = index_payload x @ blake3 (index_payload x)"

section \<open>Reading\<close>

definition index_error :: "index_reason \<Rightarrow> error" where
  "index_error r = InvalidIndex r"

definition ix_take :: "nat \<Rightarrow> bytes \<Rightarrow> nat \<Rightarrow> error + bytes \<times> nat" where
  "ix_take count data pos =
     and_then (ok_or (checked_add pos count) (index_error IndexOffset)) (\<lambda>stop.
     and_then (ok_or (get_range data pos stop) (index_error IndexTruncated)) (\<lambda>v. Inr (v, stop)))"

definition ix_byte :: "bytes \<Rightarrow> nat \<Rightarrow> error + byte \<times> nat" where
  "ix_byte data pos = and_then (ix_take 1 data pos) (\<lambda>r. and_then (index (fst r) 0) (\<lambda>b. Inr (b, snd r)))"

definition ix_u32 :: "bytes \<Rightarrow> nat \<Rightarrow> error + u32 \<times> nat" where
  "ix_u32 data pos = and_then (ix_take 4 data pos) (\<lambda>r. Inr (u32_from_le (fst r), snd r))"

definition ix_u64 :: "bytes \<Rightarrow> nat \<Rightarrow> error + nat \<times> nat" where
  "ix_u64 data pos = and_then (ix_take 8 data pos) (\<lambda>r. Inr (unat (u64_from_le (fst r)), snd r))"

definition read_stream_index :: "bytes \<Rightarrow> nat \<Rightarrow> error + stream_index \<times> nat" where
  "read_stream_index data pos =
     and_then (ix_u64 data pos) (\<lambda>header.
     and_then (ix_byte data (snd header)) (\<lambda>level.
     and_then (ix_u64 data (snd level)) (\<lambda>first.
     and_then (ix_u64 data (snd first)) (\<lambda>count.
     and_then (ix_u64 data (snd count)) (\<lambda>start.
     and_then (ix_u64 data (snd start)) (\<lambda>len.
     and_then (ix_u64 data (snd len)) (\<lambda>eos.
     and_then (ix_u32 data (snd eos)) (\<lambda>crc.
     Inr (\<lparr>si_header = fst header, si_level = fst level, si_first = fst first, si_count = fst count,
           si_decoded_start = fst start, si_decoded_len = fst len, si_eos = fst eos, si_crc = fst crc\<rparr>, snd crc)))))))))"

definition read_block_index :: "bytes \<Rightarrow> nat \<Rightarrow> error + block_index \<times> nat" where
  "read_block_index data pos =
     and_then (ix_u64 data pos) (\<lambda>start.
     and_then (ix_u64 data (snd start)) (\<lambda>stop.
     and_then (ix_u64 data (snd stop)) (\<lambda>decoded.
     and_then (ix_u64 data (snd decoded)) (\<lambda>len.
     and_then (ix_u32 data (snd len)) (\<lambda>crc.
     and_then (ix_u64 data (snd crc)) (\<lambda>stream.
     Inr (\<lparr>bi_start = fst start, bi_end = fst stop, bi_decoded_start = fst decoded, bi_decoded_len = fst len,
           bi_crc = fst crc, bi_stream = fst stream\<rparr>, snd stream)))))))"

fun ix_many :: "(bytes \<Rightarrow> nat \<Rightarrow> error + 'a \<times> nat) \<Rightarrow> nat \<Rightarrow> bytes \<Rightarrow> nat \<Rightarrow> error + 'a list \<times> nat" where
  "ix_many f 0 data pos = Inr ([], pos)"
| "ix_many f (Suc n) data pos =
     and_then (f data pos) (\<lambda>x. and_then (ix_many f n data (snd x)) (\<lambda>xs. Inr (fst x # fst xs, snd xs)))"

definition required_len :: "nat \<Rightarrow> nat \<Rightarrow> nat option" where
  "required_len stream_count block_count =
     (case checked_mul stream_count 53 of
        None \<Rightarrow> None
      | Some streams \<Rightarrow> (case checked_mul block_count 44 of None \<Rightarrow> None | Some blocks \<Rightarrow> checked_add streams blocks))"

section \<open>Validation\<close>

definition validate_block :: "bz2_index \<Rightarrow> nat \<Rightarrow> nat \<times> block_index \<Rightarrow> nat \<Rightarrow> error + nat" where
  "validate_block x source_bits p decoded =
     (let number = fst p; block = snd p in
      if bi_decoded_start block \<noteq> decoded \<or> bi_decoded_len block = 0 then Inl (index_error BlocksNotContiguous)
      else if bi_start block \<ge> bi_end block \<or> bi_end block > source_bits then Inl (index_error BlockRange)
      else if bi_stream block \<ge> length (xi_streams x) then Inl (index_error BlockStream)
      else and_then (ok_or (checked_add decoded (bi_decoded_len block)) (index_error IndexDecodedOverflow)) (\<lambda>decoded.
        if number > 0 \<and> bi_start (xi_blocks x ! (number - 1)) \<ge> bi_start block then Inl (index_error BlockOrder)
        else Inr decoded))"

fun validate_blocks :: "bz2_index \<Rightarrow> nat \<Rightarrow> (nat \<times> block_index) list \<Rightarrow> nat \<Rightarrow> error + nat" where
  "validate_blocks x source_bits [] decoded = Inr decoded"
| "validate_blocks x source_bits (p # ps) decoded =
     and_then (validate_block x source_bits p decoded) (validate_blocks x source_bits ps)"

text \<open>The state is the next block and the decoded bytes so far.\<close>

definition validate_stream :: "bz2_index \<Rightarrow> nat \<Rightarrow> nat \<times> stream_index \<Rightarrow> nat \<times> nat \<Rightarrow> error + nat \<times> nat" where
  "validate_stream x source_bits p st =
     (let number = fst p; stream = snd p in
      if \<not> (1 \<le> si_level stream \<and> si_level stream \<le> 9) \<or> si_first stream \<noteq> fst st \<or>
         si_decoded_start stream \<noteq> snd st \<or> si_eos stream > source_bits
      then Inl (index_error StreamRecord)
      else and_then (ok_or (checked_add (si_first stream) (si_count stream)) (index_error StreamCountOverflow)) (\<lambda>stop.
        if stop > length (xi_blocks x) then Inl (index_error StreamRange)
        else and_then (index_range (xi_blocks x) (si_first stream) stop) (\<lambda>blocks.
          if \<exists>b\<in>set blocks. bi_stream b \<noteq> number then Inl (index_error WrongStream)
          else and_then (ok_or (checked_add (snd st) (si_decoded_len stream)) (index_error StreamSizeOverflow)) (\<lambda>decoded.
            Inr (stop, decoded)))))"

fun validate_streams :: "bz2_index \<Rightarrow> nat \<Rightarrow> (nat \<times> stream_index) list \<Rightarrow> nat \<times> nat \<Rightarrow> error + nat \<times> nat" where
  "validate_streams x source_bits [] st = Inr st"
| "validate_streams x source_bits (p # ps) st =
     and_then (validate_stream x source_bits p st) (validate_streams x source_bits ps)"

definition index_validate :: "bz2_index \<Rightarrow> error + unit" where
  "index_validate x =
     and_then (ok_or (checked_mul (xi_source_len x) 8) (index_error SourceOverflow)) (\<lambda>source_bits.
     and_then (validate_blocks x source_bits (enumerate 0 (xi_blocks x)) 0) (\<lambda>decoded.
     if decoded \<noteq> xi_decoded_len x then Inl (index_error DecodedSize)
     else and_then (validate_streams x source_bits (enumerate 0 (xi_streams x)) (0, 0)) (\<lambda>st.
       if fst st \<noteq> length (xi_blocks x) \<or> snd st \<noteq> xi_decoded_len x then Inl (index_error StreamsDoNotCover)
       else Inr ())))"

definition index_from_bytes :: "(bytes \<Rightarrow> bytes) \<Rightarrow> bytes \<Rightarrow> bytes \<Rightarrow> error + bz2_index" where
  "index_from_bytes blake3 encoded source =
     (if length encoded < CHECKSUM_LEN then Inl (index_error IndexHeader)
      else let payload = take (length encoded - CHECKSUM_LEN) encoded; checksum = drop (length encoded - CHECKSUM_LEN) encoded in
      if blake3 payload \<noteq> checksum then Inl (index_error IndexChecksum)
      else and_then (ix_take 8 payload 0) (\<lambda>magic.
        if fst magic \<noteq> INDEX_MAGIC then Inl (index_error IndexMagic)
        else and_then (ix_u32 payload (snd magic)) (\<lambda>version.
        if fst version \<noteq> INDEX_VERSION then Inl (index_error IndexVersion)
        else and_then (ix_u64 payload (snd version)) (\<lambda>source_len.
        and_then (ix_take 32 payload (snd source_len)) (\<lambda>source_hash.
        and_then (ix_u64 payload (snd source_hash)) (\<lambda>decoded_len.
        and_then (ix_u64 payload (snd decoded_len)) (\<lambda>stream_count.
        and_then (ix_u64 payload (snd stream_count)) (\<lambda>block_count.
        if fst source_len \<noteq> length source \<or> fst source_hash \<noteq> blake3 source then Inl (index_error SourceIdentity)
        else and_then (ok_or (required_len (fst stream_count) (fst block_count)) (index_error CountOverflow)) (\<lambda>required.
        if length payload - snd block_count \<noteq> required then Inl (index_error CountMismatch)
        else and_then (ix_many read_stream_index (fst stream_count) payload (snd block_count)) (\<lambda>streams.
        and_then (ix_many read_block_index (fst block_count) payload (snd streams)) (\<lambda>blocks.
        let x = \<lparr>xi_source_len = fst source_len, xi_source_hash = fst source_hash, xi_decoded_len = fst decoded_len,
                 xi_streams = fst streams, xi_blocks = fst blocks\<rparr> in
        and_then (index_validate x) (\<lambda>_. Inr x))))))))))))"

section \<open>Readers of what was written\<close>

text \<open>
  \<open>reads f bs v\<close>: wherever the bytes \<open>bs\<close> stand in the input, \<open>f\<close> reads \<open>v\<close> from them and stops behind
  them. \<open>reads_bind\<close> follows a reader through its fields.
\<close>

definition reads :: "(bytes \<Rightarrow> nat \<Rightarrow> error + 'a \<times> nat) \<Rightarrow> bytes \<Rightarrow> 'a \<Rightarrow> bool" where
  "reads f bs v \<longleftrightarrow> (\<forall>data pos rest. drop pos data = bs @ rest \<longrightarrow> pos \<le> length data \<longrightarrow> fits data \<longrightarrow>
     f data pos = Inr (v, pos + length bs))"

lemma readsD:
  assumes "reads f bs v" and "drop pos data = bs @ rest" and "pos \<le> length data" and "fits data"
  shows "f data pos = Inr (v, pos + length bs)" and "drop (pos + length bs) data = rest" and "pos + length bs \<le> length data"
  using assms drop_append_step [of pos data bs rest] drop_append_le [of pos data bs rest] by (auto simp: reads_def)

lemma reads_bind:
  assumes f: "reads f xs v" and g: "reads (\<lambda>d p. g d (v, p)) ys w"
  shows "reads (\<lambda>d p. and_then (f d p) (\<lambda>r. g d r)) (xs @ ys) w"
  unfolding reads_def
proof (intro allI impI)
  fix data pos rest
  assume d: "drop pos data = (xs @ ys) @ rest" and "pos \<le> length data" "fits data"
  note r = readsD [OF f, of pos data "ys @ rest"]
  show "and_then (f data pos) (\<lambda>r. g data r) = Inr (w, pos + length (xs @ ys))"
    using r d \<open>pos \<le> length data\<close> \<open>fits data\<close> readsD(1) [OF g r(2)] by (simp add: add.assoc)
qed

lemma reads_return: "v = w \<Longrightarrow> reads (\<lambda>d p. Inr (v, p)) [] w"
  by (simp add: reads_def)

lemma reads_take:
  assumes "length bs = n"
  shows "reads (ix_take n) bs bs"
  unfolding reads_def
proof (intro allI impI)
  fix data pos rest
  assume d: "drop pos data = bs @ rest" "pos \<le> length data" and fit: "fits data"
  then have "pos + n \<le> 2 ^ 63" using drop_append_le [OF d] assms by (simp add: fits_def)
  then show "ix_take n data pos = Inr (bs, pos + length bs)"
    using get_range_drop [OF d] assms by (simp add: ix_take_def checked_add_fits)
qed

lemma reads_byte: "reads ix_byte [b] b"
proof -
  have "ix_byte = (\<lambda>d p. and_then (ix_take 1 d p) (\<lambda>r. and_then (index (fst r) 0) (\<lambda>b. Inr (b, snd r))))"
    by (simp add: ix_byte_def fun_eq_iff)
  moreover have "reads \<dots> ([b] @ []) b"
    by (rule reads_bind, rule reads_take) (simp_all add: reads_return)
  ultimately show ?thesis by simp
qed

lemma reads_u32: "reads ix_u32 (put_u32 v) v"
proof -
  have "reads (\<lambda>d p. and_then (ix_take 4 d p) (\<lambda>r. Inr (u32_from_le (fst r), snd r))) (put_u32 v @ []) v"
    by (rule reads_bind, rule reads_take) (simp_all add: reads_return put_u32_def)
  then show ?thesis by (simp add: ix_u32_def [abs_def])
qed

lemma reads_u64: "v < 2 ^ 64 \<Longrightarrow> reads ix_u64 (put_u64 v) v"
proof -
  assume v: "v < 2 ^ 64"
  have "reads (\<lambda>d p. and_then (ix_take 8 d p) (\<lambda>r. Inr (unat (u64_from_le (fst r)), snd r))) (put_u64 v @ []) v"
    by (rule reads_bind, rule reads_take) (use v in \<open>simp_all add: reads_return put_u64_def unat_of_nat\<close>)
  then show ?thesis by (simp add: ix_u64_def [abs_def])
qed

lemma reads_many:
  assumes "\<And>x. x \<in> set xs \<Longrightarrow> reads f (enc x) x"
  shows "reads (ix_many f (length xs)) (concat (map enc xs)) xs"
  using assms
proof (induction xs)
  case Nil
  show ?case using reads_return [of "[]" "[]"] by (simp add: ix_many.simps(1) [abs_def])
next
  case (Cons x xs)
  have "reads (ix_many f (length xs)) (concat (map enc xs)) xs" using Cons by simp
  then have inner: "reads (\<lambda>d p. and_then (ix_many f (length xs) d p) (\<lambda>r. Inr (x # fst r, snd r))) (concat (map enc xs) @ []) (x # xs)"
    by (rule reads_bind) (simp add: reads_return)
  have "reads (\<lambda>d p. and_then (f d p) (\<lambda>r. and_then (ix_many f (length xs) d (snd r)) (\<lambda>ys. Inr (fst r # fst ys, snd ys))))
    (enc x @ concat (map enc xs) @ []) (x # xs)"
    by (rule reads_bind [of f "enc x" x]) (use Cons inner in simp_all)
  then show ?case by (simp add: ix_many.simps(2) [abs_def])
qed

definition u64_stream :: "stream_index \<Rightarrow> bool" where
  "u64_stream s \<longleftrightarrow> (\<forall>v\<in>{si_header s, si_first s, si_count s, si_decoded_start s, si_decoded_len s, si_eos s}. v < 2 ^ 64)"

definition u64_block :: "block_index \<Rightarrow> bool" where
  "u64_block b \<longleftrightarrow> (\<forall>v\<in>{bi_start b, bi_end b, bi_decoded_start b, bi_decoded_len b, bi_stream b}. v < 2 ^ 64)"

lemma reads_stream: "u64_stream s \<Longrightarrow> reads read_stream_index (put_stream s) s"
proof -
  assume "u64_stream s"
  then have "reads read_stream_index (put_u64 (si_header s) @ [si_level s] @ put_u64 (si_first s) @ put_u64 (si_count s) @
     put_u64 (si_decoded_start s) @ put_u64 (si_decoded_len s) @ put_u64 (si_eos s) @ put_u32 (si_crc s) @ []) s"
    unfolding read_stream_index_def [abs_def] u64_stream_def
    apply -
    apply (rule reads_bind, ((rule reads_u64, simp) | rule reads_byte reads_u32), simp only: fst_conv snd_conv)+
    apply (rule reads_return)
    apply simp
    done
  then show ?thesis by (simp add: put_stream_def)
qed

lemma reads_block: "u64_block b \<Longrightarrow> reads read_block_index (put_block b) b"
proof -
  assume "u64_block b"
  then have "reads read_block_index (put_u64 (bi_start b) @ put_u64 (bi_end b) @ put_u64 (bi_decoded_start b) @
     put_u64 (bi_decoded_len b) @ put_u32 (bi_crc b) @ put_u64 (bi_stream b) @ []) b"
    unfolding read_block_index_def [abs_def] u64_block_def
    apply -
    apply (rule reads_bind, ((rule reads_u64, simp) | rule reads_byte reads_u32), simp only: fst_conv snd_conv)+
    apply (rule reads_return)
    apply simp
    done
  then show ?thesis by (simp add: put_block_def)
qed

section \<open>What a valid index is\<close>

text \<open>
  The blocks tile the decoded bytes in the order of their compressed ranges; the streams tile the
  blocks and the decoded bytes, and every block names its stream.
\<close>

definition block_ok :: "nat \<Rightarrow> nat \<Rightarrow> block_index \<Rightarrow> bool" where
  "block_ok source_bits streams b \<longleftrightarrow>
     0 < bi_decoded_len b \<and> bi_start b < bi_end b \<and> bi_end b \<le> source_bits \<and> bi_stream b < streams"

definition stream_ok :: "nat \<Rightarrow> block_index list \<Rightarrow> nat \<times> stream_index \<Rightarrow> bool" where
  "stream_ok source_bits blocks p \<longleftrightarrow>
     1 \<le> si_level (snd p) \<and> si_level (snd p) \<le> 9 \<and> si_eos (snd p) \<le> source_bits \<and>
     (\<forall>b\<in>set (slice_of blocks (si_first (snd p)) (si_first (snd p) + si_count (snd p))). bi_stream b = fst p)"

definition block_decoded :: "block_index \<Rightarrow> nat \<times> nat" where
  "block_decoded b = (bi_decoded_start b, bi_decoded_len b)"

definition stream_blocks :: "stream_index \<Rightarrow> nat \<times> nat" where
  "stream_blocks s = (si_first s, si_count s)"

definition stream_decoded :: "stream_index \<Rightarrow> nat \<times> nat" where
  "stream_decoded s = (si_decoded_start s, si_decoded_len s)"

definition index_ok :: "bz2_index \<Rightarrow> bool" where
  "index_ok x \<longleftrightarrow>
     xi_source_len x * 8 \<le> usize_max \<and> xi_decoded_len x \<le> usize_max \<and>
     tiled 0 (map block_decoded (xi_blocks x)) (xi_decoded_len x) \<and>
     (\<forall>b\<in>set (xi_blocks x). block_ok (xi_source_len x * 8) (length (xi_streams x)) b) \<and>
     (\<forall>i. Suc i < length (xi_blocks x) \<longrightarrow> bi_start (xi_blocks x ! i) < bi_start (xi_blocks x ! Suc i)) \<and>
     tiled 0 (map stream_blocks (xi_streams x)) (length (xi_blocks x)) \<and>
     tiled 0 (map stream_decoded (xi_streams x)) (xi_decoded_len x) \<and>
     (\<forall>p\<in>set (enumerate 0 (xi_streams x)). stream_ok (xi_source_len x * 8) (xi_blocks x) p)"

lemma tiled_le: "tiled a xs b \<Longrightarrow> a \<le> b"
  by (auto dest: tiled_sum)

lemma validate_blocks_iff:
  assumes "a \<le> usize_max" and "n + length bs \<le> length (xi_blocks x)"
  shows "validate_blocks x source_bits (enumerate n bs) a = Inr c \<longleftrightarrow>
    tiled a (map block_decoded bs) c \<and> c \<le> usize_max \<and>
    (\<forall>b\<in>set bs. block_ok source_bits (length (xi_streams x)) b) \<and>
    (\<forall>i<length bs. 0 < n + i \<longrightarrow> bi_start (xi_blocks x ! (n + i - 1)) < bi_start (bs ! i))"
  using assms
proof (induction bs arbitrary: n a)
  case (Cons b bs)
  let ?a = "a + bi_decoded_len b"
  have step: "validate_block x source_bits (n, b) a = Inr d \<longleftrightarrow>
      d = ?a \<and> ?a \<le> usize_max \<and> bi_decoded_start b = a \<and> block_ok source_bits (length (xi_streams x)) b \<and>
      (0 < n \<longrightarrow> bi_start (xi_blocks x ! (n - 1)) < bi_start b)" for d
    by (auto simp: validate_block_def block_ok_def Let_def and_then_Inr_iff ok_or_Inr_iff checked_add_Some_iff not_le)
  have split: "(\<forall>i<length (b # bs). 0 < n + i \<longrightarrow> bi_start (xi_blocks x ! (n + i - 1)) < bi_start ((b # bs) ! i)) \<longleftrightarrow>
      (0 < n \<longrightarrow> bi_start (xi_blocks x ! (n - 1)) < bi_start b) \<and>
      (\<forall>i<length bs. 0 < Suc n + i \<longrightarrow> bi_start (xi_blocks x ! (Suc n + i - 1)) < bi_start (bs ! i))"
    by (auto simp: less_Suc_eq_0_disj)
  have "validate_blocks x source_bits (enumerate n (b # bs)) a = Inr c \<longleftrightarrow>
      ?a \<le> usize_max \<and> bi_decoded_start b = a \<and> block_ok source_bits (length (xi_streams x)) b \<and>
      (0 < n \<longrightarrow> bi_start (xi_blocks x ! (n - 1)) < bi_start b) \<and>
      validate_blocks x source_bits (enumerate (Suc n) bs) ?a = Inr c"
    by (auto simp: and_then_Inr_iff step)
  also have "\<dots> \<longleftrightarrow> ?a \<le> usize_max \<and> bi_decoded_start b = a \<and> block_ok source_bits (length (xi_streams x)) b \<and>
      (0 < n \<longrightarrow> bi_start (xi_blocks x ! (n - 1)) < bi_start b) \<and>
      tiled ?a (map block_decoded bs) c \<and> c \<le> usize_max \<and>
      (\<forall>b\<in>set bs. block_ok source_bits (length (xi_streams x)) b) \<and>
      (\<forall>i<length bs. 0 < Suc n + i \<longrightarrow> bi_start (xi_blocks x ! (Suc n + i - 1)) < bi_start (bs ! i))"
    using Cons.IH [of ?a "Suc n"] Cons.prems(2) by auto
  also have "\<dots> \<longleftrightarrow> tiled a (map block_decoded (b # bs)) c \<and> c \<le> usize_max \<and>
      (\<forall>b\<in>set (b # bs). block_ok source_bits (length (xi_streams x)) b) \<and>
      (\<forall>i<length (b # bs). 0 < n + i \<longrightarrow> bi_start (xi_blocks x ! (n + i - 1)) < bi_start ((b # bs) ! i))"
    unfolding split by (auto simp: block_decoded_def dest: tiled_le)
  finally show ?case .
qed auto

lemma validate_streams_iff:
  assumes "snd st \<le> usize_max" and "length (xi_blocks x) \<le> usize_max" and "fst st \<le> length (xi_blocks x)"
  shows "validate_streams x source_bits (enumerate n ss) st = Inr st' \<longleftrightarrow>
    tiled (fst st) (map stream_blocks ss) (fst st') \<and> fst st' \<le> length (xi_blocks x) \<and>
    tiled (snd st) (map stream_decoded ss) (snd st') \<and> snd st' \<le> usize_max \<and>
    (\<forall>p\<in>set (enumerate n ss). stream_ok source_bits (xi_blocks x) p)"
  using assms
proof (induction ss arbitrary: n st)
  case (Cons s ss)
  let ?b = "fst st + si_count s" and ?d = "snd st + si_decoded_len s"
  have step: "validate_stream x source_bits (n, s) st = Inr t \<longleftrightarrow>
      t = (?b, ?d) \<and> si_first s = fst st \<and> si_decoded_start s = snd st \<and> ?b \<le> length (xi_blocks x) \<and> ?d \<le> usize_max \<and>
      stream_ok source_bits (xi_blocks x) (n, s)" for t
    using Cons.prems(2)
    by (auto simp: validate_stream_def stream_ok_def Let_def and_then_Inr_iff ok_or_Inr_iff checked_add_Some_iff not_less
        index_range_def get_range_Some_iff)
  have "validate_streams x source_bits (enumerate n (s # ss)) st = Inr st' \<longleftrightarrow>
      si_first s = fst st \<and> si_decoded_start s = snd st \<and> ?b \<le> length (xi_blocks x) \<and> ?d \<le> usize_max \<and>
      stream_ok source_bits (xi_blocks x) (n, s) \<and>
      validate_streams x source_bits (enumerate (Suc n) ss) (?b, ?d) = Inr st'"
    by (auto simp: and_then_Inr_iff step)
  also have "\<dots> \<longleftrightarrow> si_first s = fst st \<and> si_decoded_start s = snd st \<and> ?b \<le> length (xi_blocks x) \<and> ?d \<le> usize_max \<and>
      stream_ok source_bits (xi_blocks x) (n, s) \<and>
      tiled ?b (map stream_blocks ss) (fst st') \<and> fst st' \<le> length (xi_blocks x) \<and>
      tiled ?d (map stream_decoded ss) (snd st') \<and> snd st' \<le> usize_max \<and>
      (\<forall>p\<in>set (enumerate (Suc n) ss). stream_ok source_bits (xi_blocks x) p)"
    using Cons.IH [of "(?b, ?d)" "Suc n"] Cons.prems(2) by auto
  also have "\<dots> \<longleftrightarrow> tiled (fst st) (map stream_blocks (s # ss)) (fst st') \<and> fst st' \<le> length (xi_blocks x) \<and>
      tiled (snd st) (map stream_decoded (s # ss)) (snd st') \<and> snd st' \<le> usize_max \<and>
      (\<forall>p\<in>set (enumerate n (s # ss)). stream_ok source_bits (xi_blocks x) p)"
    by (auto simp: stream_blocks_def stream_decoded_def dest: tiled_le)
  finally show ?case .
qed auto

lemma index_validate_iff:
  assumes "length (xi_blocks x) < 2 ^ 63"
  shows "index_validate x = Inr () \<longleftrightarrow> index_ok x"
proof -
  let ?bits = "xi_source_len x * 8"
  have len: "length (xi_blocks x) \<le> usize_max" using assms by (simp add: usize_max_def)
  have blocks: "validate_blocks x ?bits (enumerate 0 (xi_blocks x)) 0 = Inr c \<longleftrightarrow>
      tiled 0 (map block_decoded (xi_blocks x)) c \<and> c \<le> usize_max \<and>
      (\<forall>b\<in>set (xi_blocks x). block_ok ?bits (length (xi_streams x)) b) \<and>
      (\<forall>i. Suc i < length (xi_blocks x) \<longrightarrow> bi_start (xi_blocks x ! i) < bi_start (xi_blocks x ! Suc i))" for c
  proof -
    have "(\<forall>i<length (xi_blocks x). 0 < 0 + i \<longrightarrow> bi_start (xi_blocks x ! (0 + i - 1)) < bi_start (xi_blocks x ! i)) \<longleftrightarrow>
        (\<forall>i. Suc i < length (xi_blocks x) \<longrightarrow> bi_start (xi_blocks x ! i) < bi_start (xi_blocks x ! Suc i))"
      by (auto, metis Suc_pred)
    then show ?thesis using validate_blocks_iff [of 0 0 "xi_blocks x" x ?bits c] by simp
  qed
  have streams: "validate_streams x ?bits (enumerate 0 (xi_streams x)) (0, 0) = Inr (length (xi_blocks x), xi_decoded_len x) \<longleftrightarrow>
      tiled 0 (map stream_blocks (xi_streams x)) (length (xi_blocks x)) \<and>
      tiled 0 (map stream_decoded (xi_streams x)) (xi_decoded_len x) \<and> xi_decoded_len x \<le> usize_max \<and>
      (\<forall>p\<in>set (enumerate 0 (xi_streams x)). stream_ok ?bits (xi_blocks x) p)"
    using validate_streams_iff [of "(0, 0)" x ?bits 0 "xi_streams x" "(length (xi_blocks x), xi_decoded_len x)"] len by simp
  have "index_validate x = Inr () \<longleftrightarrow> ?bits \<le> usize_max \<and>
      validate_blocks x ?bits (enumerate 0 (xi_blocks x)) 0 = Inr (xi_decoded_len x) \<and>
      validate_streams x ?bits (enumerate 0 (xi_streams x)) (0, 0) = Inr (length (xi_blocks x), xi_decoded_len x)"
    by (auto simp: index_validate_def and_then_Inr_iff ok_or_Inr_iff checked_mul_def)
  then show ?thesis unfolding blocks streams index_ok_def by blast
qed

text \<open>C35. Validation accepts an index exactly when its blocks tile the decoded bytes in increasing
  non-empty compressed ranges inside the source, and its streams tile the blocks and the decoded bytes
  with every block in the stream it names.\<close>

theorem index_validate_exact:
  assumes "length (xi_blocks x) < 2 ^ 63"
  shows "index_validate x = Inr () \<longleftrightarrow> index_ok x"
  by (rule index_validate_iff [OF assms])

definition sample_index :: bz2_index where
  "sample_index = \<lparr>xi_source_len = 60, xi_source_hash = replicate 32 7, xi_decoded_len = 5,
     xi_streams = [\<lparr>si_header = 0, si_level = 9, si_first = 0, si_count = 1, si_decoded_start = 0, si_decoded_len = 5,
       si_eos = 400, si_crc = 11\<rparr>],
     xi_blocks = [\<lparr>bi_start = 32, bi_end = 400, bi_decoded_start = 0, bi_decoded_len = 5, bi_crc = 11, bi_stream = 0\<rparr>]\<rparr>"

lemma sample_index_valid: "index_validate sample_index = Inr ()"
  by (simp add: sample_index_def index_validate_def validate_block_def validate_stream_def checked_mul_def checked_add_def
      usize_max_def Let_def slice_of_def)

theorem index_validate_exact_witness: "index_ok sample_index"
  using index_validate_exact [of sample_index] sample_index_valid by (simp add: sample_index_def)

section \<open>The file format\<close>

definition index_u64 :: "bz2_index \<Rightarrow> bool" where
  "index_u64 x \<longleftrightarrow> xi_source_len x < 2 ^ 64 \<and> xi_decoded_len x < 2 ^ 64 \<and>
     (\<forall>s\<in>set (xi_streams x). u64_stream s) \<and> (\<forall>b\<in>set (xi_blocks x). u64_block b)"

lemma length_put [simp]: "length (put_u32 v) = 4" "length (put_u64 n) = 8" "length INDEX_MAGIC = 8"
  by (simp_all add: put_u32_def put_u64_def INDEX_MAGIC_def)

lemma length_records:
  "length (concat (map put_stream ss)) = length ss * 53" "length (concat (map put_block bs)) = length bs * 44"
  by (induction ss) (simp_all add: put_stream_def, induction bs, simp_all add: put_block_def)

text \<open>C36. An index that is written and read back for the same source is the same index, whatever the
  hash, as long as it has 32 bytes.\<close>

theorem index_roundtrip:
  assumes hash: "\<And>m. length (blake3 m) = 32" and valid: "index_validate x = Inr ()"
    and source: "xi_source_len x = length source" "xi_source_hash x = blake3 source"
    and types: "index_u64 x" and fit: "length (index_payload x) < 2 ^ 63"
  shows "index_from_bytes blake3 (index_to_bytes blake3 x) source = Inr x"
proof -
  let ?p = "index_payload x" and ?ss = "concat (map put_stream (xi_streams x))" and ?bs = "concat (map put_block (xi_blocks x))"
  have len: "length ?p = 76 + length (xi_streams x) * 53 + length (xi_blocks x) * 44"
    by (simp add: index_payload_def length_records source hash)
  then have counts: "length (xi_streams x) < 2 ^ 64" "length (xi_blocks x) < 2 ^ 64"
    "required_len (length (xi_streams x)) (length (xi_blocks x)) = Some (length ?p - 76)"
    using fit by (auto simp: required_len_def checked_mul_def checked_add_def usize_max_def)
  have fits: "fits ?p" using fit by (simp add: fits_def)
  have sizes: "xi_source_len x < 2 ^ 64" "xi_decoded_len x < 2 ^ 64" using types by (simp_all add: index_u64_def)
  have d0: "drop 0 ?p = INDEX_MAGIC @ put_u32 INDEX_VERSION @ put_u64 (xi_source_len x) @ xi_source_hash x @
     put_u64 (xi_decoded_len x) @ put_u64 (length (xi_streams x)) @ put_u64 (length (xi_blocks x)) @ ?ss @ ?bs @ []"
    by (simp add: index_payload_def)
  note s0 = readsD [OF reads_take [OF length_put(3)] d0 le0 fits]
  note s1 = readsD [OF reads_u32 s0(2,3) fits]
  note s2 = readsD [OF reads_u64 [OF sizes(1)] s1(2,3) fits]
  have h: "length (xi_source_hash x) = 32" by (simp add: source hash)
  note s3 = readsD [OF reads_take [OF h] s2(2,3) fits]
  note s4 = readsD [OF reads_u64 [OF sizes(2)] s3(2,3) fits]
  note s5 = readsD [OF reads_u64 [OF counts(1)] s4(2,3) fits]
  note s6 = readsD [OF reads_u64 [OF counts(2)] s5(2,3) fits]
  have "reads (ix_many read_stream_index (length (xi_streams x))) ?ss (xi_streams x)"
    by (rule reads_many) (use types reads_stream in \<open>auto simp: index_u64_def\<close>)
  note s7 = readsD [OF this s6(2,3) fits]
  have "reads (ix_many read_block_index (length (xi_blocks x))) ?bs (xi_blocks x)"
    by (rule reads_many) (use types reads_block in \<open>auto simp: index_u64_def\<close>)
  note s8 = readsD [OF this s7(2,3) fits]
  note steps = s0(1) s1(1) s2(1) s3(1) s4(1) s5(1) s6(1) s7(1) s8(1)
  have all: "length (index_to_bytes blake3 x) = length ?p + 32" "take (length ?p) (index_to_bytes blake3 x) = ?p"
    "drop (length ?p) (index_to_bytes blake3 x) = blake3 ?p"
    by (simp_all add: index_to_bytes_def hash)
  have same: "\<lparr>xi_source_len = length source, xi_source_hash = blake3 source, xi_decoded_len = xi_decoded_len x,
      xi_streams = xi_streams x, xi_blocks = xi_blocks x\<rparr> = x"
    using source by (cases x) simp
  show ?thesis
    unfolding index_from_bytes_def CHECKSUM_LEN_def all(1) add_diff_cancel_right' all(2,3) Let_def
    using steps valid counts(3) h len by (simp add: source same)
qed

theorem index_roundtrip_witness:
  "index_from_bytes (\<lambda>_. replicate 32 7) (index_to_bytes (\<lambda>_. replicate 32 7) sample_index) (replicate 60 0) = Inr sample_index"
proof (rule index_roundtrip)
  show "index_validate sample_index = Inr ()" by (rule sample_index_valid)
  show "length (index_payload sample_index) < 2 ^ 63"
    by (simp add: index_payload_def sample_index_def put_stream_def put_block_def)
qed (simp_all add: sample_index_def index_u64_def u64_stream_def u64_block_def)

lemma index_from_bytes_ok:
  assumes "index_from_bytes blake3 encoded source = Inr x" and "length (xi_blocks x) < 2 ^ 63"
  shows "index_ok x" and "xi_source_len x = length source" and "xi_source_hash x = blake3 source"
proof -
  have "index_validate x = Inr () \<and> xi_source_len x = length source \<and> xi_source_hash x = blake3 source"
    using assms(1) unfolding index_from_bytes_def Let_def by (auto simp: and_then_Inr_iff split: if_splits)
  then show "index_ok x" "xi_source_len x = length source" "xi_source_hash x = blake3 source"
    using index_validate_iff [OF assms(2)] by simp_all
qed

end
