(* ===== verification/Bz2_Parallel.thy ===== *)
theory Bz2_Parallel
  imports Format Bz2_Decoder Block_Index Options
begin

text \<open>
  \<open>src/decode.rs\<close>: decoding bzip2 from the markers a scan finds. Every block marker is a candidate that
  a worker decodes; \<open>assemble\<close> follows the streams from marker to marker, checks the CRCs, writes the
  candidates that belong to a stream in order and builds the block index. The result of a job is taken
  as in \<open>Pipeline\<close>: the value the job computes; waiting for a key that no job has or whose result was
  discarded does not end.
\<close>

datatype marker = BlockMarker block_candidate | EndMarker end_candidate

fun marker_offset :: "marker \<Rightarrow> nat" where
  "marker_offset (BlockMarker b) = bc_bit_offset b"
| "marker_offset (EndMarker e) = ec_bit_offset e"

text \<open>\<open>sort_unstable_by_key\<close> and \<open>dedup_by_key\<close>.\<close>

fun dedup_markers :: "marker list \<Rightarrow> marker list" where
  "dedup_markers (m # n # ms) =
     (if marker_offset m = marker_offset n then dedup_markers (m # ms) else m # dedup_markers (n # ms))"
| "dedup_markers ms = ms"

definition markers_of :: "scan_result \<Rightarrow> marker list" where
  "markers_of r = dedup_markers (sort_key marker_offset (map BlockMarker (sr_blocks r) @ map EndMarker (sr_ends r)))"

definition required_marker :: "nat \<Rightarrow> error" where
  "required_marker bit_offset = Decode bit_offset InvalidMagic"

definition offset_overflow :: error where
  "offset_overflow = InvalidConfiguration OffsetOverflow"

text \<open>\<open>binary_search_by_key\<close> on markers with distinct increasing offsets.\<close>

definition marker_at_bit :: "marker list \<Rightarrow> nat \<Rightarrow> error + nat" where
  "marker_at_bit markers bit_offset =
     ok_or (List.find (\<lambda>i. marker_offset (markers ! i) = bit_offset) [0..<length markers]) (required_marker bit_offset)"

definition parse_stream_header :: "bytes \<Rightarrow> nat \<Rightarrow> error + nat" where
  "parse_stream_header data offset =
     and_then (ok_or (get_range data offset (sat_add offset 4)) (Decode (sat_mul offset 8) Truncated)) (\<lambda>header.
     if take 3 header \<noteq> [0x42, 0x5a, 0x68] then Inl (Decode (offset * 8) InvalidMagic)
     else if \<not> (0x31 \<le> header ! 3 \<and> header ! 3 \<le> 0x39) then Inl (Decode (offset * 8 + 24) InvalidLevel)
     else Inr (unat (header ! 3) - 0x30))"

section \<open>Candidates\<close>

text \<open>The parallel candidates: the prefetched one, the marker without a job and the discarded keys.\<close>

record parallel_candidates =
  pc_prefetched :: "(nat \<times> decoded_candidate) option"
  pc_no_job :: "nat option"
  pc_discarded :: nat

datatype candidates = SerialCandidates | ParallelCandidates parallel_candidates

definition marker_candidate :: "bytes \<Rightarrow> marker list \<Rightarrow> nat \<Rightarrow> error \<Rightarrow> error + decoded_candidate" where
  "marker_candidate data markers i otherwise =
     and_then (index markers i) (\<lambda>m.
     case m of BlockMarker b \<Rightarrow> decode_candidate data (bc_bit_offset b) (bc_expected_crc b) | EndMarker e \<Rightarrow> Inl otherwise)"

fun take_candidate :: "bytes \<Rightarrow> marker list \<Rightarrow> nat \<Rightarrow> candidates \<Rightarrow> error + decoded_candidate \<times> candidates" where
  "take_candidate data markers i SerialCandidates =
     and_then (marker_candidate data markers i (required_marker (marker_offset (markers ! i)))) (\<lambda>d. Inr (d, SerialCandidates))"
| "take_candidate data markers i (ParallelCandidates p) =
     (case pc_prefetched p of
        Some (k, d) \<Rightarrow>
          if k = i then Inr (d, ParallelCandidates (p\<lparr>pc_prefetched := None\<rparr>))
          else if pc_no_job p = Some i \<or> i < pc_discarded p then Inl Unending
          else and_then (marker_candidate data markers i Unending) (\<lambda>d. Inr (d, ParallelCandidates p))
      | None \<Rightarrow>
          if pc_no_job p = Some i \<or> i < pc_discarded p then Inl Unending
          else and_then (marker_candidate data markers i Unending) (\<lambda>d. Inr (d, ParallelCandidates p)))"

fun discard_candidates :: "nat \<Rightarrow> candidates \<Rightarrow> candidates" where
  "discard_candidates i SerialCandidates = SerialCandidates"
| "discard_candidates i (ParallelCandidates p) =
     ParallelCandidates (p\<lparr>pc_prefetched := (case pc_prefetched p of None \<Rightarrow> None | Some (k, d) \<Rightarrow> if k < i then None else Some (k, d)),
       pc_discarded := max (pc_discarded p) i\<rparr>)"

section \<open>Assembling the streams\<close>

record assembly =
  as_blocks :: "block_index list"
  as_streams :: "stream_index list"
  as_decoded :: nat
  as_output :: bytes
  as_progress :: "(nat \<times> nat) list"
  as_candidates :: candidates

text \<open>What the loop over one stream knows of it.\<close>

record stream_start =
  st_level :: nat
  st_number :: nat
  st_first_block :: nat
  st_decoded_start :: nat

definition current_stream_header :: "nat \<Rightarrow> nat \<Rightarrow> block_index list \<Rightarrow> nat \<Rightarrow> nat" where
  "current_stream_header current_bit first_block blocks next_header =
     (case get_at blocks first_block of
        Some first \<Rightarrow> (bi_start first - 32) div 8
      | None \<Rightarrow> min ((current_bit - 32) div 8) next_header)"

definition end_stream :: "stream_start \<Rightarrow> nat \<Rightarrow> u32 \<Rightarrow> end_candidate \<Rightarrow> assembly \<Rightarrow> error + nat \<times> assembly" where
  "end_stream st current_bit combined_crc e a =
     (if ec_expected_crc e \<noteq> combined_crc then Inl (Decode (ec_bit_offset e) CrcMismatch)
      else and_then (ok_or (checked_add (ec_bit_offset e) 80) offset_overflow) (\<lambda>after_eos.
        and_then (ok_or (checked_add after_eos 7) offset_overflow) (\<lambda>v. let header_byte = v div 8 in
        Inr (header_byte, a\<lparr>as_streams := as_streams a @
          [\<lparr>si_header = current_stream_header current_bit (st_first_block st) (as_blocks a) header_byte,
            si_level = word_of_nat (st_level st), si_first = st_first_block st,
            si_count = length (as_blocks a) - st_first_block st, si_decoded_start = st_decoded_start st,
            si_decoded_len = as_decoded a - st_decoded_start st, si_eos = ec_bit_offset e,
            si_crc = ec_expected_crc e\<rparr>]\<rparr>))))"

text \<open>One block: the marker behind it and the assembly with the block.\<close>

definition add_candidate :: "bytes \<Rightarrow> marker list \<Rightarrow> stream_start \<Rightarrow> nat \<Rightarrow> block_candidate \<Rightarrow> assembly \<Rightarrow> error + nat \<times> assembly" where
  "add_candidate data markers st marker_index b a =
     and_then (take_candidate data markers marker_index (as_candidates a)) (\<lambda>(d, candidates).
     if dc_block_len d > st_level st * 100000 then Inl (Decode (bc_bit_offset b) BlockOverflow)
     else and_then (marker_at_bit markers (dc_end_bit d)) (\<lambda>end_index.
       and_then (ok_or (checked_add (as_decoded a) (dc_decoded_len d)) offset_overflow) (\<lambda>decoded.
       Inr (end_index, a\<lparr>as_candidates := discard_candidates end_index candidates,
         as_output := as_output a @ dc_output d,
         as_blocks := as_blocks a @ [\<lparr>bi_start = bc_bit_offset b, bi_end = marker_offset (markers ! end_index),
           bi_decoded_start = as_decoded a, bi_decoded_len = dc_decoded_len d, bi_crc = bc_expected_crc b, bi_stream = st_number st\<rparr>],
         as_decoded := decoded, as_progress := as_progress a @ [((dc_end_bit d + 7) div 8, decoded)]\<rparr>))))"

text \<open>
  The inner loop. A candidate ends behind its marker, so the next marker is a later one; a marker that
  is not would be visited again without end.
\<close>

function stream_loop ::
  "bytes \<Rightarrow> marker list \<Rightarrow> stream_start \<Rightarrow> nat \<Rightarrow> u32 \<Rightarrow> assembly \<Rightarrow> error + nat \<times> assembly" where
  "stream_loop data markers st marker_index combined_crc a =
     and_then (index markers marker_index) (\<lambda>m. case m of
       EndMarker e \<Rightarrow> end_stream st (marker_offset m) combined_crc e a
     | BlockMarker b \<Rightarrow>
         and_then (add_candidate data markers st marker_index b a) (\<lambda>r.
         if fst r \<le> marker_index then Inl Unending
         else stream_loop data markers st (fst r) (combine_stream_crc combined_crc (bc_expected_crc b)) (snd r)))"
  by pat_completeness auto
termination
  by (relation "measure (\<lambda>(data, markers, st, marker_index, crc, a). length markers - marker_index)")
    (auto simp: index_def ok_or_Inr_iff get_at_Some_iff)

declare stream_loop.simps [simp del]

definition assemble_stream :: "bytes \<Rightarrow> marker list \<Rightarrow> nat \<Rightarrow> assembly \<Rightarrow> error + nat \<times> assembly" where
  "assemble_stream data markers header_byte a =
     and_then (parse_stream_header data header_byte) (\<lambda>level.
     let st = \<lparr>st_level = level, st_number = length (as_streams a), st_first_block = length (as_blocks a),
               st_decoded_start = as_decoded a\<rparr> in
     and_then (ok_or (checked_mul header_byte 8) offset_overflow) (\<lambda>bits.
     and_then (ok_or (checked_add bits 32) offset_overflow) (\<lambda>current_bit.
     and_then (marker_at_bit markers current_bit) (\<lambda>marker_index.
     stream_loop data markers st marker_index 0 a))))"

text \<open>The outer loop; \<open>stream_loop\<close> ends behind the header it started at on increasing markers.\<close>

function assemble_streams :: "bytes \<Rightarrow> marker list \<Rightarrow> nat \<Rightarrow> assembly \<Rightarrow> error + assembly" where
  "assemble_streams data markers header_byte a =
     (if header_byte < length data
      then and_then (assemble_stream data markers header_byte a) (\<lambda>r.
        if fst r = length data then Inr (snd r)
        else if fst r > length data then Inl (Decode (length data * 8) Truncated)
        else if fst r \<le> header_byte then Inl Unending
        else assemble_streams data markers (fst r) (snd r))
      else Inr a)"
  by pat_completeness auto
termination
  by (relation "measure (\<lambda>(data, markers, header_byte, a). length data - header_byte)") auto

declare assemble_streams.simps [simp del]

definition assembly_start :: "candidates \<Rightarrow> assembly" where
  "assembly_start candidates = \<lparr>as_blocks = [], as_streams = [], as_decoded = 0, as_output = [], as_progress = [],
     as_candidates = candidates\<rparr>"

record bz2_decoded =
  bd_output :: bytes
  bd_progress :: "(nat \<times> nat) list"
  bd_index :: bz2_index

definition assemble :: "(bytes \<Rightarrow> bytes) \<Rightarrow> bytes \<Rightarrow> marker list \<Rightarrow> candidates \<Rightarrow> error + bz2_decoded" where
  "assemble blake3 data markers candidates =
     and_then (assemble_streams data markers 0 (assembly_start candidates)) (\<lambda>a.
     Inr \<lparr>bd_output = as_output a, bd_progress = as_progress a @ [(length data, as_decoded a)],
       bd_index = index_new blake3 data (as_decoded a) (as_streams a) (as_blocks a)\<rparr>)"

section \<open>Entry points\<close>

record prefetched =
  pf_bit_offset :: nat
  pf_expected_crc :: u32
  pf_decoded :: decoded_candidate

definition locate_prefetched :: "marker list \<Rightarrow> prefetched option \<Rightarrow> error + (nat \<times> decoded_candidate) option" where
  "locate_prefetched markers prefetched =
     (case prefetched of
        None \<Rightarrow> Inr None
      | Some p \<Rightarrow>
          and_then (marker_at_bit markers (pf_bit_offset p)) (\<lambda>i.
          case markers ! i of
            EndMarker e \<Rightarrow> Inl (required_marker (pf_bit_offset p))
          | BlockMarker b \<Rightarrow>
              if bc_expected_crc b \<noteq> pf_expected_crc p then Inl (Decode (pf_bit_offset p) InvalidBlock)
              else Inr (Some (i, pf_decoded p))))"

definition bz2_thread_pool :: "nat \<Rightarrow> nat option" where
  "bz2_thread_pool threads = (if threads \<le> 1 then None else Some threads)"

definition decode_to_sink ::
  "(bytes \<Rightarrow> bytes) \<Rightarrow> nat option \<Rightarrow> (nat \<Rightarrow> bool) \<Rightarrow> bytes \<Rightarrow> decode_options \<Rightarrow> prefetched option \<Rightarrow> error + bz2_decoded" where
  "decode_to_sink blake3 available cancelled data options prefetched =
     and_then (decode_validate options) (\<lambda>options.
     let pool = bz2_thread_pool (decode_resolved_threads available options) in
     and_then (scan_with_pool data pool cancelled) (\<lambda>scanned.
     let markers = markers_of scanned in
     if length markers > length data div 16 + 64 then Inl (InvalidConfiguration TooManyMarkers)
     else and_then (locate_prefetched markers prefetched) (\<lambda>prefetched.
       assemble blake3 data markers (case pool of
         None \<Rightarrow> SerialCandidates
       | Some _ \<Rightarrow> ParallelCandidates \<lparr>pc_prefetched = prefetched, pc_no_job = map_option fst prefetched, pc_discarded = 0\<rparr>))))"

definition build_index :: "(bytes \<Rightarrow> bytes) \<Rightarrow> nat option \<Rightarrow> bytes \<Rightarrow> decode_options \<Rightarrow> error + bz2_index" where
  "build_index blake3 available data options =
     and_then (decode_to_sink blake3 available (\<lambda>_. False) data options None) (\<lambda>r. Inr (bd_index r))"

definition prefetch_first :: "bytes \<Rightarrow> error + (bytes \<times> prefetched option)" where
  "prefetch_first data =
     (if get_range data 4 10 = Some [0x31, 0x41, 0x59, 0x26, 0x53, 0x59]
      then and_then (parse_stream_header data 0) (\<lambda>level.
           and_then (decode_first_candidate data) (\<lambda>(crc, d).
           if dc_block_len d > level * 100000 then Inl (Decode 32 BlockOverflow)
           else Inr (dc_output d, Some \<lparr>pf_bit_offset = 32, pf_expected_crc = crc, pf_decoded = d\<lparr>dc_output := []\<rparr>\<rparr>)))
      else Inr ([], None))"

definition bz2_decompress ::
  "(bytes \<Rightarrow> bytes) \<Rightarrow> nat option \<Rightarrow> (nat \<Rightarrow> bool) \<Rightarrow> bytes \<Rightarrow> decode_options \<Rightarrow> error + bytes" where
  "bz2_decompress blake3 available cancelled data options =
     and_then (decode_validate options) (\<lambda>options.
     if decode_resolved_threads available options = 1
     then and_then (decode_serial data) (\<lambda>s. Inr (se_output s))
     else and_then (prefetch_first data) (\<lambda>p.
       and_then (decode_to_sink blake3 available cancelled data options (snd p)) (\<lambda>r. Inr (fst p @ bd_output r))))"

end
