(* ===== verification/Bz2_Limits.thy ===== *)
theory Bz2_Limits
  imports Bz2_Decoder
begin

text \<open>
  A block is decoded within the limits of its stream's level, a candidate within those of level nine.
  The limits only decide whether a block is refused: a block that is decoded under one level and is not
  longer than another level allows is decoded to the same bytes under the other (\<open>bz2_block_level\<close>).
\<close>

lemma flush_run_ok:
  "flush_run bs pos s = Inr t \<longleftrightarrow>
     (ss_run s \<noteq> 0 \<longrightarrow> ss_mtf s \<noteq> [] \<and> length (ss_tt s) + ss_run s \<le> bs) \<and>
     t = (if ss_run s \<noteq> 0 then (push_bytes (ss_mtf s ! 0) (ss_run s) s)\<lparr>ss_run_bit := 0, ss_run := 0\<rparr> else s\<lparr>ss_run := 0\<rparr>)"
  by (auto simp: flush_run_def and_then_Inr_iff index_def ok_or_Inr_iff get_at_Some_iff)

lemma push_bytes_run [simp]: "ss_run (push_bytes b n s) = ss_run s" "length (ss_tt (push_bytes b n s)) = length (ss_tt s) + n"
  by (simp_all add: push_bytes_def)

lemma flush_run_length: "flush_run bs pos s = Inr t \<Longrightarrow> length (ss_tt t) = length (ss_tt s) + ss_run s \<and> ss_run t = 0"
  by (auto simp: flush_run_ok)

lemma flush_run_limit:
  "flush_run bs pos s = Inr t \<Longrightarrow> length (ss_tt t) \<le> bs' \<Longrightarrow> flush_run bs' pos s = Inr t"
  by (auto simp: flush_run_ok)

lemma put_symbol_ok:
  "put_symbol bs pos symbol s = Inr t \<longleftrightarrow> symbol - 1 < length (ss_mtf s) \<and> length (ss_tt s) \<noteq> bs \<and>
     t = push_bytes (ss_mtf s ! (symbol - 1)) 1 (s\<lparr>ss_mtf := move_front (ss_mtf s) (symbol - 1)\<rparr>)"
  by (auto simp: put_symbol_def Let_def)

lemma add_run_digit_ok:
  "add_run_digit bs pos symbol s = Inr t \<longleftrightarrow>
     ss_run_bit s + 1 < 32 \<and> ss_run s + (symbol + 1) * 2 ^ ss_run_bit s \<le> bs \<and>
     t = s\<lparr>ss_run := ss_run s + (symbol + 1) * 2 ^ ss_run_bit s, ss_run_bit := ss_run_bit s + 1\<rparr>"
  by (auto simp: add_run_digit_def Let_def)

lemma next_group_lengths: "next_group selectors s pos = Inr t \<Longrightarrow> ss_tt t = ss_tt s \<and> ss_run t = ss_run s"
  by (auto simp: next_group_def and_then_Inr_iff ok_or_Inr_iff split: if_splits)

text \<open>The three ways a step of the symbol loop returns.\<close>

lemma symbol_loop_cases:
  assumes "symbol_loop data header bs s pos = Inr r"
  obtains t table c where "next_group (bh_selectors header) s pos = Inr t" "index (bh_tables header) (ss_table t) = Inr table"
    "h_decode table data pos = Inr c"
    "(\<exists>u. fst c \<le> 1 \<and> add_run_digit bs (snd c) (fst c) t = Inr u \<and> symbol_loop data header bs u (snd c) = Inr r) \<or>
     (\<exists>u. 1 < fst c \<and> flush_run bs (snd c) t = Inr u \<and>
        (fst c = length (bh_alphabet header) + 1 \<and> r = (u, snd c) \<or>
         fst c \<noteq> length (bh_alphabet header) + 1 \<and>
         (\<exists>v. put_symbol bs (snd c) (fst c) u = Inr v \<and> symbol_loop data header bs v (snd c) = Inr r)))"
  using assms by (subst (asm) symbol_loop.simps) (fastforce simp: and_then_Inr_iff split: if_splits)

lemma symbol_loop_limit:
  assumes "symbol_loop data header bs s pos = Inr r"
  shows "length (ss_tt s) + ss_run s \<le> length (ss_tt (fst r)) \<and>
    (length (ss_tt (fst r)) \<le> bs' \<longrightarrow> symbol_loop data header bs' s pos = Inr r)"
  using assms
proof (induction data header bs s pos rule: symbol_loop.induct)
  case (1 data header bs s pos)
  from "1.prems" obtain t table c where t: "next_group (bh_selectors header) s pos = Inr t"
    "index (bh_tables header) (ss_table t) = Inr table" "h_decode table data pos = Inr c"
    and rest: "(\<exists>u. fst c \<le> 1 \<and> add_run_digit bs (snd c) (fst c) t = Inr u \<and> symbol_loop data header bs u (snd c) = Inr r) \<or>
     (\<exists>u. 1 < fst c \<and> flush_run bs (snd c) t = Inr u \<and>
        (fst c = length (bh_alphabet header) + 1 \<and> r = (u, snd c) \<or>
         fst c \<noteq> length (bh_alphabet header) + 1 \<and>
         (\<exists>v. put_symbol bs (snd c) (fst c) u = Inr v \<and> symbol_loop data header bs v (snd c) = Inr r)))"
    by (rule symbol_loop_cases)
  note same = next_group_lengths [OF t(1)]
  consider (digit) u where "fst c \<le> 1" "add_run_digit bs (snd c) (fst c) t = Inr u" "symbol_loop data header bs u (snd c) = Inr r"
    | (stop) u where "1 < fst c" "flush_run bs (snd c) t = Inr u" "fst c = length (bh_alphabet header) + 1" "r = (u, snd c)"
    | (put) u v where "1 < fst c" "flush_run bs (snd c) t = Inr u" "fst c \<noteq> length (bh_alphabet header) + 1"
        "put_symbol bs (snd c) (fst c) u = Inr v" "symbol_loop data header bs v (snd c) = Inr r"
    using rest by blast
  then show ?case
  proof cases
    case digit
    note ih = "1.IH"(1) [OF t digit(1,2,3)]
    have "ss_tt u = ss_tt t" "ss_run t \<le> ss_run u" "add_run_digit bs' (snd c) (fst c) t = Inr u \<longleftrightarrow> ss_run u \<le> bs'"
      using digit(2) by (auto simp: add_run_digit_ok)
    then show ?thesis using ih t digit(1) same
      by (auto simp: symbol_loop.simps [of data header bs' s pos])
  next
    case stop
    have len: "length (ss_tt s) + ss_run s \<le> length (ss_tt u)" using flush_run_length [OF stop(2)] same by simp
    have "flush_run bs' (snd c) t = Inr u" if "length (ss_tt u) \<le> bs'" using flush_run_limit [OF stop(2) that] .
    then show ?thesis using len t stop by (auto simp: symbol_loop.simps [of data header bs' s pos])
  next
    case put
    have not1: "\<not> fst c \<le> 1" using put(1) by simp
    note ih = "1.IH"(2) [OF t not1 put(2,3,4,5)]
    have v: "length (ss_tt v) = length (ss_tt u) + 1" "put_symbol bs' (snd c) (fst c) u = Inr v \<longleftrightarrow> length (ss_tt u) \<noteq> bs'"
      using put(4) by (auto simp: put_symbol_ok)
    have u: "length (ss_tt u) = length (ss_tt t) + ss_run t" using flush_run_length [OF put(2)] by simp
    have "flush_run bs' (snd c) t = Inr u" if "length (ss_tt (fst r)) \<le> bs'"
      using flush_run_limit [OF put(2)] ih v that by simp
    then show ?thesis using ih t put(1,3) u v same
      by (auto simp: symbol_loop.simps [of data header bs' s pos])
  qed
qed

section \<open>The output of a block\<close>

text \<open>Five bytes of a block, a run of four and its count, yield at most 259 bytes.\<close>

definition within_runs :: "nat \<Rightarrow> walk_state \<Rightarrow> bool" where
  "within_runs k w \<longleftrightarrow> w_repeated w \<le> 4 \<and> w_repeated w \<le> k \<and> 5 * length (w_output w) \<le> 259 * (k - w_repeated w) + 5 * w_repeated w"

lemma walk_byte_limit:
  assumes "walk_byte m off b w = Inr w'" and "within_runs k w" and "259 * (k + 1) < 5 * m'"
  shows "walk_byte m' off b w = Inr w' \<and> within_runs (k + 1) w'"
proof (cases "w_repeated w = 4")
  case True
  then obtain v where v: "w_previous w = Some v" "w' = \<lparr>w_previous = None, w_repeated = 0, w_output = w_output w @ replicate (unat b) v\<rparr>"
    using assms(1) by (auto simp: walk_byte_def Let_def and_then_Inr_iff ok_or_Inr_iff split: if_splits)
  have b: "unat b \<le> 255" using unat_byte_less [of b] by linarith
  have k: "4 \<le> k" "5 * length (w_output w) \<le> 259 * (k - 4) + 20" using assms(2) True by (auto simp: within_runs_def)
  then obtain j where j: "k = j + 4" by (metis add.commute le_Suc_ex)
  have "5 * (length (w_output w) + unat b) \<le> 259 * (k + 1)" using k b j by simp
  then show ?thesis using True v assms(3) by (auto simp: walk_byte_def within_runs_def)
next
  case False
  then have w': "w' = (if w_previous w = Some b then w\<lparr>w_output := w_output w @ [b], w_repeated := w_repeated w + 1\<rparr>
      else \<lparr>w_previous = Some b, w_repeated = 1, w_output = w_output w @ [b]\<rparr>)"
    using assms(1) by (auto simp: walk_byte_def split: if_splits)
  have r: "w_repeated w \<le> k" "5 * length (w_output w) \<le> 259 * (k - w_repeated w) + 5 * w_repeated w" "w_repeated w < 4"
    using assms(2) False by (auto simp: within_runs_def)
  then obtain j where j: "k = j + w_repeated w" by (metis add.commute le_Suc_ex)
  have "length (w_output w) \<noteq> m'" using r j assms(3) by auto
  then show ?thesis using False w' r j by (auto simp: walk_byte_def within_runs_def)
qed

lemma walk_limit:
  assumes "walk tt m off n p w = Inr w'" and "within_runs k w" and "259 * (k + n) < 5 * m'"
  shows "walk tt m' off n p w = Inr w' \<and> within_runs (k + n) w'"
  using assms
proof (induction n arbitrary: p w k)
  case (Suc n)
  then obtain entry v where e: "index tt (unat p) = Inr entry" "walk_byte m off (ucast entry) w = Inr v"
    "walk tt m off n (drop_bit 8 entry) v = Inr w'"
    by (auto simp: and_then_Inr_iff)
  have "259 * (k + 1) < 5 * m'" using Suc.prems(3) by simp
  note b = walk_byte_limit [OF e(2) Suc.prems(2) this]
  show ?case using Suc.IH [OF e(3) conjunct2 [OF b]] Suc.prems(3) b e(1) by simp
qed simp

lemma walk_output_grows:
  "walk tt m off n p w = Inr w' \<Longrightarrow> length (w_output w) \<le> length (w_output w')"
  "walk tt m off (Suc n) p w = Inr w' \<Longrightarrow> w_repeated w = 0 \<Longrightarrow> length (w_output w) < length (w_output w')"
proof -
  have step: "walk_byte m off b w = Inr v \<Longrightarrow> length (w_output w) \<le> length (w_output v) \<and>
      (w_repeated w = 0 \<longrightarrow> length (w_output w) < length (w_output v))" for b w v
    by (auto simp: walk_byte_def Let_def and_then_Inr_iff ok_or_Inr_iff split: if_splits)
  show grows: "walk tt m off n p w = Inr w' \<Longrightarrow> length (w_output w) \<le> length (w_output w')" for n p w
  proof (induction n arbitrary: p w)
    case (Suc n)
    then show ?case using step by (auto simp: and_then_Inr_iff) (meson le_trans)
  qed simp
  show "walk tt m off (Suc n) p w = Inr w' \<Longrightarrow> w_repeated w = 0 \<Longrightarrow> length (w_output w) < length (w_output w')"
    using step grows by (auto simp: and_then_Inr_iff) (meson less_le_trans)
qed

section \<open>Levels\<close>

lemma block_body_level:
  assumes "block_body data l off h pos = Inr ((out, crc, len), q)" and "len \<le> l' * 100000"
  shows "block_body data l' off h pos = Inr ((out, crc, len), q)"
    and "0 < len" and "out \<noteq> []"
proof -
  from assms(1) obtain s linked entry w where
    s: "symbol_loop data h (l * 100000) (symbol_start (bh_alphabet h)) pos = Inr (s, q)" "len = length (ss_tt s)"
    and ne: "\<not> (len = 0 \<or> bh_origin h \<ge> len)"
    and linked: "link [0..<len] (ss_tt s, count_sums (ss_counts s)) = Inr linked"
    and entry: "index (fst linked) (bh_origin h) = Inr entry"
    and w: "walk (fst linked) (l * 100000 div 5 * 259 + 4) off len (drop_bit 8 entry) \<lparr>w_previous = None, w_repeated = 0, w_output = []\<rparr> = Inr w"
    and crc: "\<not> bz2_crc32 (w_output w) \<noteq> bh_crc h" "out = w_output w" "crc = bh_crc h"
    unfolding block_body_def Let_def by (auto simp: and_then_Inr_iff split: if_splits)
  have s': "symbol_loop data h (l' * 100000) (symbol_start (bh_alphabet h)) pos = Inr (s, q)"
    using symbol_loop_limit [OF s(1), of "l' * 100000"] s(2) assms(2) by simp
  have "259 * (0 + len) < 5 * (l' * 100000 div 5 * 259 + 4)" using assms(2) by simp
  with walk_limit [OF w, of 0] have w': "walk (fst linked) (l' * 100000 div 5 * 259 + 4) off len (drop_bit 8 entry)
      \<lparr>w_previous = None, w_repeated = 0, w_output = []\<rparr> = Inr w"
    by (simp add: within_runs_def)
  show "block_body data l' off h pos = Inr ((out, crc, len), q)"
    unfolding block_body_def Let_def using s' s(2) ne linked entry w' crc by simp
  show "0 < len" using ne by simp
  then obtain n where "len = Suc n" by (cases len) auto
  then show "out \<noteq> []" using walk_output_grows(2) [of "fst linked" _ off n] w crc(2) by fastforce
qed

lemma bz2_block_level:
  assumes "bz2_block data pos l expected = Inr ((out, crc, len), q)" and "len \<le> l' * 100000"
  shows "bz2_block data pos l' expected = Inr ((out, crc, len), q)"
    and "0 < len" and "out \<noteq> []"
proof -
  obtain h p where h: "read_header data pos expected = Inr (h, p)" "block_body data l (pos - 48) h p = Inr ((out, crc, len), q)"
    using assms(1) by (auto simp: bz2_block_def and_then_Inr_iff)
  note b = block_body_level [OF h(2) assms(2)]
  show "bz2_block data pos l' expected = Inr ((out, crc, len), q)" using h(1) b(1) by (simp add: bz2_block_def)
  show "0 < len" "out \<noteq> []" using b by simp_all
qed

text \<open>A block that is decoded without an expected CRC is decoded with its own, and the other way round.\<close>

lemma read_header_expected:
  "read_header data pos (Some c) = Inr (h, q) \<longleftrightarrow> read_header data pos None = Inr (h, q) \<and> bh_crc h = c"
proof -
  have "read_header data pos None = Inr (h, q) \<Longrightarrow> \<exists>r. bits_read data pos 32 = Inr r \<and> bh_crc h = fst r"
    unfolding read_header_def Let_def by (auto simp: and_then_Inr_iff split: if_splits)
  moreover have "read_header data pos (Some c) = Inr (h, q) \<Longrightarrow> \<exists>r. bits_read data pos 32 = Inr r \<and> fst r = c"
    unfolding read_header_def Let_def by (auto simp: and_then_Inr_iff split: if_splits)
  moreover have "bits_read data pos 32 = Inr r \<Longrightarrow> fst r = c \<Longrightarrow> read_header data pos (Some c) = read_header data pos None" for r
    unfolding read_header_def Let_def by simp
  ultimately show ?thesis by (metis Inr_inject)
qed

lemma bz2_block_expected:
  "bz2_block data pos l (Some c) = Inr ((out, crc, len), q) \<longleftrightarrow> bz2_block data pos l None = Inr ((out, crc, len), q) \<and> crc = c"
proof -
  have crc: "block_body data l off h p = Inr ((out, crc, len), q) \<Longrightarrow> crc = bh_crc h" for off h p
    unfolding block_body_def Let_def by (auto simp: and_then_Inr_iff split: if_splits)
  show ?thesis
    unfolding bz2_block_def and_then_Inr_iff
    using crc by (auto simp: read_header_expected)
qed

end
