(* ===== verification/Bz2_Assembly.thy ===== *)
theory Bz2_Assembly
  imports Bz2_Parallel Bz2_Limits "HOL-Library.Code_Target_Nat"
begin

text \<open>
  The parallel bzip2 decoder against the serial one: what \<open>assemble\<close> accepts, \<open>decode_serial\<close> decodes to
  the same bytes. The markers a scan reports are exactly those of the input, a candidate is a block
  that was decoded under the limits of level nine (\<open>Bz2_Limits\<close>), and the loops over the markers read
  the stream as the serial decoder does.
\<close>

section \<open>Markers\<close>

definition markers_ok :: "bytes \<Rightarrow> marker list \<Rightarrow> bool" where
  "markers_ok data markers \<longleftrightarrow>
     (\<forall>m\<in>set markers. case m of
        BlockMarker b \<Rightarrow> is_block data (bc_bit_offset b) \<and> b = block_at data (bc_bit_offset b)
      | EndMarker e \<Rightarrow> is_end data (ec_bit_offset e) \<and> e = end_at data (ec_bit_offset e)) \<and>
     sorted_wrt (<) (map marker_offset markers)"

lemma dedup_set: "set (dedup_markers ms) \<subseteq> set ms"
  by (induction ms rule: dedup_markers.induct) auto

lemma dedup_sorted:
  "sorted (map marker_offset ms) \<Longrightarrow> sorted_wrt (<) (map marker_offset (dedup_markers ms))"
proof (induction ms rule: dedup_markers.induct)
  case (1 m n ms)
  show ?case
  proof (cases "marker_offset m = marker_offset n")
    case False
    have "marker_offset n \<le> marker_offset x" if "x \<in> set (dedup_markers (n # ms))" for x
      using that dedup_set [of "n # ms"] "1.prems" by auto
    then show ?thesis using 1 False by fastforce
  qed (use 1 in auto)
qed auto

lemma markers_of_ok: "length data < 2 ^ 60 \<Longrightarrow> markers_ok data (markers_of (range_report data 0 (length data)))"
proof -
  let ?all = "map BlockMarker (sr_blocks (range_report data 0 (length data))) @ map EndMarker (sr_ends (range_report data 0 (length data)))"
  have "sorted (map marker_offset (sort_key marker_offset ?all))" by (rule sorted_sort_key)
  moreover have "case m of BlockMarker b \<Rightarrow> is_block data (bc_bit_offset b) \<and> b = block_at data (bc_bit_offset b)
      | EndMarker e \<Rightarrow> is_end data (ec_bit_offset e) \<and> e = end_at data (ec_bit_offset e)" if "m \<in> set ?all" for m
    using that by (auto simp: range_report_def block_at_def end_at_def)
  moreover have "set (dedup_markers (sort_key marker_offset ?all)) \<subseteq> set ?all"
    using dedup_set [of "sort_key marker_offset ?all"] by simp
  ultimately show ?thesis
    unfolding markers_ok_def markers_of_def by (blast intro: dedup_sorted)
qed

lemma marker_at_bit_result: "marker_at_bit markers p = Inr i \<Longrightarrow> i < length markers \<and> marker_offset (markers ! i) = p"
  by (auto simp: marker_at_bit_def ok_or_Inr_iff find_Some_iff)

lemma markers_distinct:
  "markers_ok data markers \<Longrightarrow> i < length markers \<Longrightarrow> j < length markers \<Longrightarrow>
     marker_offset (markers ! i) = marker_offset (markers ! j) \<Longrightarrow> i = j"
  unfolding markers_ok_def sorted_wrt_iff_nth_less by (metis length_map nat_neq_iff nth_map)

lemma marker_nth:
  assumes "markers_ok data markers" and "i < length markers"
  shows "markers ! i = BlockMarker b \<Longrightarrow> is_block data (bc_bit_offset b) \<and> b = block_at data (bc_bit_offset b)"
    and "markers ! i = EndMarker e \<Longrightarrow> is_end data (ec_bit_offset e) \<and> e = end_at data (ec_bit_offset e)"
  using assms nth_mem [OF assms(2)] unfolding markers_ok_def by fastforce+

text \<open>What the serial decoder reads at a marker.\<close>

lemma bits_magic_result:
  assumes "length data < 2 ^ 60" and "p + 48 \<le> 8 * length data"
  shows "bits_magic data p = Inr (word_of_nat (bits_at data p 48), p + 48)"
proof -
  let ?h = "bits_at data p 24" and ?l = "bits_at data (p + 24) 24"
  have less: "?h < 2 ^ 24" "?l < 2 ^ 24" by (rule bits_at_less)+
  have l: "bits_at data p 48 = ?h * 2 ^ 24 + ?l" using bits_at_append [of p 24 24 data] assms(2) by simp
  have u: "unat (ucast (word_of_nat ?h :: u32) :: u64) = ?h" "unat (ucast (word_of_nat ?l :: u32) :: u64) = ?l"
    using less by (simp_all add: unat_ucast_up unat_of_nat)
  have push: "unat (push_bit 24 (ucast (word_of_nat ?h :: u32) :: u64)) = ?h * 2 ^ 24"
    using less(1) by (subst unat_push_bit_small) (simp_all only: u, simp_all)
  have "?h * 2 ^ 24 OR ?l = ?h * 2 ^ 24 + ?l"
  proof -
    have "take_bit 24 ?l = ?l" using less(2) by (simp add: take_bit_nat_eq_self)
    then have "bit ?l n \<Longrightarrow> n < 24" for n by (metis bit_take_bit_iff)
    then have "\<not> bit (push_bit 24 ?h) n \<or> \<not> bit ?l n" for n by (meson bit_push_bit_iff not_le)
    then have "push_bit 24 ?h + ?l = push_bit 24 ?h OR ?l" by (rule disjunctive_add)
    then show ?thesis by (simp add: push_bit_eq_mult)
  qed
  then have "unat (push_bit 24 (ucast (word_of_nat ?h :: u32)) OR ucast (word_of_nat ?l :: u32) :: u64) = bits_at data p 48"
    by (simp only: unsigned_or_eq push u l)
  then have "(push_bit 24 (ucast (word_of_nat ?h :: u32)) OR ucast (word_of_nat ?l :: u32) :: u64) = word_of_nat (bits_at data p 48)"
    by (metis of_nat_unat ucast_id)
  then show ?thesis using assms by (simp add: bits_magic_def bits_read_result)
qed

lemma magic_at_marker:
  assumes "length data < 2 ^ 60" and "p + 48 \<le> 8 * length data"
  shows "marker_at data p magic \<Longrightarrow> bits_magic data p = Inr (magic, p + 48)"
  using bits_magic_result [OF assms] by (simp add: marker_at_def)

lemma same_magics: "BLOCK_MARK = BLOCK_MAGIC" "END_MARK = END_MAGIC" "END_MARK \<noteq> BLOCK_MARK"
  by (simp_all add: BLOCK_MARK_def BLOCK_MAGIC_def END_MARK_def END_MAGIC_def)

lemma block_marker_magic:
  assumes "length data < 2 ^ 60" and "markers_ok data markers" and "i < length markers" and "markers ! i = BlockMarker b"
  shows "bits_magic data (bc_bit_offset b) = Inr (BLOCK_MARK, bc_bit_offset b + 48)"
  using assms marker_nth(1) [OF assms(2,3,4)] by (auto simp: is_block_def same_magics intro!: magic_at_marker)

lemma end_marker_reads:
  assumes "length data < 2 ^ 60" and "markers_ok data markers" and "i < length markers" and "markers ! i = EndMarker e"
  defines "p \<equiv> ec_bit_offset e"
  shows "bits_magic data p = Inr (END_MARK, p + 48)" and "bits_read data (p + 48) 32 = Inr (ec_expected_crc e, p + 80)"
    and "p + 80 \<le> 8 * length data"
proof -
  have e: "is_end data p" "e = end_at data p" using marker_nth(2) [OF assms(2,3,4)] by (simp_all add: p_def)
  then show le: "p + 80 \<le> 8 * length data" by (simp add: is_end_def)
  show "bits_magic data p = Inr (END_MARK, p + 48)"
    using e(1) assms(1) by (auto simp: is_end_def same_magics intro!: magic_at_marker)
  have "ec_expected_crc e = word_of_nat (bits_at data (p + 48) 32)" using arg_cong [OF e(2), of ec_expected_crc] by (simp add: end_at_def)
  then show "bits_read data (p + 48) 32 = Inr (ec_expected_crc e, p + 80)"
    using assms(1) le by (simp add: bits_read_result)
qed

section \<open>Candidates\<close>

lemma decode_candidate_block:
  assumes "decode_candidate data p crc = Inr d" and magic: "bits_magic data p = Inr (BLOCK_MARK, p + 48)"
    and level: "dc_block_len d \<le> level * 100000"
  shows "bz2_block data (p + 48) level None = Inr ((dc_output d, crc, dc_block_len d), dc_end_bit d)"
    and "dc_decoded_len d = length (dc_output d)" and "dc_output d \<noteq> []" and "p < dc_end_bit d" and "p \<le> sat_mul (length data) 8"
proof -
  obtain out c len q where b: "block_after_magic data p 9 (Some crc) = Inr ((out, c, len), q)"
    and d: "d = \<lparr>dc_output = out, dc_decoded_len = length out, dc_end_bit = q, dc_block_len = len\<rparr>"
    using assms(1) by (auto simp: decode_candidate_def and_then_Inr_iff)
  then have block: "bz2_block data (p + 48) 9 (Some crc) = Inr ((out, c, len), q)" and in_range: "p \<le> sat_mul (length data) 8"
    using magic by (auto simp: block_after_magic_def bits_start_def and_then_Inr_iff split: if_splits)
  then have "bz2_block data (p + 48) 9 None = Inr ((out, c, len), q)" "c = crc" by (simp_all add: bz2_block_expected)
  then show "bz2_block data (p + 48) level None = Inr ((dc_output d, crc, dc_block_len d), dc_end_bit d)"
    "dc_output d \<noteq> []"
    using bz2_block_level [of data "p + 48" 9 None out c len q level] level by (simp_all add: d)
  show "dc_decoded_len d = length (dc_output d)" by (simp add: d)
  show "p < dc_end_bit d" using block_onwards [OF block] by (simp add: d)
  show "p \<le> sat_mul (length data) 8" by (rule in_range)
qed

fun prefetched_of :: "candidates \<Rightarrow> (nat \<times> decoded_candidate) option" where
  "prefetched_of SerialCandidates = None"
| "prefetched_of (ParallelCandidates p) = pc_prefetched p"

lemma take_candidate_cases:
  assumes "take_candidate data markers i cs = Inr (d, cs')" and "i < length markers" and "markers ! i = BlockMarker b"
  shows "prefetched_of cs = Some (i, d) \<and> prefetched_of cs' = None \<or>
    decode_candidate data (bc_bit_offset b) (bc_expected_crc b) = Inr d \<and> prefetched_of cs' = prefetched_of cs \<and>
      (\<forall>k d'. prefetched_of cs = Some (k, d') \<longrightarrow> k \<noteq> i)"
  using assms
  by (cases cs) (auto simp: marker_candidate_def and_then_Inr_iff split: option.splits if_splits prod.splits)

lemma discard_keeps: "prefetched_of cs = None \<Longrightarrow> prefetched_of (discard_candidates i cs) = None"
  by (cases cs) auto

section \<open>The loops\<close>

text \<open>
  \<open>P\<close> is the output of the prefetched block, which was written before the assembly began; until that
  candidate is taken, nothing else has been written. \<open>catches_up\<close> relates the assembly at marker \<open>i\<close> to
  the serial decoder at the marker's position.
\<close>

definition prefetch_ok :: "bytes \<Rightarrow> marker list \<Rightarrow> bytes \<Rightarrow> nat \<Rightarrow> decoded_candidate \<Rightarrow> bool" where
  "prefetch_ok data markers P k d \<longleftrightarrow>
     (\<exists>b d0. k < length markers \<and> markers ! k = BlockMarker b \<and>
        decode_candidate data (bc_bit_offset b) (bc_expected_crc b) = Inr d0 \<and>
        d = d0\<lparr>dc_output := []\<rparr> \<and> P = dc_output d0)"

definition catches_up :: "bytes \<Rightarrow> marker list \<Rightarrow> bytes \<Rightarrow> nat \<Rightarrow> assembly \<Rightarrow> serial_state \<Rightarrow> bool" where
  "catches_up data markers P i a s \<longleftrightarrow>
     se_decoded s = as_decoded a \<and> se_progress s = as_progress a \<and>
     (case prefetched_of (as_candidates a) of
        None \<Rightarrow> se_output s = P @ as_output a
      | Some (k, d) \<Rightarrow> k = i \<and> as_output a = [] \<and> se_output s = [] \<and> prefetch_ok data markers P k d)"

lemma catches_up_taken:
  assumes "catches_up data markers P i a s" and "take_candidate data markers i (as_candidates a) = Inr (d, cs)"
    and "i < length markers" and "markers ! i = BlockMarker b"
  obtains d0 where "decode_candidate data (bc_bit_offset b) (bc_expected_crc b) = Inr d0"
    and "dc_block_len d = dc_block_len d0" and "dc_end_bit d = dc_end_bit d0" and "dc_decoded_len d = dc_decoded_len d0"
    and "prefetched_of cs = None" and "se_output s @ dc_output d0 = P @ as_output a @ dc_output d"
  using take_candidate_cases [OF assms(2,3,4)] assms(1,4) that
  by (cases "prefetched_of (as_candidates a)") (auto simp: catches_up_def prefetch_ok_def)

lemma add_candidate_serial:
  assumes fit: "length data < 2 ^ 60" and ok: "markers_ok data markers"
    and c: "catches_up data markers P i a s" and i: "i < length markers" and b: "markers ! i = BlockMarker b"
    and r: "add_candidate data markers st i b a = Inr (j, a')"
  obtains out len s' where "bz2_block data (bc_bit_offset b + 48) (st_level st) None =
      Inr ((out, bc_expected_crc b, len), marker_offset (markers ! j))"
    and "serial_put out (marker_offset (markers ! j)) s = Inr s'" and "catches_up data markers P j a' s'" and "j < length markers"
    and "prefetched_of (as_candidates a') = None"
proof -
  obtain d cs decoded where t: "take_candidate data markers i (as_candidates a) = Inr (d, cs)"
    and level: "dc_block_len d \<le> st_level st * 100000"
    and j: "marker_at_bit markers (dc_end_bit d) = Inr j"
    and dec: "checked_add (as_decoded a) (dc_decoded_len d) = Some decoded"
    and a': "a' = a\<lparr>as_candidates := discard_candidates j cs, as_output := as_output a @ dc_output d,
         as_blocks := as_blocks a @ [\<lparr>bi_start = bc_bit_offset b, bi_end = marker_offset (markers ! j),
           bi_decoded_start = as_decoded a, bi_decoded_len = dc_decoded_len d, bi_crc = bc_expected_crc b, bi_stream = st_number st\<rparr>],
         as_decoded := decoded, as_progress := as_progress a @ [((dc_end_bit d + 7) div 8, decoded)]\<rparr>"
    using r by (auto simp: add_candidate_def and_then_Inr_iff ok_or_Inr_iff split: if_splits)
  obtain d0 where d0: "decode_candidate data (bc_bit_offset b) (bc_expected_crc b) = Inr d0" "dc_block_len d = dc_block_len d0"
    "dc_end_bit d = dc_end_bit d0" "dc_decoded_len d = dc_decoded_len d0" "prefetched_of cs = None"
    "se_output s @ dc_output d0 = P @ as_output a @ dc_output d"
    by (rule catches_up_taken [OF c t i b])
  have len0: "dc_block_len d0 \<le> st_level st * 100000" using level d0(2) by simp
  note block = decode_candidate_block [OF d0(1) block_marker_magic [OF fit ok i b] len0]
  note mj = marker_at_bit_result [OF j]
  have none: "prefetched_of (as_candidates a') = None" using d0(5) by (simp add: a' discard_keeps)
  define s' where "s' = \<lparr>se_output = se_output s @ dc_output d0, se_decoded = decoded,
    se_progress = se_progress s @ [((dc_end_bit d0 + 7) div 8, decoded)]\<rparr>"
  have "serial_put (dc_output d0) (marker_offset (markers ! j)) s = Inr s'"
    using c dec d0 block(2) mj by (simp add: serial_put_def s'_def catches_up_def)
  moreover have "catches_up data markers P j a' s'"
    using none c d0 by (simp add: catches_up_def s'_def a')
  ultimately show ?thesis using that block(1) d0(3) mj none by simp
qed

lemma catches_up_at_end:
  "catches_up data markers P i a s \<Longrightarrow> markers ! i = EndMarker e \<Longrightarrow> prefetched_of (as_candidates a) = None"
  by (auto simp: catches_up_def prefetch_ok_def split: option.splits)

lemma catches_up_anywhere:
  "catches_up data markers P i a s \<Longrightarrow> prefetched_of (as_candidates a) = None \<Longrightarrow> catches_up data markers P k a s"
  by (simp add: catches_up_def)

lemma catches_up_streams [simp]: "catches_up data markers P i (a\<lparr>as_streams := x\<rparr>) s = catches_up data markers P i a s"
  by (simp add: catches_up_def cong: option.case_cong)

lemma stream_loop_serial:
  assumes "length data < 2 ^ 60" and "markers_ok data markers"
    and "catches_up data markers P i a s" and "stream_loop data markers st i crc a = Inr (hb, a')"
  shows "\<exists>s' q. serial_blocks data (st_level st) crc s (marker_offset (markers ! i)) = Inr (s', q) \<and> hb = (q + 7) div 8 \<and>
    prefetched_of (as_candidates a') = None \<and> catches_up data markers P k a' s'"
  using assms
proof (induction data markers st i crc a arbitrary: s rule: stream_loop.induct)
  case (1 data markers st i crc a)
  note fit = "1.prems"(1) and ok = "1.prems"(2) and c = "1.prems"(3)
  have unfolded: "and_then (index markers i) (\<lambda>m. case m of
       EndMarker e \<Rightarrow> end_stream st (marker_offset m) crc e a
     | BlockMarker b \<Rightarrow>
         and_then (add_candidate data markers st i b a) (\<lambda>r.
         if fst r \<le> i then Inl Unending
         else stream_loop data markers st (fst r) (combine_stream_crc crc (bc_expected_crc b)) (snd r))) = Inr (hb, a')"
    using "1.prems"(4) by (subst (asm) stream_loop.simps)
  then have i: "i < length markers" "index markers i = Inr (markers ! i)"
    by (auto simp: and_then_Inr_iff index_def ok_or_Inr_iff get_at_Some_iff)
  show ?case
  proof (cases "markers ! i")
    case (EndMarker e)
    note reads = end_marker_reads [OF fit ok i(1) EndMarker]
    have e: "end_stream st (ec_bit_offset e) crc e a = Inr (hb, a')" using unfolded i EndMarker by simp
    then obtain str where crc: "ec_expected_crc e = crc" and hb: "hb = (ec_bit_offset e + 80 + 7) div 8"
      and a': "a' = a\<lparr>as_streams := as_streams a @ [str]\<rparr>"
      by (auto simp: end_stream_def and_then_Inr_iff ok_or_Inr_iff checked_add_Some_iff Let_def split: if_splits)
    then have "serial_blocks data (st_level st) crc s (marker_offset (markers ! i)) = Inr (s, ec_bit_offset e + 80)"
      using reads EndMarker same_magics(3) by (simp add: serial_blocks.simps [of data _ _ s])
    moreover have none: "prefetched_of (as_candidates a') = None" using catches_up_at_end [OF c EndMarker] a' by simp
    moreover have "catches_up data markers P k a' s"
      by (rule catches_up_anywhere [OF _ none]) (use a' c in simp)
    ultimately show ?thesis using hb by auto
  next
    case (BlockMarker b)
    then obtain j a1 where r: "add_candidate data markers st i b a = Inr (j, a1)" and j: "\<not> j \<le> i"
      and loop: "stream_loop data markers st j (combine_stream_crc crc (bc_expected_crc b)) a1 = Inr (hb, a')"
      using unfolded i by (auto simp: and_then_Inr_iff split: if_splits)
    obtain out len s1 where block: "bz2_block data (bc_bit_offset b + 48) (st_level st) None =
        Inr ((out, bc_expected_crc b, len), marker_offset (markers ! j))"
      "serial_put out (marker_offset (markers ! j)) s = Inr s1" "catches_up data markers P j a1 s1"
      by (rule add_candidate_serial [OF fit ok c i(1) BlockMarker r])
    have "\<exists>s' q. serial_blocks data (st_level st) (combine_stream_crc crc (bc_expected_crc b)) s1 (marker_offset (markers ! j)) = Inr (s', q) \<and>
        hb = (q + 7) div 8 \<and> prefetched_of (as_candidates a') = None \<and> catches_up data markers P k a' s'"
      using "1.IH" [OF i(2) BlockMarker r _ fit ok, of s1] j block(3) loop by simp
    then show ?thesis
      using block block_marker_magic [OF fit ok i(1) BlockMarker] BlockMarker
      by (simp add: serial_blocks.simps [of data _ crc s])
  qed
qed

lemma bits_at_byte:
  assumes "i < length data"
  shows "bits_at data (8 * i) 8 = unat (data ! i)"
proof -
  have s: "slice_of data i (Suc i) = [data ! i]" using assms by (simp add: slice_Suc)
  have "unat (data ! i) < 256" by simp
  then have "unat (data ! i) mod 2 ^ 8 = unat (data ! i)" by (intro mod_less) simp
  then show ?thesis using bits_at_slice [of i 0 8 "Suc i" data] assms by (simp add: s)
qed

lemma bits_read_byte:
  assumes "length data < 2 ^ 60" and "i < length data"
  shows "bits_read data (8 * i) 8 = Inr (ucast (data ! i), 8 * i + 8)"
  using assms by (simp add: bits_read_result bits_at_byte)

lemma parse_stream_header_serial:
  assumes fit: "length data < 2 ^ 60" and p: "parse_stream_header data hb = Inr level"
  shows "stream_header data (8 * hb) = Inr (level, 8 * hb + 32)" and "hb + 4 \<le> length data" and "1 \<le> level" and "level \<le> 9"
proof -
  obtain header where h: "get_range data hb (sat_add hb 4) = Some header" "take 3 header = [0x42, 0x5a, 0x68]"
    "0x31 \<le> header ! 3" "header ! 3 \<le> 0x39" "level = unat (header ! 3) - 0x30"
    using p by (auto simp: parse_stream_header_def and_then_Inr_iff ok_or_Inr_iff split: if_splits)
  have "sat_add hb 4 \<le> length data" using h(1) by (auto simp: get_range_Some_iff)
  then have sat: "sat_add hb 4 = hb + 4" using fit by (auto simp: sat_add_def usize_max_def min_def split: if_splits)
  then have range: "hb + 4 \<le> length data" "header = slice_of data hb (hb + 4)"
    using h(1) by (auto simp: get_range_Some_iff)
  then show "hb + 4 \<le> length data" by simp
  have nth: "header ! k = data ! (hb + k)" if "k < 4" for k using that range by simp
  have "take 3 header ! 0 = 0x42" "take 3 header ! 1 = 0x5a" "take 3 header ! 2 = 0x68" using h(2) by simp_all
  then have bytes: "data ! hb = 0x42" "data ! (hb + 1) = 0x5a" "data ! (hb + 2) = 0x68" "data ! (hb + 3) = header ! 3"
    using nth [of 0] nth [of 1] nth [of 2] nth [of 3] by simp_all
  have r: "bits_read data (8 * hb + 8 * k) 8 = Inr (ucast (data ! (hb + k)), 8 * hb + 8 * k + 8)" if "k < 4" for k
    using bits_read_byte [OF fit, of "hb + k"] that range(1) by (simp add: algebra_simps)
  have reads: "bits_read data (8 * hb) 8 = Inr (0x42, 8 * hb + 8)" "bits_read data (8 * hb + 8) 8 = Inr (0x5a, 8 * hb + 16)"
    "bits_read data (8 * hb + 16) 8 = Inr (0x68, 8 * hb + 24)" "bits_read data (8 * hb + 24) 8 = Inr (ucast (header ! 3), 8 * hb + 32)"
    using r [of 0] r [of 1] r [of 2] r [of 3] bytes by simp_all
  have u: "unat (header ! 3 - 0x30) = unat (header ! 3) - 0x30"
    using h(3) by (subst unat_sub) (auto simp: word_le_nat_alt)
  have "49 \<le> unat (header ! 3)" "unat (header ! 3) \<le> 57" using h(3,4) by (simp_all add: word_le_nat_alt)
  then show "1 \<le> level" "level \<le> 9" using h(5) by simp_all
  have same: "ucast (ucast (header ! 3) :: u32) = header ! 3" by (rule ucast_down_ucast_id) (simp add: is_down)
  show "stream_header data (8 * hb) = Inr (level, 8 * hb + 32)"
    unfolding stream_header_def using range(1) reads fit h(3,4,5) u same by (simp add: bits_remaining_def)
qed

lemma assemble_stream_serial:
  assumes fit: "length data < 2 ^ 60" and ok: "markers_ok data markers"
    and start: "\<And>i. marker_at_bit markers (hb * 8 + 32) = Inr i \<Longrightarrow> catches_up data markers P i a s"
    and r: "assemble_stream data markers hb a = Inr (hb', a')"
  shows "\<exists>level s' q. stream_header data (8 * hb) = Inr (level, 8 * hb + 32) \<and> hb + 4 \<le> length data \<and>
    serial_blocks data level 0 s (8 * hb + 32) = Inr (s', q) \<and> hb' = (q + 7) div 8 \<and>
    prefetched_of (as_candidates a') = None \<and> (\<forall>k. catches_up data markers P k a' s')"
proof -
  obtain level i where l: "parse_stream_header data hb = Inr level" and i: "marker_at_bit markers (hb * 8 + 32) = Inr i"
    and loop: "stream_loop data markers \<lparr>st_level = level, st_number = length (as_streams a), st_first_block = length (as_blocks a),
               st_decoded_start = as_decoded a\<rparr> i 0 a = Inr (hb', a')"
    using r by (auto simp: assemble_stream_def and_then_Inr_iff ok_or_Inr_iff checked_add_Some_iff checked_mul_def Let_def
        split: if_splits)
  have "marker_offset (markers ! i) = 8 * hb + 32" using marker_at_bit_result [OF i] by simp
  then show ?thesis
    using stream_loop_serial [OF fit ok start [OF i] loop, of 0] parse_stream_header_serial [OF fit l] catches_up_anywhere
    by fastforce
qed

lemma assemble_streams_serial:
  assumes "length data < 2 ^ 60" and "markers_ok data markers" and "hb < length data"
    and "\<And>i. marker_at_bit markers (hb * 8 + 32) = Inr i \<Longrightarrow> catches_up data markers P i a s"
    and "assemble_streams data markers hb a = Inr a'"
  shows "\<exists>s'. serial_streams data s (8 * hb) = Inr s' \<and> se_output s' = P @ as_output a' \<and> se_progress s' = as_progress a' \<and>
    se_decoded s' = as_decoded a'"
  using assms
proof (induction data markers hb a arbitrary: s rule: assemble_streams.induct)
  case (1 data markers hb a)
  note fit = "1.prems"(1) and ok = "1.prems"(2) and less = "1.prems"(3)
  obtain r1 where "assemble_stream data markers hb a = Inr r1"
    and "(if fst r1 = length data then Inr (snd r1)
        else if fst r1 > length data then Inl (Decode (length data * 8) Truncated)
        else if fst r1 \<le> hb then Inl Unending
        else assemble_streams data markers (fst r1) (snd r1)) = Inr a'"
    using "1.prems"(3,5) by (auto simp: assemble_streams.simps [of data markers hb a] and_then_Inr_iff simp del: fst_conv snd_conv)
  then obtain hb' a1 where one: "assemble_stream data markers hb a = Inr (hb', a1)"
    and rest: "(if hb' = length data then Inr a1
        else if hb' > length data then Inl (Decode (length data * 8) Truncated)
        else if hb' \<le> hb then Inl Unending
        else assemble_streams data markers hb' a1) = Inr a'"
    by (metis prod.collapse)
  obtain level s1 q where s1: "stream_header data (8 * hb) = Inr (level, 8 * hb + 32)"
    "serial_blocks data level 0 s (8 * hb + 32) = Inr (s1, q)" "hb' = (q + 7) div 8"
    "prefetched_of (as_candidates a1) = None" "\<And>k. catches_up data markers P k a1 s1"
    using assemble_stream_serial [OF fit ok "1.prems"(4) one] by blast
  have align: "align_byte (8 * hb) = 8 * hb" "align_byte q = 8 * hb'" using s1(3) by (simp_all add: align_byte_def)
  have remaining: "bits_remaining data (8 * hb) \<noteq> 0" "bits_remaining data (8 * length data) = 0"
    using less fit by (simp_all add: bits_remaining_def)
  have step: "serial_streams data s (8 * hb) = serial_streams data s1 (8 * hb')"
    using remaining(1) s1 align by (simp add: serial_streams.simps [of data s "8 * hb"])
  show ?case
  proof (cases "hb' = length data")
    case True
    have "se_output s1 = P @ as_output a1 \<and> se_decoded s1 = as_decoded a1 \<and> se_progress s1 = as_progress a1"
      using s1(4) s1(5) [of 0] by (simp add: catches_up_def)
    then show ?thesis using True rest step remaining(2) by (simp add: serial_streams.simps [of data s1])
  next
    case False
    then have l: "\<not> hb' > length data" "\<not> hb' \<le> hb" "hb' < length data" and more: "assemble_streams data markers hb' a1 = Inr a'"
      using rest by (auto split: if_splits)
    show ?thesis
      unfolding step using "1.IH" [OF less one, of s1] False l fit ok s1(5) more by simp
  qed
qed

text \<open>Assembling from the markers of the input.\<close>

lemma decode_to_sink_serial:
  assumes fit: "length data < 2 ^ 60"
    and r: "decode_to_sink blake3 available cancelled data options prefetched = Inr r"
    and pf: "\<And>p. prefetched = Some p \<Longrightarrow> pf_bit_offset p = 32 \<and> dc_output (pf_decoded p) = [] \<and>
      (\<exists>d0. decode_candidate data 32 (pf_expected_crc p) = Inr d0 \<and> pf_decoded p = d0\<lparr>dc_output := []\<rparr> \<and> P = dc_output d0)"
    and pool: "prefetched \<noteq> None \<Longrightarrow> bz2_thread_pool (decode_resolved_threads available options) \<noteq> None"
    and none: "prefetched = None \<Longrightarrow> P = []"
  shows "\<exists>s. decode_serial data = Inr s \<and> se_output s = P @ bd_output r \<and> se_progress s = bd_progress r"
proof -
  let ?pool = "bz2_thread_pool (decode_resolved_threads available options)"
  let ?markers = "markers_of (range_report data 0 (length data))"
  let ?cs = "\<lambda>located. case ?pool of None \<Rightarrow> SerialCandidates
    | Some _ \<Rightarrow> ParallelCandidates \<lparr>pc_prefetched = located, pc_no_job = map_option fst located, pc_discarded = 0\<rparr>"
  obtain scanned located where scanned: "scan_with_pool data ?pool cancelled = Inr scanned"
    and located: "locate_prefetched (markers_of scanned) prefetched = Inr located"
    and asm: "assemble blake3 data (markers_of scanned) (?cs located) = Inr r"
    using r by (auto simp: decode_to_sink_def decode_validate_def and_then_Inr_iff Let_def split: if_splits)
  note report = scan_with_pool_report [OF fit scanned]
  have ok: "markers_ok data ?markers" by (rule markers_of_ok [OF fit])
  have pre: "prefetched_of (?cs located) = located"
    using located pool by (cases prefetched) (auto simp: locate_prefetched_def split: option.split)
  have start: "catches_up data ?markers P i (assembly_start (?cs located)) \<lparr>se_output = [], se_decoded = 0, se_progress = []\<rparr>"
    if i: "marker_at_bit ?markers (0 * 8 + 32) = Inr i" for i
  proof (cases prefetched)
    case None
    then have "located = None" using located by (simp add: locate_prefetched_def)
    then have "prefetched_of (?cs located) = None" using pre by simp
    then show ?thesis using none [OF None] by (simp add: catches_up_def assembly_start_def)
  next
    case (Some p)
    then obtain b where b: "?markers ! i = BlockMarker b" "bc_expected_crc b = pf_expected_crc p" "located = Some (i, pf_decoded p)"
      using located i pf [OF Some] report(1)
      by (auto simp: locate_prefetched_def and_then_Inr_iff split: marker.splits if_splits)
    have off: "bc_bit_offset b = 32" and less: "i < length ?markers"
      using marker_at_bit_result [OF i] b(1) by simp_all
    have "prefetch_ok data ?markers P i (pf_decoded p)"
      using pf [OF Some] b off less by (auto simp: prefetch_ok_def)
    then show ?thesis using pre b(3) by (simp add: catches_up_def assembly_start_def)
  qed
  obtain a where a: "assemble_streams data ?markers 0 (assembly_start (?cs located)) = Inr a"
    and rr: "bd_output r = as_output a" "bd_progress r = as_progress a @ [(length data, as_decoded a)]"
    using asm report(1) by (auto simp: assemble_def and_then_Inr_iff)
  have "0 < length data" using report(2) by (auto simp: is_stream_header_def get_range_Some_iff)
  from assemble_streams_serial [OF fit ok this start a]
  obtain s where s: "serial_streams data \<lparr>se_output = [], se_decoded = 0, se_progress = []\<rparr> 0 = Inr s" "se_output s = P @ as_output a"
    "se_progress s = as_progress a" "se_decoded s = as_decoded a"
    by auto
  then show ?thesis using rr by (simp add: decode_serial_def bits_start_def)
qed

text \<open>The number of processors is never reported as zero.\<close>

lemma bz2_serial_result:
  assumes "length data < 2 ^ 60" and "available \<noteq> Some 0"
    and "bz2_decompress blake3 available cancelled data options = Inr out"
  shows "\<exists>s. decode_serial data = Inr s \<and> se_output s = out"
proof (cases "decode_resolved_threads available options = 1")
  case True
  then show ?thesis using assms(3) by (auto simp: bz2_decompress_def decode_validate_def and_then_Inr_iff split: if_splits)
next
  case False
  then obtain P pf r where p: "prefetch_first data = Inr (P, pf)"
    and r: "decode_to_sink blake3 available cancelled data options pf = Inr r" and out: "out = P @ bd_output r"
    using assms(3) by (auto simp: bz2_decompress_def decode_validate_def and_then_Inr_iff split: if_splits)
  have pool: "bz2_thread_pool (decode_resolved_threads available options) \<noteq> None"
    using False assms(2) by (auto simp: bz2_thread_pool_def decode_resolved_threads_def split: option.splits if_splits)
  have pf: "pf_bit_offset q = 32 \<and> dc_output (pf_decoded q) = [] \<and>
      (\<exists>d0. decode_candidate data 32 (pf_expected_crc q) = Inr d0 \<and> pf_decoded q = d0\<lparr>dc_output := []\<rparr> \<and> P = dc_output d0)"
    if q: "pf = Some q" for q
  proof -
    obtain crc d where d: "decode_first_candidate data = Inr (crc, d)" "P = dc_output d"
      "q = \<lparr>pf_bit_offset = 32, pf_expected_crc = crc, pf_decoded = d\<lparr>dc_output := []\<rparr>\<rparr>"
      using p q by (auto simp: prefetch_first_def and_then_Inr_iff split: if_splits)
    have "decode_candidate data 32 crc = Inr d"
      using d(1) bz2_block_expected
      by (fastforce simp: decode_first_candidate_def decode_candidate_def block_after_magic_def and_then_Inr_iff split: if_splits)
    then show ?thesis using d by simp
  qed
  have "P = []" if "pf = None"
    using p that by (auto simp: prefetch_first_def and_then_Inr_iff split: if_splits)
  then show ?thesis
    using decode_to_sink_serial [OF assms(1) r pf _ _] pool out by blast
qed

text \<open>C32. Whatever the parallel bzip2 decoder accepts, with any number of threads, memory limit and
  cancellation that does not strike, and with or without the block it decodes ahead, the serial decoder
  decodes to the same bytes.\<close>

theorem parallel_bzip2_is_serial:
  assumes "length data < 2 ^ 60" and "available \<noteq> Some 0"
    and "bz2_decompress blake3 available cancelled data options = Inr out"
  shows "\<exists>s. decode_serial data = Inr s \<and> se_output s = out"
  using assms by (rule bz2_serial_result)

section \<open>An empty stream, decoded in parallel\<close>

lemma bits_at_eq_to_bits:
  "p + n \<le> 8 * length data \<Longrightarrow> v < 2 ^ n \<Longrightarrow>
     bits_at data p n = v \<longleftrightarrow> take n (drop p (bits_of data)) = to_bits n v"
proof -
  assume a: "p + n \<le> 8 * length data" "v < 2 ^ n"
  let ?xs = "take n (drop p (bits_of data))"
  have "length ?xs = n" using a by simp
  then show ?thesis using a(2) bits_val_inj [of ?xs "to_bits n v"] by (auto simp: bits_at_def bits_val_to_bits)
qed

lemma empty_stream_bits: "bits_of empty_stream =
    [False, True, False, False, False, False, True, False, False, True, False, True, True, False, True, False,
     False, True, True, False, True, False, False, False, False, False, True, True, True, False, False, True,
     False, False, False, True, False, True, True, True, False, True, True, True, False, False, True, False, False,
     True, False, False, False, True, False, True, False, False, True, True, True, False, False, False, False,
     True, False, True, False, False, False, False, True, False, False, True, False, False, False, False, False,
     False, False, False, False, False, False, False, False, False, False, False, False, False, False, False,
     False, False, False, False, False, False, False, False, False, False, False, False, False, False, False,
     False]"
  by code_simp

lemma magic_bits: "to_bits 48 (unat BLOCK_MAGIC) =
    [False, False, True, True, False, False, False, True, False, True, False, False, False, False, False, True,
     False, True, False, True, True, False, False, True, False, False, True, False, False, True, True, False,
     False, True, False, True, False, False, True, True, False, True, False, True, True, False, False, True]"
  "to_bits 48 (unat END_MAGIC) =
    [False, False, False, True, False, True, True, True, False, True, True, True, False, False, True, False,
     False, True, False, False, False, True, False, True, False, False, True, True, True, False, False, False,
     False, True, False, True, False, False, False, False, True, False, False, True, False, False, False, False]"
  by code_simp+

lemma empty_stream_report: "range_report empty_stream 0 14 = \<lparr>sr_streams = [\<lparr>sc_byte_offset = 0, sc_block_size = 9\<rparr>], sr_blocks = [],
   sr_ends = [\<lparr>ec_bit_offset = 32, ec_expected_crc = 0\<rparr>]\<rparr>"
proof -
  have len: "length empty_stream = 14" by (simp add: empty_stream_def)
  have magics: "unat BLOCK_MAGIC < 2 ^ 48" "unat END_MAGIC < 2 ^ 48" by (simp_all add: BLOCK_MAGIC_def END_MAGIC_def)
  have "\<not> is_block empty_stream p" for p
  proof
    assume "is_block empty_stream p"
    then have p: "p \<in> set [0..<8]" and b: "take 48 (drop p (bits_of empty_stream)) = to_bits 48 (unat BLOCK_MAGIC)"
      using bits_at_eq_to_bits [of p 48 empty_stream "unat BLOCK_MAGIC"] magics by (auto simp: is_block_def marker_at_def len)
    have "\<forall>p\<in>set [0..<8]. take 48 (drop p (bits_of empty_stream)) \<noteq> to_bits 48 (unat BLOCK_MAGIC)"
      unfolding empty_stream_bits magic_bits by code_simp
    then show False using p b by blast
  qed
  moreover have "\<And>p. is_end empty_stream p \<longleftrightarrow> p = 32"
  proof -
    fix p
    have "\<forall>p\<in>set [0..<33]. take 48 (drop p (bits_of empty_stream)) = to_bits 48 (unat END_MAGIC) \<longleftrightarrow> p = 32"
      unfolding empty_stream_bits magic_bits by code_simp
    moreover have "is_end empty_stream p \<longleftrightarrow> p \<in> set [0..<33] \<and> take 48 (drop p (bits_of empty_stream)) = to_bits 48 (unat END_MAGIC)"
      using bits_at_eq_to_bits [of p 48 empty_stream "unat END_MAGIC"] magics by (auto simp: is_end_def marker_at_def len)
    ultimately show "is_end empty_stream p \<longleftrightarrow> p = 32" by auto
  qed
  then have "is_end empty_stream = (\<lambda>p. p = 32)" by (simp add: fun_eq_iff)
  moreover have "filter (\<lambda>p. p = 32) [8 * 0..<8 * (14::nat)] = [32]" by code_simp
  moreover have "end_at empty_stream 32 = \<lparr>ec_bit_offset = 32, ec_expected_crc = 0\<rparr>" by code_simp
  moreover have "filter (is_stream_header empty_stream) [0..<14] = [0]" by code_simp
  moreover have "empty_stream ! (0 + 3) - 0x30 = 9" by code_simp
  ultimately show ?thesis by (simp add: range_report_def)
qed

lemma empty_stream_assembles:
  "assemble (\<lambda>_. []) empty_stream [EndMarker \<lparr>ec_bit_offset = 32, ec_expected_crc = 0\<rparr>]
     (ParallelCandidates \<lparr>pc_prefetched = None, pc_no_job = None, pc_discarded = 0\<rparr>) =
   Inr \<lparr>bd_output = [], bd_progress = [(14, 0)], bd_index = index_new (\<lambda>_. []) empty_stream 0
     [\<lparr>si_header = 0, si_level = 9, si_first = 0, si_count = 0, si_decoded_start = 0, si_decoded_len = 0, si_eos = 32, si_crc = 0\<rparr>] []\<rparr>"
  by code_simp

lemma empty_stream_scan: "scan_with_pool empty_stream (Some 2) (\<lambda>_. False) = Inr (range_report empty_stream 0 14)"
proof -
  have "length empty_stream = 14" "is_stream_header empty_stream 0" by (simp add: empty_stream_def, code_simp)
  then show ?thesis
    using pooled_scan_eq [of empty_stream "\<lambda>_. False" "Some 2"] scan_range_report [of empty_stream 14 0]
    by (simp add: scan_def)
qed

lemma empty_stream_markers: "markers_of (range_report empty_stream 0 14) = [EndMarker \<lparr>ec_bit_offset = 32, ec_expected_crc = 0\<rparr>]"
  by (simp add: empty_stream_report markers_of_def)

lemma empty_stream_decompress:
  "bz2_decompress (\<lambda>_. []) (Some 2) (\<lambda>_. False) empty_stream \<lparr>do_threads = 2, do_memory_limit = 2 ^ 40\<rparr> = Inr []"
proof -
  have "prefetch_first empty_stream = Inr ([], None)" by code_simp
  then show ?thesis using empty_stream_scan empty_stream_markers
    by (simp add: bz2_decompress_def decode_to_sink_def decode_validate_def decode_resolved_threads_def bz2_thread_pool_def
        locate_prefetched_def MAX_DECODED_BLOCK_def MAX_ENCODED_BLOCK_def empty_stream_assembles)
qed

theorem parallel_bzip2_is_serial_witness: "\<exists>s. decode_serial empty_stream = Inr s \<and> se_output s = []"
  by (rule parallel_bzip2_is_serial [OF _ _ empty_stream_decompress]) (simp_all add: empty_stream_def)

end
