(* ===== verification/Indexed_Reader.thy ===== *)
theory Indexed_Reader
  imports Bz2_Parallel
begin

text \<open>
  \<open>src/indexed.rs\<close>: random access to a bzip2 file through its index, with a cache of decoded blocks
  that is bounded in bytes and evicts the least recently used block. Opening files is not modelled.
\<close>

section \<open>The cache\<close>

record block_cache =
  ca_entries :: "nat \<Rightarrow> bytes option"
  ca_order :: "nat list"
  ca_bytes :: nat
  ca_limit :: nat

definition cache_new :: "nat \<Rightarrow> block_cache" where
  "cache_new limit = \<lparr>ca_entries = (\<lambda>_. None), ca_order = [], ca_bytes = 0, ca_limit = limit\<rparr>"

definition cache_get :: "nat \<Rightarrow> block_cache \<Rightarrow> bytes option \<times> block_cache" where
  "cache_get number c =
     (case ca_entries c number of
        None \<Rightarrow> (None, c)
      | Some data \<Rightarrow> (Some data, c\<lparr>ca_order := filter (\<lambda>entry. entry \<noteq> number) (ca_order c) @ [number]\<rparr>))"

function cache_evict :: "nat \<Rightarrow> block_cache \<Rightarrow> block_cache" where
  "cache_evict len c =
     (if ca_bytes c + len > ca_limit c
      then (case ca_order c of
              [] \<Rightarrow> c
            | oldest # order \<Rightarrow>
                cache_evict len (case ca_entries c oldest of
                  None \<Rightarrow> c\<lparr>ca_order := order\<rparr>
                | Some removed \<Rightarrow> c\<lparr>ca_order := order, ca_entries := (ca_entries c)(oldest := None),
                    ca_bytes := ca_bytes c - length removed\<rparr>))
      else c)"
  by pat_completeness auto
termination
  by (relation "measure (\<lambda>(len, c). length (ca_order c))") (auto split: option.split)

declare cache_evict.simps [simp del]

definition cache_insert :: "nat \<Rightarrow> bytes \<Rightarrow> block_cache \<Rightarrow> block_cache" where
  "cache_insert number data c =
     (if length data > ca_limit c then c
      else let c = cache_evict (length data) c in
        c\<lparr>ca_bytes := ca_bytes c + length data, ca_order := ca_order c @ [number],
          ca_entries := (ca_entries c)(number \<mapsto> data)\<rparr>)"

section \<open>The reader\<close>

record indexed_reader =
  ir_source :: bytes
  ir_index :: bz2_index
  ir_position :: nat
  ir_cache :: block_cache

definition reader_new :: "bytes \<Rightarrow> bz2_index \<Rightarrow> nat \<Rightarrow> indexed_reader" where
  "reader_new source x cache_limit = \<lparr>ir_source = source, ir_index = x, ir_position = 0, ir_cache = cache_new cache_limit\<rparr>"

definition reader_from_source ::
  "(bytes \<Rightarrow> bytes) \<Rightarrow> nat option \<Rightarrow> bytes \<Rightarrow> bz2_index option \<Rightarrow> decode_options \<Rightarrow> nat \<Rightarrow> error + indexed_reader" where
  "reader_from_source blake3 available source x options cache_limit =
     and_then (case x of Some x \<Rightarrow> Inr x | None \<Rightarrow> build_index blake3 available source options) (\<lambda>x.
     Inr (reader_new source x cache_limit))"

definition reader_from_bytes_with_index :: "(bytes \<Rightarrow> bytes) \<Rightarrow> bytes \<Rightarrow> bytes \<Rightarrow> nat \<Rightarrow> error + indexed_reader" where
  "reader_from_bytes_with_index blake3 source encoded_index cache_limit =
     and_then (index_from_bytes blake3 encoded_index source) (\<lambda>x. Inr (reader_new source x cache_limit))"

text \<open>\<open>partition_point\<close>: the number of blocks before the first that ends behind the position.\<close>

definition block_number :: "bz2_index \<Rightarrow> nat \<Rightarrow> nat option" where
  "block_number x position =
     (let number = length (takeWhile (\<lambda>b. bi_decoded_start b + bi_decoded_len b \<le> position) (xi_blocks x)) in
      if number < length (xi_blocks x) then Some number else None)"

definition part_of :: "bytes \<Rightarrow> nat \<Rightarrow> nat \<Rightarrow> error + bytes" where
  "part_of block offset wanted =
     (let count = min wanted (length block - offset) in index_range block offset (offset + count))"

definition read_block_part :: "nat \<Rightarrow> nat \<Rightarrow> indexed_reader \<Rightarrow> error + bytes \<times> indexed_reader" where
  "read_block_part number wanted r =
     and_then (index (xi_blocks (ir_index r)) number) (\<lambda>block.
     if ir_position r < bi_decoded_start block then Inl Panic
     else let offset = ir_position r - bi_decoded_start block; cached = cache_get number (ir_cache r) in
     case fst cached of
       Some data \<Rightarrow> and_then (part_of data offset wanted) (\<lambda>part. Inr (part, r\<lparr>ir_cache := snd cached\<rparr>))
     | None \<Rightarrow>
         and_then (index (xi_streams (ir_index r)) (bi_stream block)) (\<lambda>stream.
         and_then (bz2_decode_block (ir_source r) (bi_start block) (bi_end block) (unat (si_level stream)) (bi_crc block)) (\<lambda>decoded.
         if length decoded \<noteq> bi_decoded_len block then Inl (index_error DecodedSize)
         else and_then (part_of decoded offset wanted) (\<lambda>part.
           Inr (part, r\<lparr>ir_cache := cache_insert number decoded (ir_cache r)\<rparr>)))))"

text \<open>The loop of \<open>read\<close>: what is still wanted and what has been read.\<close>

definition io_other :: "error + 'a \<Rightarrow> error + 'a" where
  "io_other r = (case r of Inl Panic \<Rightarrow> Inl Panic | Inl e \<Rightarrow> Inl (Io OtherIo) | Inr x \<Rightarrow> Inr x)"

function read_loop :: "nat \<Rightarrow> bytes \<Rightarrow> indexed_reader \<Rightarrow> error + bytes \<times> indexed_reader" where
  "read_loop wanted out r =
     (if wanted > 0 \<and> ir_position r < xi_decoded_len (ir_index r)
      then and_then (ok_or (block_number (ir_index r) (ir_position r)) (Io InvalidData)) (\<lambda>number.
           and_then (io_other (read_block_part number wanted r)) (\<lambda>p.
           if fst p = [] then Inl (Io InvalidData)
           else read_loop (wanted - length (fst p)) (out @ fst p)
             ((snd p)\<lparr>ir_position := ir_position (snd p) + length (fst p)\<rparr>)))
      else Inr (out, r))"
  by pat_completeness auto
termination
  by (relation "measure (\<lambda>(wanted, out, r). wanted)") auto

declare read_loop.simps [simp del]

definition indexed_read :: "nat \<Rightarrow> indexed_reader \<Rightarrow> error + bytes \<times> indexed_reader" where
  "indexed_read wanted r = read_loop wanted [] r"

datatype seek_from = SeekStart nat | SeekCurrent int | SeekEnd int

definition indexed_seek :: "seek_from \<Rightarrow> indexed_reader \<Rightarrow> error + nat \<times> indexed_reader" where
  "indexed_seek position r =
     (let target = (case position of SeekStart p \<Rightarrow> int p | SeekCurrent offset \<Rightarrow> int (ir_position r) + offset
        | SeekEnd offset \<Rightarrow> int (xi_decoded_len (ir_index r)) + offset) in
      if \<not> (0 \<le> target \<and> target \<le> int (xi_decoded_len (ir_index r))) then Inl (Io InvalidInput)
      else Inr (nat target, r\<lparr>ir_position := nat target\<rparr>))"

end
