(* ===== verification/Indexed_Access.thy ===== *)
theory Indexed_Access
  imports Bz2_Assembly Indexed_Reader
begin

text \<open>
  The indexed reader is a file: the index that decoding builds is valid and describes the decoded
  bytes block by block, and reading and seeking through it, with any cache limit, return what they
  would on an array of the decoded bytes.
\<close>

section \<open>The index that is built\<close>

definition describes :: "bytes \<Rightarrow> bz2_index \<Rightarrow> bytes \<Rightarrow> bool" where
  "describes source x plain \<longleftrightarrow> index_ok x \<and> length plain = xi_decoded_len x \<and>
     (\<forall>b\<in>set (xi_blocks x).
        bz2_decode_block source (bi_start b) (bi_end b) (unat (si_level (xi_streams x ! bi_stream b))) (bi_crc b) =
          Inr (slice_of plain (bi_decoded_start b) (bi_decoded_start b + bi_decoded_len b)))"

lemma tiled_bound: "tiled a rs c \<Longrightarrow> r \<in> set rs \<Longrightarrow> a \<le> fst r \<and> fst r + snd r \<le> c"
proof (induction rs arbitrary: a)
  case (Cons q rs)
  then show ?case using tiled_le [of "a + snd q" rs c] by fastforce
qed simp

text \<open>
  \<open>levels\<close> are the levels of the streams so far and of the current one, which begins at block \<open>F\<close> and
  decoded byte \<open>D\<close>; \<open>cur\<close> is the bit position reached.
\<close>

definition block_done :: "bytes \<Rightarrow> nat list \<Rightarrow> nat \<Rightarrow> bytes \<Rightarrow> block_index \<Rightarrow> bool" where
  "block_done data levels cur out b \<longleftrightarrow>
     bi_start b < cur \<and> bi_start b < bi_end b \<and> bi_end b \<le> 8 * length data \<and> 0 < bi_decoded_len b \<and> bi_stream b < length levels \<and>
     bi_decoded_start b + bi_decoded_len b \<le> length out \<and>
     bz2_decode_block data (bi_start b) (bi_end b) (levels ! bi_stream b) (bi_crc b) =
       Inr (slice_of out (bi_decoded_start b) (bi_decoded_start b + bi_decoded_len b))"

definition assembled :: "bytes \<Rightarrow> nat list \<Rightarrow> nat \<Rightarrow> nat \<Rightarrow> nat \<Rightarrow> assembly \<Rightarrow> bool" where
  "assembled data levels F D cur a \<longleftrightarrow>
     prefetched_of (as_candidates a) = None \<and>
     length (as_output a) = as_decoded a \<and> as_decoded a \<le> usize_max \<and>
     tiled 0 (map block_decoded (as_blocks a)) (as_decoded a) \<and>
     sorted_wrt (<) (map bi_start (as_blocks a)) \<and>
     (\<forall>b\<in>set (as_blocks a). block_done data levels cur (as_output a) b) \<and>
     map (\<lambda>s. unat (si_level s)) (as_streams a) = take (length (as_streams a)) levels \<and> (\<forall>l\<in>set levels. 1 \<le> l \<and> l \<le> 9) \<and>
     tiled 0 (map stream_blocks (as_streams a)) F \<and> F \<le> length (as_blocks a) \<and>
     tiled 0 (map stream_decoded (as_streams a)) D \<and> D \<le> as_decoded a \<and>
     (\<forall>p\<in>set (enumerate 0 (as_streams a)). stream_ok (length data * 8) (as_blocks a) p) \<and>
     (\<forall>b\<in>set (drop F (as_blocks a)). bi_stream b = length (as_streams a))"

lemma block_done_later:
  "block_done data levels cur out b \<Longrightarrow> cur \<le> cur' \<Longrightarrow> block_done data (levels @ ls) cur' (out @ new) b"
  by (auto simp: block_done_def slice_append_left nth_append)

lemma stream_ok_later:
  assumes "tiled 0 (map stream_blocks streams) F" and "F \<le> length blocks" and "p \<in> set (enumerate 0 streams)"
    and "stream_ok bits blocks p"
  shows "stream_ok bits (blocks @ later) p"
proof -
  have "fst p < length streams" "streams ! fst p = snd p" using assms(3) by (simp_all add: in_set_enumerate_eq)
  then have "snd p \<in> set streams" by (metis nth_mem)
  then have "si_first (snd p) + si_count (snd p) \<le> F"
    using tiled_bound [OF assms(1), of "stream_blocks (snd p)"] by (simp add: stream_blocks_def)
  then show ?thesis using assms(2,4) by (simp add: stream_ok_def slice_append_left)
qed

lemma add_candidate_assembled:
  assumes fit: "length data < 2 ^ 60" and ok: "markers_ok data markers"
    and a: "assembled data levels F D (marker_offset (markers ! i)) a"
    and st: "st_number st = length (as_streams a)" "length levels = Suc (st_number st)" "levels ! st_number st = st_level st"
    and i: "i < length markers" and b: "markers ! i = BlockMarker b"
    and r: "add_candidate data markers st i b a = Inr (j, a')"
  shows "assembled data levels F D (marker_offset (markers ! j)) a'" and "as_streams a' = as_streams a"
proof -
  obtain d cs decoded where t: "take_candidate data markers i (as_candidates a) = Inr (d, cs)"
    and level: "dc_block_len d \<le> st_level st * 100000"
    and j: "marker_at_bit markers (dc_end_bit d) = Inr j"
    and dec: "checked_add (as_decoded a) (dc_decoded_len d) = Some decoded"
    and a': "a' = a\<lparr>as_candidates := discard_candidates j cs, as_output := as_output a @ dc_output d,
         as_blocks := as_blocks a @ [\<lparr>bi_start = bc_bit_offset b, bi_end = marker_offset (markers ! j),
           bi_decoded_start = as_decoded a, bi_decoded_len = dc_decoded_len d, bi_crc = bc_expected_crc b, bi_stream = st_number st\<rparr>],
         as_decoded := decoded, as_progress := as_progress a @ [((dc_end_bit d + 7) div 8, decoded)]\<rparr>"
    using r by (auto simp: add_candidate_def and_then_Inr_iff ok_or_Inr_iff split: if_splits)
  show "as_streams a' = as_streams a" by (simp add: a')
  have d: "decode_candidate data (bc_bit_offset b) (bc_expected_crc b) = Inr d" and none: "prefetched_of cs = None"
    using take_candidate_cases [OF t i b] a by (auto simp: assembled_def)
  note magic = block_marker_magic [OF fit ok i b]
  note block = decode_candidate_block [OF d magic level]
  note mj = marker_at_bit_result [OF j]
  let ?b = "\<lparr>bi_start = bc_bit_offset b, bi_end = marker_offset (markers ! j), bi_decoded_start = as_decoded a,
      bi_decoded_len = dc_decoded_len d, bi_crc = bc_expected_crc b, bi_stream = st_number st\<rparr>"
  have off: "marker_offset (markers ! i) = bc_bit_offset b" using b by simp
  have sum: "decoded = as_decoded a + length (dc_output d)" "decoded \<le> usize_max" and out: "length (as_output a) = as_decoded a"
    using dec a block(2) by (auto simp: checked_add_Some_iff assembled_def)
  have len: "dc_end_bit d \<le> 8 * length data"
  proof (cases "markers ! j")
    case (BlockMarker c)
    then show ?thesis using marker_nth(1) [OF ok _ BlockMarker] mj by (simp add: is_block_def)
  next
    case (EndMarker e)
    then show ?thesis using end_marker_reads(3) [OF fit ok _ EndMarker] mj by simp
  qed
  have in_levels: "st_level st \<in> set levels" using st by (metis lessI nth_mem)
  then have range: "1 \<le> st_level st" "st_level st \<le> 9" using a by (auto simp: assembled_def)
  have "block_after_magic data (bc_bit_offset b) (st_level st) (Some (bc_expected_crc b)) =
      Inr ((dc_output d, bc_expected_crc b, dc_block_len d), dc_end_bit d)"
    using block(1) magic block(5) bz2_block_expected by (simp add: block_after_magic_def bits_start_def)
  then have "bz2_decode_block data (bi_start ?b) (bi_end ?b) (st_level st) (bi_crc ?b) = Inr (dc_output d)"
    using range block(4) mj by (simp add: bz2_decode_block_def)
  then have new: "block_done data levels (marker_offset (markers ! j)) (as_output a @ dc_output d) ?b"
    using st block mj len out by (simp add: block_done_def slice_of_def)
  have old: "block_done data levels (marker_offset (markers ! j)) (as_output a @ dc_output d) c" if "c \<in> set (as_blocks a)" for c
    using block_done_later [of data levels "marker_offset (markers ! i)" "as_output a" c "marker_offset (markers ! j)" "[]"] a that mj block(4) off
    by (simp add: assembled_def)
  have order: "sorted_wrt (<) (map bi_start (as_blocks a @ [?b]))"
    using a off by (auto simp: assembled_def sorted_wrt_append block_done_def)
  have streams: "stream_ok (length data * 8) (as_blocks a @ [?b]) p" if "p \<in> set (enumerate 0 (as_streams a))" for p
    using a that by (auto simp: assembled_def intro: stream_ok_later)
  show "assembled data levels F D (marker_offset (markers ! j)) a'"
    unfolding assembled_def
    using a none sum out new old order streams st(1) block(2)
    by (simp add: a' discard_keeps assembled_def tiled_snoc block_decoded_def)
qed

lemma end_stream_assembled:
  assumes a: "assembled data levels F D cur a" and e: "cur + 80 \<le> 8 * length data" "ec_bit_offset e = cur"
    and st: "st_number st = length (as_streams a)" "length levels = Suc (st_number st)" "levels ! st_number st = st_level st"
      "st_first_block st = F" "st_decoded_start st = D"
    and r: "end_stream st current_bit crc e a = Inr (hb, a')"
  shows "assembled data levels (length (as_blocks a')) (as_decoded a') cur a'" and "length (as_streams a') = length levels"
    and "hb = (cur + 87) div 8"
proof -
  obtain header where a': "a' = a\<lparr>as_streams := as_streams a @
      [\<lparr>si_header = header, si_level = word_of_nat (st_level st), si_first = F, si_count = length (as_blocks a) - F,
        si_decoded_start = D, si_decoded_len = as_decoded a - D, si_eos = cur, si_crc = ec_expected_crc e\<rparr>]\<rparr>"
    and hb: "hb = (cur + 80 + 7) div 8"
    using r e(2) st(4,5) by (auto simp: end_stream_def and_then_Inr_iff ok_or_Inr_iff checked_add_Some_iff Let_def split: if_splits)
  then show "length (as_streams a') = length levels" "hb = (cur + 87) div 8" using st by simp_all
  have "st_level st \<in> set levels" using st by (metis lessI nth_mem)
  then have level: "1 \<le> st_level st" "st_level st \<le> 9" using a by (auto simp: assembled_def)
  then have u: "unat (word_of_nat (st_level st) :: byte) = st_level st" by (simp add: unat_of_nat)
  then have range: "1 \<le> (word_of_nat (st_level st) :: byte)" "(word_of_nat (st_level st) :: byte) \<le> 9"
    using level by (simp_all add: word_le_nat_alt)
  have all: "levels = take (length (as_streams a)) levels @ [st_level st]"
    using take_Suc_conv_app_nth [of "length (as_streams a)" levels] st by simp
  have rest: "slice_of (as_blocks a) F (F + (length (as_blocks a) - F)) = drop F (as_blocks a)"
    using a by (simp add: assembled_def slice_of_def)
  have enum: "enumerate 0 (as_streams a @ [x]) = enumerate 0 (as_streams a) @ [(length (as_streams a), x)]" for x
    by (simp add: enumerate_append_eq)
  show "assembled data levels (length (as_blocks a')) (as_decoded a') cur a'"
    unfolding assembled_def
    using a u range all rest st(1,2) e(1)
    by (auto simp: a' assembled_def enum tiled_snoc stream_blocks_def stream_decoded_def stream_ok_def)
qed

lemma stream_loop_assembled:
  assumes "length data < 2 ^ 60" and "markers_ok data markers"
    and "assembled data levels F D (marker_offset (markers ! i)) a"
    and "st_number st = length (as_streams a)" "length levels = Suc (st_number st)" "levels ! st_number st = st_level st"
      "st_first_block st = F" "st_decoded_start st = D"
    and "stream_loop data markers st i crc a = Inr (hb, a')"
  shows "\<exists>cur. assembled data levels (length (as_blocks a')) (as_decoded a') cur a' \<and> length (as_streams a') = length levels \<and>
    hb = (cur + 87) div 8"
  using assms
proof (induction data markers st i crc a rule: stream_loop.induct)
  case (1 data markers st i crc a)
  note fit = "1.prems"(1) and ok = "1.prems"(2) and a = "1.prems"(3) and st = "1.prems"(4,5,6,7,8)
  have unfolded: "and_then (index markers i) (\<lambda>m. case m of
       EndMarker e \<Rightarrow> end_stream st (marker_offset m) crc e a
     | BlockMarker b \<Rightarrow>
         and_then (add_candidate data markers st i b a) (\<lambda>r.
         if fst r \<le> i then Inl Unending
         else stream_loop data markers st (fst r) (combine_stream_crc crc (bc_expected_crc b)) (snd r))) = Inr (hb, a')"
    using "1.prems"(9) by (subst (asm) stream_loop.simps)
  then have i: "i < length markers" "index markers i = Inr (markers ! i)"
    by (auto simp: and_then_Inr_iff index_def ok_or_Inr_iff get_at_Some_iff)
  show ?case
  proof (cases "markers ! i")
    case (EndMarker e)
    have e: "end_stream st (ec_bit_offset e) crc e a = Inr (hb, a')" using unfolded i EndMarker by simp
    have off: "ec_bit_offset e = marker_offset (markers ! i)" using EndMarker by simp
    have le: "marker_offset (markers ! i) + 80 \<le> 8 * length data"
      using end_marker_reads(3) [OF fit ok i(1) EndMarker] off by simp
    show ?thesis using end_stream_assembled [OF a le off st e] by blast
  next
    case (BlockMarker b)
    then obtain j a1 where r: "add_candidate data markers st i b a = Inr (j, a1)" and j: "\<not> j \<le> i"
      and loop: "stream_loop data markers st j (combine_stream_crc crc (bc_expected_crc b)) a1 = Inr (hb, a')"
      using unfolded i by (auto simp: and_then_Inr_iff split: if_splits)
    note a1 = add_candidate_assembled [OF fit ok a st(1-3) i(1) BlockMarker r]
    have "st_number st = length (as_streams a1)" using st(1) a1(2) by simp
    then show ?thesis
      using "1.IH" [OF i(2) BlockMarker r _ fit ok, unfolded fst_conv snd_conv, OF j a1(1) _ st(2-5) loop] by simp
  qed
qed

lemma assembled_start: "prefetched_of cs = None \<Longrightarrow> assembled data [] 0 0 0 (assembly_start cs)"
  by (simp add: assembled_def assembly_start_def usize_max_def)

text \<open>A new stream begins where all blocks so far are in streams.\<close>

lemma assembled_next:
  assumes a: "assembled data levels (length (as_blocks a)) (as_decoded a) cur a" and level: "1 \<le> level" "level \<le> 9"
    and "length (as_streams a) = length levels" and cur: "cur \<le> cur'"
  shows "assembled data (levels @ [level]) (length (as_blocks a)) (as_decoded a) cur' a"
proof -
  have "block_done data (levels @ [level]) cur' (as_output a) b" if "b \<in> set (as_blocks a)" for b
    using block_done_later [of data levels cur "as_output a" b cur' "[level]" "[]"] a that cur by (simp add: assembled_def)
  then show ?thesis using a level assms(4) by (auto simp: assembled_def)
qed

lemma assemble_streams_assembled:
  assumes "length data < 2 ^ 60" and "markers_ok data markers"
    and "assembled data levels (length (as_blocks a)) (as_decoded a) cur a" and "length (as_streams a) = length levels"
    and "cur \<le> hb * 8" and "assemble_streams data markers hb a = Inr a'"
  shows "\<exists>levels cur. assembled data levels (length (as_blocks a')) (as_decoded a') cur a' \<and> length (as_streams a') = length levels"
  using assms
proof (induction data markers hb a arbitrary: levels cur rule: assemble_streams.induct)
  case (1 data markers hb a)
  note fit = "1.prems"(1) and ok = "1.prems"(2) and a = "1.prems"(3) and len = "1.prems"(4) and cur = "1.prems"(5)
  show ?case
  proof (cases "hb < length data")
    case True
    obtain r1 where one: "assemble_stream data markers hb a = Inr r1"
      and rest: "(if fst r1 = length data then Inr (snd r1)
          else if fst r1 > length data then Inl (Decode (length data * 8) Truncated)
          else if fst r1 \<le> hb then Inl Unending
          else assemble_streams data markers (fst r1) (snd r1)) = Inr a'"
      using "1.prems"(6) True by (auto simp: assemble_streams.simps [of data markers hb a] and_then_Inr_iff simp del: fst_conv snd_conv)
    obtain level i where l: "parse_stream_header data hb = Inr level" and i: "marker_at_bit markers (hb * 8 + 32) = Inr i"
      and loop: "stream_loop data markers \<lparr>st_level = level, st_number = length (as_streams a), st_first_block = length (as_blocks a),
                 st_decoded_start = as_decoded a\<rparr> i 0 a = Inr (fst r1, snd r1)"
      using one by (auto simp: assemble_stream_def and_then_Inr_iff ok_or_Inr_iff checked_add_Some_iff checked_mul_def Let_def
          split: if_splits)
    note range = parse_stream_header_serial(3,4) [OF fit l]
    have off: "cur \<le> marker_offset (markers ! i)" using marker_at_bit_result [OF i] cur by simp
    obtain cur' where a1: "assembled data (levels @ [level]) (length (as_blocks (snd r1))) (as_decoded (snd r1)) cur' (snd r1)"
      "length (as_streams (snd r1)) = length (levels @ [level])" "fst r1 = (cur' + 87) div 8"
      using stream_loop_assembled [OF fit ok assembled_next [OF a range len off] _ _ _ _ _ loop] len by auto
    have "cur' \<le> fst r1 * 8" using a1(3) by simp
    then show ?thesis
      using "1.IH" [OF True one _ _ _ fit ok a1(1,2)] rest a1(1,2) by (auto split: if_splits)
  qed (use "1.prems" in \<open>auto simp: assemble_streams.simps [of data markers hb a]\<close>)
qed

lemma built_index_describe:
  assumes "length data < 2 ^ 60" and "build_index blake3 available data options = Inr x"
  shows "\<exists>s. decode_serial data = Inr s \<and> describes data x (se_output s) \<and>
    xi_source_len x = length data \<and> xi_source_hash x = blake3 data"
proof -
  let ?pool = "bz2_thread_pool (decode_resolved_threads available options)"
  let ?cs = "case ?pool of None \<Rightarrow> SerialCandidates
    | Some _ \<Rightarrow> ParallelCandidates \<lparr>pc_prefetched = None, pc_no_job = None, pc_discarded = 0\<rparr>"
  obtain r where r: "decode_to_sink blake3 available (\<lambda>_. False) data options None = Inr r" and x: "x = bd_index r"
    using assms(2) by (auto simp: build_index_def and_then_Inr_iff)
  obtain s where s: "decode_serial data = Inr s" "se_output s = bd_output r"
    using decode_to_sink_serial [OF assms(1) r, of "[]"] by auto
  obtain scanned where scanned: "scan_with_pool data ?pool (\<lambda>_. False) = Inr scanned"
    and asm: "assemble blake3 data (markers_of scanned) ?cs = Inr r"
    using r by (auto simp: decode_to_sink_def decode_validate_def locate_prefetched_def and_then_Inr_iff Let_def
        split: if_splits cong: option.case_cong)
  have ok: "markers_ok data (markers_of scanned)"
    using markers_of_ok [OF assms(1)] scan_with_pool_report(1) [OF assms(1) scanned] by simp
  obtain a where a: "assemble_streams data (markers_of scanned) 0 (assembly_start ?cs) = Inr a"
    and rr: "bd_output r = as_output a" "x = index_new blake3 data (as_decoded a) (as_streams a) (as_blocks a)"
    using asm x by (auto simp: assemble_def and_then_Inr_iff)
  have "prefetched_of ?cs = None" by (simp split: option.split)
  from assembled_start [OF this] have start: "assembled data [] (length (as_blocks (assembly_start ?cs))) (as_decoded (assembly_start ?cs)) 0 (assembly_start ?cs)"
    by (simp add: assembly_start_def)
  obtain levels cur where fin: "assembled data levels (length (as_blocks a)) (as_decoded a) cur a" "length (as_streams a) = length levels"
    using assemble_streams_assembled [OF assms(1) ok start _ _ a] by (auto simp: assembly_start_def)
  have "map (\<lambda>s. unat (si_level s)) (as_streams a) = levels" using fin by (simp add: assembled_def)
  then have levels: "unat (si_level (as_streams a ! k)) = levels ! k" if "k < length levels" for k
    using that fin(2) by (metis nth_map)
  have "describes data x (se_output s)"
    using fin levels assms(1) s(2) rr
    by (auto simp: describes_def index_ok_def index_new_def assembled_def block_done_def block_ok_def usize_max_def mult.commute
        sorted_wrt_iff_nth_less)
  then show ?thesis using s(1) rr(2) by (auto simp: index_new_def)
qed

text \<open>C34. The index that decoding a bzip2 file builds is one that loading accepts, and it describes the
  bytes the serial decoder produces: every block it lists decodes to its range of them.\<close>

theorem built_index_describes:
  assumes "length data < 2 ^ 60" and "build_index blake3 available data options = Inr x"
  shows "\<exists>s. decode_serial data = Inr s \<and> describes data x (se_output s) \<and>
    xi_source_len x = length data \<and> xi_source_hash x = blake3 data"
  by (rule built_index_describe [OF assms])

text \<open>The file that holds one stream without blocks: its index lists the stream.\<close>

lemma empty_stream_index:
  "build_index (\<lambda>_. []) (Some 2) empty_stream \<lparr>do_threads = 2, do_memory_limit = 2 ^ 40\<rparr> =
   Inr (index_new (\<lambda>_. []) empty_stream 0
     [\<lparr>si_header = 0, si_level = 9, si_first = 0, si_count = 0, si_decoded_start = 0, si_decoded_len = 0, si_eos = 32, si_crc = 0\<rparr>] [])"
  using empty_stream_scan empty_stream_markers
  by (simp add: build_index_def decode_to_sink_def decode_validate_def decode_resolved_threads_def bz2_thread_pool_def
      locate_prefetched_def MAX_DECODED_BLOCK_def MAX_ENCODED_BLOCK_def empty_stream_assembles)

theorem built_index_describes_witness:
  "\<exists>s x. decode_serial empty_stream = Inr s \<and> describes empty_stream x (se_output s) \<and>
     xi_source_len x = length empty_stream \<and> xi_source_hash x = []"
  using built_index_describes [OF _ empty_stream_index] by (force simp: empty_stream_def)

section \<open>The cache\<close>

text \<open>What a client of a block cache relies on: a cache that holds parts of \<open>contents\<close> only ever
  returns these, and stays so.\<close>

locale block_cache_laws =
  fixes get :: "nat \<Rightarrow> 'c \<Rightarrow> bytes option \<times> 'c" and insert_block :: "nat \<Rightarrow> bytes \<Rightarrow> 'c \<Rightarrow> 'c"
    and holds :: "(nat \<Rightarrow> bytes option) \<Rightarrow> 'c \<Rightarrow> bool"
  assumes get_sound: "holds contents c \<Longrightarrow> fst (get n c) = Some d \<Longrightarrow> contents n = Some d"
    and get_holds: "holds contents c \<Longrightarrow> holds contents (snd (get n c))"
    and insert_holds: "holds contents c \<Longrightarrow> fst (get n c) = None \<Longrightarrow> contents n = Some d \<Longrightarrow> holds contents (insert_block n d c)"
begin

lemma lookup:
  assumes "holds contents c" and "contents n = Some d"
  shows "\<exists>c'. (case fst (get n c) of Some cached \<Rightarrow> f cached (snd (get n c)) | None \<Rightarrow> f d (insert_block n d c)) = f d c' \<and> holds contents c'"
proof (cases "fst (get n c)")
  case None
  then show ?thesis using insert_holds [OF assms(1) None assms(2)] by auto
next
  case (Some cached)
  then show ?thesis using get_sound [OF assms(1) Some] get_holds [OF assms(1)] assms(2) by auto
qed

end

definition stored :: "block_cache \<Rightarrow> nat" where
  "stored c = sum_list (map (\<lambda>n. length (the (ca_entries c n))) (ca_order c))"

definition cache_ok :: "block_cache \<Rightarrow> bool" where
  "cache_ok c \<longleftrightarrow> distinct (ca_order c) \<and> set (ca_order c) = dom (ca_entries c) \<and> ca_bytes c = stored c \<and> ca_bytes c \<le> ca_limit c"

definition cache_holds :: "nat \<Rightarrow> (nat \<Rightarrow> bytes option) \<Rightarrow> block_cache \<Rightarrow> bool" where
  "cache_holds limit contents c \<longleftrightarrow> cache_ok c \<and> ca_limit c = limit \<and> ca_entries c \<subseteq>\<^sub>m contents"

lemma cache_new_ok [simp]: "cache_holds limit contents (cache_new limit)"
  by (simp add: cache_holds_def cache_ok_def cache_new_def stored_def map_le_def)

lemma cache_get_ok:
  assumes "cache_ok c"
  shows "cache_ok (snd (cache_get n c))" and "ca_entries (snd (cache_get n c)) = ca_entries c"
    and "ca_limit (snd (cache_get n c)) = ca_limit c" and "fst (cache_get n c) = ca_entries c n"
proof -
  have "stored (c\<lparr>ca_order := filter (\<lambda>entry. entry \<noteq> n) (ca_order c) @ [n]\<rparr>) = stored c" if "n \<in> set (ca_order c)"
  proof -
    have "set (filter (\<lambda>entry. entry \<noteq> n) (ca_order c) @ [n]) = set (ca_order c)" using that by auto
    moreover have "distinct (filter (\<lambda>entry. entry \<noteq> n) (ca_order c) @ [n])" "distinct (ca_order c)"
      using assms by (simp_all add: cache_ok_def)
    ultimately show ?thesis by (simp add: stored_def sum_list_distinct_conv_sum_set del: filter_append map_append set_append distinct_append sum_list.append)
  qed
  then show "cache_ok (snd (cache_get n c))" using assms
    by (auto simp: cache_get_def cache_ok_def domI split: option.split)
qed (simp_all add: cache_get_def split: option.split)

lemma cache_evict_ok:
  assumes "cache_ok c" and "len \<le> ca_limit c"
  shows "cache_ok (cache_evict len c) \<and> ca_entries (cache_evict len c) \<subseteq>\<^sub>m ca_entries c \<and>
    ca_limit (cache_evict len c) = ca_limit c \<and> ca_bytes (cache_evict len c) + len \<le> ca_limit c"
  using assms
proof (induction len c rule: cache_evict.induct)
  case (1 len c)
  show ?case
  proof (cases "ca_bytes c + len > ca_limit c")
    case True
    show ?thesis
    proof (cases "ca_order c")
      case Nil
      then show ?thesis using True "1.prems" by (simp add: cache_ok_def stored_def)
    next
      case (Cons oldest order)
      obtain d where d: "ca_entries c oldest = Some d" using "1.prems"(1) Cons by (auto simp: cache_ok_def)
      let ?c = "c\<lparr>ca_order := order, ca_entries := (ca_entries c)(oldest := None), ca_bytes := ca_bytes c - length d\<rparr>"
      have dist: "oldest \<notin> set order" using "1.prems"(1) Cons by (simp add: cache_ok_def)
      then have "map (\<lambda>n. length (the (((ca_entries c)(oldest := None)) n))) order = map (\<lambda>n. length (the (ca_entries c n))) order"
        by (auto intro: map_cong)
      then have st: "stored ?c = stored c - length d" using Cons d by (simp add: stored_def cong: map_cong)
      have doms: "insert oldest (set order) = dom (ca_entries c)" "distinct order"
        using "1.prems"(1) Cons by (simp_all add: cache_ok_def)
      then have "set order = dom (ca_entries ?c)" using dist by auto
      then have ok: "cache_ok ?c" using "1.prems"(1) doms(2) st by (auto simp: cache_ok_def)
      have le: "ca_entries ?c \<subseteq>\<^sub>m ca_entries c" by (auto simp: map_le_def)
      have "cache_evict len c = cache_evict len ?c" using True Cons d by (simp add: cache_evict.simps [of len c])
      moreover have "cache_ok (cache_evict len ?c) \<and> ca_entries (cache_evict len ?c) \<subseteq>\<^sub>m ca_entries ?c \<and>
          ca_limit (cache_evict len ?c) = ca_limit ?c \<and> ca_bytes (cache_evict len ?c) + len \<le> ca_limit ?c"
        using "1.IH" [OF True Cons] ok "1.prems"(2) d by (simp add: fun_upd_def)
      ultimately show ?thesis using map_le_trans [OF _ le] by simp
    qed
  qed (use "1.prems" in \<open>simp add: cache_evict.simps [of len c]\<close>)
qed

lemma cache_insert_ok:
  assumes "cache_ok c" and "ca_entries c n = None"
  shows "cache_ok (cache_insert n d c)" and "ca_entries (cache_insert n d c) \<subseteq>\<^sub>m (ca_entries c)(n \<mapsto> d)"
    and "ca_limit (cache_insert n d c) = ca_limit c"
proof -
  let ?c = "cache_evict (length d) c"
  have "cache_ok (cache_insert n d c) \<and> ca_entries (cache_insert n d c) \<subseteq>\<^sub>m (ca_entries c)(n \<mapsto> d) \<and>
      ca_limit (cache_insert n d c) = ca_limit c"
  proof (cases "length d > ca_limit c")
    case True
    then show ?thesis using assms by (auto simp: cache_insert_def map_le_def)
  next
    case False
    then have e: "cache_ok ?c" "ca_entries ?c \<subseteq>\<^sub>m ca_entries c" "ca_limit ?c = ca_limit c" "ca_bytes ?c + length d \<le> ca_limit c"
      using cache_evict_ok [OF assms(1), of "length d"] by simp_all
    have "n \<notin> dom (ca_entries ?c)" using e(2) assms(2) map_le_implies_dom_le by fastforce
    then have out: "n \<notin> set (ca_order ?c)" using e(1) by (simp add: cache_ok_def)
    then have "map (\<lambda>k. length (the (((ca_entries ?c)(n \<mapsto> d)) k))) (ca_order ?c) = map (\<lambda>k. length (the (ca_entries ?c k))) (ca_order ?c)"
      by (auto intro: map_cong)
    then have "stored (cache_insert n d c) = stored ?c + length d"
      using False by (simp add: cache_insert_def stored_def Let_def cong: map_cong)
    then have "cache_ok (cache_insert n d c)" using False e out by (auto simp: cache_insert_def Let_def cache_ok_def)
    then show ?thesis using False e(2,3) by (auto simp: cache_insert_def Let_def map_le_def)
  qed
  then show "cache_ok (cache_insert n d c)" "ca_entries (cache_insert n d c) \<subseteq>\<^sub>m (ca_entries c)(n \<mapsto> d)"
    "ca_limit (cache_insert n d c) = ca_limit c" by simp_all
qed

interpretation blocks: block_cache_laws cache_get cache_insert "cache_holds limit" for limit
proof
  show "contents n = Some d" if "cache_holds limit contents c" "fst (cache_get n c) = Some d" for contents c n d
    using that by (auto simp: cache_holds_def cache_get_ok map_le_def dest!: bspec)
  show "cache_holds limit contents (snd (cache_get n c))" if "cache_holds limit contents c" for contents c n
    using that by (simp add: cache_holds_def cache_get_ok)
  show "cache_holds limit contents (cache_insert n d c)"
    if "cache_holds limit contents c" "fst (cache_get n c) = None" "contents n = Some d" for contents c n d
  proof -
    have c: "cache_ok c" "ca_entries c n = None" "ca_limit c = limit" using that by (simp_all add: cache_holds_def cache_get_ok)
    have "(ca_entries c)(n \<mapsto> d) \<subseteq>\<^sub>m contents" using that by (auto simp: cache_holds_def map_le_def)
    then show ?thesis using cache_insert_ok [OF c(1,2), of d] c(3) map_le_trans by (auto simp: cache_holds_def)
  qed
qed

section \<open>Reading and seeking\<close>

lemma tiled_find:
  assumes "tiled a rs c" and "a \<le> p" and "p < c"
  shows "length (takeWhile (\<lambda>r. fst r + snd r \<le> p) rs) < length rs \<and>
    (let r = rs ! length (takeWhile (\<lambda>r. fst r + snd r \<le> p) rs) in fst r \<le> p \<and> p < fst r + snd r)"
  using assms by (induction rs arbitrary: a) (auto simp: Let_def)

lemma block_number_found:
  assumes "index_ok x" and "p < xi_decoded_len x"
  obtains n where "block_number x p = Some n" and "n < length (xi_blocks x)"
    and "bi_decoded_start (xi_blocks x ! n) \<le> p" and "p < bi_decoded_start (xi_blocks x ! n) + bi_decoded_len (xi_blocks x ! n)"
proof -
  have "tiled 0 (map block_decoded (xi_blocks x)) (xi_decoded_len x)" using assms(1) by (simp add: index_ok_def)
  from tiled_find [OF this _ assms(2)]
  have found: "length (takeWhile (\<lambda>b. bi_decoded_start b + bi_decoded_len b \<le> p) (xi_blocks x)) < length (xi_blocks x) \<and>
    (let r = map block_decoded (xi_blocks x) ! length (takeWhile (\<lambda>b. bi_decoded_start b + bi_decoded_len b \<le> p) (xi_blocks x))
     in fst r \<le> p \<and> p < fst r + snd r)"
    by (simp only: takeWhile_map comp_def block_decoded_def length_map fst_conv snd_conv zero_le)
  show thesis
    using found that [of "length (takeWhile (\<lambda>b. bi_decoded_start b + bi_decoded_len b \<le> p) (xi_blocks x))"]
    unfolding block_number_def Let_def by (metis (no_types, lifting) block_decoded_def fst_conv nth_map snd_conv)
qed

definition block_contents :: "bz2_index \<Rightarrow> bytes \<Rightarrow> nat \<Rightarrow> bytes option" where
  "block_contents x plain n =
     (if n < length (xi_blocks x)
      then (let b = xi_blocks x ! n in Some (slice_of plain (bi_decoded_start b) (bi_decoded_start b + bi_decoded_len b)))
      else None)"

definition reader_ok :: "bytes \<Rightarrow> bz2_index \<Rightarrow> bytes \<Rightarrow> nat \<Rightarrow> indexed_reader \<Rightarrow> bool" where
  "reader_ok source x plain limit r \<longleftrightarrow>
     ir_source r = source \<and> ir_index r = x \<and> ir_position r \<le> length plain \<and> cache_holds limit (block_contents x plain) (ir_cache r)"

lemma part_of_slice:
  assumes "s \<le> p" and "p < s + l" and "s + l \<le> length plain"
  shows "part_of (slice_of plain s (s + l)) (p - s) wanted = Inr (take (min wanted (s + l - p)) (drop p plain))"
proof -
  have "slice_of (slice_of plain s (s + l)) (p - s) (p - s + min wanted (s + l - p)) = take (min wanted (s + l - p)) (drop p plain)"
    using assms by (simp add: slice_of_def drop_take min_def)
  moreover have "length (slice_of plain s (s + l)) = l" using assms by simp
  ultimately show ?thesis using assms by (simp add: part_of_def Let_def add.commute [of l s])
qed

lemma read_block_part_ok:
  assumes d: "describes source x plain" and r: "reader_ok source x plain limit r"
    and n: "n < length (xi_blocks x)" "bi_decoded_start (xi_blocks x ! n) \<le> ir_position r"
      "ir_position r < bi_decoded_start (xi_blocks x ! n) + bi_decoded_len (xi_blocks x ! n)" and w: "0 < wanted"
  obtains count c' where "read_block_part n wanted r = Inr (take count (drop (ir_position r) plain), r\<lparr>ir_cache := c'\<rparr>)"
    and "0 < count" and "count \<le> wanted" and "ir_position r + count \<le> length plain" and "cache_holds limit (block_contents x plain) c'"
proof -
  let ?b = "xi_blocks x ! n"
  let ?data = "slice_of plain (bi_decoded_start ?b) (bi_decoded_start ?b + bi_decoded_len ?b)"
  let ?count = "min wanted (bi_decoded_start ?b + bi_decoded_len ?b - ir_position r)"
  have b: "?b \<in> set (xi_blocks x)" using n(1) by simp
  have ok: "index_ok x" and dec: "bz2_decode_block source (bi_start ?b) (bi_end ?b) (unat (si_level (xi_streams x ! bi_stream ?b)))
      (bi_crc ?b) = Inr ?data" and len: "length plain = xi_decoded_len x"
    using d b by (simp_all add: describes_def)
  have "tiled 0 (map block_decoded (xi_blocks x)) (xi_decoded_len x)" using ok by (simp add: index_ok_def)
  from tiled_bound [OF this, of "block_decoded ?b"] have le: "bi_decoded_start ?b + bi_decoded_len ?b \<le> length plain"
    using b len by (simp add: block_decoded_def)
  have "bi_stream ?b < length (xi_streams x)" using ok b by (auto simp: index_ok_def block_ok_def)
  have src: "ir_source r = source" "ir_index r = x" and c: "cache_holds limit (block_contents x plain) (ir_cache r)"
    using r by (simp_all add: reader_ok_def)
  note part = part_of_slice [OF n(2,3) le]
  have "block_contents x plain n = Some ?data" using n(1) by (simp add: block_contents_def Let_def)
  from blocks.lookup [OF c this, of "\<lambda>cached c. and_then (part_of cached (ir_position r - bi_decoded_start ?b) wanted)
      (\<lambda>part. Inr (part, r\<lparr>ir_cache := c\<rparr>))"] obtain c' where
    "read_block_part n wanted r = Inr (take ?count (drop (ir_position r) plain), r\<lparr>ir_cache := c'\<rparr>)"
    and c': "cache_holds limit (block_contents x plain) c'"
    using n \<open>bi_stream ?b < length (xi_streams x)\<close> src dec le part
    by (auto simp: read_block_part_def Let_def cong: option.case_cong)
  then show thesis using that [of ?count c'] n w le by simp
qed

lemma read_loop_ok:
  assumes "describes source x plain" and "reader_ok source x plain limit r"
  shows "\<exists>r'. read_loop wanted out r = Inr (out @ take wanted (drop (ir_position r) plain), r') \<and>
    reader_ok source x plain limit r' \<and> ir_position r' = ir_position r + length (take wanted (drop (ir_position r) plain))"
  using assms
proof (induction wanted arbitrary: out r rule: less_induct)
  case (less wanted)
  note d = less.prems(1) and r = less.prems(2)
  have len: "length plain = xi_decoded_len x" "ir_index r = x" "index_ok x" using d r by (simp_all add: describes_def reader_ok_def)
  show ?case
  proof (cases "wanted > 0 \<and> ir_position r < xi_decoded_len x")
    case False
    then show ?thesis using r len by (auto simp: read_loop.simps [of wanted out r] reader_ok_def)
  next
    case True
    obtain n where n: "block_number x (ir_position r) = Some n" "n < length (xi_blocks x)"
      "bi_decoded_start (xi_blocks x ! n) \<le> ir_position r"
      "ir_position r < bi_decoded_start (xi_blocks x ! n) + bi_decoded_len (xi_blocks x ! n)"
      using block_number_found [OF len(3)] True by blast
    obtain count c' where p: "read_block_part n wanted r = Inr (take count (drop (ir_position r) plain), r\<lparr>ir_cache := c'\<rparr>)"
      and count: "0 < count" "count \<le> wanted" "ir_position r + count \<le> length plain"
      and c': "cache_holds limit (block_contents x plain) c'"
      using read_block_part_ok [OF d r n(2-4)] True by blast
    let ?r = "r\<lparr>ir_cache := c', ir_position := ir_position r + count\<rparr>"
    have ok: "reader_ok source x plain limit ?r" using r c' count by (simp add: reader_ok_def)
    have out: "take wanted (drop (ir_position r) plain) =
        take count (drop (ir_position r) plain) @ take (wanted - count) (drop (ir_position r + count) plain)"
      using count by (metis add.commute drop_drop le_add_diff_inverse take_add)
    have "length (take count (drop (ir_position r) plain)) = count" using count by simp
    then have "read_loop wanted out r = read_loop (wanted - count) (out @ take count (drop (ir_position r) plain)) ?r"
      using True len n(1) p count by (auto simp: read_loop.simps [of wanted out r] io_other_def)
    moreover obtain r' where "read_loop (wanted - count) (out @ take count (drop (ir_position r) plain)) ?r =
        Inr ((out @ take count (drop (ir_position r) plain)) @ take (wanted - count) (drop (ir_position ?r) plain), r')"
      "reader_ok source x plain limit r'" "ir_position r' = ir_position ?r + length (take (wanted - count) (drop (ir_position ?r) plain))"
      using less.IH [OF _ d ok, of "wanted - count" "out @ take count (drop (ir_position r) plain)"] count by auto
    ultimately show ?thesis using out count by simp
  qed
qed

text \<open>What a client does with the reader, and the same on an array of the decoded bytes.\<close>

datatype reader_op = ReadBytes nat | SeekTo seek_from
datatype reader_result = ReadResult "error + bytes" | SeekResult "error + nat"

fun run_reader :: "reader_op list \<Rightarrow> indexed_reader \<Rightarrow> reader_result list \<times> indexed_reader" where
  "run_reader [] r = ([], r)"
| "run_reader (ReadBytes wanted # ops) r =
     (case indexed_read wanted r of
        Inl e \<Rightarrow> ([ReadResult (Inl e)], r)
      | Inr (bytes, r') \<Rightarrow> (case run_reader ops r' of (results, r'') \<Rightarrow> (ReadResult (Inr bytes) # results, r'')))"
| "run_reader (SeekTo to # ops) r =
     (case indexed_seek to r of
        Inl e \<Rightarrow> (case run_reader ops r of (results, r'') \<Rightarrow> (SeekResult (Inl e) # results, r''))
      | Inr (position, r') \<Rightarrow> (case run_reader ops r' of (results, r'') \<Rightarrow> (SeekResult (Inr position) # results, r'')))"

fun array_target :: "bytes \<Rightarrow> nat \<Rightarrow> seek_from \<Rightarrow> int" where
  "array_target plain pos (SeekStart p) = int p"
| "array_target plain pos (SeekCurrent offset) = int pos + offset"
| "array_target plain pos (SeekEnd offset) = int (length plain) + offset"

fun run_array :: "bytes \<Rightarrow> nat \<Rightarrow> reader_op list \<Rightarrow> reader_result list" where
  "run_array plain pos [] = []"
| "run_array plain pos (ReadBytes wanted # ops) =
     (let got = take wanted (drop pos plain) in ReadResult (Inr got) # run_array plain (pos + length got) ops)"
| "run_array plain pos (SeekTo to # ops) =
     (let target = array_target plain pos to in
      if 0 \<le> target \<and> target \<le> int (length plain)
      then SeekResult (Inr (nat target)) # run_array plain (nat target) ops
      else SeekResult (Inl (Io InvalidInput)) # run_array plain pos ops)"

lemma indexed_seek_array:
  assumes "describes source x plain" and "reader_ok source x plain limit r"
  shows "indexed_seek to r =
    (let target = array_target plain (ir_position r) to in
     if 0 \<le> target \<and> target \<le> int (length plain) then Inr (nat target, r\<lparr>ir_position := nat target\<rparr>) else Inl (Io InvalidInput))"
  using assms by (cases to) (auto simp: indexed_seek_def describes_def reader_ok_def Let_def)

lemma run_reader_array:
  assumes d: "describes source x plain" and "reader_ok source x plain limit r"
  shows "fst (run_reader ops r) = run_array plain (ir_position r) ops \<and> reader_ok source x plain limit (snd (run_reader ops r))"
  using assms(2)
proof (induction ops arbitrary: r)
  case (Cons op ops)
  note r = Cons.prems
  show ?case
  proof (cases op)
    case (ReadBytes wanted)
    obtain r' where r': "indexed_read wanted r = Inr (take wanted (drop (ir_position r) plain), r')" "reader_ok source x plain limit r'"
      "ir_position r' = ir_position r + length (take wanted (drop (ir_position r) plain))"
      using read_loop_ok [OF d r, of wanted "[]"] by (auto simp: indexed_read_def)
    show ?thesis using Cons.IH [OF r'(2)] r'(1,3) by (simp add: ReadBytes Let_def case_prod_beta)
  next
    case (SeekTo to)
    let ?t = "array_target plain (ir_position r) to"
    have "reader_ok source x plain limit (r\<lparr>ir_position := nat ?t\<rparr>)" if "?t \<le> int (length plain)"
      using r that by (simp add: reader_ok_def nat_le_iff)
    then show ?thesis using Cons.IH Cons.IH [OF r] by (auto simp: SeekTo indexed_seek_array [OF d r] Let_def case_prod_beta)
  qed
qed (simp add: reader_ok_def)

lemma reader_ok_stored: "reader_ok source x plain limit r \<Longrightarrow> stored (ir_cache r) \<le> limit"
  by (auto simp: reader_ok_def cache_holds_def cache_ok_def)

text \<open>C33. A reader opened on a bzip2 file behaves, for every sequence of reads and seeks and every
  cache limit, as an array of the bytes the serial decoder produces, and never keeps more decoded
  bytes than the limit.\<close>

theorem indexed_reader_is_array:
  assumes "length data < 2 ^ 60" and "reader_from_source blake3 available data None options limit = Inr r"
  shows "\<exists>s. decode_serial data = Inr s \<and>
    (\<forall>ops. fst (run_reader ops r) = run_array (se_output s) 0 ops \<and>
       stored (ir_cache (snd (run_reader ops r))) \<le> limit)"
proof -
  obtain x where x: "build_index blake3 available data options = Inr x" and r: "r = reader_new data x limit"
    using assms(2) by (auto simp: reader_from_source_def and_then_Inr_iff)
  obtain s where s: "decode_serial data = Inr s" "describes data x (se_output s)"
    using built_index_describe [OF assms(1) x] by blast
  have "reader_ok data x (se_output s) limit r" and "ir_position r = 0" by (simp_all add: r reader_ok_def reader_new_def)
  then show ?thesis using s(1) run_reader_array [OF s(2), of limit r] reader_ok_stored by metis
qed

theorem indexed_reader_is_array_witness:
  "\<exists>r s. reader_from_source (\<lambda>_. []) (Some 2) empty_stream None \<lparr>do_threads = 2, do_memory_limit = 2 ^ 40\<rparr> 7 = Inr r \<and>
     decode_serial empty_stream = Inr s \<and>
     fst (run_reader [SeekTo (SeekEnd (- 1)), ReadBytes 3] r) = run_array (se_output s) 0 [SeekTo (SeekEnd (- 1)), ReadBytes 3]"
proof -
  obtain r where r: "reader_from_source (\<lambda>_. []) (Some 2) empty_stream None \<lparr>do_threads = 2, do_memory_limit = 2 ^ 40\<rparr> 7 = Inr r"
    using empty_stream_index by (simp add: reader_from_source_def)
  have "length empty_stream < 2 ^ 60" by (simp add: empty_stream_def)
  from indexed_reader_is_array [OF this r] r show ?thesis by blast
qed

end
