(* ===== verification/Gzip_Safe.thy ===== *)
theory Gzip_Safe
  imports Gzip
begin

text \<open>
  The serial gzip decoder on arbitrary input: it always returns, and never panics. What the DEFLATE
  decoder needs of the output it writes through is a locale, which both outputs provide; a table from
  \<open>inf_huffman_new\<close> consumes a bit with every symbol, so the fuel of the symbol loop is enough.
\<close>

section \<open>Reading bits\<close>

abbreviation returns :: "('a \<Rightarrow> bool) \<Rightarrow> error + 'a \<Rightarrow> bool" where
  "returns P r \<equiv> outcome (\<lambda>e. e \<noteq> Panic \<and> e \<noteq> Unending) P r"

lemma returns_index [outcome_simps]: "returns P (index xs i) \<longleftrightarrow> i < length xs \<and> P (xs ! i)"
  by (auto simp: index_def get_at_def outcome_simps)

lemma returns_index_range [outcome_simps]:
  "returns P (index_range xs a b) \<longleftrightarrow> a \<le> b \<and> b \<le> length xs \<and> P (slice_of xs a b)"
  by (auto simp: index_range_def get_range_def outcome_simps)

lemma mask_bound: "unat (ucast ((w :: u64) AND (2 ^ count - 1)) :: u32) < 2 ^ count"
proof -
  have "w AND (2 ^ count - 1) = take_bit count w" by (simp add: take_bit_eq_mask mask_eq_exp_minus_1)
  moreover have "unat (take_bit count w) < 2 ^ count" by (simp add: unsigned_take_bit_eq take_bit_nat_less_exp)
  moreover have "unat (ucast (x :: u64) :: u32) \<le> unat x" for x by (simp add: unsigned_ucast_eq take_bit_nat_less_eq_self)
  ultimately show ?thesis by (metis le_less_trans)
qed

lemma inf_peek_returns: "returns (\<lambda>v. unat v < 2 ^ count \<and> pos + count \<le> data_bits data) (inf_peek data pos count)"
  unfolding inf_peek_def Let_def
  by (auto simp: outcome_simps gz_error_def checked_add_Some_iff push_bit_of_1 mask_bound split: option.splits)

lemma inf_read_returns:
  shows "returns (\<lambda>r. unat (fst r) < 2 ^ count \<and> snd r = pos + count \<and> (0 < count \<longrightarrow> snd r \<le> data_bits data)) (inf_read data pos count)"
  using inf_peek_returns [of count pos data] by (auto simp: inf_read_def outcome_simps outcome_iff and_then_Inl_iff and_then_Inr_iff)

section \<open>Tables\<close>

definition inf_huffman_ok :: "inf_huffman \<Rightarrow> bool" where
  "inf_huffman_ok h \<longleftrightarrow> ih_max h = 0 \<or>
     (ih_max h \<le> MAX_CODE_BITS \<and> length (ih_table h) = 2 ^ ih_max h \<and> (\<forall>e\<in>set (ih_table h). e \<noteq> - 1 \<longrightarrow> 0 < unat (drop_bit 9 e)))"

lemma count_lengths_returns:
  "length (fst st) = MAX_CODE_BITS + 1 \<Longrightarrow> snd st \<le> MAX_CODE_BITS \<Longrightarrow>
     returns (\<lambda>r. length (fst r) = MAX_CODE_BITS + 1 \<and> snd r \<le> MAX_CODE_BITS \<and> snd st \<le> snd r \<and> (\<forall>l\<in>set ls. l \<le> snd r))
       (count_lengths ls st)"
proof (induction ls arbitrary: st)
  case (Cons l ls)
  let ?st = "if l \<noteq> 0 then ((fst st)[l := fst st ! l + 1], max (snd st) l) else st"
  show ?case
  proof (cases "l > MAX_CODE_BITS")
    case False
    then have "length (fst ?st) = MAX_CODE_BITS + 1" "snd ?st \<le> MAX_CODE_BITS" "snd st \<le> snd ?st" "l \<le> snd ?st"
      using Cons.prems by auto
    then show ?thesis using Cons.IH [of ?st] False by (auto elim!: outcome_mono)
  qed (simp add: outcome_simps gz_error_def)
qed (simp add: outcome_simps)

lemma kraft_check_returns: "returns (\<lambda>_. True) (kraft_check counts remaining)"
  by (induction counts remaining rule: kraft_check.induct) (simp_all add: outcome_simps gz_error_def Let_def)

lemma reverse_low_bits_less: "l \<le> 16 \<Longrightarrow> reverse_low_bits v l < 2 ^ l"
proof -
  assume l: "l \<le> 16"
  have "unat (reverse_bits16 (word_of_nat v)) < 2 ^ 16" using unsigned_less [of "reverse_bits16 (word_of_nat v)"] by simp
  also have "(2 :: nat) ^ 16 = 2 ^ l * 2 ^ (16 - l)" using l by (simp flip: power_add)
  finally have "unat (reverse_bits16 (word_of_nat v)) div 2 ^ (16 - l) < 2 ^ l" by (rule less_mult_imp_div_less)
  moreover have "unat (drop_bit (16 - l) w) = unat w div 2 ^ (16 - l)" for w :: u16
  proof -
    have "take_bit LENGTH(16) (unat w) = unat w" by (simp only: take_bit_nat_eq_self_iff unsigned_less)
    then show ?thesis unfolding unsigned_drop_bit_eq by (simp only: drop_bit_eq_div [of _ "unat w"])
  qed
  ultimately show ?thesis unfolding reverse_low_bits_def by (simp only:)
qed

lemma or_push_less: "a < 2 ^ l \<Longrightarrow> l \<le> m \<Longrightarrow> (s :: nat) < 2 ^ (m - l) \<Longrightarrow> a OR push_bit l s < 2 ^ m"
proof -
  assume a: "a < 2 ^ l" "l \<le> m" "s < 2 ^ (m - l)"
  have "push_bit l s = s * 2 ^ l" by (simp add: push_bit_eq_mult)
  moreover have "s * 2 ^ l < 2 ^ (m - l) * 2 ^ l" using a by simp
  moreover have "(2 :: nat) ^ (m - l) * 2 ^ l = 2 ^ m" using a(2) by (simp flip: power_add)
  ultimately have "take_bit m (push_bit l s) = push_bit l s" by (simp add: take_bit_nat_eq_self_iff)
  moreover have "a < 2 ^ m" using a by (meson less_le_trans one_le_numeral power_increasing)
  then have "take_bit m a = a" by (simp add: take_bit_nat_eq_self_iff)
  ultimately have "take_bit m (a OR push_bit l s) = a OR push_bit l s" by (simp add: take_bit_or)
  then show ?thesis by (metis take_bit_nat_less_exp)
qed

lemma pack_entry_length: "0 < l \<Longrightarrow> l \<le> MAX_CODE_BITS \<Longrightarrow> 0 < unat (drop_bit 9 (pack_entry l symbol))"
proof -
  assume l: "0 < l" "l \<le> MAX_CODE_BITS"
  then have u: "unat (word_of_nat l :: u16) = l" by (simp add: unat_of_nat MAX_CODE_BITS_def)
  have "l \<in> set [0..<16]" using l(2) by (simp add: MAX_CODE_BITS_def)
  moreover have "\<forall>l\<in>set [0..<16]. drop_bit 9 (push_bit 9 (word_of_nat l :: u16)) = word_of_nat l" by code_simp
  ultimately have "drop_bit 9 (push_bit 9 (word_of_nat l :: u16)) = word_of_nat l" by blast
  then have "drop_bit 9 (pack_entry l symbol) = word_of_nat l OR drop_bit 9 (word_of_nat symbol)"
    by (simp only: pack_entry_def drop_bit_or)
  moreover have "(word_of_nat l :: u16) \<noteq> 0" using u l(1) by auto
  ultimately show ?thesis by (metis or_eq_0_iff unat_eq_zero word_neq_0_conv bot_nat_0.not_eq_extremum)
qed

lemma fill_suffixes_returns:
  assumes "length table = 2 ^ m" and "\<forall>e\<in>set table. e \<noteq> - 1 \<longrightarrow> 0 < unat (drop_bit 9 e)"
    and "reversed < 2 ^ l" and "l \<le> m" and "0 < unat (drop_bit 9 packed)" and "\<forall>s\<in>set suffixes. s < 2 ^ (m - l)"
  shows "returns (\<lambda>t. length t = 2 ^ m \<and> (\<forall>e\<in>set t. e \<noteq> - 1 \<longrightarrow> 0 < unat (drop_bit 9 e))) (fill_suffixes suffixes reversed l packed table)"
  using assms
proof (induction suffixes arbitrary: table)
  case (Cons s suffixes)
  have "reversed OR push_bit l s < 2 ^ m" using Cons.prems by (simp add: or_push_less)
  moreover have "\<forall>e\<in>set (table[reversed OR push_bit l s := packed]). e \<noteq> - 1 \<longrightarrow> 0 < unat (drop_bit 9 e)"
    using Cons.prems set_update_subset_insert [of table "reversed OR push_bit l s" packed] by blast
  ultimately show ?case using Cons.prems Cons.IH [of "table[reversed OR push_bit l s := packed]"] by (simp add: Let_def)
qed (simp add: outcome_simps)

lemma fill_table_returns:
  assumes "length table = 2 ^ m" and "\<forall>e\<in>set table. e \<noteq> - 1 \<longrightarrow> 0 < unat (drop_bit 9 e)"
    and "m \<le> MAX_CODE_BITS" and "\<forall>p\<in>set ps. snd p \<le> m" and "length starts = MAX_CODE_BITS + 1"
  shows "returns (\<lambda>t. length t = 2 ^ m \<and> (\<forall>e\<in>set t. e \<noteq> - 1 \<longrightarrow> 0 < unat (drop_bit 9 e))) (fill_table ps m starts table)"
  using assms
proof (induction ps arbitrary: starts table)
  case (Cons p ps)
  show ?case
  proof (cases "snd p = 0")
    case False
    let ?l = "snd p"
    have l: "?l \<le> m" "?l \<le> MAX_CODE_BITS" "?l < length starts" using Cons.prems by simp_all
    have "?l \<le> 16" using l(2) by (simp add: MAX_CODE_BITS_def)
    then have "returns (\<lambda>t. length t = 2 ^ m \<and> (\<forall>e\<in>set t. e \<noteq> - 1 \<longrightarrow> 0 < unat (drop_bit 9 e)))
        (fill_suffixes [0..<2 ^ (m - ?l)] (reverse_low_bits (starts ! ?l) ?l) ?l (pack_entry ?l (fst p)) table)"
      using Cons.prems l False by (intro fill_suffixes_returns reverse_low_bits_less pack_entry_length) simp_all
    then have "returns (\<lambda>t. returns (\<lambda>t. length t = 2 ^ m \<and> (\<forall>e\<in>set t. e \<noteq> - 1 \<longrightarrow> 0 < unat (drop_bit 9 e)))
          (fill_table ps m (starts[?l := starts ! ?l + 1]) t))
        (fill_suffixes [0..<2 ^ (m - ?l)] (reverse_low_bits (starts ! ?l) ?l) ?l (pack_entry ?l (fst p)) table)"
      by (rule outcome_mono) (use Cons.prems Cons.IH in simp)
    then show ?thesis using False l(3) by (simp add: Let_def outcome_simps)
  qed (use Cons in \<open>simp add: Let_def\<close>)
qed (simp add: outcome_simps)

lemma length_fold_start_step: "length (fst (fold (start_step counts) bits st)) = length (fst st)"
  by (induction bits arbitrary: st) (simp_all add: start_step_def Let_def)

lemma inf_huffman_new_returns: "returns inf_huffman_ok (inf_huffman_new lengths)"
proof -
  let ?start = "(replicate (MAX_CODE_BITS + 1) 0, 0) :: nat list \<times> nat"
  have "returns (\<lambda>r. length (fst r) = MAX_CODE_BITS + 1 \<and> snd r \<le> MAX_CODE_BITS \<and> snd ?start \<le> snd r \<and> (\<forall>l\<in>set lengths. l \<le> snd r))
      (count_lengths lengths ?start)"
    by (rule count_lengths_returns) simp_all
  then show ?thesis
    unfolding inf_huffman_new_def
  proof (rule outcome_bind, goal_cases)
    case (1 st)
    have "returns (\<lambda>t. length t = 2 ^ snd st \<and> (\<forall>e\<in>set t. e \<noteq> - 1 \<longrightarrow> 0 < unat (drop_bit 9 e)))
        (fill_table (enumerate 0 lengths) (snd st) (start_codes (fst st)) (replicate (2 ^ snd st) (- 1)))"
      using 1 by (intro fill_table_returns)
        (auto simp: start_codes_def length_fold_start_step in_set_enumerate_eq split: if_splits)
    then have "returns (\<lambda>t. inf_huffman_ok \<lparr>ih_table = t, ih_max = snd st\<rparr>)
        (fill_table (enumerate 0 lengths) (snd st) (start_codes (fst st)) (replicate (2 ^ snd st) (- 1)))"
      using 1 by (auto simp: inf_huffman_ok_def elim: outcome_mono)
    then have "returns (\<lambda>_. returns (\<lambda>t. inf_huffman_ok \<lparr>ih_table = t, ih_max = snd st\<rparr>)
        (fill_table (enumerate 0 lengths) (snd st) (start_codes (fst st)) (replicate (2 ^ snd st) (- 1))))
        (kraft_check (tl (fst st)) 1)"
      by (intro outcome_mono [OF kraft_check_returns])
    then show ?case by (simp add: Let_def outcome_simps) (simp add: inf_huffman_ok_def)
  qed
qed

lemma inf_decode_returns:
  assumes "inf_huffman_ok h"
  shows "returns (\<lambda>r. pos < snd r \<and> (pos \<le> data_bits data \<longrightarrow> snd r \<le> data_bits data)) (inf_decode h data pos)"
proof (cases "ih_max h = 0")
  case False
  let ?n = "min (ih_max h) (data_bits data - pos)"
  have len: "length (ih_table h) = 2 ^ ih_max h" "\<forall>e\<in>set (ih_table h). e \<noteq> - 1 \<longrightarrow> 0 < unat (drop_bit 9 e)"
    using assms False by (simp_all add: inf_huffman_ok_def)
  have lt: "v < 2 ^ ih_max h" if "v < 2 ^ ?n" for v :: nat
    using that power_increasing [of ?n "ih_max h" "2 :: nat"] by linarith
  have entry: "0 < unat (drop_bit 9 (ih_table h ! v))" if "v < 2 ^ ?n" "ih_table h ! v \<noteq> - 1" for v
    using lt [OF that(1)] that(2) len by auto
  have "returns (\<lambda>v. returns (\<lambda>r. pos < snd r \<and> (pos \<le> data_bits data \<longrightarrow> snd r \<le> data_bits data))
      (and_then (index (ih_table h) (unat v)) (\<lambda>packed.
        if packed = - 1 then Inl (gz_error (InvalidCode pos))
        else let l = unat (drop_bit 9 packed) in
          if l > data_bits data - pos then Inl (gz_error (TruncatedCode pos))
          else Inr (unat (packed AND 0x1ff), pos + l)))) (inf_peek data pos ?n)"
    by (rule outcome_mono [OF inf_peek_returns]) (use lt entry len in \<open>auto simp: outcome_simps gz_error_def Let_def\<close>)
  then show ?thesis using False by (simp add: inf_decode_def Let_def outcome_and_then)
qed (simp add: inf_decode_def outcome_simps gz_error_def)

section \<open>Block tables\<close>

lemma read_code_lengths_returns: "returns (\<lambda>r. pos \<le> snd r) (read_code_lengths data symbols lengths pos)"
proof (induction symbols arbitrary: lengths pos)
  case (Cons symbol symbols)
  have "returns (\<lambda>r. returns (\<lambda>q. pos \<le> snd q) (read_code_lengths data symbols (lengths[symbol := unat (fst r)]) (snd r)))
      (inf_read data pos 3)"
    by (rule outcome_mono [OF inf_read_returns], rule outcome_mono [OF Cons.IH]) auto
  then show ?case by (simp add: outcome_and_then)
qed (simp add: outcome_simps)

lemma read_extra_returns:
  "(\<And>r. P (fst r) (pos + count)) \<Longrightarrow> returns (\<lambda>r. P (fst r) (snd r)) (inf_read data pos count)"
  by (rule outcome_mono [OF inf_read_returns]) auto

lemma length_symbol_returns:
  "returns (\<lambda>r. length lengths < length (fst r)) (length_symbol data whole lengths symbol pos)"
proof -
  have "returns (\<lambda>r. length lengths < length (fst r))
      (and_then (inf_read data pos count) (\<lambda>r. and_then (append_lengths lengths whole v (unat (fst r) + k) (snd r)) (\<lambda>ls. Inr (ls, snd r))))"
    if "0 < k" for count k v
    unfolding outcome_and_then
    by (rule outcome_mono [OF inf_read_returns]) (use that in \<open>auto simp: append_lengths_def outcome_simps gz_error_def\<close>)
  then show ?thesis by (auto simp: length_symbol_def outcome_simps gz_error_def simp del: outcome_and_then)
qed

lemma read_all_lengths_returns:
  "inf_huffman_ok h \<Longrightarrow> returns (\<lambda>r. whole \<le> length (fst r)) (read_all_lengths data h whole lengths pos)"
proof (induction data h whole lengths pos rule: read_all_lengths.induct)
  case (1 data h whole lengths pos)
  show ?case
  proof (cases "length lengths < whole")
    case True
    have "returns (\<lambda>r. returns (\<lambda>r. whole \<le> length (fst r))
        (and_then (length_symbol data whole lengths (fst r) (snd r)) (\<lambda>r. read_all_lengths data h whole (fst r) (snd r))))
        (inf_decode h data pos)"
    proof (rule outcome_mono [OF inf_decode_returns [OF 1(2)]])
      fix r
      assume r: "inf_decode h data pos = Inr r"
      show "returns (\<lambda>r. whole \<le> length (fst r))
          (and_then (length_symbol data whole lengths (fst r) (snd r)) (\<lambda>r. read_all_lengths data h whole (fst r) (snd r)))"
        by (rule outcome_bind [OF length_symbol_returns]) (use 1 True r in blast)
    qed
    then show ?thesis using True by (simp add: read_all_lengths.simps [of data h whole lengths pos] outcome_and_then)
  qed (simp add: read_all_lengths.simps [of data h whole lengths pos] outcome_simps)
qed

lemma dynamic_tables_returns:
  "returns (\<lambda>t. inf_huffman_ok (fst (fst t)) \<and> inf_huffman_ok (snd (fst t))) (dynamic_tables data pos)"
  unfolding dynamic_tables_def Let_def
proof (rule outcome_bind [OF inf_read_returns], rule outcome_bind [OF inf_read_returns], rule outcome_bind [OF inf_read_returns], goal_cases)
  case (1 a b c)
  then have "unat (fst c) + 4 \<le> length CODE_ORDER" by (simp add: CODE_ORDER_def)
  then have "index_range CODE_ORDER 0 (unat (fst c) + 4) = Inr (slice_of CODE_ORDER 0 (unat (fst c) + 4))" by simp
  then show ?case
  proof (simp only: and_then.simps, intro outcome_bind [OF read_code_lengths_returns] outcome_bind [OF inf_huffman_new_returns]
      outcome_bind [OF read_all_lengths_returns], goal_cases)
    case (2 e f g)
    then have "index (fst g) 256 = Inr (fst g ! 256)" by simp
    then show ?case
      by (auto simp: gz_error_def intro!: outcome_ifI outcome_InlI outcome_InrI outcome_bind [OF inf_huffman_new_returns])
  qed
qed

lemma fixed_tables_returns: "returns (\<lambda>t. inf_huffman_ok (fst t) \<and> inf_huffman_ok (snd t)) fixed_tables"
  unfolding fixed_tables_def by (intro outcome_bind [OF inf_huffman_new_returns] outcome_InrI) simp

lemma read_match_returns:
  assumes "inf_huffman_ok h" and "i < 29"
  shows "returns (\<lambda>m. pos < snd m \<and> 0 < fst (fst m) \<and> (pos \<le> data_bits data \<longrightarrow> snd m \<le> data_bits data)) (read_match h data i pos)"
proof -
  have base: "index LENGTH_BASE i = Inr (LENGTH_BASE ! i)" "index LENGTH_EXTRA i = Inr (LENGTH_EXTRA ! i)"
    using assms(2) by (simp_all add: LENGTH_BASE_def LENGTH_EXTRA_def)
  have "\<forall>b\<in>set LENGTH_BASE. 0 < b" by (simp add: LENGTH_BASE_def)
  moreover have "i < length LENGTH_BASE" using assms(2) by (simp add: LENGTH_BASE_def)
  ultimately have pos: "0 < LENGTH_BASE ! i" by simp
  show ?thesis
    unfolding read_match_def Let_def base and_then.simps
  proof (intro outcome_bind [OF inf_read_returns] outcome_bind [OF inf_decode_returns [OF assms(1)]] outcome_ifI, goal_cases)
    case (2 r c)
    then have "index DISTANCE_BASE (fst c) = Inr (DISTANCE_BASE ! fst c)" "index DISTANCE_EXTRA (fst c) = Inr (DISTANCE_EXTRA ! fst c)"
      by (simp_all add: DISTANCE_BASE_def DISTANCE_EXTRA_def)
    then show ?case
      using 2 pos by (auto intro!: outcome_bind [OF inf_read_returns] outcome_InrI)
  qed (simp add: gz_error_def outcome_simps)
qed

section \<open>Blocks\<close>

text \<open>What the DEFLATE decoder relies on: the operations of the output return and keep its invariant.\<close>

locale inflate_output =
  fixes ops :: "'o deflate_output" and ok :: "'o \<Rightarrow> bool"
  assumes emit: "ok out \<Longrightarrow> returns ok (do_emit ops b out)"
    and extend: "ok out \<Longrightarrow> returns ok (do_extend ops bs out)"
    and copy: "ok out \<Longrightarrow> 0 < len \<Longrightarrow> returns ok (do_copy ops distance len out)"
begin

lemma symbols_return:
  assumes "inf_huffman_ok literal" and "inf_huffman_ok distance" and "data_bits data - pos < fuel" and "ok out"
  shows "returns (\<lambda>r. ok (snd r)) (inf_symbols ops literal distance data fuel pos out)"
  using assms(3,4)
proof (induction fuel arbitrary: pos out)
  case (Suc fuel)
  have rest: "returns (\<lambda>r. ok (snd r)) (inf_symbols ops literal distance data fuel q o')"
    if "pos < q" "q \<le> data_bits data" "ok o'" for q o'
    using that Suc.prems(1) by (intro Suc.IH) simp_all
  show ?case
    unfolding inf_symbols.simps
  proof (rule outcome_bind [OF inf_decode_returns [OF assms(1)]], goal_cases)
    case (1 r)
    have "pos \<le> data_bits data"
      using 1(1) by (auto simp: inf_decode_def Let_def and_then_Inr_iff split: if_splits dest!: inf_peek_in_range)
    then have r: "pos < snd r" "snd r \<le> data_bits data" using 1(2) by simp_all
    have "returns (\<lambda>r. ok (snd r)) (and_then (do_emit ops b out) (\<lambda>out. inf_symbols ops literal distance data fuel (snd r) out))" for b
      by (rule outcome_bind [OF emit [OF Suc.prems(2)]]) (use r rest in blast)
    moreover have "returns (\<lambda>r. ok (snd r)) (and_then (read_match distance data (fst r - 257) (snd r)) (\<lambda>m.
        and_then (do_copy ops (snd (fst m)) (fst (fst m)) out) (\<lambda>out. inf_symbols ops literal distance data fuel (snd m) out)))"
      if "fst r \<le> 285"
    proof (rule outcome_bind [OF read_match_returns [OF assms(2)]], goal_cases)
      case (2 m)
      then have m: "0 < fst (fst m)" "pos < snd m" "snd m \<le> data_bits data" using r by simp_all
      show ?case by (rule outcome_bind [OF copy [OF Suc.prems(2) m(1)]]) (use m rest in blast)
    qed (use that in simp)
    ultimately show ?case using Suc.prems(2) by (auto simp: outcome_InrI gz_error_def intro!: outcome_ifI outcome_InlI)
  qed
qed simp

lemma stored_returns: "ok out \<Longrightarrow> returns (\<lambda>r. ok (snd r)) (decode_stored ops data pos out)"
  unfolding decode_stored_def read_aligned_bytes_def Let_def
  by (intro outcome_bind [OF inf_read_returns] outcome_ifI)
    (auto simp: gz_error_def outcome_simps checked_add_Some_iff split: option.splits intro!: outcome_mono [OF extend])

lemma data_bits_le: "data_bits data \<le> 8 * length data"
  by (simp add: data_bits_def sat_mul_def mult.commute)

lemma content_returns:
  assumes "ok out"
  shows "returns (\<lambda>r. ok (snd (snd r))) (block_content ops data kind pos out)"
proof -
  have symbols: "returns (\<lambda>r. ok (snd r)) (decode_huffman_block ops l d data p out)" if "inf_huffman_ok l" "inf_huffman_ok d" for l d p
    using symbols_return [OF that _ assms, of data p "8 * length data + 1"] data_bits_le [of data]
    by (simp add: decode_huffman_block_def del: inf_symbols.simps)
  show ?thesis
    unfolding block_content_def
    by (intro outcome_ifI outcome_bind [OF stored_returns [OF assms]] outcome_bind [OF fixed_tables_returns]
        outcome_bind [OF dynamic_tables_returns] outcome_bind [OF symbols] outcome_InrI)
      (simp_all add: gz_error_def outcome_simps)
qed

lemma block_returns: "ok out \<Longrightarrow> returns (\<lambda>r. ok (snd (snd r))) (inf_block_at ops data member_no pos out)"
  unfolding inf_block_at_def Let_def
  by (intro outcome_bind [OF inf_read_returns] outcome_bind [OF content_returns] outcome_InrI) simp_all

lemma serial_loop_returns: "ok out \<Longrightarrow> returns (\<lambda>r. ok (fst (snd r))) (serial_loop ops data member_no pos out blocks progress)"
proof (induction "data_bits data - pos" arbitrary: pos out blocks progress rule: less_induct)
  case less
  show ?case
    unfolding serial_loop.simps [of ops data member_no pos out blocks progress] Let_def
  proof (rule outcome_bind [OF block_returns [OF less.prems]])
    fix r
    assume r: "inf_block_at ops data member_no pos out = Inr r" "ok (snd (snd r))"
    show "returns (\<lambda>r. ok (fst (snd r)))
        (if ib_final (fst r)
         then Inr (fst (snd r), snd (snd r), blocks @ [fst r], progress @ [((fst (snd r) + 7) div 8, do_total ops (snd (snd r)))])
         else serial_loop ops data member_no (fst (snd r)) (snd (snd r)) (blocks @ [fst r])
                (progress @ [((fst (snd r) + 7) div 8, do_total ops (snd (snd r)))]))"
      using r(2) less.hyps inf_block_advances [OF r(1)] by (intro outcome_ifI outcome_InrI) simp_all
  qed
qed

end

section \<open>The two outputs\<close>

definition emitter_ok :: "emitter \<Rightarrow> bool" where
  "emitter_ok e \<longleftrightarrow> em_history_len e \<le> length (em_buffer e) \<and> min (em_member_decoded e) WINDOW \<le> length (em_buffer e)"

lemma length_copy_window:
  "keep \<le> length xs \<Longrightarrow> length (take keep (copy_within xs (length xs - keep) (length xs) 0)) = keep"
  by (simp add: copy_within_def)

lemma flush_pending_ok: "emitter_ok e \<Longrightarrow> emitter_ok (flush_pending e)"
  using length_copy_window [of WINDOW "em_buffer e"]
  by (auto simp: flush_pending_def emitter_ok_def Let_def HISTORY_COMPACT_def WINDOW_def)

lemma emitter_grow_returns:
  "emitter_ok e \<Longrightarrow> length buffer = length (em_buffer e) + n \<Longrightarrow> returns emitter_ok (emitter_grow buffer n e)"
  unfolding emitter_grow_def Let_def
  by (auto simp: checked_add_Some_iff gz_error_def intro!: outcome_bind_ok_or outcome_InrI flush_pending_ok)
    (auto simp: emitter_ok_def)

interpretation emitter: inflate_output emitter_ops emitter_ok
proof
  show "returns emitter_ok (do_copy emitter_ops distance len e)" if "emitter_ok e" "0 < len" for e distance len
    using that(1) emitter_grow_returns [OF that(1), of "copy_bytes (em_buffer e) distance len" len]
    by (auto simp: emitter_ops_def emitter_copy_def Let_def gz_error_def outcome_simps emitter_ok_def extend_match_copy)
qed (auto simp: emitter_ops_def emit_byte_def extend_bytes_def intro!: emitter_grow_returns)

text \<open>A symbol of a segment is a byte or names a position in the window before it.\<close>

definition symbol_ok :: "u16 \<Rightarrow> bool" where
  "symbol_ok x \<longleftrightarrow> x \<le> 255 \<or> WINDOW \<le> unat x"

definition marker_ok :: "marker_output \<Rightarrow> bool" where
  "marker_ok m \<longleftrightarrow> (\<forall>x\<in>set (mo_marked m). symbol_ok x) \<and> mo_clean_start m \<le> length (mo_clean m) \<and>
     (\<not> mo_clean_mode m \<longrightarrow> mo_clean m = [] \<and> mo_clean_start m = 0 \<and> mo_history m = UnknownHistory)"

lemma ucast_byte_le [simp]: "(ucast (b :: byte) :: u16) \<le> 255"
proof -
  have "unat (ucast b :: u16) = unat b"
    unfolding unsigned_ucast_eq by (rule take_bit_nat_eq_self, rule less_le_trans [OF unsigned_less]) simp
  moreover have "unat b < 2 ^ LENGTH(8)" by (rule unsigned_less)
  moreover have "(2 :: nat) ^ LENGTH(8) = 256" by simp
  moreover have "unat (255 :: u16) = 255" by simp
  ultimately show ?thesis unfolding word_le_nat_alt by linarith
qed

lemma symbol_ok_byte [simp]: "symbol_ok (ucast (b :: byte))"
  by (simp add: symbol_ok_def)

lemma set_copy_bytes: "0 < d \<Longrightarrow> d \<le> length xs \<Longrightarrow> set (copy_bytes xs d n) = set xs"
  by (auto simp: copy_bytes_periodic periodic_def less_diff_conv2 add.commute intro!: nth_mem)

text \<open>The symbols a copy takes from the window.\<close>

definition window_marker :: "nat \<Rightarrow> u16" where
  "window_marker i = word_of_nat (WINDOW + i)"

definition window_markers :: "nat \<Rightarrow> nat \<Rightarrow> nat \<Rightarrow> u16 list" where
  "window_markers n distance from_window = map (\<lambda>offset. window_marker (WINDOW + n - distance + offset)) [0..<from_window]"

lemma window_markers_eq:
  "map (\<lambda>offset. word_of_nat (WINDOW + (WINDOW + n - distance) + offset)) [0..<from_window] = window_markers n distance from_window"
  by (simp add: window_markers_def window_marker_def add.assoc)

lemma unat_window_marker [simp]: "i < WINDOW \<Longrightarrow> unat (window_marker i) = WINDOW + i"
  unfolding window_marker_def by (simp only: unat_of_nat WINDOW_def) simp

lemma length_window_markers [simp]: "length (window_markers n distance k) = k"
  by (simp add: window_markers_def)

lemma window_markers_nth:
  assumes "n < distance" and "from_window \<le> distance - n" and "distance \<le> WINDOW" and "i < from_window"
  shows "window_markers n distance from_window ! i = window_marker (WINDOW + n - distance + i)"
    and "WINDOW + n - distance + i < WINDOW"
  using assms by (simp_all add: window_markers_def)

lemma window_markers_ok:
  assumes "n < distance" and "from_window \<le> distance - n" and "distance \<le> WINDOW"
  shows "\<forall>x\<in>set (window_markers n distance from_window). symbol_ok x"
proof
  fix x
  assume "x \<in> set (window_markers n distance from_window)"
  then obtain i where i: "i < from_window" "x = window_markers n distance from_window ! i"
    by (auto simp: in_set_conv_nth)
  show "symbol_ok x"
    using window_markers_nth [OF assms i(1)] i(2) by (simp add: symbol_ok_def)
qed

lemma copy_marked_cases:
  assumes "mo_history m = UnknownHistory" and "0 < len"
  obtains (refused) "copy_marked distance len m = Inl (gz_error (BackReference distance WINDOW))"
    | (near) "0 < distance" "distance \<le> WINDOW" "distance \<le> length (mo_marked m)"
        "copy_marked distance len m = Inr (m\<lparr>mo_marked := copy_bytes (mo_marked m) distance len\<rparr>)"
    | (far) k where "0 < distance" "distance \<le> WINDOW" "length (mo_marked m) < distance" "k = min (distance - length (mo_marked m)) len"
        "copy_marked distance len m = Inr (m\<lparr>mo_marked :=
           copy_bytes (mo_marked m @ window_markers (length (mo_marked m)) distance k) distance (len - k)\<rparr>)"
proof (cases "distance = 0 \<or> distance > WINDOW")
  case True
  then show ?thesis using assms refused by (simp add: copy_marked_def)
next
  case False
  show ?thesis
  proof (cases "distance > length (mo_marked m)")
    case True
    let ?k = "min (distance - length (mo_marked m)) len"
    have unfolded: "copy_marked distance len m =
        (if ?k < len
         then and_then (extend_match (mo_marked m @ window_markers (length (mo_marked m)) distance ?k) distance (len - ?k))
                (\<lambda>marked. Inr (m\<lparr>mo_marked := marked\<rparr>))
         else Inr (m\<lparr>mo_marked := mo_marked m @ window_markers (length (mo_marked m)) distance ?k\<rparr>))"
      using False True assms(1) unfolding copy_marked_def Let_def window_markers_eq by simp
    have "copy_marked distance len m = Inr (m\<lparr>mo_marked :=
           copy_bytes (mo_marked m @ window_markers (length (mo_marked m)) distance ?k) distance (len - ?k)\<rparr>)"
    proof (cases "?k < len")
      case True
      then have "distance \<le> length (mo_marked m @ window_markers (length (mo_marked m)) distance ?k)" by simp
      then show ?thesis using True False unfolding unfolded by (simp add: extend_match_copy)
    qed (simp add: unfolded)
    from far [OF _ _ True refl this] False show ?thesis by simp
  next
    case near': False
    then show ?thesis using False assms near by (simp add: copy_marked_def Let_def extend_match_copy)
  qed
qed

lemma copy_marked_returns:
  assumes "marker_ok m" and "\<not> mo_clean_mode m" and "0 < len"
  shows "returns marker_ok (copy_marked distance len m)"
proof -
  have m: "mo_history m = UnknownHistory" "\<forall>x\<in>set (mo_marked m). symbol_ok x" using assms by (simp_all add: marker_ok_def)
  from m(1) assms(3) show ?thesis
  proof (cases rule: copy_marked_cases [of m len distance])
    case (far k)
    let ?xs = "mo_marked m @ window_markers (length (mo_marked m)) distance k"
    have "\<forall>x\<in>set ?xs. symbol_ok x" using m(2) window_markers_ok [of "length (mo_marked m)" distance k] far(2-4) by auto
    moreover have "set (copy_bytes ?xs distance (len - k)) = set ?xs"
    proof (cases "k < len")
      case True
      then show ?thesis using far(1,3,4) by (intro set_copy_bytes) auto
    qed (use far(4) in simp)
    ultimately show ?thesis using assms far by (simp add: marker_ok_def outcome_simps)
  qed (use assms m in \<open>auto simp: marker_ok_def outcome_simps gz_error_def set_copy_bytes\<close>)
qed

lemma marker_copy_returns: "marker_ok m \<Longrightarrow> 0 < len \<Longrightarrow> returns marker_ok (marker_copy distance len m)"
proof -
  assume m: "marker_ok m" "0 < len"
  have "returns marker_ok (copy_clean distance len m)" if "mo_clean_mode m"
    using m(1) that by (auto simp: copy_clean_def Let_def gz_error_def outcome_simps extend_match_copy marker_ok_def)
  then show ?thesis
    using copy_marked_returns [OF m(1) _ m(2)] by (simp add: marker_copy_def ensure_capacity_def outcome_simps gz_error_def)
qed

interpretation marker: inflate_output marker_ops marker_ok
proof
  show "returns marker_ok (do_copy marker_ops distance len m)" if "marker_ok m" "0 < len" for m distance len
    using marker_copy_returns [OF that] by (simp add: marker_ops_def)
  show "returns marker_ok (do_emit marker_ops b m)" "returns marker_ok (do_extend marker_ops bs m)" if "marker_ok m" for m b bs
    using that by (auto simp: marker_ops_def marker_emit_def marker_extend_def ensure_capacity_def outcome_simps gz_error_def marker_ok_def)
qed

lemma try_clean_ok: "marker_ok m \<Longrightarrow> marker_ok (try_clean m)"
  by (auto simp: try_clean_def marker_ok_def Let_def)

lemma segment_loop_returns: "marker_ok m \<Longrightarrow> returns (\<lambda>r. marker_ok (fst (snd r))) (segment_loop data stop_bit pos m blocks)"
proof (induction "data_bits data - pos" arbitrary: pos m blocks rule: less_induct)
  case less
  show ?case
    unfolding segment_loop.simps [of data stop_bit pos m blocks] Let_def
  proof (rule outcome_bind [OF marker.block_returns [OF less.prems]])
    fix r
    assume r: "inf_block_at marker_ops data 0 pos m = Inr r" "marker_ok (snd (snd r))"
    show "returns (\<lambda>r. marker_ok (fst (snd r)))
        (if ib_final (fst r) then Inr (inf_align (fst (snd r)), try_clean (snd (snd r)), blocks @ [fst r], True)
         else if stop_bit \<le> fst (snd r) \<and> ib_kind (fst r) = DynamicHuffman
         then Inr (fst (snd r), try_clean (snd (snd r)), blocks @ [fst r], False)
         else segment_loop data stop_bit (fst (snd r)) (try_clean (snd (snd r))) (blocks @ [fst r]))"
      using less.hyps inf_block_advances [OF r(1)] try_clean_ok [OF r(2)] by (intro outcome_ifI outcome_InrI) simp_all
  qed
qed

section \<open>Segments\<close>

definition segment_ok :: "gz_segment \<Rightarrow> bool" where
  "segment_ok s \<longleftrightarrow> (\<forall>x\<in>set (sg_marked s). symbol_ok x) \<and> sg_clean_start s \<le> length (sg_clean s) \<and> sg_clean_hashed s = clean_output s"

lemma decode_segment_returns: "returns segment_ok (decode_segment data start_bit stop_bit history limit)"
proof -
  have "marker_ok (marker_new history limit)" by (cases history) (simp_all add: marker_ok_def marker_new_def)
  note loop = segment_loop_returns [OF this]
  show ?thesis
    unfolding decode_segment_def Let_def
    by (intro outcome_bind [where Q = "\<lambda>_. True"] outcome_bind [OF loop] outcome_InrI)
      (auto simp: inf_at_def gz_error_def outcome_simps segment_ok_def marker_ok_def clean_output_def)
qed

lemma resolve_symbol_returns: "symbol_ok x \<Longrightarrow> returns (\<lambda>_. True) (resolve_symbol predecessor x)"
proof -
  assume x: "symbol_ok x"
  have "unat x < 2 * WINDOW" using unsigned_less [of x] by (simp add: WINDOW_def)
  then show ?thesis using x
    by (auto simp: resolve_symbol_def symbol_ok_def Let_def gz_error_def outcome_simps)
qed

lemma resolve_each_returns: "\<forall>x\<in>set xs. symbol_ok x \<Longrightarrow> returns (\<lambda>bs. length bs = length xs) (resolve_each predecessor xs)"
proof (induction xs)
  case (Cons x xs)
  then show ?case
    by (auto intro!: outcome_bind [OF resolve_symbol_returns] outcome_bind [OF Cons.IH] outcome_InrI)
qed (simp add: outcome_simps)

lemma resolve_symbols_returns: "\<forall>x\<in>set xs. symbol_ok x \<Longrightarrow> returns (\<lambda>bs. length bs = length xs) (resolve_symbols xs predecessor)"
  using resolve_each_returns by (simp add: resolve_symbols_def outcome_simps)

lemma search_segment_returns: "returns segment_ok (search_segment data job search)"
proof (induction data job search rule: search_segment.induct)
  case (1 data job search)
  show ?case
  proof (cases "find_dynamic_boundary data search (gj_search_end job)")
    case (Some start)
    show ?thesis
      using decode_segment_returns [of data start "gj_stop_bit job" UnknownHistory "gj_output_limit job"] "1.IH" [OF Some] Some
      by (cases "decode_segment data start (gj_stop_bit job) UnknownHistory (gj_output_limit job)")
        (simp_all add: search_segment.simps [of data job search] outcome_simps)
  qed (simp add: search_segment.simps [of data job search] outcome_simps gz_error_def)
qed

lemma resolve_segment_returns:
  "segment_ok s \<Longrightarrow> returns (\<lambda>r. length (rs_marked r) = length (sg_marked s)) (resolve_segment s predecessor)"
  unfolding resolve_segment_def
  by (rule outcome_bind [OF resolve_symbols_returns]) (auto simp: segment_ok_def outcome_simps)

lemma successor_window_returns:
  assumes "segment_ok s" and "length predecessor \<le> WINDOW"
  shows "returns (\<lambda>w. length w \<le> WINDOW) (successor_window s predecessor)"
proof -
  have "\<forall>x\<in>set (drop n (sg_marked s)). symbol_ok x" for n using assms(1) by (auto simp: segment_ok_def dest: in_set_dropD)
  then show ?thesis
    unfolding successor_window_def Let_def
    by (intro outcome_ifI outcome_InrI outcome_bind [OF resolve_symbols_returns]) auto
qed

text \<open>C37. Whatever a worker finds at whatever bit: the search for a segment returns without a panic, every
  symbol of the segment it returns is a byte or a marker into the 32 KiB before it, and resolving these
  against any predecessor gives one byte for each or an error, but never panics.\<close>

theorem segment_symbols_typed:
  "outcome (\<lambda>e. e \<noteq> Panic \<and> e \<noteq> Unending)
     (\<lambda>s. list_all symbol_ok (sg_marked s) \<and> sg_clean_start s \<le> length (sg_clean s) \<and>
        (\<forall>predecessor. outcome (\<lambda>e. e \<noteq> Panic \<and> e \<noteq> Unending) (\<lambda>r. length (rs_marked r) = length (sg_marked s))
           (resolve_segment s predecessor)))
     (run_gzip_job data job)"
  unfolding run_gzip_job_def
  by (rule outcome_mono [OF search_segment_returns])
    (simp add: segment_ok_def list_all_iff resolve_segment_returns)

section \<open>The serial decoder\<close>

lemma serial_stream_returns: "returns (\<lambda>_. True) (serial_stream crc data start_byte output member_no decoded_base progress)"
proof -
  have "emitter_ok (emitter_new output decoded_base)" by (simp add: emitter_ok_def emitter_new_def)
  then show ?thesis
    unfolding serial_stream_def Let_def by (intro outcome_bind [OF emitter.serial_loop_returns] outcome_InrI) simp_all
qed

lemma serial_loop_onwards: "serial_loop ops data member_no pos out blocks progress = Inr r \<Longrightarrow> pos < fst r"
proof (induction "data_bits data - pos" arbitrary: pos out blocks progress rule: less_induct)
  case less
  obtain b where b: "inf_block_at ops data member_no pos out = Inr b"
    and rest: "(if ib_final (fst b) then Inr (fst (snd b), snd (snd b), blocks @ [fst b], progress @ [((fst (snd b) + 7) div 8, do_total ops (snd (snd b)))])
       else serial_loop ops data member_no (fst (snd b)) (snd (snd b)) (blocks @ [fst b]) (progress @ [((fst (snd b) + 7) div 8, do_total ops (snd (snd b)))])) = Inr r"
    using less.prems by (auto simp: serial_loop.simps [of ops data member_no pos] and_then_Inr_iff Let_def)
  note adv = inf_block_advances [OF b]
  show ?case
  proof (cases "ib_final (fst b)")
    case False
    then show ?thesis using less.hyps [OF _ rest [unfolded if_not_P [OF False]]] adv by simp
  qed (use adv rest in auto)
qed

lemma stream_returns:
  assumes "decode_resolved_threads available options = 1 \<or> length data < GZ_MIN_PARALLEL" and "ds_end_byte stream \<le> length data"
  shows "returns (\<lambda>r. inf_new (ds_start_byte stream) < dr_end_bit (sr_report r))
    (decompress_deflate_stream crc available data stream output options progress)"
proof -
  have advances: "inf_new start_byte < dr_end_bit (sr_report r)"
    if "serial_stream crc d start_byte output n base progress = Inr r" for d start_byte n base r
    using that by (auto simp: serial_stream_def and_then_Inr_iff Let_def dest!: serial_loop_onwards)
  have "returns (\<lambda>r. inf_new start_byte < dr_end_bit (sr_report r)) (serial_stream crc d start_byte output n base progress)"
    for d start_byte n base
    by (rule outcome_mono [OF serial_stream_returns]) (rule advances)
  note serial = this
  show ?thesis
    unfolding decompress_deflate_stream_def Let_def
  proof (intro outcome_bind_ok_or outcome_ifI serial, goal_cases)
    case (3 d)
    then have False using assms by (auto split: if_splits)
    then show ?case ..
  qed (simp_all add: gz_error_def outcome_simps)
qed

lemma text_returns: "returns (\<lambda>r. cursor \<le> snd r) (optional_text present data cursor)"
  by (auto simp: optional_text_def read_zero_terminated_def Let_def outcome_simps gz_error_def checked_add_Some_iff split: option.splits)

lemma parse_header_returns: "returns (\<lambda>h. start + 10 \<le> gh_deflate_start h) (parse_header crc data start)"
proof -
  have extra: "returns (\<lambda>c. cursor \<le> c) (skip_extra present data cursor)" for present cursor
    by (auto simp: skip_extra_def Let_def outcome_simps gz_error_def checked_add_Some_iff split: option.splits)
  have check: "start \<le> cursor \<Longrightarrow> returns (\<lambda>c. cursor \<le> c) (check_header_crc crc present data start cursor)" for present cursor
    by (auto simp: check_header_crc_def Let_def outcome_simps gz_error_def get_range_def split: option.splits)
  show ?thesis
    unfolding parse_header_def Let_def
  proof (intro outcome_bind_ok_or outcome_ifI outcome_bind [OF extra] outcome_bind [OF text_returns], goal_cases)
    case (6 fixed_end fixed a b c)
    then show ?case by (intro outcome_bind [OF check] outcome_InrI) (auto simp: checked_add_Some_iff)
  qed (simp_all add: gz_error_def outcome_simps)
qed

lemma decode_member_returns:
  assumes "decode_resolved_threads available options = 1 \<or> length data < GZ_MIN_PARALLEL" and "length data < 2 ^ 60" and "start < length data"
  shows "returns (\<lambda>r. start < snd r) (decode_member crc available data options start s)"
  unfolding decode_member_def
proof (rule outcome_bind [OF parse_header_returns], rule outcome_ifI, goal_cases)
  case (2 header)
  have le: "ds_end_byte \<lparr>ds_start_byte = gh_deflate_start header, ds_end_byte = length data, ds_member = length (gs_members s),
      ds_decoded_base = gs_decoded s\<rparr> \<le> length data" by simp
  show ?case
  proof (rule outcome_bind [OF stream_returns [OF assms(1) le]], goal_cases)
    case (1 r)
    have "start < (dr_end_bit (sr_report r) + 7) div 8 + 8"
      using 1(2) 2(2) assms(2,3) by (simp add: inf_new_def sat_mul_def usize_max_def min_def split: if_splits)
    then show ?case
      unfolding Let_def by (intro outcome_bind_ok_or outcome_ifI outcome_InrI) (auto simp: gz_error_def outcome_simps checked_add_Some_iff)
  qed
qed (simp add: gz_error_def outcome_simps)

lemma gzip_members_return:
  assumes "decode_resolved_threads available options = 1 \<or> length data < GZ_MIN_PARALLEL" and "length data < 2 ^ 60"
  shows "returns (\<lambda>_. True) (gzip_members crc available data options pos s)"
proof (induction "length data - pos" arbitrary: pos s rule: less_induct)
  case less
  show ?case
  proof (cases "pos \<ge> length data")
    case False
    then have pos: "pos < length data" by simp
    have rest: "returns (\<lambda>_. True) (if snd r \<le> pos then Inl Unending else gzip_members crc available data options (snd r) (fst r))"
      if "pos < snd r" for r
      using less.hyps [of "snd r" "fst r"] pos that by simp
    have "returns (\<lambda>_. True) (and_then (decode_member crc available data options pos s)
        (\<lambda>r. if snd r \<le> pos then Inl Unending else gzip_members crc available data options (snd r) (fst r)))"
      by (rule outcome_bind [OF decode_member_returns [OF assms pos]]) (rule rest)
    then show ?thesis
      unfolding gzip_members.simps [of crc available data options pos s] by (intro outcome_ifI outcome_InrI) simp_all
  qed (simp add: gzip_members.simps [of crc available data options pos s] outcome_simps)
qed

text \<open>C6. Without speculation (one thread, or an input below 16 MiB) the gzip decoder returns on every
  input of less than \<open>2 ^ 60\<close> bytes: it neither panics nor runs for ever, whatever the bytes are.\<close>

theorem serial_gzip_returns:
  assumes "length data < 2 ^ 60" and "decode_resolved_threads available options = 1 \<or> length data < GZ_MIN_PARALLEL"
  shows "gzip_decompress crc available data options \<notin> {Inl Panic, Inl Unending}"
proof -
  have "returns (\<lambda>_. True) (gzip_decompress crc available data options)"
    unfolding gzip_decompress_def decode_validate_def
    using gzip_members_return [OF assms(2,1), of crc 0 gzip_start]
    by (auto simp: gz_error_def outcome_simps outcome_iff and_then_Inl_iff)
  then show ?thesis by (auto simp: outcome_iff)
qed

theorem serial_gzip_returns_witness:
  "gzip_decompress (\<lambda>_. 7) (Some 8) (replicate 40 0x1f) \<lparr>do_threads = 8, do_memory_limit = 2 ^ 40\<rparr> \<notin> {Inl Panic, Inl Unending}"
  by (rule serial_gzip_returns) (simp_all add: GZ_MIN_PARALLEL_def)

section \<open>A wait without end\<close>

text \<open>
  The consumer of the parallel stream asks for the job of the next key; behind the last job there is
  none, and with the last block not yet seen it waits for ever.
\<close>

lemma parallel_waits_for_ever:
  "\<not> ps_final s \<Longrightarrow> length jobs < ps_key s \<Longrightarrow> parallel_loop data start_byte end_byte threads jobs s = Inl Unending"
  by (simp add: parallel_loop.simps [of data start_byte end_byte threads jobs s] parallel_step_def take_primary_result_def)

end
