(* ===== verification/Gzip_Parallel.thy ===== *)
theory Gzip_Parallel
  imports Gzip_Safe "HOL-Library.Code_Target_Nat"
begin

text \<open>
  The parallel gzip decoder is the serial one. Both outputs of the DEFLATE decoder are compared with
  the plain output, the list of all bytes so far: the locale \<open>deflate_simulation\<close> carries a relation
  between two outputs through symbols and blocks. A segment decoded without its history, resolved
  against the window before it, gives the bytes that decoding with the history gives, and the chain of
  segments the consumer commits is the sequence of blocks the serial decoder walks.
\<close>

section \<open>Simulation\<close>

text \<open>
  \<open>good\<close> is a property of the state the left side ends in, which holds then of all states before it:
  markers that can be resolved, lengths in range.
\<close>

lemma read_match_positive: "read_match h data i pos = Inr m \<Longrightarrow> 0 < fst (fst m)"
proof -
  assume "read_match h data i pos = Inr m"
  then obtain b k where "index LENGTH_BASE i = Inr b" "fst (fst m) = b + k"
    by (auto simp: read_match_def and_then_Inr_iff Let_def split: if_splits)
  moreover from this(1) have "b \<in> set LENGTH_BASE" by (auto simp: index_def ok_or_Inr_iff get_at_Some_iff)
  moreover have "\<forall>b\<in>set LENGTH_BASE. 0 < b" by (simp add: LENGTH_BASE_def)
  ultimately show ?thesis by auto
qed

text \<open>A sequence of blocks, none of them final, and such a sequence with or without a final block behind it.\<close>

inductive block_steps :: "'o deflate_output \<Rightarrow> bytes \<Rightarrow> nat \<Rightarrow> 'o \<Rightarrow> nat \<Rightarrow> 'o \<Rightarrow> bool" for ops data where
  none: "block_steps ops data pos x pos x"
| step: "inf_block_at ops data n pos x = Inr (b, q, y) \<Longrightarrow> \<not> ib_final b \<Longrightarrow> block_steps ops data q y r z \<Longrightarrow>
    block_steps ops data pos x r z"

inductive blocks_run :: "'o deflate_output \<Rightarrow> bytes \<Rightarrow> nat \<Rightarrow> 'o \<Rightarrow> bool \<Rightarrow> nat \<Rightarrow> 'o \<Rightarrow> bool" for ops data where
  unfinished: "block_steps ops data pos x q y \<Longrightarrow> blocks_run ops data pos x False q y"
| finished: "block_steps ops data pos x r z \<Longrightarrow> inf_block_at ops data n r z = Inr (b, p, y) \<Longrightarrow> ib_final b \<Longrightarrow>
    blocks_run ops data pos x True (inf_align p) y"

inductive_cases blocks_run_unfinished: "blocks_run ops data pos x False q y"
inductive_cases blocks_run_finished: "blocks_run ops data pos x True q y"

lemma block_steps_trans: "block_steps ops data pos x q y \<Longrightarrow> block_steps ops data q y r z \<Longrightarrow> block_steps ops data pos x r z"
  by (induction rule: block_steps.induct) (auto intro: block_steps.intros)

lemma blocks_run_after: "blocks_run ops data q y fin r z \<Longrightarrow> block_steps ops data pos x q y \<Longrightarrow> blocks_run ops data pos x fin r z"
  by (erule blocks_run.cases) (auto intro: blocks_run.intros block_steps_trans)

lemma blocks_run_step:
  "inf_block_at ops data n pos x = Inr (b, q, y) \<Longrightarrow> \<not> ib_final b \<Longrightarrow> blocks_run ops data q y fin r z \<Longrightarrow> blocks_run ops data pos x fin r z"
  by (blast intro: blocks_run_after block_steps.intros)

lemma blocks_run_trans: "blocks_run ops data pos x False q y \<Longrightarrow> blocks_run ops data q y fin r z \<Longrightarrow> blocks_run ops data pos x fin r z"
  by (blast elim: blocks_run_unfinished intro: blocks_run_after)

lemma block_any_member:
  "inf_block_at ops data n pos x = Inr (b, q, y) \<Longrightarrow> \<exists>b'. inf_block_at ops data k pos x = Inr (b', q, y) \<and> ib_final b' = ib_final b"
  unfolding inf_block_at_def Let_def by (auto simp: and_then_Inr_iff)

lemma serial_loop_run:
  assumes "block_steps ops data pos x r z" and "inf_block_at ops data n r z = Inr (b, q, y)" and "ib_final b"
  shows "\<exists>bs ps. serial_loop ops data k pos x blocks progress = Inr (q, y, bs, ps)"
  using assms
proof (induction arbitrary: blocks progress rule: block_steps.induct)
  case (none pos x)
  then show ?case
    using block_any_member [OF none(1), of k] by (auto simp: serial_loop.simps [of ops data k pos x] Let_def)
next
  case (step n pos x b' q' y' r z)
  from block_any_member [OF step(1), of k] obtain b'' where
    "inf_block_at ops data k pos x = Inr (b'', q', y')" "\<not> ib_final b''" using step(2) by auto
  then show ?case using step.IH [OF step.prems] by (simp add: serial_loop.simps [of ops data k pos x] Let_def)
qed

locale deflate_simulation =
  fixes left :: "'a deflate_output" and right :: "'b deflate_output" and rel :: "'a \<Rightarrow> 'b \<Rightarrow> bool" and good :: "'a \<Rightarrow> bool"
  assumes emit: "do_emit left b x = Inr x' \<Longrightarrow> good x' \<Longrightarrow> good x \<and> (rel x y \<longrightarrow> (\<exists>y'. do_emit right b y = Inr y' \<and> rel x' y'))"
    and extend: "do_extend left bs x = Inr x' \<Longrightarrow> good x' \<Longrightarrow> good x \<and> (rel x y \<longrightarrow> (\<exists>y'. do_extend right bs y = Inr y' \<and> rel x' y'))"
    and copy: "do_copy left d n x = Inr x' \<Longrightarrow> good x' \<Longrightarrow> 0 < n \<Longrightarrow>
      good x \<and> (rel x y \<longrightarrow> (\<exists>y'. do_copy right d n y = Inr y' \<and> rel x' y'))"
begin

lemma symbols:
  "inf_symbols left l d data fuel pos x = Inr (q, x') \<Longrightarrow> good x' \<Longrightarrow>
     good x \<and> (rel x y \<longrightarrow> (\<exists>y'. inf_symbols right l d data fuel pos y = Inr (q, y') \<and> rel x' y'))"
proof (induction fuel arbitrary: pos x y)
  case (Suc fuel)
  from Suc.prems(1) show ?case
  proof (cases rule: inf_symbols_cases)
    case (literal c x1)
    note IH = Suc.IH [OF literal(4) Suc.prems(2)]
    show ?thesis using emit [OF literal(3), of y] IH literal(1,2) by fastforce
  next
    case (stop c)
    then show ?thesis using Suc.prems(2) by simp
  next
    case (copied c m x1)
    note IH = Suc.IH [OF copied(6) Suc.prems(2)]
    have "\<not> fst c \<le> 255" "fst c \<noteq> 256" using copied(2) by simp_all
    then show ?thesis using copy [OF copied(5) _ read_match_positive [OF copied(4)], of y] IH copied(1,3,4) by fastforce
  qed
qed simp

lemma stored:
  assumes "decode_stored left data pos x = Inr (q, x')" and "good x'"
  shows "good x \<and> (rel x y \<longrightarrow> (\<exists>y'. decode_stored right data pos y = Inr (q, y') \<and> rel x' y'))"
proof -
  obtain a b c where r: "inf_read data (inf_align pos) 16 = Inr a" "inf_read data (snd a) 16 = Inr b"
    "(ucast (fst a) :: u16) = NOT (ucast (fst b))"
    "read_aligned_bytes data (snd b) (unat (ucast (fst a) :: u16)) = Inr c" "do_extend left (fst c) x = Inr x'" "q = snd c"
    using assms(1) unfolding decode_stored_def Let_def by (auto simp: and_then_Inr_iff split: if_splits)
  then show ?thesis using extend [OF r(5) assms(2), of y] by (auto simp: decode_stored_def Let_def)
qed

lemma content:
  assumes "block_content left data kind pos x = Inr (k, q, x')" and "good x'"
  shows "good x \<and> (rel x y \<longrightarrow> (\<exists>y'. block_content right data kind pos y = Inr (k, q, y') \<and> rel x' y'))"
proof -
  consider (raw) "kind = 0" "decode_stored left data pos x = Inr (q, x')" "k = StoredBlock"
    | (fixed) t where "kind = 1" "fixed_tables = Inr t" "decode_huffman_block left (fst t) (snd t) data pos x = Inr (q, x')" "k = FixedHuffman"
    | (dynamic) t where "kind = 2" "dynamic_tables data pos = Inr t"
        "decode_huffman_block left (fst (fst t)) (snd (fst t)) data (snd t) x = Inr (q, x')" "k = DynamicHuffman"
    using assms(1) unfolding block_content_def by (auto simp: and_then_Inr_iff split: if_splits)
  then show ?thesis
  proof cases
    case raw
    then show ?thesis using stored [OF raw(2) assms(2), of y] by (auto simp: block_content_def)
  next
    case fixed
    have "block_content right data kind pos y =
        and_then (decode_huffman_block right (fst t) (snd t) data pos y) (\<lambda>r. Inr (FixedHuffman, r))"
      by (simp only: block_content_def fixed(1,2) and_then.simps if_True) simp
    then show ?thesis using fixed symbols [OF fixed(3) [unfolded decode_huffman_block_def] assms(2), of y]
      by (auto simp: decode_huffman_block_def simp del: inf_symbols.simps)
  next
    case dynamic
    then show ?thesis using symbols [OF dynamic(3) [unfolded decode_huffman_block_def] assms(2), of y]
      by (auto simp: block_content_def decode_huffman_block_def simp del: inf_symbols.simps)
  qed
qed

lemma block:
  assumes "inf_block_at left data n pos x = Inr (b, q, x')" and "good x'"
  shows "good x \<and> (rel x y \<longrightarrow> (\<exists>b' y'. inf_block_at right data n' pos y = Inr (b', q, y') \<and>
    ib_final b' = ib_final b \<and> ib_kind b' = ib_kind b \<and> rel x' y'))"
proof -
  obtain f k c where r: "inf_read data pos 1 = Inr f" "inf_read data (snd f) 2 = Inr k"
    "block_content left data (unat (fst k)) (snd k) x = Inr (c, q, x')" "ib_final b = (fst f \<noteq> 0)" "ib_kind b = c"
    using assms(1) unfolding inf_block_at_def Let_def by (auto simp: and_then_Inr_iff)
  then show ?thesis using content [OF r(3) assms(2), of y] by (auto simp: inf_block_at_def Let_def)
qed

lemma steps:
  "block_steps left data pos x q x' \<Longrightarrow> good x' \<Longrightarrow> good x \<and> (rel x y \<longrightarrow> (\<exists>y'. block_steps right data pos y q y' \<and> rel x' y'))"
proof (induction arbitrary: y rule: block_steps.induct)
  case (step n pos x b q x1 r x')
  show ?case using block [OF step(1), of y n] step.IH [OF step.prems] step(2) by (fastforce intro: block_steps.step)
qed (auto intro: block_steps.none)

lemma run:
  assumes "blocks_run left data pos x fin q x'" and "good x'" and "rel x y"
  shows "\<exists>y'. blocks_run right data pos y fin q y' \<and> rel x' y'"
  using assms(1)
proof cases
  case unfinished
  then show ?thesis using steps [OF unfinished(2) assms(2), of y] assms(3) by (auto intro: blocks_run.intros)
next
  case (finished r z n b p)
  have z: "good z" using block [OF finished(4) assms(2)] by blast
  obtain w where w: "block_steps right data pos y r w" "rel z w" using steps [OF finished(3) z, of y] assms(3) by blast
  obtain b' y' where "inf_block_at right data n r w = Inr (b', p, y')" "ib_final b'" "rel x' y'"
    using block [OF finished(4) assms(2), of w n] w(2) finished(5) by blast
  then show ?thesis using w(1) finished(1,2) by (auto intro: blocks_run.intros)
qed

end

section \<open>The plain output\<close>

definition plain_ops :: "bytes deflate_output" where
  "plain_ops = \<lparr>do_total = length, do_emit = (\<lambda>b p. Inr (p @ [b])), do_extend = (\<lambda>bs p. Inr (p @ bs)),
     do_copy = (\<lambda>d n p. let available = min (length p) WINDOW in
       if d = 0 \<or> d > available then Inl (gz_error (BackReference d available)) else Inr (copy_bytes p d n))\<rparr>"

definition last_window :: "bytes \<Rightarrow> bytes" where
  "last_window h = drop (length h - WINDOW) h"

lemma length_last_window: "length (last_window h) = min (length h) WINDOW"
  by (simp add: last_window_def)

definition resolvable :: "bytes \<Rightarrow> u16 \<Rightarrow> bool" where
  "resolvable h x \<longleftrightarrow> x \<le> 255 \<or> WINDOW - length h \<le> unat x - WINDOW"

definition resolved :: "bytes \<Rightarrow> u16 \<Rightarrow> byte" where
  "resolved h x = (if x \<le> 255 then ucast x else h ! (length h + (unat x - WINDOW) - WINDOW))"

lemma window_above: "WINDOW \<le> unat (x :: u16) \<Longrightarrow> \<not> x \<le> 255"
  by (simp add: word_le_nat_alt WINDOW_def)

lemma resolve_symbol_iff:
  assumes "symbol_ok x"
  shows "resolve_symbol (last_window h) x = Inr b \<longleftrightarrow> resolvable h x \<and> b = resolved h x"
proof (cases "x \<le> 255")
  case False
  then have x: "WINDOW \<le> unat x" "unat x < 2 * WINDOW"
    using assms unsigned_less [of x] by (simp_all add: symbol_ok_def WINDOW_def)
  show ?thesis
  proof (cases "length h \<le> WINDOW")
    case True
    then have w: "last_window h = h" by (simp add: last_window_def)
    show ?thesis
    proof (cases "unat x - WINDOW < WINDOW - length h")
      case False
      then have i: "unat x - WINDOW - (WINDOW - length h) < length h" "unat x - WINDOW - (WINDOW - length h) = length h + (unat x - WINDOW) - WINDOW"
        using x True by simp_all
      then show ?thesis using False \<open>\<not> x \<le> 255\<close> x w
        by (auto simp: resolve_symbol_def resolvable_def resolved_def add.commute [of "length h"])
    qed (use False x w in \<open>simp add: resolve_symbol_def resolvable_def\<close>)
  next
    case False
    then have len: "length (last_window h) = WINDOW" by (simp add: length_last_window)
    have "last_window h ! (unat x - WINDOW) = h ! (length h + (unat x - WINDOW) - WINDOW)"
      using False x by (simp add: last_window_def)
    then show ?thesis using False \<open>\<not> x \<le> 255\<close> x len by (auto simp: resolve_symbol_def resolvable_def resolved_def)
  qed
qed (simp add: resolve_symbol_def resolvable_def resolved_def eq_commute)

lemma resolve_each_iff:
  "\<forall>x\<in>set xs. symbol_ok x \<Longrightarrow>
     resolve_each (last_window h) xs = Inr bs \<longleftrightarrow> (\<forall>x\<in>set xs. resolvable h x) \<and> bs = map (resolved h) xs"
  by (induction xs arbitrary: bs) (auto simp: and_then_Inr_iff resolve_symbol_iff)

lemma lookup_resolved:
  assumes "symbol_ok x" and "length (last_window h) = WINDOW"
  shows "resolvable h x" and "lookup_symbol (last_window h) x = resolved h x"
proof -
  have h: "WINDOW \<le> length h" using assms(2) by (simp add: length_last_window)
  then show "resolvable h x" by (simp add: resolvable_def)
  have "unat x < 2 * WINDOW" using unsigned_less [of x] by (simp add: WINDOW_def)
  then have "last_window h ! (unat x - WINDOW) = h ! (length h + (unat x - WINDOW) - WINDOW)"
    if "WINDOW \<le> unat x" using that h by (simp add: last_window_def)
  then show "lookup_symbol (last_window h) x = resolved h x"
    using assms(1) by (auto simp: lookup_symbol_def resolved_def symbol_ok_def)
qed

lemma resolve_symbols_iff:
  "\<forall>x\<in>set xs. symbol_ok x \<Longrightarrow>
     resolve_symbols xs (last_window h) = Inr bs \<longleftrightarrow> (\<forall>x\<in>set xs. resolvable h x) \<and> bs = map (resolved h) xs"
  using lookup_resolved by (auto simp: resolve_symbols_def resolve_each_iff)

section \<open>Markers against plain bytes\<close>

definition contents :: "bytes \<Rightarrow> marker_output \<Rightarrow> bytes" where
  "contents h m = h @ map (resolved h) (mo_marked m) @ drop (mo_clean_start m) (mo_clean m)"

definition marker_rel :: "bytes \<Rightarrow> marker_output \<Rightarrow> bytes \<Rightarrow> bool" where
  "marker_rel h m p \<longleftrightarrow> marker_ok m \<and> p = contents h m \<and>
     (mo_clean_mode m \<longrightarrow> (\<exists>pre. p = pre @ mo_clean m \<and> (pre = [] \<or> WINDOW \<le> length (mo_clean m))))"

definition marker_good :: "bytes \<Rightarrow> marker_output \<Rightarrow> bool" where
  "marker_good h m \<longleftrightarrow> (\<forall>x\<in>set (mo_marked m). resolvable h x)"

lemma ucast_ucast_byte [simp]: "ucast (ucast (b :: byte) :: u16) = b"
  by (rule bit_word_eqI) (simp add: bit_ucast_iff)

lemma resolved_byte [simp]: "resolved h (ucast (b :: byte)) = b"
  by (simp add: resolved_def)

lemma resolvable_byte [simp]: "resolvable h (ucast (b :: byte))"
  by (simp add: resolvable_def)

lemma copy_bytes_map: "0 < d \<Longrightarrow> d \<le> length xs \<Longrightarrow> map f (copy_bytes xs d n) = copy_bytes (map f xs) d n"
proof (induction n arbitrary: xs)
  case (Suc n)
  then show ?case using Suc.IH [of "xs @ [xs ! (length xs - d)]"] by simp
qed simp

text \<open>Resolving commutes with a copy of symbols, also where they come from the window.\<close>

lemma resolve_copy_near:
  assumes "0 < d" and "d \<le> length ms"
  shows "h @ map (resolved h) (copy_bytes ms d n) = copy_bytes (h @ map (resolved h) ms) d n"
  using assms by (simp add: copy_bytes_map copy_bytes_prefix)

lemma resolve_copy_far:
  assumes "length ms < d" and "d \<le> WINDOW" and "d \<le> length h + length ms" and "k = min (d - length ms) n"
  shows "h @ map (resolved h) (copy_bytes (ms @ window_markers (length ms) d k) d (n - k)) = copy_bytes (h @ map (resolved h) ms) d n"
proof -
  let ?ws = "window_markers (length ms) d k"
  have k: "k \<le> d - length ms" "k \<le> n" "k \<le> d" using assms(4) by simp_all
  have each: "resolved h (?ws ! i) = (h @ map (resolved h) ms) ! (length h + length ms - d + i)" if "i < k" for i
  proof -
    have u: "unat (?ws ! i) = WINDOW + (WINDOW + length ms - d + i)"
      using window_markers_nth [OF assms(1) k(1) assms(2) that] by simp
    then have "\<not> ?ws ! i \<le> 255" using window_above [of "?ws ! i"] by simp
    then have "resolved h (?ws ! i) = h ! (length h + (WINDOW + length ms - d + i) - WINDOW)" using u by (simp add: resolved_def)
    also have "length h + (WINDOW + length ms - d + i) - WINDOW = length h + length ms - d + i" using assms by simp
    finally have r: "resolved h (?ws ! i) = h ! (length h + length ms - d + i)" .
    have "length h + length ms - d + i < length h" using that k assms(1,3) by linarith
    then show ?thesis unfolding r by (simp only: nth_append if_True)
  qed
  have "copy_bytes (h @ map (resolved h) ms) d k = (h @ map (resolved h) ms) @ map (resolved h) ?ws"
  proof -
    let ?a = "length h + length ms - d"
    have in_range: "?a + k \<le> length (h @ map (resolved h) ms)" using assms(3) k by simp
    have "slice_of (h @ map (resolved h) ms) ?a (?a + k) = map (resolved h) ?ws"
    proof (rule nth_equalityI)
      fix i
      assume "i < length (slice_of (h @ map (resolved h) ms) ?a (?a + k))"
      then have i: "i < k" using in_range by simp
      then have "slice_of (h @ map (resolved h) ms) ?a (?a + k) ! i = (h @ map (resolved h) ms) ! (?a + i)"
        using in_range by (intro slice_nth) simp_all
      then show "slice_of (h @ map (resolved h) ms) ?a (?a + k) ! i = map (resolved h) ?ws ! i" using each [OF i] i by simp
    qed (use in_range in simp)
    then show ?thesis using assms(1,3) k by (subst copy_bytes_short) simp_all
  qed
  then have "copy_bytes (h @ map (resolved h) ms) d n = copy_bytes (h @ map (resolved h) (ms @ ?ws)) d (n - k)"
    using copy_bytes_add [of "h @ map (resolved h) ms" d k "n - k"] k by simp
  also have "\<dots> = h @ map (resolved h) (copy_bytes (ms @ ?ws) d (n - k))"
  proof (cases "k < n")
    case True
    then show ?thesis using assms k by (intro resolve_copy_near [symmetric]) auto
  qed (use k in simp)
  finally show ?thesis ..
qed

lemma extend_match_prefix: "extend_match xs d n = Inr ys \<Longrightarrow> \<exists>zs. ys = xs @ zs"
proof (cases "d = 0")
  case False
  assume "extend_match xs d n = Inr ys"
  moreover from this have "d \<le> length xs" by (auto simp: extend_match_def Let_def split: if_splits)
  ultimately show ?thesis using False by (auto simp: extend_match_copy copy_bytes_periodic)
qed (auto simp: extend_match_def Let_def split: if_splits)

lemma copy_marked_prefix: "copy_marked d n m = Inr m' \<Longrightarrow> set (mo_marked m) \<subseteq> set (mo_marked m')"
  unfolding copy_marked_def Let_def
  by (auto simp: and_then_Inr_iff split: if_splits initial_history.splits dest!: extend_match_prefix)

interpretation markers: deflate_simulation marker_ops plain_ops "marker_rel h" "marker_good h" for h
proof
  fix b bs m m' p
  show "marker_good h m \<and> (marker_rel h m p \<longrightarrow> (\<exists>p'. do_emit plain_ops b p = Inr p' \<and> marker_rel h m' p'))"
    if "do_emit marker_ops b m = Inr m'" "marker_good h m'"
    using that by (cases "mo_clean_mode m") (auto simp: marker_ops_def plain_ops_def marker_emit_def and_then_Inr_iff
        marker_good_def marker_rel_def marker_ok_def contents_def)
  show "marker_good h m \<and> (marker_rel h m p \<longrightarrow> (\<exists>p'. do_extend plain_ops bs p = Inr p' \<and> marker_rel h m' p'))"
    if "do_extend marker_ops bs m = Inr m'" "marker_good h m'"
    using that by (cases "mo_clean_mode m") (auto simp: marker_ops_def plain_ops_def marker_extend_def and_then_Inr_iff
        marker_good_def marker_rel_def marker_ok_def contents_def comp_def)
next
  fix d n m m' p
  assume step: "do_copy marker_ops d n m = Inr m'" and good: "marker_good h m'" and n: "0 < n"
  then have copy: "(if mo_clean_mode m then copy_clean d n m else copy_marked d n m) = Inr m'"
    by (auto simp: marker_ops_def marker_copy_def and_then_Inr_iff)
  show "marker_good h m \<and> (marker_rel h m p \<longrightarrow> (\<exists>p'. do_copy plain_ops d n p = Inr p' \<and> marker_rel h m' p'))"
  proof (cases "mo_clean_mode m")
    case True
    then have c: "0 < d" "d \<le> length (mo_clean m)" "d \<le> WINDOW" "m' = m\<lparr>mo_clean := copy_bytes (mo_clean m) d n\<rparr>"
      using copy by (auto simp: copy_clean_def Let_def extend_match_copy split: if_splits)
    have good': "marker_good h m" using good c(4) by (simp add: marker_good_def)
    have "do_copy plain_ops d n p = Inr (copy_bytes p d n) \<and> marker_rel h m' (copy_bytes p d n)" if rel: "marker_rel h m p"
    proof -
      obtain pre where pre: "p = pre @ mo_clean m" "pre = [] \<or> WINDOW \<le> length (mo_clean m)"
        using rel True by (auto simp: marker_rel_def)
      have m: "marker_ok m" "p = contents h m" using rel by (simp_all add: marker_rel_def)
      have p': "copy_bytes p d n = pre @ copy_bytes (mo_clean m) d n" using c pre(1) by (simp add: copy_bytes_prefix)
      also have "\<dots> = p @ periodic (mo_clean m) d n" using c pre(1) by (simp add: copy_bytes_periodic)
      finally have "copy_bytes p d n = contents h m'"
        using m c by (simp add: contents_def marker_ok_def copy_bytes_periodic)
      then show ?thesis using c pre p' m True by (auto simp: plain_ops_def Let_def marker_rel_def marker_ok_def)
    qed
    then show ?thesis using good' by blast
  next
    case False
    then have copied: "copy_marked d n m = Inr m'" using copy by simp
    then have good': "marker_good h m" using good copy_marked_prefix by (fastforce simp: marker_good_def)
    have "do_copy plain_ops d n p = Inr (copy_bytes p d n) \<and> marker_rel h m' (copy_bytes p d n)" if rel: "marker_rel h m p"
    proof -
      have m: "marker_ok m" "mo_history m = UnknownHistory" "p = h @ map (resolved h) (mo_marked m)" "mo_clean m = []" "mo_clean_start m = 0"
        using rel False by (auto simp: marker_rel_def marker_ok_def contents_def)
      have ok': "marker_ok m'" using copy_marked_returns [OF m(1) False n, of d] copied by (simp add: outcome_simps)
      from m(2) n have "d \<le> length p \<and> 0 < d \<and> d \<le> WINDOW \<and> copy_bytes p d n = contents h m' \<and> \<not> mo_clean_mode m'"
      proof (cases rule: copy_marked_cases [of m n d])
        case near
        then show ?thesis using copied m False resolve_copy_near [OF near(1,3), of h n] by (auto simp: contents_def)
      next
        case (far k)
        let ?n = "length (mo_marked m)"
        have m': "m' = m\<lparr>mo_marked := copy_bytes (mo_marked m @ window_markers ?n d k) d (n - k)\<rparr>" using far(5) copied by simp
        have k: "0 < k" using far(3,4) n by simp
        have "set (mo_marked m @ window_markers ?n d k) \<subseteq> set (mo_marked m')"
          using m' copy_bytes_periodic [of d "mo_marked m @ window_markers ?n d k" "n - k"] far by (cases "k < n") auto
        moreover have first: "window_markers ?n d k ! 0 \<in> set (window_markers ?n d k)" using k by simp
        ultimately have "resolvable h (window_markers ?n d k ! 0)" using good by (auto simp: marker_good_def)
        moreover have "unat (window_markers ?n d k ! 0) = WINDOW + (WINDOW + ?n - d)"
          using window_markers_nth [OF far(3) _ far(2) k] far(4) by simp
        ultimately have "WINDOW - length h \<le> WINDOW + ?n - d"
          using window_above [of "window_markers ?n d k ! 0"] by (auto simp: resolvable_def)
        then have "d \<le> length h + ?n" using far(2) by linarith
        then show ?thesis using resolve_copy_far [OF far(3,2) _ far(4), of h] m m' False far(1,2) by (simp add: contents_def)
      qed (use copied in simp)
      then show ?thesis using ok' by (auto simp: plain_ops_def Let_def marker_rel_def)
    qed
    then show ?thesis using good' by blast
  qed
qed

section \<open>Segments against plain bytes\<close>

lemma try_clean_rel: "marker_rel h m p \<Longrightarrow> marker_rel h (try_clean m) p"
proof (cases "mo_clean_mode m \<or> length (mo_marked m) < WINDOW \<or> (\<exists>x\<in>set (drop (length (mo_marked m) - WINDOW) (mo_marked m)). x > 255)")
  case False
  assume rel: "marker_rel h m p"
  let ?k = "length (mo_marked m) - WINDOW"
  let ?suffix = "drop ?k (mo_marked m)"
  have m: "mo_clean m = []" "p = h @ map (resolved h) (mo_marked m)" using rel False by (auto simp: marker_rel_def marker_ok_def contents_def)
  have t: "try_clean m = m\<lparr>mo_clean := map ucast ?suffix, mo_clean_start := WINDOW, mo_clean_mode := True\<rparr>"
    using False by (auto simp: try_clean_def Let_def)
  have "map (resolved h) ?suffix = map ucast ?suffix" using False by (auto simp: resolved_def not_less)
  then have "p = (h @ map (resolved h) (take ?k (mo_marked m))) @ map ucast ?suffix"
    using m(2) by (metis append.assoc append_take_drop_id map_append)
  moreover have "WINDOW \<le> length ?suffix" using False by simp
  ultimately show ?thesis using rel False m by (auto simp: t marker_rel_def marker_ok_def contents_def)
qed (auto simp: try_clean_def Let_def)

lemma try_clean_good: "marker_good h (try_clean m) = marker_good h m"
  by (simp add: try_clean_def marker_good_def Let_def)

lemma segment_loop_run:
  assumes "segment_loop data stop_bit pos m blocks = Inr (q, m', bs, fin)" and "marker_good h m'"
  shows "marker_good h m \<and> (marker_rel h m p \<longrightarrow> (\<exists>p'. blocks_run plain_ops data pos p fin q p' \<and> marker_rel h m' p'))"
  using assms(1)
proof (induction "data_bits data - pos" arbitrary: pos m blocks p rule: less_induct)
  case less
  obtain r1 where r1: "inf_block_at marker_ops data 0 pos m = Inr r1" and
    rest1: "(if ib_final (fst r1) then Inr (inf_align (fst (snd r1)), try_clean (snd (snd r1)), blocks @ [fst r1], True)
       else if stop_bit \<le> fst (snd r1) \<and> ib_kind (fst r1) = DynamicHuffman
       then Inr (fst (snd r1), try_clean (snd (snd r1)), blocks @ [fst r1], False)
       else segment_loop data stop_bit (fst (snd r1)) (try_clean (snd (snd r1))) (blocks @ [fst r1])) = Inr (q, m', bs, fin)"
    using less.prems by (auto simp: segment_loop.simps [of data stop_bit pos m blocks] and_then_Inr_iff Let_def simp del: fst_conv snd_conv)
  obtain b q1 m1 where split: "r1 = (b, q1, m1)" by (cases r1)
  have b: "inf_block_at marker_ops data 0 pos m = Inr (b, q1, m1)"
    and rest: "(if ib_final b then Inr (inf_align q1, try_clean m1, blocks @ [b], True)
       else if stop_bit \<le> q1 \<and> ib_kind b = DynamicHuffman then Inr (q1, try_clean m1, blocks @ [b], False)
       else segment_loop data stop_bit q1 (try_clean m1) (blocks @ [b])) = Inr (q, m', bs, fin)"
    using r1 rest1 unfolding split fst_conv snd_conv by simp_all
  have later: "marker_good h m1 \<and> (marker_rel h m1 p1 \<longrightarrow>
      (\<exists>p'. (if ib_final b then q = inf_align q1 \<and> p' = p1 \<and> fin else blocks_run plain_ops data q1 p1 fin q p') \<and> marker_rel h m' p'))" for p1
  proof (cases "ib_final b \<or> (stop_bit \<le> q1 \<and> ib_kind b = DynamicHuffman)")
    case True
    then have m': "m' = try_clean m1" using rest by (auto split: if_splits)
    then have "marker_good h m1" "marker_rel h m1 p1 \<longrightarrow> marker_rel h m' p1"
      using assms(2) try_clean_good try_clean_rel by auto
    then show ?thesis using rest True by (auto split: if_splits intro: blocks_run.unfinished block_steps.none)
  next
    case False
    then have loop: "segment_loop data stop_bit q1 (try_clean m1) (blocks @ [b]) = Inr (q, m', bs, fin)" using rest by auto
    have "data_bits data - q1 < data_bits data - pos" using inf_block_advances [OF b] by simp
    from less.hyps [OF this loop, of p1] show ?thesis using False try_clean_good try_clean_rel by auto
  qed
  show ?case
  proof (intro conjI impI)
    show "marker_good h m" using markers.block [OF b, of h] later by blast
    assume "marker_rel h m p"
    then obtain b' p1 where p1: "inf_block_at plain_ops data 0 pos p = Inr (b', q1, p1)" "ib_final b' = ib_final b" "marker_rel h m1 p1"
      using markers.block [OF b, of h p 0] later by blast
    obtain p' where p': "if ib_final b then q = inf_align q1 \<and> p' = p1 \<and> fin else blocks_run plain_ops data q1 p1 fin q p'" "marker_rel h m' p'"
      using later [of p1] p1(3) by blast
    show "\<exists>p'. blocks_run plain_ops data pos p fin q p' \<and> marker_rel h m' p'"
    proof (cases "ib_final b")
      case True
      then have "blocks_run plain_ops data pos p fin q p1"
        using p'(1) p1(1,2) block_steps.none [of plain_ops data pos p] by (auto intro: blocks_run.finished)
      then show ?thesis using p' True by auto
    next
      case False
      then show ?thesis using p' p1 blocks_run_step [OF p1(1)] by auto
    qed
  qed
qed

lemma segment_resolved:
  assumes s: "decode_segment data pos stop_bit history limit = Inr s" and h: "history = EmptyHistory \<longrightarrow> h = []"
    and r: "resolve_segment s (last_window h) = Inr r"
  shows "blocks_run plain_ops data pos h (sg_final s) (sg_end_bit s) (h @ rs_marked r @ clean_output s)"
    and "r = \<lparr>rs_marked = map (resolved h) (sg_marked s), rs_clean = sg_clean s, rs_clean_start = sg_clean_start s,
      rs_blocks = sg_blocks s, rs_end_bit = sg_end_bit s, rs_hashed = rs_marked r @ clean_output s\<rparr>"
    and "sg_clean_start s \<le> length (sg_clean s)" and "\<forall>x\<in>set (sg_marked s). symbol_ok x"
proof -
  have ok: "segment_ok s" using decode_segment_returns [of data pos stop_bit history limit] s by (simp add: outcome_simps)
  then show "sg_clean_start s \<le> length (sg_clean s)" "\<forall>x\<in>set (sg_marked s). symbol_ok x" by (simp_all add: segment_ok_def)
  obtain marked where m: "resolve_symbols (sg_marked s) (last_window h) = Inr marked"
    and rd: "r = \<lparr>rs_marked = marked, rs_clean = sg_clean s, rs_clean_start = sg_clean_start s, rs_blocks = sg_blocks s,
      rs_end_bit = sg_end_bit s, rs_hashed = marked @ sg_clean_hashed s\<rparr>"
    using r by (auto simp: resolve_segment_def and_then_Inr_iff)
  have res: "\<forall>x\<in>set (sg_marked s). resolvable h x" "marked = map (resolved h) (sg_marked s)"
    using m resolve_symbols_iff [of "sg_marked s" h] ok by (auto simp: segment_ok_def)
  then show "r = \<lparr>rs_marked = map (resolved h) (sg_marked s), rs_clean = sg_clean s, rs_clean_start = sg_clean_start s,
      rs_blocks = sg_blocks s, rs_end_bit = sg_end_bit s, rs_hashed = rs_marked r @ clean_output s\<rparr>"
    using rd ok by (simp add: segment_ok_def)
  obtain q m' bs fin where loop: "segment_loop data stop_bit pos (marker_new history limit) [] = Inr (q, m', bs, fin)"
    and sd: "sg_end_bit s = q" "sg_marked s = mo_marked m'" "clean_output s = drop (mo_clean_start m') (mo_clean m')" "sg_final s = fin"
    using s by (auto simp: decode_segment_def inf_at_def and_then_Inr_iff clean_output_def Let_def split: if_splits)
  have good: "marker_good h m'" using res(1) sd(2) by (simp add: marker_good_def)
  have "marker_rel h (marker_new history limit) h"
    using h by (cases history) (auto simp: marker_rel_def marker_new_def marker_ok_def contents_def)
  then obtain p' where "blocks_run plain_ops data pos h fin q p'" "marker_rel h m' p'"
    using segment_loop_run [OF loop good, of h] by blast
  then show "blocks_run plain_ops data pos h (sg_final s) (sg_end_bit s) (h @ rs_marked r @ clean_output s)"
    using sd res(2) rd by (simp add: marker_rel_def contents_def)
qed

lemma successor_window_plain:
  assumes typed: "\<forall>x\<in>set (sg_marked s). symbol_ok x" and w: "successor_window s (last_window h) = Inr w"
  shows "w = last_window (h @ map (resolved h) (sg_marked s) @ clean_output s)"
proof (cases "length (clean_output s) \<ge> WINDOW")
  case True
  then show ?thesis using w by (simp add: successor_window_def last_window_def Let_def)
next
  case False
  let ?c = "clean_output s"
  let ?n = "length (sg_marked s)"
  let ?k = "min (WINDOW - length ?c) ?n"
  obtain marked where m: "resolve_symbols (drop (?n - ?k) (sg_marked s)) (last_window h) = Inr marked"
    and wd: "w = (let keep = min (WINDOW - (length marked + length ?c)) (length (last_window h))
      in drop (length (last_window h) - keep) (last_window h) @ marked @ ?c)"
    using w False by (auto simp: successor_window_def Let_def and_then_Inr_iff)
  have "\<forall>x\<in>set (drop (?n - ?k) (sg_marked s)). symbol_ok x" using typed by (meson in_set_dropD)
  then have marked: "marked = map (resolved h) (drop (?n - ?k) (sg_marked s))" using m resolve_symbols_iff by auto
  have len: "length marked = ?k" unfolding marked by simp
  show ?thesis
  proof (cases "WINDOW - length ?c \<le> ?n")
    case True
    then have "w = marked @ ?c" using wd len False by simp
    then show ?thesis using True False marked by (simp add: last_window_def drop_map)
  next
    case small: False
    then have all: "marked = map (resolved h) (sg_marked s)" using marked by simp
    define keep where "keep = min (WINDOW - (length marked + length ?c)) (length (last_window h))"
    have w': "w = drop (length (last_window h) - keep) (last_window h) @ marked @ ?c" using wd by (simp add: keep_def Let_def)
    have "length marked = ?n" using len small by simp
    then have "length h - WINDOW + (length (last_window h) - keep) = length h + (?n + length ?c) - WINDOW"
      using small unfolding keep_def length_last_window by linarith
    then have "drop (length (last_window h) - keep) (last_window h) = drop (length h + (?n + length ?c) - WINDOW) h"
      unfolding last_window_def drop_drop by (simp add: add.commute)
    then show ?thesis using w' small all by (simp add: last_window_def)
  qed
qed

section \<open>Plain bytes against the serial output\<close>

definition emitter_rel :: "bytes \<Rightarrow> bytes \<Rightarrow> emitter \<Rightarrow> bool" where
  "emitter_rel sink p e \<longleftrightarrow>
     em_output e @ drop (em_history_len e) (em_buffer e) = sink @ p \<and> em_hashed e @ drop (em_history_len e) (em_buffer e) = p \<and>
     em_member_decoded e = length p \<and> em_history_len e \<le> length (em_buffer e) \<and>
     (\<exists>pre. p = pre @ em_buffer e \<and> (pre = [] \<or> WINDOW \<le> length (em_buffer e)))"

lemma take_copy_window: "keep \<le> length xs \<Longrightarrow> take keep (copy_within xs (length xs - keep) (length xs) 0) = drop (length xs - keep) xs"
  by (simp add: copy_within_def slice_of_def)

lemma flush_pending_rel:
  assumes "emitter_rel sink p e"
  shows "emitter_rel sink p (flush_pending e)"
proof (cases "drop (em_history_len e) (em_buffer e) = []")
  case False
  note unfolded = assms [unfolded emitter_rel_def]
  show ?thesis
  proof (cases "length (em_buffer e) \<ge> HISTORY_COMPACT")
    case True
    then have big: "WINDOW \<le> length (em_buffer e)" by (simp add: HISTORY_COMPACT_def WINDOW_def)
    let ?b = "drop (length (em_buffer e) - WINDOW) (em_buffer e)"
    have e': "flush_pending e = e\<lparr>em_output := em_output e @ drop (em_history_len e) (em_buffer e),
        em_hashed := em_hashed e @ drop (em_history_len e) (em_buffer e), em_history_len := WINDOW, em_buffer := ?b\<rparr>"
      using True False big take_copy_window [OF big] by (simp add: flush_pending_def Let_def)
    obtain pre where "p = pre @ em_buffer e" using unfolded by blast
    then have "p = (pre @ take (length (em_buffer e) - WINDOW) (em_buffer e)) @ ?b" by simp
    moreover have "length ?b = WINDOW" using big by simp
    ultimately show ?thesis using unfolded unfolding e' emitter_rel_def by fastforce
  next
    case False
    then have "flush_pending e = e\<lparr>em_output := em_output e @ drop (em_history_len e) (em_buffer e),
        em_hashed := em_hashed e @ drop (em_history_len e) (em_buffer e), em_history_len := length (em_buffer e)\<rparr>"
      using \<open>drop (em_history_len e) (em_buffer e) \<noteq> []\<close> by (simp add: flush_pending_def Let_def)
    then show ?thesis using unfolded by (simp add: emitter_rel_def)
  qed
qed (use assms in \<open>simp add: flush_pending_def\<close>)

lemma emitter_grow_rel:
  assumes rel: "emitter_rel sink p e" and "length (p @ xs) \<le> usize_max"
  shows "\<exists>e'. emitter_grow (em_buffer e @ xs) (length xs) e = Inr e' \<and> emitter_rel sink (p @ xs) e'"
proof -
  let ?e = "e\<lparr>em_buffer := em_buffer e @ xs, em_member_decoded := em_member_decoded e + length xs\<rparr>"
  have "emitter_rel sink (p @ xs) ?e" using rel by (auto simp: emitter_rel_def)
  then have "emitter_rel sink (p @ xs) (if length (em_buffer ?e) - em_history_len ?e \<ge> OUTPUT_CHUNK then flush_pending ?e else ?e)"
    using flush_pending_rel by simp
  moreover have "checked_add (em_member_decoded e) (length xs) = Some (em_member_decoded e + length xs)"
    using rel assms(2) by (simp add: emitter_rel_def checked_add_def)
  ultimately show ?thesis by (simp add: emitter_grow_def Let_def)
qed

interpretation serial: deflate_simulation plain_ops emitter_ops "emitter_rel sink" "\<lambda>p. length p \<le> usize_max" for sink
proof
  fix b bs p p' e
  show "length p \<le> usize_max \<and> (emitter_rel sink p e \<longrightarrow> (\<exists>e'. do_emit emitter_ops b e = Inr e' \<and> emitter_rel sink p' e'))"
    if "do_emit plain_ops b p = Inr p'" "length p' \<le> usize_max"
    using that emitter_grow_rel [of sink p e "[b]"] by (auto simp: plain_ops_def emitter_ops_def emit_byte_def)
  show "length p \<le> usize_max \<and> (emitter_rel sink p e \<longrightarrow> (\<exists>e'. do_extend emitter_ops bs e = Inr e' \<and> emitter_rel sink p' e'))"
    if "do_extend plain_ops bs p = Inr p'" "length p' \<le> usize_max"
    using that emitter_grow_rel [of sink p e bs] by (auto simp: plain_ops_def emitter_ops_def extend_bytes_def)
next
  fix d n p p' e
  assume step: "do_copy plain_ops d n p = Inr p'" and good: "length p' \<le> usize_max" and n: "0 < n"
  have d: "0 < d" "d \<le> length p" "d \<le> WINDOW" "p' = copy_bytes p d n"
    using step by (auto simp: plain_ops_def Let_def split: if_splits)
  have "\<exists>e'. do_copy emitter_ops d n e = Inr e' \<and> emitter_rel sink p' e'" if rel: "emitter_rel sink p e"
  proof -
    obtain pre where pre: "p = pre @ em_buffer e" "pre = [] \<or> WINDOW \<le> length (em_buffer e)" using rel by (auto simp: emitter_rel_def)
    then have db: "d \<le> length (em_buffer e)" using d by auto
    have "p' = pre @ copy_bytes (em_buffer e) d n" using d pre(1) db by (simp only: copy_bytes_prefix)
    then have p': "p' = p @ periodic (em_buffer e) d n" using d pre(1) db by (simp add: copy_bytes_periodic)
    have "do_copy emitter_ops d n e = emitter_grow (em_buffer e @ periodic (em_buffer e) d n) (length (periodic (em_buffer e) d n)) e"
      using d db rel by (simp add: emitter_ops_def emitter_copy_def Let_def extend_match_copy copy_bytes_periodic emitter_rel_def min_def)
    then show ?thesis using emitter_grow_rel [OF rel, of "periodic (em_buffer e) d n"] good p' by simp
  qed
  then show "length p \<le> usize_max \<and> (emitter_rel sink p e \<longrightarrow> (\<exists>e'. do_copy emitter_ops d n e = Inr e' \<and> emitter_rel sink p' e'))"
    using good d by simp
qed

text \<open>A run of blocks that ends with a final one is what the serial decoder does.\<close>

lemma serial_stream_run:
  assumes "blocks_run plain_ops data (inf_new start_byte) [] True q p" and "length p \<le> usize_max"
  shows "\<exists>r. serial_stream crc data start_byte sink member_no base progress = Inr r \<and> sr_output r = sink @ p \<and>
    dr_decoded_len (sr_report r) = length p \<and> dr_crc (sr_report r) = crc p \<and> inf_align (dr_end_bit (sr_report r)) = q"
proof -
  have "emitter_rel sink [] (emitter_new sink base)" by (simp add: emitter_rel_def emitter_new_def)
  from serial.run [OF assms this] obtain e where e: "blocks_run emitter_ops data (inf_new start_byte) (emitter_new sink base) True q e"
    "emitter_rel sink p e" by blast
  from e(1) obtain r z n b end_bit where "block_steps emitter_ops data (inf_new start_byte) (emitter_new sink base) r z"
    "inf_block_at emitter_ops data n r z = Inr (b, end_bit, e)" "ib_final b" "q = inf_align end_bit"
    by (auto elim: blocks_run_finished)
  from serial_loop_run [OF this(1-3), of member_no "[]" progress] this(4) obtain bs ps where
    loop: "serial_loop emitter_ops data member_no (inf_new start_byte) (emitter_new sink base) [] progress = Inr (end_bit, e, bs, ps)"
      "inf_align end_bit = q" by blast
  have "emitter_rel sink p (flush_pending e)" by (rule flush_pending_rel [OF e(2)])
  moreover have "drop (em_history_len (flush_pending e)) (em_buffer (flush_pending e)) = []"
    by (auto simp: flush_pending_def Let_def length_copy_window)
  ultimately show ?thesis using loop by (auto simp: serial_stream_def emitter_finish_def Let_def emitter_rel_def)
qed

section \<open>The consumer\<close>

text \<open>What is committed: the plain bytes \<open>p\<close> of a run of blocks from the start of the stream.\<close>

definition committed :: "bytes \<Rightarrow> nat \<Rightarrow> bytes \<Rightarrow> gz_committer \<Rightarrow> nat \<Rightarrow> bytes \<Rightarrow> bool \<Rightarrow> bytes \<Rightarrow> bool" where
  "committed data start sink c pos pred fin p \<longleftrightarrow> blocks_run plain_ops data start [] fin pos p \<and> pred = last_window p \<and>
     sc_output c = sink @ p \<and> sc_hashed c = p \<and> sc_decoded c = length p \<and> length p \<le> usize_max"

text \<open>Accepted segments that wait to be resolved: each begins where the one before ends, with its window.\<close>

inductive chained :: "bytes \<Rightarrow> nat \<Rightarrow> bytes \<Rightarrow> bool \<Rightarrow> (gz_segment \<times> bytes) list \<Rightarrow> nat \<Rightarrow> bytes \<Rightarrow> bool \<Rightarrow> bool" for data where
  nothing: "chained data pos pred fin [] pos pred fin"
| segment: "decode_segment data pos stop_bit UnknownHistory limit = Inr s \<Longrightarrow> successor_window s pred = Inr w \<Longrightarrow>
    chained data (sg_end_bit s) w (sg_final s) ts pos' pred' fin' \<Longrightarrow> chained data pos pred False ((s, pred) # ts) pos' pred' fin'"

inductive_cases chained_Nil: "chained data pos pred fin [] pos' pred' fin'"
inductive_cases chained_Cons: "chained data pos pred fin (t # ts) pos' pred' fin'"

lemma chained_snoc:
  assumes "chained data pos pred fin ts pos' pred' False" and "decode_segment data pos' stop_bit UnknownHistory limit = Inr s"
    and "successor_window s pred' = Inr w"
  shows "chained data pos pred fin (ts @ [(s, pred')]) (sg_end_bit s) w (sg_final s)"
  using assms by (induction pos pred fin ts pos' pred' fin' \<equiv> False rule: chained.induct) (auto intro: chained.intros)

lemma commit_task_committed:
  assumes c: "committed data start sink c pos pred False p" and s: "decode_segment data pos stop_bit history limit = Inr s"
    and h: "history = EmptyHistory \<longrightarrow> p = []"
    and commit: "commit_task (s, pred) c = Inr c'" and w: "successor_window s pred = Inr w"
  shows "\<exists>p'. committed data start sink c' (sg_end_bit s) w (sg_final s) p'"
proof -
  have pred: "pred = last_window p" using c by (simp add: committed_def)
  obtain r where r: "resolve_segment s (last_window p) = Inr r" and cr: "commit_segment r c = Inr c'"
    using commit pred by (auto simp: commit_task_def and_then_Inr_iff)
  note res = segment_resolved [OF s h r]
  let ?new = "rs_marked r @ clean_output s"
  have new: "length (rs_marked r) + length (rs_clean r) - rs_clean_start r = length ?new"
    "rs_marked r @ drop (rs_clean_start r) (rs_clean r) = ?new" "rs_hashed r = ?new"
    using arg_cong [OF res(2), of rs_marked] arg_cong [OF res(2), of rs_clean] arg_cong [OF res(2), of rs_clean_start]
      arg_cong [OF res(2), of rs_hashed] res(3) by (simp_all add: clean_output_def)
  have c': "sc_output c' = sc_output c @ ?new" "sc_hashed c' = sc_hashed c @ ?new" "sc_decoded c' = sc_decoded c + length ?new"
    "sc_decoded c' \<le> usize_max"
    using cr new by (auto simp: commit_segment_def Let_def and_then_Inr_iff ok_or_Inr_iff checked_add_Some_iff)
  have "w = last_window (p @ ?new)"
    using successor_window_plain [OF res(4)] w pred arg_cong [OF res(2), of rs_marked] by simp
  moreover have "blocks_run plain_ops data start [] (sg_final s) (sg_end_bit s) (p @ ?new)"
    using blocks_run_trans [OF _ res(1)] c by (simp add: committed_def)
  ultimately have "committed data start sink c' (sg_end_bit s) w (sg_final s) (p @ ?new)"
    using c c' by (simp add: committed_def)
  then show ?thesis ..
qed

lemma commit_tasks_committed:
  "chained data pos pred fin ts pos' pred' fin' \<Longrightarrow> committed data start sink c pos pred fin p \<Longrightarrow> commit_tasks ts c = Inr c' \<Longrightarrow>
     \<exists>p'. committed data start sink c' pos' pred' fin' p'"
proof (induction arbitrary: c p rule: chained.induct)
  case (segment pos stop_bit limit s pred w ts pos' pred' fin')
  obtain c1 where c1: "commit_task (s, pred) c = Inr c1" "commit_tasks ts c1 = Inr c'"
    using segment.prems(2) by (auto simp: and_then_Inr_iff)
  then obtain p1 where "committed data start sink c1 (sg_end_bit s) w (sg_final s) p1"
    using commit_task_committed [OF segment.prems(1) segment.hyps(1) _ c1(1) segment.hyps(2)] by auto
  then show ?case using segment.IH c1(2) by blast
qed auto

definition consumer_ok :: "bytes \<Rightarrow> nat \<Rightarrow> bytes \<Rightarrow> parallel_state \<Rightarrow> bool" where
  "consumer_ok data start sink s \<longleftrightarrow> (\<exists>pos pred fin p. committed data start sink (ps_committer s) pos pred fin p \<and>
     chained data pos pred fin (ps_outstanding s) (ps_next_start s) (ps_predecessor s) (ps_final s))"

lemma commit_now_ok:
  assumes c: "committed data start sink (ps_committer s) (ps_next_start s) (ps_predecessor s) False p" and out: "ps_outstanding s = []"
    and d: "decode_segment data (ps_next_start s) stop_bit history limit = Inr segment" and h: "history = EmptyHistory \<longrightarrow> p = []"
    and r: "commit_now segment s = Inr s'"
  shows "consumer_ok data start sink s'"
proof -
  obtain w c' where w: "successor_window segment (ps_predecessor s) = Inr w"
    and c': "commit_task (segment, ps_predecessor s) (ps_committer s) = Inr c'"
    and s': "s' = s\<lparr>ps_next_start := sg_end_bit segment, ps_final := sg_final segment, ps_predecessor := w, ps_committer := c'\<rparr>"
    using r by (auto simp: commit_now_def and_then_Inr_iff)
  show ?thesis using commit_task_committed [OF c d h c' w] out by (auto simp: consumer_ok_def s' intro: chained.nothing)
qed

lemma accept_segment_ok:
  assumes ok: "consumer_ok data start sink s" and "\<not> ps_final s"
    and d: "decode_segment data (ps_next_start s) stop_bit UnknownHistory limit = Inr segment" and r: "accept_segment threads segment s = Inr s'"
  shows "consumer_ok data start sink s'"
proof -
  obtain pos pred fin p where c: "committed data start sink (ps_committer s) pos pred fin p"
    and chain: "chained data pos pred fin (ps_outstanding s) (ps_next_start s) (ps_predecessor s) False"
    using ok assms(2) by (auto simp: consumer_ok_def)
  obtain w where w: "successor_window segment (ps_predecessor s) = Inr w" using r by (auto simp: accept_segment_def and_then_Inr_iff)
  let ?out = "ps_outstanding s @ [(segment, ps_predecessor s)]"
  have chain': "chained data pos pred fin ?out (sg_end_bit segment) w (sg_final segment)" by (rule chained_snoc [OF chain d w])
  obtain t ts where out: "?out = t # ts" by (cases ?out) auto
  from chain' [unfolded out] obtain s1 stop1 limit1 w1 where t: "t = (s1, pred)" "fin = False"
    and d1: "decode_segment data pos stop1 UnknownHistory limit1 = Inr s1" and w1: "successor_window s1 pred = Inr w1"
    and rest: "chained data (sg_end_bit s1) w1 (sg_final s1) ts (sg_end_bit segment) w (sg_final segment)"
    by (auto elim: chained_Cons)
  consider (kept) "s' = s\<lparr>ps_next_start := sg_end_bit segment, ps_final := sg_final segment, ps_predecessor := w,
        ps_outstanding := ?out, ps_key := ps_key s + 1, ps_speculative := ps_speculative s + 1\<rparr>"
    | (one) c' where "commit_task t (ps_committer s) = Inr c'"
      "s' = s\<lparr>ps_next_start := sg_end_bit segment, ps_final := sg_final segment, ps_predecessor := w,
        ps_outstanding := ts, ps_key := ps_key s + 1, ps_speculative := ps_speculative s + 1, ps_committer := c'\<rparr>"
    using r w out by (auto simp: accept_segment_def Let_def and_then_Inr_iff split: if_splits)
  then show ?thesis
  proof cases
    case kept
    then show ?thesis using c chain' by (auto simp: consumer_ok_def)
  next
    case one
    then show ?thesis using commit_task_committed [OF c [unfolded t(2)] d1 _ _ w1] t rest by (auto simp: consumer_ok_def)
  qed
qed

lemma fallback_segment_ok:
  assumes ok: "consumer_ok data start sink s" and "\<not> ps_final s" and r: "fallback_segment data start_byte end_byte s = Inr s'"
  shows "consumer_ok data start sink s'"
proof -
  obtain pos pred fin p where c: "committed data start sink (ps_committer s) pos pred fin p"
    and chain: "chained data pos pred fin (ps_outstanding s) (ps_next_start s) (ps_predecessor s) False"
    using ok assms(2) by (auto simp: consumer_ok_def)
  obtain c1 segment s1 stop_bit where c1: "commit_tasks (ps_outstanding s) (ps_committer s) = Inr c1"
    and d: "decode_segment data (ps_next_start s) stop_bit UnknownHistory PARALLEL_OUTPUT_LIMIT = Inr segment"
    and now: "commit_now segment (s\<lparr>ps_outstanding := [], ps_committer := c1\<rparr>) = Inr s1"
    and s': "s' = s1\<lparr>ps_key := ps_key s1 + 1, ps_fallback := ps_fallback s1 + 1\<rparr>"
    using r by (auto simp: fallback_segment_def Let_def and_then_Inr_iff)
  obtain p1 where "committed data start sink c1 (ps_next_start s) (ps_predecessor s) False p1"
    using commit_tasks_committed [OF chain c c1] by blast
  then have "consumer_ok data start sink s1"
    using commit_now_ok [of data start sink "s\<lparr>ps_outstanding := [], ps_committer := c1\<rparr>" p1, OF _ _ _ _ now] d by simp
  then show ?thesis by (simp add: s' consumer_ok_def)
qed

lemma run_gzip_job_segment:
  "run_gzip_job data job = Inr s \<Longrightarrow> \<exists>stop_bit limit. decode_segment data (sg_start_bit s) stop_bit UnknownHistory limit = Inr s"
proof -
  have "search_segment data job search = Inr s \<Longrightarrow> \<exists>stop_bit limit. decode_segment data (sg_start_bit s) stop_bit UnknownHistory limit = Inr s"
    for search
  proof (induction data job search rule: search_segment.induct)
    case (1 data job search)
    obtain start where start: "find_dynamic_boundary data search (gj_search_end job) = Some start"
      using 1(2) by (auto simp: search_segment.simps [of data job search] split: option.splits)
    show ?case
    proof (cases "decode_segment data start (gj_stop_bit job) UnknownHistory (gj_output_limit job)")
      case (Inl e)
      then show ?thesis using "1.IH" [OF start Inl] 1(2) start by (simp add: search_segment.simps [of data job search])
    next
      case (Inr s')
      then have "sg_start_bit s' = start" by (auto simp: decode_segment_def and_then_Inr_iff Let_def)
      then show ?thesis using 1(2) start Inr by (auto simp: search_segment.simps [of data job search])
    qed
  qed
  then show "run_gzip_job data job = Inr s \<Longrightarrow> \<exists>stop_bit limit. decode_segment data (sg_start_bit s) stop_bit UnknownHistory limit = Inr s"
    by (simp add: run_gzip_job_def)
qed

lemma parallel_step_ok:
  assumes "consumer_ok data start sink s" and "\<not> ps_final s" and "parallel_step data start_byte end_byte threads jobs s = Inr s'"
  shows "consumer_ok data start sink s'"
proof -
  obtain speculative where sp: "take_primary_result data jobs (ps_key s) = Inr speculative"
    and rest: "(case speculative of
       Inr segment \<Rightarrow> if sg_start_bit segment = ps_next_start s then accept_segment threads segment s
         else fallback_segment data start_byte end_byte s
     | Inl _ \<Rightarrow> fallback_segment data start_byte end_byte s) = Inr s'"
    using assms(3) by (auto simp: parallel_step_def and_then_Inr_iff)
  show ?thesis
  proof (cases speculative)
    case (Inr segment)
    then obtain stop_bit limit where d: "decode_segment data (sg_start_bit segment) stop_bit UnknownHistory limit = Inr segment"
      using sp run_gzip_job_segment by (fastforce simp: take_primary_result_def split: if_splits)
    show ?thesis
    proof (cases "sg_start_bit segment = ps_next_start s")
      case True
      then show ?thesis using accept_segment_ok [OF assms(1,2)] d rest Inr by auto
    qed (use rest Inr fallback_segment_ok [OF assms(1,2)] in auto)
  qed (use rest fallback_segment_ok [OF assms(1,2)] in auto)
qed

lemma parallel_loop_ok:
  "parallel_loop data start_byte end_byte threads jobs s = Inr s' \<Longrightarrow> consumer_ok data start sink s \<Longrightarrow> consumer_ok data start sink s' \<and> ps_final s'"
proof (induction data start_byte end_byte threads jobs s rule: parallel_loop.induct)
  case (1 data start_byte end_byte threads jobs s)
  show ?case
  proof (cases "ps_final s")
    case False
    then obtain s1 where s1: "parallel_step data start_byte end_byte threads jobs s = Inr s1"
      "parallel_loop data start_byte end_byte threads jobs s1 = Inr s'"
      using "1.prems"(1) by (auto simp: parallel_loop.simps [of data start_byte end_byte threads jobs s] and_then_Inr_iff)
    show ?thesis by (rule "1.IH" [OF False s1(1) s1(2) parallel_step_ok [OF "1.prems"(2) False s1(1)]])
  qed (use "1.prems" in \<open>simp add: parallel_loop.simps [of data start_byte end_byte threads jobs s]\<close>)
qed

lemma parallel_stream_serial:
  assumes initial: "decode_segment data (inf_new start_byte) stop_bit EmptyHistory limit = Inr segment"
    and r: "parallel_stream crc data start_byte end_byte memory threads sink member_no base progress segment = Inr r"
  shows "\<exists>r'. serial_stream crc data start_byte sink member_no base progress = Inr r' \<and> sr_output r' = sr_output r \<and>
    dr_decoded_len (sr_report r') = dr_decoded_len (sr_report r) \<and> dr_crc (sr_report r') = dr_crc (sr_report r) \<and>
    inf_align (dr_end_bit (sr_report r')) = dr_end_bit (sr_report r)"
proof -
  let ?start = "inf_new start_byte"
  let ?c = "\<lparr>sc_member = member_no, sc_decoded_base = base, sc_decoded = 0, sc_output = sink, sc_hashed = [],
               sc_blocks = [], sc_progress = progress\<rparr>"
  let ?s = "\<lparr>ps_key = 1, ps_next_start = sg_end_bit segment, ps_final = sg_final segment, ps_predecessor = [],
               ps_outstanding = [], ps_committer = ?c, ps_speculative = 0, ps_fallback = 0\<rparr>"
  obtain s1 s2 c jobs where s1: "commit_now segment ?s = Inr s1" and s2: "parallel_loop data start_byte end_byte threads jobs s1 = Inr s2"
    and c: "commit_tasks (ps_outstanding s2) (ps_committer s2) = Inr c"
    and rd: "sr_output r = sc_output c" "dr_decoded_len (sr_report r) = sc_decoded c" "dr_crc (sr_report r) = crc (sc_hashed c)"
      "dr_end_bit (sr_report r) = ps_next_start s2"
    using r by (auto simp: parallel_stream_def Let_def and_then_Inr_iff split: if_splits)
  have now: "commit_now segment (?s\<lparr>ps_next_start := ?start, ps_final := False\<rparr>) = Inr s1" using s1 by (simp add: commit_now_def)
  have "committed data ?start sink ?c ?start [] False []"
    by (simp add: committed_def last_window_def blocks_run.unfinished block_steps.none)
  then have "consumer_ok data ?start sink s1" using commit_now_ok [OF _ _ _ _ now] initial by simp
  then have ok: "consumer_ok data ?start sink s2" "ps_final s2" using parallel_loop_ok [OF s2] by simp_all
  then obtain pos pred fin p where "committed data ?start sink (ps_committer s2) pos pred fin p"
    "chained data pos pred fin (ps_outstanding s2) (ps_next_start s2) (ps_predecessor s2) True"
    by (auto simp: consumer_ok_def)
  from commit_tasks_committed [OF this(2,1) c] obtain q where q: "committed data ?start sink c (ps_next_start s2) (ps_predecessor s2) True q"
    by blast
  then have "blocks_run plain_ops data ?start [] True (ps_next_start s2) q" "length q \<le> usize_max" by (simp_all add: committed_def)
  from serial_stream_run [OF this, of crc sink member_no base progress] show ?thesis using rd q by (auto simp: committed_def)
qed

section \<open>Streams and members\<close>

lemma serial_loop_blocks:
  "serial_loop ops data k pos x blocks progress = Inr (q, y, bs, ps) \<Longrightarrow>
     \<exists>r z n b. block_steps ops data pos x r z \<and> inf_block_at ops data n r z = Inr (b, q, y) \<and> ib_final b"
proof (induction "data_bits data - pos" arbitrary: pos x blocks progress rule: less_induct)
  case less
  obtain r1 where r1: "inf_block_at ops data k pos x = Inr r1" and
    rest1: "(if ib_final (fst r1) then Inr (fst (snd r1), snd (snd r1), blocks @ [fst r1], progress @ [((fst (snd r1) + 7) div 8, do_total ops (snd (snd r1)))])
       else serial_loop ops data k (fst (snd r1)) (snd (snd r1)) (blocks @ [fst r1])
         (progress @ [((fst (snd r1) + 7) div 8, do_total ops (snd (snd r1)))])) = Inr (q, y, bs, ps)"
    using less.prems by (auto simp: serial_loop.simps [of ops data k pos x] and_then_Inr_iff Let_def simp del: fst_conv snd_conv)
  obtain b q1 x1 where split: "r1 = (b, q1, x1)" by (cases r1)
  note b = r1 [unfolded split] and rest = rest1 [unfolded split fst_conv snd_conv]
  show ?case
  proof (cases "ib_final b")
    case True
    then show ?thesis using b rest by (auto intro: block_steps.none)
  next
    case False
    have "data_bits data - q1 < data_bits data - pos" using inf_block_advances [OF b] by simp
    moreover have "serial_loop ops data k q1 x1 (blocks @ [b]) (progress @ [((q1 + 7) div 8, do_total ops x1)]) = Inr (q, y, bs, ps)"
      using rest False by simp
    ultimately obtain r z n b' where
      "block_steps ops data q1 x1 r z" "inf_block_at ops data n r z = Inr (b', q, y)" "ib_final b'"
      using less.hyps [of q1] by blast
    then show ?thesis using block_steps.step [OF b False] by blast
  qed
qed

lemma serial_stream_progress:
  assumes "serial_stream crc data start_byte sink member_no base progress = Inr r"
  shows "\<exists>r'. serial_stream crc data start_byte sink member_no base progress' = Inr r' \<and> sr_output r' = sr_output r \<and>
    dr_decoded_len (sr_report r') = dr_decoded_len (sr_report r) \<and> dr_crc (sr_report r') = dr_crc (sr_report r) \<and>
    dr_end_bit (sr_report r') = dr_end_bit (sr_report r)"
proof -
  obtain q e bs ps where loop: "serial_loop emitter_ops data member_no (inf_new start_byte) (emitter_new sink base) [] progress = Inr (q, e, bs, ps)"
    using assms by (auto simp: serial_stream_def and_then_Inr_iff)
  then obtain bs' ps' where "serial_loop emitter_ops data member_no (inf_new start_byte) (emitter_new sink base) [] progress' = Inr (q, e, bs', ps')"
    using serial_loop_blocks [OF loop] serial_loop_run by metis
  then show ?thesis using assms loop by (auto simp: serial_stream_def Let_def)
qed

definition same_stream :: "stream_result \<Rightarrow> stream_result \<Rightarrow> bool" where
  "same_stream r r' \<longleftrightarrow> sr_output r' = sr_output r \<and> dr_decoded_len (sr_report r') = dr_decoded_len (sr_report r) \<and>
     dr_crc (sr_report r') = dr_crc (sr_report r) \<and>
     (dr_end_bit (sr_report r') = dr_end_bit (sr_report r) \<or> inf_align (dr_end_bit (sr_report r')) = dr_end_bit (sr_report r))"

lemma same_trailer:
  assumes "same_stream r r'" and "(dr_end_bit (sr_report r) + 7) div 8 < 2 ^ 60"
  shows "(dr_end_bit (sr_report r') + 7) div 8 = (dr_end_bit (sr_report r) + 7) div 8"
proof (cases "dr_end_bit (sr_report r') = dr_end_bit (sr_report r)")
  case False
  let ?q = "dr_end_bit (sr_report r')"
  have q: "min (?q + 7) usize_max div 8 * 8 = dr_end_bit (sr_report r)"
    using assms(1) False by (simp add: same_stream_def inf_align_def sat_add_def)
  have "?q + 7 \<le> usize_max"
  proof (rule ccontr)
    assume "\<not> ?q + 7 \<le> usize_max"
    then have "usize_max div 8 * 8 = dr_end_bit (sr_report r)" using q by (simp add: min_def split: if_splits)
    then show False using assms(2) by (simp add: usize_max_def)
  qed
  then show ?thesis using q by (simp add: min_def)
qed simp

lemma stream_threads:
  assumes fit: "length data < 2 ^ 60" and "decompress_deflate_stream crc available data stream sink options progress = Inr r"
  shows "\<exists>r'. decompress_deflate_stream crc available data stream sink (options\<lparr>do_threads := 1\<rparr>) progress' = Inr r' \<and> same_stream r r'"
proof -
  let ?start = "ds_start_byte stream"
  let ?d = "slice_of data 0 (ds_end_byte stream)"
  let ?serial = "serial_stream crc ?d ?start sink (ds_member stream) (ds_decoded_base stream)"
  have range: "ds_end_byte stream \<le> length data" "?start \<le> ds_end_byte stream"
    using assms(2) by (auto simp: decompress_deflate_stream_def get_range_def and_then_Inr_iff ok_or_Inr_iff Let_def split: if_splits)
  then have one: "decompress_deflate_stream crc available data stream sink (options\<lparr>do_threads := 1\<rparr>) progress' = ?serial progress'"
    by (simp add: decompress_deflate_stream_def get_range_def Let_def decode_resolved_threads_def)
  have start: "?start * 8 = inf_new ?start" using range fit by (simp add: inf_new_def sat_mul_def usize_max_def)
  consider (serial) "?serial progress = Inr r"
    | (parallel) segment stop_bit memory threads where "decode_segment ?d (inf_new ?start) stop_bit EmptyHistory PARALLEL_OUTPUT_LIMIT = Inr segment"
      "parallel_stream crc ?d ?start (ds_end_byte stream) memory threads sink (ds_member stream) (ds_decoded_base stream) progress segment = Inr r"
    using assms(2) range by (auto simp: decompress_deflate_stream_def get_range_def Let_def start split: if_splits sum.splits)
  then show ?thesis
  proof cases
    case serial
    then show ?thesis unfolding one using serial_stream_progress [OF serial, of progress'] by (auto simp: same_stream_def)
  next
    case parallel
    obtain r1 where r1: "?serial progress = Inr r1" "same_stream r r1"
      using parallel_stream_serial [OF parallel] by (auto simp: same_stream_def)
    then show ?thesis unfolding one using serial_stream_progress [OF r1(1), of progress'] by (auto simp: same_stream_def)
  qed
qed

definition same_state :: "gzip_state \<Rightarrow> gzip_state \<Rightarrow> bool" where
  "same_state s s' \<longleftrightarrow> gs_members s' = gs_members s \<and> gs_output s' = gs_output s \<and> gs_decoded s' = gs_decoded s"

lemma member_threads:
  assumes fit: "length data < 2 ^ 60" and same: "same_state s t" and r: "decode_member crc available data options start s = Inr (s', pos)"
  shows "\<exists>t'. decode_member crc available data (options\<lparr>do_threads := 1\<rparr>) start t = Inr (t', pos) \<and> same_state s' t'"
proof -
  let ?stream = "\<lambda>header. \<lparr>ds_start_byte = gh_deflate_start header, ds_end_byte = length data, ds_member = length (gs_members s),
          ds_decoded_base = gs_decoded s\<rparr>"
  obtain header q where header: "parse_header crc data start = Inr header" "\<not> length (gs_members s) \<ge> 2 ^ 32"
    and q: "decompress_deflate_stream crc available data (?stream header) (gs_output s) options (gs_progress s) = Inr q"
    using r by (auto simp: decode_member_def and_then_Inr_iff split: if_splits)
  obtain q' where q': "decompress_deflate_stream crc available data (?stream header) (gs_output t) (options\<lparr>do_threads := 1\<rparr>) (gs_progress t) = Inr q'"
    "same_stream q q'"
    using stream_threads [OF fit q, of "gs_progress t"] same by (auto simp: same_state_def)
  have len: "(dr_end_bit (sr_report q) + 7) div 8 < 2 ^ 60"
    using r header q fit by (auto simp: decode_member_def Let_def and_then_Inr_iff ok_or_Inr_iff get_range_def checked_add_Some_iff split: if_splits)
  note trailer = same_trailer [OF q'(2) len]
  obtain bs decoded where bs: "checked_add ((dr_end_bit (sr_report q) + 7) div 8) 8 = Some pos"
      "get_range data ((dr_end_bit (sr_report q) + 7) div 8) pos = Some bs"
      "dr_crc (sr_report q) = u32_from_le (take 4 bs)" "word_of_nat (dr_decoded_len (sr_report q)) = u32_from_le (drop 4 bs)"
      "checked_add (gs_decoded s) (dr_decoded_len (sr_report q)) = Some decoded"
    and s': "gs_members s' = gs_members s @ [\<lparr>gm_compressed_start = start, gm_deflate_start = gh_deflate_start header,
        gm_compressed_end = pos, gm_decoded_start = decoded - dr_decoded_len (sr_report q),
        gm_decoded_len = dr_decoded_len (sr_report q), gm_expected_crc = u32_from_le (take 4 bs), gm_header = header\<rparr>]"
      "gs_output s' = sr_output q" "gs_decoded s' = decoded"
    using r header q by (auto simp: decode_member_def Let_def and_then_Inr_iff ok_or_Inr_iff split: if_splits)
  show ?thesis
    using header bs q' same s' trailer by (auto simp: decode_member_def Let_def same_state_def same_stream_def)
qed

lemma members_threads:
  assumes fit: "length data < 2 ^ 60"
  shows "same_state s t \<Longrightarrow> gzip_members crc available data options pos s = Inr s' \<Longrightarrow>
    \<exists>t'. gzip_members crc available data (options\<lparr>do_threads := 1\<rparr>) pos t = Inr t' \<and> same_state s' t'"
proof (induction "length data - pos" arbitrary: pos s t rule: less_induct)
  case less
  note same = less.prems(1)
  have members: "gs_members t = gs_members s" using same by (simp add: same_state_def)
  show ?case
  proof (cases "pos \<ge> length data \<or> (gs_members s \<noteq> [] \<and> (\<forall>b\<in>set (drop pos data). b = 0))")
    case True
    then show ?thesis using less.prems members
      by (auto simp: gzip_members.simps [of crc available data _ pos] split: if_splits)
  next
    case False
    then obtain s1 p1 where r: "decode_member crc available data options pos s = Inr (s1, p1)" and p1: "\<not> p1 \<le> pos"
      and rest: "gzip_members crc available data options p1 s1 = Inr s'"
      using less.prems(2) by (auto simp: gzip_members.simps [of crc available data _ pos] and_then_Inr_iff split: if_splits)
    obtain t1 where t1: "decode_member crc available data (options\<lparr>do_threads := 1\<rparr>) pos t = Inr (t1, p1)" "same_state s1 t1"
      using member_threads [OF fit same r] by blast
    have "length data - p1 < length data - pos" using p1 False by auto
    from less.hyps [OF this t1(2) rest] show ?thesis using t1(1) p1 False members
      by (auto simp: gzip_members.simps [of crc available data _ pos])
  qed
qed

lemma gzip_serial_result:
  assumes "length data < 2 ^ 60" and "gzip_decompress crc available data options = Inr s"
  shows "\<exists>s'. gzip_decompress crc available data (options\<lparr>do_threads := 1\<rparr>) = Inr s' \<and>
    gs_output s' = gs_output s \<and> gs_members s' = gs_members s \<and> gs_decoded s' = gs_decoded s"
proof -
  obtain s1 where s1: "gzip_members crc available data options 0 gzip_start = Inr s1" "gs_members s1 \<noteq> []"
    and s: "s = s1\<lparr>gs_progress := gs_progress s1 @ [(length data, gs_decoded s1)]\<rparr>"
    and limit: "\<not> do_memory_limit options < MAX_DECODED_BLOCK"
    using assms(2) by (auto simp: gzip_decompress_def decode_validate_def and_then_Inr_iff split: if_splits)
  have "same_state gzip_start gzip_start" by (simp add: same_state_def)
  from members_threads [OF assms(1) this s1(1)] obtain t where
    "gzip_members crc available data (options\<lparr>do_threads := 1\<rparr>) 0 gzip_start = Inr t" "same_state s1 t" by blast
  then show ?thesis using s1(2) s limit by (auto simp: gzip_decompress_def decode_validate_def same_state_def)
qed

text \<open>C3. Parallel gzip decoding is serial decoding: whatever the number of threads and the memory limit,
  if speculative segments, their markers and windows give a result, the one-threaded decoder returns
  the same bytes and members for the same input.\<close>

theorem gzip_threads_irrelevant:
  assumes "length data < 2 ^ 60" and "gzip_decompress crc available data options = Inr s"
  shows "\<exists>s'. gzip_decompress crc available data (options\<lparr>do_threads := 1\<rparr>) = Inr s' \<and>
    gs_output s' = gs_output s \<and> gs_members s' = gs_members s \<and> gs_decoded s' = gs_decoded s"
  using assms by (rule gzip_serial_result)

definition stored_member :: bytes where
  "stored_member = [0x1f, 0x8b, 8, 0, 0, 0, 0, 0, 0, 0xff, 1, 2, 0, 0xfd, 0xff, 0x68, 0x69, 7, 0, 0, 0, 2, 0, 0, 0]"

lemma stored_member_result:
  "(case gzip_decompress (\<lambda>_. 7) (Some 8) stored_member \<lparr>do_threads = 8, do_memory_limit = 2 ^ 40\<rparr> of
      Inl _ \<Rightarrow> False | Inr s \<Rightarrow> gs_output s = [0x68, 0x69])"
  by code_simp

theorem gzip_threads_irrelevant_witness:
  "\<exists>s'. gzip_decompress (\<lambda>_. 7) (Some 8) stored_member \<lparr>do_threads = 1, do_memory_limit = 2 ^ 40\<rparr> = Inr s' \<and> gs_output s' = [0x68, 0x69]"
proof -
  obtain s where s: "gzip_decompress (\<lambda>_. 7) (Some 8) stored_member \<lparr>do_threads = 8, do_memory_limit = 2 ^ 40\<rparr> = Inr s"
    "gs_output s = [0x68, 0x69]"
    using stored_member_result by (auto split: sum.splits)
  have "length stored_member < 2 ^ 60" by (simp add: stored_member_def)
  from gzip_threads_irrelevant [OF this s(1)] s(2) show ?thesis by auto
qed

end
