(* ===== verification/Zip_Writer.thy ===== *)
theory Zip_Writer
  imports Deflate_Encode Pipeline "HOL-Library.List_Lexorder"
begin

text \<open>
  The ZIP writer of \<open>src/zip.rs\<close>: names, local headers, data descriptors, the central directory with its
  Zip64 records, the choice between storing and deflating, and \<open>create_to_writer\<close>. The file system is a
  parameter (\<open>file_system\<close>). A sequence of \<open>push_u16\<close>, \<open>push_u32\<close> and \<open>push_u64\<close> is a list of widths and
  values (\<open>push_all\<close>). Sizes and offsets (\<open>u64\<close>) are natural numbers.
\<close>

definition UTF8_DATA_DESCRIPTOR :: nat where "UTF8_DATA_DESCRIPTOR = 0x0808"
definition METHOD_STORED :: nat where "METHOD_STORED = 0"
definition METHOD_DEFLATE :: nat where "METHOD_DEFLATE = 8"
definition SMALL_WORKING_MEMORY :: nat where "SMALL_WORKING_MEMORY = 8 * 1024 * 1024"
definition SINGLE_ENTRY_PARALLEL :: nat where "SINGLE_ENTRY_PARALLEL = 16 * 1024 * 1024"
definition MULTI_ENTRY_PARALLEL :: nat where "MULTI_ENTRY_PARALLEL = 64 * 1024 * 1024"
definition u32_max :: nat where "u32_max = 2 ^ 32 - 1"
definition u16_max :: nat where "u16_max = 2 ^ 16 - 1"

section \<open>Entries\<close>

datatype path_component = Normal bytes | CurDir | ParentDir | RootDir | Prefix

datatype file_type = RegularFile | DirectoryFile | SymlinkFile | FifoFile | OtherFile

text \<open>What \<open>symlink_metadata\<close> reports; the modification time is in whole seconds from the epoch.\<close>

record metadata =
  md_type :: file_type
  md_len :: nat
  md_permissions :: u32
  md_modified :: "int option"

record 'p file_system =
  fs_metadata :: "'p \<Rightarrow> error + metadata"
  fs_read_link :: "'p \<Rightarrow> error + bytes"
  fs_read :: "'p \<Rightarrow> error + bytes"
  fs_open :: "'p \<Rightarrow> error + bytes list"

record 'p path_input =
  pi_source :: 'p
  pi_archive_path :: "path_component list"

datatype entry_kind = FileEntry | DirectoryEntry | SymlinkEntry

record 'p zip_entry =
  zn_source :: 'p
  zn_name :: bytes
  zn_kind :: entry_kind
  zn_size :: nat
  zn_mode :: u32
  zn_modified :: "u32 option"

record central_entry =
  ce_name :: bytes
  ce_method :: nat
  ce_crc :: u32
  ce_compressed_size :: nat
  ce_uncompressed_size :: nat
  ce_local_offset :: nat
  ce_mode :: u32
  ce_modified :: "u32 option"
  ce_zip64 :: bool

record zip_report =
  zp_entries :: nat
  zp_input :: nat
  zp_output :: nat

definition zip_mode :: "metadata \<Rightarrow> u32" where
  "zip_mode m =
     (case md_type m of SymlinkFile \<Rightarrow> 0xa000 | DirectoryFile \<Rightarrow> 0x4000 | RegularFile \<Rightarrow> 0x8000 | FifoFile \<Rightarrow> 0x1000
      | OtherFile \<Rightarrow> 0) OR md_permissions m"

definition zip_modified :: "metadata \<Rightarrow> u32 option" where
  "zip_modified m =
     (case md_modified m of None \<Rightarrow> None
      | Some t \<Rightarrow> if 0 \<le> t \<and> t < 2 ^ 32 then Some (word_of_int t) else None)"

text \<open>\<open>str::from_utf8\<close>: the well-formed sequences of UTF-8.\<close>

definition continuation :: "byte \<Rightarrow> bool" where
  "continuation b \<longleftrightarrow> 0x80 \<le> b \<and> b \<le> 0xbf"

fun utf8_valid :: "bytes \<Rightarrow> bool" where
  "utf8_valid [] = True"
| "utf8_valid (a # rest) =
     (if a < 0x80 then utf8_valid rest
      else case rest of
        [] \<Rightarrow> False
      | b # rest \<Rightarrow>
          if 0xc2 \<le> a \<and> a \<le> 0xdf then continuation b \<and> utf8_valid rest
          else case rest of
            [] \<Rightarrow> False
          | c # rest \<Rightarrow>
              if 0xe0 \<le> a \<and> a \<le> 0xef
              then (if a = 0xe0 then 0xa0 \<le> b \<and> b \<le> 0xbf else if a = 0xed then 0x80 \<le> b \<and> b \<le> 0x9f else continuation b) \<and>
                continuation c \<and> utf8_valid rest
              else case rest of
                [] \<Rightarrow> False
              | d # rest \<Rightarrow>
                  0xf0 \<le> a \<and> a \<le> 0xf4 \<and>
                  (if a = 0xf0 then 0x90 \<le> b \<and> b \<le> 0xbf else if a = 0xf4 then 0x80 \<le> b \<and> b \<le> 0x8f else continuation b) \<and>
                  continuation c \<and> continuation d \<and> utf8_valid rest)"

fun name_parts :: "path_component list \<Rightarrow> error + bytes list" where
  "name_parts [] = Inr []"
| "name_parts (Normal part # path) =
     (if utf8_valid part then and_then (name_parts path) (\<lambda>parts. Inr (part # parts)) else Inl (InvalidZip PathNotUtf8))"
| "name_parts (CurDir # path) = name_parts path"
| "name_parts (_ # path) = Inl (InvalidZip UnsafePath)"

fun join_slash :: "bytes list \<Rightarrow> bytes" where
  "join_slash [] = []"
| "join_slash [part] = part"
| "join_slash (part # parts) = part @ 0x2f # join_slash parts"

definition zip_name :: "path_component list \<Rightarrow> bool \<Rightarrow> error + bytes" where
  "zip_name path directory =
     and_then (name_parts path) (\<lambda>parts.
     if parts = [] then Inl (InvalidZip EmptyPath)
     else Inr (join_slash parts @ (if directory then [0x2f] else [])))"

definition make_entry :: "'p file_system \<Rightarrow> 'p path_input \<Rightarrow> error + 'p zip_entry" where
  "make_entry fs input =
     and_then (fs_metadata fs (pi_source input)) (\<lambda>m.
     and_then (case md_type m of
         SymlinkFile \<Rightarrow> Inr SymlinkEntry | DirectoryFile \<Rightarrow> Inr DirectoryEntry | RegularFile \<Rightarrow> Inr FileEntry
       | _ \<Rightarrow> Inl (InvalidZip UnsupportedEntry)) (\<lambda>kind.
     and_then (case kind of
         FileEntry \<Rightarrow> Inr (md_len m)
       | SymlinkEntry \<Rightarrow> and_then (fs_read_link fs (pi_source input)) (\<lambda>target. Inr (length target))
       | DirectoryEntry \<Rightarrow> Inr 0) (\<lambda>len.
     and_then (zip_name (pi_archive_path input) (kind = DirectoryEntry)) (\<lambda>name.
     Inr \<lparr>zn_source = pi_source input, zn_name = name, zn_kind = kind, zn_size = len, zn_mode = zip_mode m,
          zn_modified = zip_modified m\<rparr>))))"

section \<open>Headers\<close>

definition push_all :: "(nat \<times> nat) list \<Rightarrow> bytes" where
  "push_all pushes = concat (map (\<lambda>(width, value). nat_le width value) pushes)"

definition timestamp_extra :: "u32 option \<Rightarrow> bytes" where
  "timestamp_extra modified =
     (case modified of None \<Rightarrow> [] | Some t \<Rightarrow> push_all [(2, 0x5455), (2, 5), (1, 1), (4, unat t)])"

definition may_need_zip64 :: "nat \<Rightarrow> bool" where
  "may_need_zip64 len \<longleftrightarrow> len \<ge> 0xff000000"

text \<open>A length that \<open>try_into\<close> does not fit into a \<open>u16\<close> or \<open>u32\<close> is an error.\<close>

definition narrow :: "nat \<Rightarrow> nat \<Rightarrow> zip_reason \<Rightarrow> error + nat" where
  "narrow limit value reason = (if value \<le> limit then Inr value else Inl (InvalidZip reason))"

definition local_header :: "bytes \<Rightarrow> nat \<Rightarrow> u32 option \<Rightarrow> nat \<Rightarrow> bool \<Rightarrow> error + bytes" where
  "local_header name len modified method zip64 =
     (let extra = (if zip64 then push_all [(2, 1), (2, 16), (8, len), (8, 0)] else []) @ timestamp_extra modified in
      and_then (narrow u16_max (length name) PathTooLong) (\<lambda>name_len.
      and_then (narrow u16_max (length extra) LocalExtraTooLarge) (\<lambda>extra_len.
      Inr (push_all [(4, 0x04034b50), (2, if zip64 then 45 else 20), (2, UTF8_DATA_DESCRIPTOR), (2, method), (2, 0), (2, 0),
             (4, 0), (4, if zip64 then u32_max else 0), (4, if zip64 then u32_max else 0), (2, name_len), (2, extra_len)] @
           name @ extra))))"

definition descriptor :: "u32 \<Rightarrow> nat \<Rightarrow> nat \<Rightarrow> bool \<Rightarrow> error + bytes" where
  "descriptor crc compressed uncompressed zip64 =
     and_then (if zip64 then Inr [(8, compressed), (8, uncompressed)]
       else and_then (narrow u32_max compressed CompressedNeedsZip64) (\<lambda>compressed.
            and_then (narrow u32_max uncompressed EntryNeedsZip64) (\<lambda>uncompressed.
            Inr [(4, compressed), (4, uncompressed)]))) (\<lambda>sizes.
     Inr (push_all ([(4, 0x08074b50), (4, unat crc)] @ sizes)))"

definition central_record :: "central_entry \<Rightarrow> error + bytes" where
  "central_record e =
     (let size64 = ce_uncompressed_size e > u32_max; compressed64 = ce_compressed_size e > u32_max;
          offset64 = ce_local_offset e > u32_max;
          zip64_values = push_all ((if size64 then [(8, ce_uncompressed_size e)] else []) @
            (if compressed64 then [(8, ce_compressed_size e)] else []) @ (if offset64 then [(8, ce_local_offset e)] else []));
          extra = (if zip64_values \<noteq> [] then push_all [(2, 1), (2, length zip64_values)] @ zip64_values else []) @
            timestamp_extra (ce_modified e);
          needed = (if ce_zip64 e \<or> zip64_values \<noteq> [] then 45 else 20) in
      and_then (narrow u16_max (length (ce_name e)) PathTooLong) (\<lambda>name_len.
      and_then (narrow u16_max (length extra) CentralExtraTooLarge) (\<lambda>extra_len.
      Inr (push_all [(4, 0x02014b50), (2, 3 * 256 + needed), (2, needed), (2, UTF8_DATA_DESCRIPTOR), (2, ce_method e),
             (2, 0), (2, 0), (4, unat (ce_crc e)), (4, if compressed64 then u32_max else ce_compressed_size e),
             (4, if size64 then u32_max else ce_uncompressed_size e), (2, name_len), (2, extra_len), (2, 0), (2, 0), (2, 0),
             (4, unat (push_bit 16 (ce_mode e))), (4, if offset64 then u32_max else ce_local_offset e)] @
           ce_name e @ extra))))"

section \<open>Writing entries\<close>

text \<open>The counting writer: what the inner writer has received and the bytes counted.\<close>

record counting_writer =
  cw_inner :: bytes
  cw_position :: nat

definition cw_write :: "bytes \<Rightarrow> counting_writer \<Rightarrow> counting_writer" where
  "cw_write bytes w = w\<lparr>cw_inner := cw_inner w @ bytes, cw_position := cw_position w + length bytes\<rparr>"

definition stored_bytes :: "'p file_system \<Rightarrow> 'p zip_entry \<Rightarrow> error + bytes" where
  "stored_bytes fs e =
     (case zn_kind e of
        DirectoryEntry \<Rightarrow> Inr [] | SymlinkEntry \<Rightarrow> fs_read_link fs (zn_source e) | FileEntry \<Rightarrow> fs_read fs (zn_source e))"

record 'p prepared =
  pp_entry :: "'p zip_entry"
  pp_bytes :: bytes
  pp_method :: nat
  pp_crc :: u32
  pp_uncompressed_size :: nat

definition deflate_bytes :: "(bytes \<Rightarrow> u32) \<Rightarrow> bytes \<Rightarrow> nat \<Rightarrow> error + bytes \<times> deflate_encode_report" where
  "deflate_bytes crc data level =
     (if level < 1 \<or> 9 < level then Inl (InvalidConfiguration LevelRange) else compress_bytes_serial crc data level)"

definition prepare :: "(bytes \<Rightarrow> u32) \<Rightarrow> 'p file_system \<Rightarrow> nat \<Rightarrow> 'p zip_entry \<Rightarrow> error + 'p prepared" where
  "prepare crc fs level e =
     and_then (stored_bytes fs e) (\<lambda>plain.
     let as_stored = \<lparr>pp_entry = e, pp_bytes = plain, pp_method = METHOD_STORED, pp_crc = crc plain,
           pp_uncompressed_size = length plain\<rparr> in
     if zn_kind e \<noteq> FileEntry then Inr as_stored
     else and_then (deflate_bytes crc plain level) (\<lambda>(encoded, report).
       if length encoded < length plain
       then Inr \<lparr>pp_entry = e, pp_bytes = encoded, pp_method = METHOD_DEFLATE, pp_crc = der_crc report,
              pp_uncompressed_size = der_input_len report\<rparr>
       else Inr as_stored))"

type_synonym archive = "counting_writer \<times> central_entry list"

definition write_prepared :: "'p prepared \<Rightarrow> archive \<Rightarrow> error + archive" where
  "write_prepared p = (\<lambda>(out, central).
     let zip64 = may_need_zip64 (pp_uncompressed_size p); local_offset = cw_position out; e = pp_entry p in
     and_then (local_header (zn_name e) (zn_size e) (zn_modified e) (pp_method p) zip64) (\<lambda>header.
     let out = cw_write (pp_bytes p) (cw_write header out) in
     and_then (descriptor (pp_crc p) (length (pp_bytes p)) (pp_uncompressed_size p) zip64) (\<lambda>trailer.
     Inr (cw_write trailer out, central @ [\<lparr>ce_name = zn_name e, ce_method = pp_method p, ce_crc = pp_crc p,
       ce_compressed_size = length (pp_bytes p), ce_uncompressed_size = pp_uncompressed_size p,
       ce_local_offset = local_offset, ce_mode = zn_mode e, ce_modified = zn_modified e, ce_zip64 = zip64\<rparr>]))))"

definition write_large ::
  "(bytes \<Rightarrow> u32) \<Rightarrow> nat option \<Rightarrow> deflate_segment schedule \<Rightarrow> 'p file_system \<Rightarrow> encode_options \<Rightarrow> 'p zip_entry \<Rightarrow>
   archive \<Rightarrow> error + archive" where
  "write_large crc available pick fs options e = (\<lambda>(out, central).
     let zip64 = may_need_zip64 (zn_size e); local_offset = cw_position out in
     and_then (local_header (zn_name e) (zn_size e) (zn_modified e) METHOD_DEFLATE zip64) (\<lambda>header.
     let out = cw_write header out; compressed_start = cw_position out in
     and_then (fs_open fs (zn_source e)) (\<lambda>chunks.
     and_then (deflate_compress crc available pick options (map (\<lambda>chunk. (chunk, False)) chunks)) (\<lambda>(encoded, report).
     let out = cw_write encoded out; compressed_size = cw_position out - compressed_start in
     and_then (descriptor (der_crc report) compressed_size (der_input_len report) zip64) (\<lambda>trailer.
     Inr (cw_write trailer out, central @ [\<lparr>ce_name = zn_name e, ce_method = METHOD_DEFLATE, ce_crc = der_crc report,
       ce_compressed_size = compressed_size, ce_uncompressed_size = der_input_len report,
       ce_local_offset = local_offset, ce_mode = zn_mode e, ce_modified = zn_modified e, ce_zip64 = zip64\<rparr>]))))))"

section \<open>The central directory and its end\<close>

fun write_centrals :: "central_entry list \<Rightarrow> counting_writer \<Rightarrow> error + counting_writer" where
  "write_centrals [] out = Inr out"
| "write_centrals (e # es) out = and_then (central_record e) (\<lambda>bytes. write_centrals es (cw_write bytes out))"

definition end_records :: "bool \<Rightarrow> nat \<Rightarrow> nat \<Rightarrow> nat \<Rightarrow> nat \<Rightarrow> bytes" where
  "end_records zip64 count central_size central_start zip64_start =
     push_all ((if zip64 then [(4, 0x06064b50), (8, 44), (2, 3 * 256 + 45), (2, 45), (4, 0), (4, 0), (8, count), (8, count),
         (8, central_size), (8, central_start), (4, 0x07064b50), (4, 0), (8, zip64_start), (4, 1)] else []) @
       [(4, 0x06054b50), (2, 0), (2, 0), (2, min count u16_max), (2, min count u16_max), (4, min central_size u32_max),
        (4, min central_start u32_max), (2, 0)])"

definition finish_archive :: "archive \<Rightarrow> error + counting_writer" where
  "finish_archive = (\<lambda>(out, central).
     let central_start = cw_position out in
     and_then (write_centrals central out) (\<lambda>out.
     let central_size = cw_position out - central_start;
         zip64 = ((\<exists>e\<in>set central. ce_zip64 e) \<or> length central > u16_max \<or> central_start > u32_max \<or> central_size > u32_max)
     in Inr (cw_write (end_records zip64 (length central) central_size central_start (cw_position out)) out)))"

section \<open>Creating an archive\<close>

fun collect_results :: "('a \<Rightarrow> error + 'b) \<Rightarrow> 'a list \<Rightarrow> error + 'b list" where
  "collect_results f [] = Inr []"
| "collect_results f (x # xs) = and_then (f x) (\<lambda>y. and_then (collect_results f xs) (\<lambda>ys. Inr (y # ys)))"

definition small_reservation :: "'p zip_entry \<Rightarrow> nat" where
  "small_reservation e =
     (case zn_kind e of FileEntry \<Rightarrow> sat_add (sat_mul (zn_size e) 2) SMALL_WORKING_MEMORY | _ \<Rightarrow> zn_size e + 1024)"

definition is_large :: "nat \<Rightarrow> encode_options \<Rightarrow> 'p zip_entry \<Rightarrow> bool" where
  "is_large threshold options e \<longleftrightarrow>
     zn_kind e = FileEntry \<and>
     (zn_size e \<ge> threshold \<or> zn_size e > usize_max \<or> small_reservation e > eo_memory_limit options)"

fun try_each :: "('a \<Rightarrow> 's \<Rightarrow> error + 's) \<Rightarrow> 'a list \<Rightarrow> 's \<Rightarrow> error + 's" where
  "try_each f [] s = Inr s"
| "try_each f (x # xs) s = and_then (f x s) (try_each f xs)"

definition zip_jobs :: "'p zip_entry list \<Rightarrow> 'p zip_entry job list" where
  "zip_jobs entries = map (\<lambda>(key, e). \<lparr>job_key = key, reservation = small_reservation e, payload = e\<rparr>) (List.enumerate 0 entries)"

definition write_entries ::
  "(bytes \<Rightarrow> u32) \<Rightarrow> nat option \<Rightarrow> deflate_segment schedule \<Rightarrow> 'p file_system \<Rightarrow> encode_options \<Rightarrow> 'p zip_entry list \<Rightarrow>
   'p zip_entry list \<Rightarrow> archive \<Rightarrow> error + archive" where
  "write_entries crc available pick fs options large small archive =
     and_then (try_each (write_large crc available pick fs options) large archive) (\<lambda>archive.
     let level = level_or options 6 in
     if encode_resolved_threads available options = 1 \<or> length small \<le> 1
     then try_each (\<lambda>e s. and_then (prepare crc fs level e) (\<lambda>p. write_prepared p s)) small archive
     else run_ordered (zip_jobs small) (eo_memory_limit options) (prepare crc fs level) (\<lambda>take.
       try_each (\<lambda>key s. and_then (take key) (\<lambda>prepared. and_then prepared (\<lambda>p. write_prepared p s)))
         [0..<length small] archive))"

definition plan_entries :: "'p file_system \<Rightarrow> encode_options \<Rightarrow> 'p path_input list \<Rightarrow> error + nat \<times> 'p zip_entry list \<times> 'p zip_entry list" where
  "plan_entries fs options inputs =
     and_then (collect_results (make_entry fs) inputs) (\<lambda>entries.
     let entries = sort_key zn_name entries in
     if \<not> distinct_adj (map zn_name entries) then Inl (InvalidZip DuplicatePath)
     else let file_count = length (filter (\<lambda>e. zn_kind e = FileEntry) entries);
         threshold = (if file_count = 1 then SINGLE_ENTRY_PARALLEL else MULTI_ENTRY_PARALLEL)
       in Inr (sum_list (map zn_size entries), filter (is_large threshold options) entries,
            filter (\<lambda>e. \<not> is_large threshold options e) entries))"

definition create_archive ::
  "(bytes \<Rightarrow> u32) \<Rightarrow> nat option \<Rightarrow> deflate_segment schedule \<Rightarrow> 'p file_system \<Rightarrow> 'p path_input list \<Rightarrow> bytes \<Rightarrow> encode_options \<Rightarrow>
   error + bytes \<times> zip_report" where
  "create_archive crc available pick fs inputs inner options =
     and_then (encode_validate options) (\<lambda>options.
     and_then (plan_entries fs options inputs) (\<lambda>(input_len, large, small).
     and_then (write_entries crc available pick fs options large small (\<lparr>cw_inner = inner, cw_position = 0\<rparr>, [])) (\<lambda>archive.
     and_then (finish_archive archive) (\<lambda>out.
     Inr (cw_inner out, \<lparr>zp_entries = length (snd archive), zp_input = input_len, zp_output = cw_position out\<rparr>)))))"

end
