(* ===== verification/Zip_Format.thy ===== *)
theory Zip_Format
  imports Zip_Writer
begin

text \<open>
  What a reader of the ZIP format makes of an archive, as the specification the writer is checked
  against: the end records, the central directory with Zip64 extra fields, the local headers and the
  data descriptors. It is written from the format's description (APPNOTE), not from code under \<open>src/\<close>.
\<close>

section \<open>Reading fields\<close>

fun take_fields :: "nat list \<Rightarrow> bytes \<Rightarrow> (nat list \<times> bytes) option" where
  "take_fields [] bs = Some ([], bs)"
| "take_fields (w # ws) bs =
     (if length bs < w then None else map_option (apfst ((#) (le_nat (take w bs)))) (take_fields ws (drop w bs)))"

definition take_bytes :: "nat \<Rightarrow> bytes \<Rightarrow> (bytes \<times> bytes) option" where
  "take_bytes n bs = (if length bs < n then None else Some (take n bs, drop n bs))"

lemma length_push_all [simp]: "length (push_all ps) = sum_list (map fst ps)"
  by (induction ps) (auto simp: push_all_def)

lemma push_all_simps [simp]: "push_all [] = []" "push_all (p # ps) = nat_le (fst p) (snd p) @ push_all ps"
  by (simp_all add: push_all_def case_prod_unfold)

lemma nat_le_Nil [simp]: "nat_le k v = [] \<longleftrightarrow> k = 0"
  by (cases k) simp_all

lemma take_fields_push:
  "ws = map fst ps \<Longrightarrow> take_fields ws (push_all ps @ rest) = Some (map (\<lambda>p. snd p mod 256 ^ fst p) ps, rest)"
  by (induction ps arbitrary: ws) (auto simp: le_nat_nat_le)

lemma take_bytes_append [simp]: "n = length bs \<Longrightarrow> take_bytes n (bs @ rest) = Some (bs, rest)"
  by (simp add: take_bytes_def)

text \<open>The value of an extra field, by its tag.\<close>

function find_extra :: "nat \<Rightarrow> bytes \<Rightarrow> bytes option" where
  "find_extra tag bs =
     (case take_fields [2, 2] bs of
        Some ([t, n], rest) \<Rightarrow>
          (if length rest < n then None else if t = tag then Some (take n rest) else find_extra tag (drop n rest))
      | _ \<Rightarrow> None)"
  by pat_completeness auto
termination
  by (relation "measure (\<lambda>(_, bs). length bs)") (auto split: if_splits)

declare find_extra.simps [simp del]

section \<open>Records\<close>

record listing =
  zl_name :: bytes
  zl_method :: nat
  zl_crc :: nat
  zl_compressed :: nat
  zl_uncompressed :: nat
  zl_offset :: nat
  zl_attributes :: nat

text \<open>A 32-bit field that holds its maximum stands for the next 8 bytes of the Zip64 field.\<close>

definition wide_field :: "nat \<Rightarrow> bytes \<Rightarrow> (nat \<times> bytes) option" where
  "wide_field v wide =
     (if v = u32_max then map_option (apfst hd) (take_fields [8] wide) else Some (v, wide))"

definition wide_fields :: "nat \<Rightarrow> nat \<Rightarrow> nat \<Rightarrow> bytes option \<Rightarrow> (nat \<times> nat \<times> nat) option" where
  "wide_fields uncompressed compressed offset wide =
     (case wide of
        None \<Rightarrow> Some (uncompressed, compressed, offset)
      | Some wide \<Rightarrow>
          Option.bind (wide_field uncompressed wide) (\<lambda>(uncompressed, wide).
          Option.bind (wide_field compressed wide) (\<lambda>(compressed, wide).
          Option.bind (wide_field offset wide) (\<lambda>(offset, wide). Some (uncompressed, compressed, offset)))))"

definition read_central :: "bytes \<Rightarrow> (listing \<times> bytes) option" where
  "read_central bs =
     (case take_fields [4, 2, 2, 2, 2, 2, 2, 4, 4, 4, 2, 2, 2, 2, 2, 4, 4] bs of
        Some ([sig, made, needed, flags, method, t, d, crc, compressed, uncompressed, name_len, extra_len, comment_len, disk,
           internal, attributes, offset], rest) \<Rightarrow>
          if sig \<noteq> 0x02014b50 then None
          else Option.bind (take_bytes name_len rest) (\<lambda>(name, rest).
            Option.bind (take_bytes extra_len rest) (\<lambda>(extra, rest).
            Option.bind (take_bytes comment_len rest) (\<lambda>(_, rest).
            Option.bind (wide_fields uncompressed compressed offset (find_extra 1 extra)) (\<lambda>(uncompressed, compressed, offset).
            Some (\<lparr>zl_name = name, zl_method = method, zl_crc = crc, zl_compressed = compressed, zl_uncompressed = uncompressed,
                   zl_offset = offset, zl_attributes = attributes\<rparr>, rest)))))
      | _ \<Rightarrow> None)"

fun read_centrals :: "nat \<Rightarrow> bytes \<Rightarrow> (listing list \<times> bytes) option" where
  "read_centrals 0 bs = Some ([], bs)"
| "read_centrals (Suc n) bs =
     Option.bind (read_central bs) (\<lambda>(l, bs). Option.bind (read_centrals n bs) (\<lambda>(ls, bs). Some (l # ls, bs)))"

text \<open>The local record at the listed offset must agree with the listing; its data are the entry's.\<close>

definition read_local :: "bytes \<Rightarrow> listing \<Rightarrow> bytes option" where
  "read_local data l =
     (case take_fields [4, 2, 2, 2, 2, 2, 4, 4, 4, 2, 2] (drop (zl_offset l) data) of
        Some ([sig, needed, flags, method, t, d, crc, compressed, uncompressed, name_len, extra_len], rest) \<Rightarrow>
          if sig \<noteq> 0x04034b50 \<or> method \<noteq> zl_method l \<or> \<not> bit flags 3 then None
          else Option.bind (take_bytes name_len rest) (\<lambda>(name, rest).
            Option.bind (take_bytes extra_len rest) (\<lambda>(extra, rest).
            Option.bind (take_bytes (zl_compressed l) rest) (\<lambda>(content, rest).
            let w = (if find_extra 1 extra = None then 4 else 8) in
            if name \<noteq> zl_name l then None
            else case take_fields [4, 4, w, w] rest of
                Some (fs, _) \<Rightarrow>
                  if fs = [0x08074b50, zl_crc l, zl_compressed l, zl_uncompressed l] then Some content else None
              | None \<Rightarrow> None)))
      | _ \<Rightarrow> None)"

text \<open>
  The end record without a comment. The Zip64 record its locator points at is consulted when the number
  of entries or the start of the directory is at its maximum.
\<close>

definition read_end :: "bytes \<Rightarrow> (nat \<times> nat) option" where
  "read_end data =
     (case take_fields [4, 2, 2, 2, 2, 4, 4, 2] (drop (length data - 22) data) of
        Some ([sig, disk, start_disk, here, count, central_size, central_start, comment_len], _) \<Rightarrow>
          if sig \<noteq> 0x06054b50 \<or> comment_len \<noteq> 0 then None
          else if count \<noteq> u16_max \<and> central_start \<noteq> u32_max then Some (count, central_start)
          else (case take_fields [4, 4, 8, 4] (drop (length data - 42) data) of
              Some ([sig, disk, zip64_start, disks], _) \<Rightarrow>
                if length data < 42 \<or> sig \<noteq> 0x07064b50 then Some (count, central_start)
                else (case take_fields [4, 8, 2, 2, 4, 4, 8, 8, 8, 8] (drop zip64_start data) of
                    Some ([sig, len, made, needed, disk, start_disk, here, count, central_size, central_start], _) \<Rightarrow>
                      if sig \<noteq> 0x06064b50 then None else Some (count, central_start)
                  | _ \<Rightarrow> None)
            | _ \<Rightarrow> Some (count, central_start))
      | _ \<Rightarrow> None)"

fun read_locals :: "bytes \<Rightarrow> listing list \<Rightarrow> (listing \<times> bytes) list option" where
  "read_locals data [] = Some []"
| "read_locals data (l # ls) =
     Option.bind (read_local data l) (\<lambda>content. map_option ((#) (l, content)) (read_locals data ls))"

definition read_archive :: "bytes \<Rightarrow> (listing \<times> bytes) list option" where
  "read_archive data =
     Option.bind (read_end data) (\<lambda>(count, central_start).
     Option.bind (read_centrals count (drop central_start data)) (\<lambda>(ls, _). read_locals data ls))"

section \<open>Headers are read back\<close>

lemma find_extra_Nil: "find_extra tag [] = None"
  by (simp add: find_extra.simps)

lemma find_extra_skip:
  assumes "t \<noteq> tag" and "t < 2 ^ 16" and "length v < 2 ^ 16"
  shows "find_extra tag (push_all [(2, t), (2, length v)] @ v @ rest) = find_extra tag rest"
  using assms take_fields_push [of "[2, 2]" "[(2, t), (2, length v)]" "v @ rest"]
  by (subst find_extra.simps) simp

lemma find_timestamp: "find_extra 1 (timestamp_extra modified) = None"
proof (cases modified)
  case (Some t)
  have "find_extra 1 (push_all [(2, 0x5455), (2, length (push_all [(1, 1), (4, unat t)]))] @ push_all [(1, 1), (4, unat t)] @ []) = None"
    by (subst find_extra_skip) (simp_all add: find_extra_Nil)
  then show ?thesis using Some by (simp add: timestamp_extra_def)
qed (simp add: timestamp_extra_def find_extra_Nil)

lemma find_zip64:
  assumes "length wide < 2 ^ 16"
  shows "find_extra 1 (push_all [(2, 1), (2, length wide)] @ wide @ rest) = Some wide"
  using assms take_fields_push [of "[2, 2]" "[(2, 1), (2, length wide)]" "wide @ rest"]
  by (simp add: find_extra.simps)

definition listing_of :: "central_entry \<Rightarrow> listing" where
  "listing_of e = \<lparr>zl_name = ce_name e, zl_method = ce_method e, zl_crc = unat (ce_crc e),
     zl_compressed = ce_compressed_size e, zl_uncompressed = ce_uncompressed_size e, zl_offset = ce_local_offset e,
     zl_attributes = unat (push_bit 16 (ce_mode e))\<rparr>"

text \<open>No size or offset sits at a value that is read as a reference to a Zip64 field, and all fit their fields.\<close>

definition clear_entry :: "central_entry \<Rightarrow> bool" where
  "clear_entry e \<longleftrightarrow>
     (\<forall>n\<in>{ce_uncompressed_size e, ce_compressed_size e, ce_local_offset e}. n \<noteq> u32_max \<and> n < 2 ^ 64) \<and> ce_method e < 2 ^ 16"

lemma wide_field_push:
  assumes "v \<noteq> u32_max" and "v < 2 ^ 64"
  shows "wide_field (if v > u32_max then u32_max else v) (push_all (if v > u32_max then [(8, v)] else []) @ rest) = Some (v, rest)"
  using assms take_fields_push [of "[8]" "[(8, v)]" rest] by (simp add: wide_field_def)

lemma narrow_Inr [simp]: "narrow limit v reason = Inr n \<longleftrightarrow> v \<le> limit \<and> n = v"
  by (auto simp: narrow_def)

lemma unat_u32_less: "unat (w :: u32) < 4294967296"
  by (rule order.strict_trans2 [OF unsigned_less]) simp

lemma push_all_append [simp]: "push_all (ps @ qs) = push_all ps @ push_all qs"
  by (simp add: push_all_def)

lemma read_central_record:
  assumes "central_record e = Inr bs" and "clear_entry e"
  shows "read_central (bs @ rest) = Some (listing_of e, rest)"
proof -
  let ?u = "ce_uncompressed_size e" and ?c = "ce_compressed_size e" and ?o = "ce_local_offset e"
  let ?wide = "push_all ((if ?u > u32_max then [(8, ?u)] else []) @ (if ?c > u32_max then [(8, ?c)] else []) @
    (if ?o > u32_max then [(8, ?o)] else []))"
  let ?extra = "(if ?wide \<noteq> [] then push_all [(2, 1), (2, length ?wide)] @ ?wide else []) @ timestamp_extra (ce_modified e)"
  let ?needed = "if ce_zip64 e \<or> ?wide \<noteq> [] then 45 else 20 :: nat"
  let ?short = "\<lambda>v. if v > u32_max then u32_max else v"
  let ?fields = "[(4, 0x02014b50), (2, 3 * 256 + ?needed), (2, ?needed), (2, UTF8_DATA_DESCRIPTOR), (2, ce_method e),
     (2, 0), (2, 0), (4, unat (ce_crc e)), (4, ?short ?c), (4, ?short ?u), (2, length (ce_name e)), (2, length ?extra), (2, 0), (2, 0), (2, 0),
     (4, unat (push_bit 16 (ce_mode e))), (4, ?short ?o)]"
  have bs: "bs = push_all ?fields @ ce_name e @ ?extra" and len: "length (ce_name e) \<le> u16_max" "length ?extra \<le> u16_max"
    using assms(1) unfolding central_record_def Let_def by (auto simp only: and_then_Inr_iff narrow_Inr sum.inject)
  have small: "length (ce_name e) < 65536" "length ?extra < 65536" using len by (simp_all add: u16_max_def del: push_all_simps)
  have clear: "?u \<noteq> u32_max" "?c \<noteq> u32_max" "?o \<noteq> u32_max" "?u < 2 ^ 64" "?c < 2 ^ 64" "?o < 2 ^ 64" "ce_method e < 2 ^ 16"
    using assms(2) by (simp_all add: clear_entry_def)
  have short: "?short v mod 4294967296 = ?short v" for v by (simp add: u32_max_def)
  have fields: "take_fields [4, 2, 2, 2, 2, 2, 2, 4, 4, 4, 2, 2, 2, 2, 2, 4, 4] (bs @ rest) =
      Some ([0x02014b50, 3 * 256 + ?needed, ?needed, UTF8_DATA_DESCRIPTOR, ce_method e, 0, 0, unat (ce_crc e), ?short ?c, ?short ?u,
        length (ce_name e), length ?extra, 0, 0, 0, unat (push_bit 16 (ce_mode e)), ?short ?o], ce_name e @ ?extra @ rest)"
    unfolding bs append_assoc using small clear(7)
    by (subst take_fields_push) (simp_all add: short UTF8_DATA_DESCRIPTOR_def unat_u32_less del: push_all_simps push_all_append)
  have wide: "wide_fields (?short ?u) (?short ?c) (?short ?o) (find_extra 1 ?extra) = Some (?u, ?c, ?o)"
  proof (cases "?wide = []")
    case True
    then have "\<not> ?u > u32_max" "\<not> ?c > u32_max" "\<not> ?o > u32_max" by (auto split: if_splits)
    then show ?thesis using True by (simp add: wide_fields_def find_timestamp [simplified])
  next
    case False
    have "length ?wide < 2 ^ 16" by auto
    then have "find_extra 1 ?extra = Some ?wide" using False find_zip64 [of ?wide] by simp
    moreover have "wide_field (?short ?o) (push_all (if ?o > u32_max then [(8, ?o)] else [])) = Some (?o, [])"
      using wide_field_push [OF clear(3,6), of "[]"] by simp
    ultimately show ?thesis
      by (simp only: wide_fields_def option.case push_all_append wide_field_push [OF clear(1,4)] wide_field_push [OF clear(2,5)]
          bind.bind_lunit prod.case)
  qed
  show ?thesis
    unfolding read_central_def fields
    by (simp only: option.case list.case prod.case take_bytes_append bind.bind_lunit wide if_False simp_thms)
      (simp add: take_bytes_def listing_of_def)
qed

text \<open>A local record: header, content and descriptor.\<close>

lemma local_extra:
  assumes "extra = (if zip64 then push_all [(2, 1), (2, 16), (8, len), (8, 0)] else []) @ timestamp_extra modified"
  shows "find_extra 1 extra = None \<longleftrightarrow> \<not> zip64"
proof (cases zip64)
  case True
  have "find_extra 1 (push_all [(2, 1), (2, length (push_all [(8, len), (8, 0)]))] @ push_all [(8, len), (8, 0)] @
      timestamp_extra modified) \<noteq> None"
    by (subst find_zip64) simp_all
  then show ?thesis using True assms by simp
qed (use assms find_timestamp in simp)

definition local_bytes :: "bytes \<Rightarrow> nat \<Rightarrow> u32 option \<Rightarrow> bool \<Rightarrow> central_entry \<Rightarrow> bytes \<Rightarrow> bytes \<Rightarrow> bool" where
  "local_bytes name len modified zip64 e content bs \<longleftrightarrow>
     (\<exists>header trailer. local_header name len modified (ce_method e) zip64 = Inr header \<and>
       descriptor (ce_crc e) (ce_compressed_size e) (ce_uncompressed_size e) zip64 = Inr trailer \<and>
       bs = header @ content @ trailer \<and> ce_name e = name \<and> ce_compressed_size e = length content)"

lemma read_local_record:
  assumes "local_bytes name len modified zip64 e content bs" and "clear_entry e"
    and "drop (ce_local_offset e) data = bs @ rest"
  shows "read_local data (listing_of e) = Some content"
proof -
  let ?extra = "(if zip64 then push_all [(2, 1), (2, 16), (8, len), (8, 0)] else []) @ timestamp_extra modified"
  obtain header trailer where h: "local_header name len modified (ce_method e) zip64 = Inr header"
    and t: "descriptor (ce_crc e) (ce_compressed_size e) (ce_uncompressed_size e) zip64 = Inr trailer"
    and bs: "bs = header @ content @ trailer" and e: "ce_name e = name" "ce_compressed_size e = length content"
    using assms(1) by (auto simp: local_bytes_def)
  let ?fields = "[(4, 0x04034b50), (2, if zip64 then 45 else 20), (2, UTF8_DATA_DESCRIPTOR), (2, ce_method e), (2, 0), (2, 0),
     (4, 0), (4, if zip64 then u32_max else 0), (4, if zip64 then u32_max else 0), (2, length name), (2, length ?extra)]"
  have header: "header = push_all ?fields @ name @ ?extra" and len: "length name \<le> u16_max" "length ?extra \<le> u16_max"
    using h unfolding local_header_def Let_def by (auto simp only: and_then_Inr_iff narrow_Inr sum.inject)
  have small: "length name < 65536" "length ?extra < 65536" "ce_method e < 65536"
    using len assms(2) by (simp_all add: u16_max_def clear_entry_def del: push_all_simps)
  have sizes: "ce_compressed_size e < 2 ^ 64" "ce_uncompressed_size e < 2 ^ 64" using assms(2) by (simp_all add: clear_entry_def)
  let ?w = "if zip64 then 8 else 4 :: nat"
  have trailer: "trailer = push_all [(4, 0x08074b50), (4, unat (ce_crc e)), (?w, ce_compressed_size e), (?w, ce_uncompressed_size e)]"
    and fit: "\<not> zip64 \<Longrightarrow> ce_compressed_size e \<le> u32_max \<and> ce_uncompressed_size e \<le> u32_max"
    using t by (auto simp: descriptor_def and_then_Inr_iff split: if_splits)
  have fields: "take_fields [4, 2, 2, 2, 2, 2, 4, 4, 4, 2, 2] (drop (ce_local_offset e) data) =
      Some ([0x04034b50, if zip64 then 45 else 20, UTF8_DATA_DESCRIPTOR, ce_method e, 0, 0, 0, if zip64 then u32_max else 0,
        if zip64 then u32_max else 0, length name, length ?extra], name @ ?extra @ content @ trailer @ rest)"
    unfolding assms(3) bs header append_assoc using small
    by (subst take_fields_push) (simp_all add: UTF8_DATA_DESCRIPTOR_def u32_max_def del: push_all_simps push_all_append)
  have descr: "take_fields [4, 4, ?w, ?w] (trailer @ rest) =
      Some ([0x08074b50, unat (ce_crc e), ce_compressed_size e, ce_uncompressed_size e], rest)"
    unfolding trailer using sizes fit
    by (subst take_fields_push) (auto simp: unat_u32_less u32_max_def simp del: push_all_simps push_all_append)
  have extra: "(if find_extra 1 ?extra = None then 4 else 8) = ?w" using local_extra [OF refl, of zip64 len modified] by simp
  have flags: "bit UTF8_DATA_DESCRIPTOR 3" by (simp add: UTF8_DATA_DESCRIPTOR_def bit_iff_odd)
  show ?thesis
    unfolding read_local_def listing_of_def listing.select_convs fields
    by (simp only: option.case list.case prod.case take_bytes_append e bind.bind_lunit if_False simp_thms flags extra Let_def)
      (simp only: descr [unfolded e(2)] option.case prod.case if_False if_True simp_thms list.inject)
qed

section \<open>The directory and its end\<close>

lemma read_centrals_records:
  assumes "write_centrals es out = Inr out'" and "list_all clear_entry es"
  shows "\<exists>bs. cw_inner out' = cw_inner out @ bs \<and> cw_position out' = cw_position out + length bs \<and>
    (\<forall>rest. read_centrals (length es) (bs @ rest) = Some (map listing_of es, rest))"
  using assms
proof (induction es arbitrary: out)
  case (Cons e es)
  obtain b where b: "central_record e = Inr b" "write_centrals es (cw_write b out) = Inr out'"
    using Cons.prems(1) by (auto simp: and_then_Inr_iff)
  obtain bs where "cw_inner out' = cw_inner (cw_write b out) @ bs" "cw_position out' = cw_position (cw_write b out) + length bs"
    "\<forall>rest. read_centrals (length es) (bs @ rest) = Some (map listing_of es, rest)"
    using Cons.IH [OF b(2)] Cons.prems(2) by auto
  then show ?case using read_central_record [OF b(1)] Cons.prems(2)
    by (intro exI [of _ "b @ bs"]) (simp add: cw_write_def)
qed simp

lemma read_end_records:
  assumes "zip64 \<or> count < u16_max \<and> central_start < u32_max" and "count < 2 ^ 64" and "central_start < 2 ^ 64"
    and "length front < 2 ^ 64"
  shows "read_end (front @ end_records zip64 count central_size central_start (length front)) = Some (count, central_start)"
proof -
  let ?tail = "[(4, 0x06054b50), (2, 0), (2, 0), (2, min count u16_max), (2, min count u16_max), (4, min central_size u32_max),
        (4, min central_start u32_max), (2, 0)]"
  let ?wide_end = "[(4, 0x06064b50), (8, 44), (2, 3 * 256 + 45), (2, 45), (4, 0), (4, 0), (8, count), (8, count),
         (8, central_size), (8, central_start)]"
  let ?locator = "[(4, 0x07064b50), (4, 0), (8, length front), (4, 1)]"
  let ?data = "front @ end_records zip64 count central_size central_start (length front)"
  have cut: "drop (length ?data - 22) ?data = push_all ?tail @ []"
    by (simp add: end_records_def del: push_all_simps)
  have "min count u16_max < 65536" "min central_start u32_max < 4294967296" "min central_size u32_max < 4294967296"
    by (auto simp: u16_max_def u32_max_def min_def)
  then have tail: "take_fields [4, 2, 2, 2, 2, 4, 4, 2] (drop (length ?data - 22) ?data) =
      Some ([0x06054b50, 0, 0, min count u16_max, min count u16_max, min central_size u32_max, min central_start u32_max, 0], [])"
    unfolding cut by (subst take_fields_push) (simp_all del: push_all_simps push_all_append)
  show ?thesis
  proof (cases zip64)
    case False
    then have "min count u16_max \<noteq> u16_max" "min central_start u32_max \<noteq> u32_max" "min count u16_max = count"
      "min central_start u32_max = central_start"
      using assms(1) by auto
    then show ?thesis by (simp only: read_end_def tail option.case list.case prod.case) simp
  next
    case True
    then have parts: "?data = (front @ push_all ?wide_end) @ push_all ?locator @ push_all ?tail" by (simp add: end_records_def)
    have l: "length ?data = length front + 98" by (simp add: parts del: push_all_simps)
    have cut2: "drop (length ?data - 42) ?data = push_all ?locator @ push_all ?tail"
      by (simp only: l) (simp add: parts del: push_all_simps)
    have locator: "take_fields [4, 4, 8, 4] (drop (length ?data - 42) ?data) =
        Some ([0x07064b50, 0, length front, 1], push_all ?tail)"
      unfolding cut2 using assms(4) by (subst take_fields_push) (simp_all del: push_all_simps push_all_append)
    have cut3: "drop (length front) ?data = push_all ?wide_end @ push_all ?locator @ push_all ?tail"
      by (simp add: parts del: push_all_simps)
    have recorded: "take_fields [4, 8, 2, 2, 4, 4, 8, 8, 8, 8] (drop (length front) ?data) =
        Some ([0x06064b50, 44, 813, 45, 0, 0, count, count, central_size mod 2 ^ 64, central_start], push_all ?locator @ push_all ?tail)"
      unfolding cut3 using assms(2,3) by (subst take_fields_push) (simp_all del: push_all_simps push_all_append)
    have small: "\<not> length ?data < 42" by (subst l) simp
    show ?thesis
    proof (cases "min count u16_max \<noteq> u16_max \<and> min central_start u32_max \<noteq> u32_max")
      case True
      then have "min count u16_max = count" "min central_start u32_max = central_start" by auto
      with True show ?thesis by (simp only: read_end_def tail option.case list.case prod.case) simp
    next
      case False
      then show ?thesis
        by (simp only: read_end_def tail option.case list.case prod.case locator recorded small) simp
    qed
  qed
qed

end
