(* ===== verification/Output_Pipe.thy ===== *)
theory Output_Pipe
  imports Errors
begin

text \<open>
  The output sinks and the pipe of \<open>src/output.rs\<close>, and the reader of \<open>src/reader.rs\<close> that runs a
  decoder in a thread of its own and hands out what it writes to the pipe. The pipe has no capacity, so
  the thread and the reader meet at every chunk and nothing else the thread does can be observed: the
  thread is the tree of its interactions (\<open>decoder_thread\<close>), each continued with the sink's answer.
  The locale \<open>output_sink\<close> is the contract of the trait \<open>OutputSink\<close>.
\<close>

section \<open>Sinks\<close>

datatype io_message =
    StartExceedsLength | ReaderStopped | DecoderPanicked | NoCompletion | Reported error

record io_error =
  ie_kind :: io_kind
  ie_message :: io_message

type_synonym 'a io = "io_error + 'a"

text \<open>The trait's default for \<open>write_owned_from\<close>, and the sink around a vector.\<close>

definition owned_suffix :: "bytes \<Rightarrow> nat \<Rightarrow> bytes io" where
  "owned_suffix bytes start =
     (if start \<le> length bytes then Inr (drop start bytes)
      else Inl \<lparr>ie_kind = InvalidInput, ie_message = StartExceedsLength\<rparr>)"

definition default_write_owned :: "(bytes \<Rightarrow> 's \<Rightarrow> 's io) \<Rightarrow> bytes \<Rightarrow> nat \<Rightarrow> 's \<Rightarrow> 's io" where
  "default_write_owned write_borrowed bytes start s =
     and_then (owned_suffix bytes start) (\<lambda>suffix. write_borrowed suffix s)"

definition writer_write_borrowed :: "bytes \<Rightarrow> bytes \<Rightarrow> bytes io" where
  "writer_write_borrowed bytes writer = Inr (writer @ bytes)"

definition writer_write_owned :: "bytes \<Rightarrow> nat \<Rightarrow> bytes \<Rightarrow> bytes io" where
  "writer_write_owned = default_write_owned writer_write_borrowed"

text \<open>
  What a decoder relies on: a write that succeeds appends exactly the bytes, an owned chunk counts from
  its start, and a start behind the chunk is refused.
\<close>

locale output_sink =
  fixes borrowed :: "bytes \<Rightarrow> 's \<Rightarrow> 's io"
    and owned :: "bytes \<Rightarrow> nat \<Rightarrow> 's \<Rightarrow> 's io"
    and received :: "'s \<Rightarrow> bytes"
  assumes borrowed_appends: "borrowed bytes s = Inr s' \<Longrightarrow> received s' = received s @ bytes"
    and owned_is_borrowed: "start \<le> length bytes \<Longrightarrow> owned bytes start s = borrowed (drop start bytes) s"
    and owned_refuses: "length bytes < start \<Longrightarrow> \<exists>e. owned bytes start s = Inl e \<and> ie_kind e = InvalidInput"
begin

lemma owned_appends:
  assumes "owned bytes start s = Inr s'"
  shows "start \<le> length bytes \<and> received s' = received s @ drop start bytes"
proof (cases "start \<le> length bytes")
  case True
  then show ?thesis using assms owned_is_borrowed borrowed_appends by metis
next
  case False
  then show ?thesis using assms owned_refuses [of bytes start s] by auto
qed

end

interpretation writer: output_sink writer_write_borrowed writer_write_owned "\<lambda>w. w"
  by unfold_locales
    (auto simp: writer_write_borrowed_def writer_write_owned_def default_write_owned_def owned_suffix_def)

section \<open>The pipe\<close>

record chunk =
  ck_bytes :: bytes
  ck_offset :: nat

text \<open>\<open>PipeWriter::send\<close> up to the rendezvous: an error, nothing to send, or a chunk that is handed over.\<close>

definition pipe_send :: "bool \<Rightarrow> bytes \<Rightarrow> nat \<Rightarrow> chunk option io" where
  "pipe_send reader_alive bytes offset =
     and_then (owned_suffix bytes offset) (\<lambda>suffix.
     if suffix = [] then Inr None
     else if reader_alive then Inr (Some \<lparr>ck_bytes = bytes, ck_offset = offset\<rparr>)
     else Inl \<lparr>ie_kind = BrokenPipe, ie_message = ReaderStopped\<rparr>)"

text \<open>
  A decoder running against a \<open>PipeWriter\<close>: it writes (a borrowed write sends a copy from offset 0),
  polls \<open>is_cancelled\<close>, and returns or panics.
\<close>

datatype decoder_thread =
    Writes bytes nat "unit io \<Rightarrow> decoder_thread"
  | Polls "bool \<Rightarrow> decoder_thread"
  | Returns "error + unit"
  | Panics

text \<open>
  \<open>Receiver::recv\<close> of the reader: the thread runs until it hands over a chunk, or until it ends, which
  drops its sender and disconnects the pipe. While the reader lives nothing is cancelled.
\<close>

primrec recv_chunk :: "decoder_thread \<Rightarrow> chunk option \<times> decoder_thread" where
  "recv_chunk (Writes bytes offset k) =
     (case pipe_send True bytes offset of
        Inl e \<Rightarrow> recv_chunk (k (Inl e))
      | Inr None \<Rightarrow> recv_chunk (k (Inr ()))
      | Inr (Some c) \<Rightarrow> (Some c, k (Inr ())))"
| "recv_chunk (Polls k) = recv_chunk (k False)"
| "recv_chunk (Returns r) = (None, Returns r)"
| "recv_chunk Panics = (None, Panics)"

text \<open>
  The thread after the reader's end of the pipe is gone: a chunk is refused with \<open>BrokenPipe\<close>, and the
  cancellation flag, a relaxed atomic, is seen after \<open>stale\<close> more polls.
\<close>

primrec run_dropped :: "decoder_thread \<Rightarrow> nat \<Rightarrow> decoder_thread" where
  "run_dropped (Writes bytes offset k) stale =
     run_dropped (k (case pipe_send False bytes offset of Inl e \<Rightarrow> Inl e | Inr _ \<Rightarrow> Inr ())) stale"
| "run_dropped (Polls k) stale = run_dropped (k (stale = 0)) (stale - 1)"
| "run_dropped (Returns r) stale = Returns r"
| "run_dropped Panics stale = Panics"

text \<open>\<open>PipeReader\<close>: the current chunk and the position in it.\<close>

definition pipe_copy :: "nat \<Rightarrow> chunk \<Rightarrow> decoder_thread \<Rightarrow> error + bytes \<times> chunk \<times> decoder_thread" where
  "pipe_copy wanted p thread =
     (if ck_offset p > length (ck_bytes p) then Inl Panic
      else let count = min wanted (length (ck_bytes p) - ck_offset p) in
        Inr (slice_of (ck_bytes p) (ck_offset p) (ck_offset p + count), p\<lparr>ck_offset := ck_offset p + count\<rparr>, thread))"

definition pipe_read :: "nat \<Rightarrow> chunk \<Rightarrow> decoder_thread \<Rightarrow> error + bytes \<times> chunk \<times> decoder_thread" where
  "pipe_read wanted p thread =
     (if wanted = 0 then Inr ([], p, thread)
      else if ck_offset p = length (ck_bytes p)
      then (case recv_chunk thread of
              (Some c, thread) \<Rightarrow> pipe_copy wanted c thread
            | (None, thread) \<Rightarrow> Inr ([], p, thread))
      else pipe_copy wanted p thread)"

definition empty_pipe :: chunk where
  "empty_pipe = \<lparr>ck_bytes = [], ck_offset = 0\<rparr>"

section \<open>The reader\<close>

datatype reader_status = Reading | Eof | Failed io_error

text \<open>The fields of \<open>Reader\<close> that are options of a handle are booleans: the thread itself is \<open>rd_thread\<close>.\<close>

record reader =
  rd_pipe :: "chunk option"
  rd_result :: bool
  rd_worker :: bool
  rd_status :: reader_status
  rd_thread :: decoder_thread
  rd_stale :: nat

definition read_error :: "error \<Rightarrow> io_error" where
  "read_error e =
     (case e of
        Io k \<Rightarrow> \<lparr>ie_kind = k, ie_message = Reported e\<rparr>
      | InvalidConfiguration _ \<Rightarrow> \<lparr>ie_kind = InvalidInput, ie_message = Reported e\<rparr>
      | _ \<Rightarrow> \<lparr>ie_kind = InvalidData, ie_message = Reported e\<rparr>)"

text \<open>\<open>recv\<close> on the result channel: \<open>None\<close> is a thread that ended without a result. A thread that waits for the
  reader to take a chunk would be waited for, for ever.\<close>

definition recv_result :: "decoder_thread \<Rightarrow> error + (error + unit) option" where
  "recv_result thread =
     (case recv_chunk thread of
        (Some _, _) \<Rightarrow> Inl Unending
      | (None, Returns r) \<Rightarrow> Inr (Some r)
      | (None, _) \<Rightarrow> Inr None)"

definition join_worker :: "reader \<Rightarrow> unit io \<times> reader" where
  "join_worker r =
     (if \<not> rd_worker r then (Inr (), r)
      else let thread = run_dropped (rd_thread r) (rd_stale r) in
        (case thread of Panics \<Rightarrow> Inl \<lparr>ie_kind = OtherIo, ie_message = DecoderPanicked\<rparr> | _ \<Rightarrow> Inr (),
         r\<lparr>rd_worker := False, rd_thread := thread\<rparr>))"

definition reader_fail :: "io_error \<Rightarrow> reader \<Rightarrow> io_error \<times> reader" where
  "reader_fail e r = (e, r\<lparr>rd_status := Failed e\<rparr>)"

definition reader_finish :: "error + unit \<Rightarrow> reader \<Rightarrow> unit io \<times> reader" where
  "reader_finish result r =
     (let (joined, r) = join_worker (r\<lparr>rd_pipe := None, rd_result := False\<rparr>) in
      case result of
        Inl e \<Rightarrow> apfst Inl (reader_fail (read_error e) r)
      | Inr _ \<Rightarrow>
          (case joined of
             Inr _ \<Rightarrow> (Inr (), r\<lparr>rd_status := Eof\<rparr>)
           | Inl e \<Rightarrow> apfst Inl (reader_fail e r)))"

definition reader_disconnected :: "reader \<Rightarrow> io_error \<times> reader" where
  "reader_disconnected r =
     (let (joined, r) = join_worker (r\<lparr>rd_pipe := None, rd_result := False\<rparr>) in
      reader_fail (case joined of Inl e \<Rightarrow> e | Inr _ \<Rightarrow> \<lparr>ie_kind = OtherIo, ie_message = NoCompletion\<rparr>) r)"

lemma reader_finish_status: "reader_finish result r = (Inr (), r') \<Longrightarrow> rd_status r' = Eof"
  by (auto simp: reader_finish_def reader_fail_def split: sum.splits prod.splits)

text \<open>\<open>Read::read\<close> with a buffer of \<open>wanted\<close> bytes. The loop goes round at most once, to report the end.\<close>

function reader_read :: "nat \<Rightarrow> reader \<Rightarrow> error + bytes io \<times> reader" where
  "reader_read wanted r =
     (if wanted = 0 then Inr (Inr [], r)
      else case rd_status r of
        Eof \<Rightarrow> Inr (Inr [], r)
      | Failed e \<Rightarrow> Inr (Inl e, r)
      | Reading \<Rightarrow>
          and_then (ok_or (rd_pipe r) Panic) (\<lambda>p.
          and_then (pipe_read wanted p (rd_thread r)) (\<lambda>(bytes, p, thread).
          let r = r\<lparr>rd_pipe := Some p, rd_thread := thread\<rparr> in
          if bytes \<noteq> [] then Inr (Inr bytes, r)
          else if \<not> rd_result r then Inl Panic
          else and_then (recv_result thread) (\<lambda>result.
            case result of
              None \<Rightarrow> (case reader_disconnected r of (e, r) \<Rightarrow> Inr (Inl e, r))
            | Some result \<Rightarrow>
                (case reader_finish result r of
                   (Inl e, r) \<Rightarrow> Inr (Inl e, r)
                 | (Inr _, r) \<Rightarrow> reader_read wanted r)))))"
  by pat_completeness auto
termination
  by (relation "measure (\<lambda>(wanted, r). if rd_status r = Reading then 1 else 0)")
    (auto dest!: reader_finish_status [OF sym])

declare reader_read.simps [simp del]

definition reader_of :: "decoder_thread \<Rightarrow> nat \<Rightarrow> reader" where
  "reader_of thread stale =
     \<lparr>rd_pipe = Some empty_pipe, rd_result = True, rd_worker = True, rd_status = Reading, rd_thread = thread,
      rd_stale = stale\<rparr>"

text \<open>\<open>Drop\<close>: the pipe is closed and the thread joined.\<close>

definition reader_drop :: "reader \<Rightarrow> reader" where
  "reader_drop r = snd (join_worker (r\<lparr>rd_pipe := None, rd_result := False\<rparr>))"

section \<open>What a reader hands out\<close>

text \<open>
  A thread that is read to its end delivers the suffixes it writes, one after the other, and then ends
  with the error a reader reports, or well.
\<close>

primrec thread_output :: "decoder_thread \<Rightarrow> bytes" where
  "thread_output (Writes bytes offset k) =
     (case owned_suffix bytes offset of
        Inl e \<Rightarrow> thread_output (k (Inl e))
      | Inr suffix \<Rightarrow> suffix @ thread_output (k (Inr ())))"
| "thread_output (Polls k) = thread_output (k False)"
| "thread_output (Returns r) = []"
| "thread_output Panics = []"

primrec thread_end :: "decoder_thread \<Rightarrow> unit io" where
  "thread_end (Writes bytes offset k) =
     thread_end (k (case owned_suffix bytes offset of Inl e \<Rightarrow> Inl e | Inr _ \<Rightarrow> Inr ()))"
| "thread_end (Polls k) = thread_end (k False)"
| "thread_end (Returns r) = (case r of Inl e \<Rightarrow> Inl (read_error e) | Inr _ \<Rightarrow> Inr ())"
| "thread_end Panics = Inl \<lparr>ie_kind = OtherIo, ie_message = DecoderPanicked\<rparr>"

text \<open>
  The specification of a sequence of reads: while bytes are left a read with room returns some of them,
  in order and no more than fit; then every read reports the end, a clean end as no bytes.
\<close>

fun delivers :: "bytes \<Rightarrow> unit io \<Rightarrow> nat list \<Rightarrow> bytes io list \<Rightarrow> bool" where
  "delivers rest fin [] [] \<longleftrightarrow> True"
| "delivers rest fin (wanted # ws) (x # xs) \<longleftrightarrow>
     (if wanted = 0 then x = Inr [] \<and> delivers rest fin ws xs
      else if rest = [] then x = (case fin of Inl e \<Rightarrow> Inl e | Inr _ \<Rightarrow> Inr []) \<and> delivers [] fin ws xs
      else (case x of
              Inl _ \<Rightarrow> False
            | Inr bytes \<Rightarrow> bytes \<noteq> [] \<and> length bytes \<le> wanted \<and> rest = bytes @ drop (length bytes) rest \<and>
                delivers (drop (length bytes) rest) fin ws xs))"
| "delivers rest fin _ _ \<longleftrightarrow> False"

fun read_each :: "nat list \<Rightarrow> reader \<Rightarrow> error + bytes io list" where
  "read_each [] r = Inr []"
| "read_each (wanted # ws) r =
     and_then (reader_read wanted r) (\<lambda>(x, r). and_then (read_each ws r) (\<lambda>xs. Inr (x # xs)))"

definition reader_yields :: "reader \<Rightarrow> bytes \<Rightarrow> unit io \<Rightarrow> bool" where
  "reader_yields r rest fin \<longleftrightarrow>
     (case rd_status r of
        Reading \<Rightarrow> rd_result r \<and> rd_worker r \<and> fin = thread_end (rd_thread r) \<and>
          (case rd_pipe r of
             None \<Rightarrow> False
           | Some p \<Rightarrow> ck_offset p \<le> length (ck_bytes p) \<and>
               rest = drop (ck_offset p) (ck_bytes p) @ thread_output (rd_thread r))
      | Eof \<Rightarrow> rest = [] \<and> fin = Inr ()
      | Failed e \<Rightarrow> rest = [] \<and> fin = Inl e)"

lemma recv_chunk_spec:
  "case recv_chunk t of
     (Some c, t') \<Rightarrow> ck_offset c < length (ck_bytes c) \<and> thread_end t' = thread_end t \<and>
       thread_output t = drop (ck_offset c) (ck_bytes c) @ thread_output t'
   | (None, t') \<Rightarrow> thread_output t = [] \<and> thread_end t' = thread_end t \<and> (t' = Panics \<or> (\<exists>r. t' = Returns r))"
proof (induction t)
  case (Writes bytes offset k)
  let ?e = "\<lparr>ie_kind = InvalidInput, ie_message = StartExceedsLength\<rparr>"
  consider "length bytes < offset" | "drop offset bytes = []" "offset \<le> length bytes" | "offset < length bytes"
    by fastforce
  then show ?case
    using Writes [OF rangeI, of "Inr ()"] Writes [OF rangeI, of "Inl ?e"]
    by cases (auto simp: pipe_send_def owned_suffix_def split: prod.splits option.splits)
next
  case (Polls k)
  show ?case using Polls [OF rangeI, of False] by (auto split: prod.splits option.splits)
qed auto

lemma pipe_copy_spec:
  assumes "ck_offset p < length (ck_bytes p)" and "0 < wanted"
  shows "\<exists>bytes p'. pipe_copy wanted p t = Inr (bytes, p', t) \<and> bytes \<noteq> [] \<and> length bytes \<le> wanted \<and>
    ck_offset p' \<le> length (ck_bytes p') \<and> drop (ck_offset p) (ck_bytes p) = bytes @ drop (ck_offset p') (ck_bytes p')"
proof -
  let ?k = "min wanted (length (ck_bytes p) - ck_offset p)"
  let ?bytes = "slice_of (ck_bytes p) (ck_offset p) (ck_offset p + ?k)"
  have "pipe_copy wanted p t = Inr (?bytes, p\<lparr>ck_offset := ck_offset p + ?k\<rparr>, t)"
    using assms by (simp add: pipe_copy_def Let_def)
  moreover have k: "length ?bytes = ?k" "0 < ?k" using assms by (simp_all add: min_def)
  moreover have "?bytes \<noteq> []" using k by (metis length_0_conv less_numeral_extra(3))
  moreover have "drop (ck_offset p) (ck_bytes p) = ?bytes @ drop (ck_offset p + ?k) (ck_bytes p)"
    by (simp add: slice_append_drop)
  ultimately show ?thesis using assms by (intro exI [of _ ?bytes] exI conjI) auto
qed

lemma recv_result_ended:
  "t = Panics \<or> (\<exists>r. t = Returns r) \<Longrightarrow> recv_result t = Inr (case t of Returns r \<Rightarrow> Some r | _ \<Rightarrow> None)"
  by (auto simp: recv_result_def)

text \<open>One read meets the specification and leaves a reader that yields what is left.\<close>

lemma reader_read_end:
  assumes "rd_status r = Reading" and "rd_result r" and "rd_worker r" and "0 < wanted"
    and "rd_pipe r = Some p" and "pipe_read wanted p (rd_thread r) = Inr ([], p', t)"
    and "t = Panics \<or> (\<exists>x. t = Returns x)"
  shows "\<exists>r'. reader_read wanted r = Inr (case thread_end t of Inl e \<Rightarrow> Inl e | Inr _ \<Rightarrow> Inr [], r') \<and>
    reader_yields r' [] (thread_end t)"
  using assms
  by (auto simp: reader_read.simps [of wanted] recv_result_ended reader_finish_def reader_disconnected_def
      join_worker_def reader_fail_def reader_yields_def Let_def split: sum.splits)

lemma reader_read_step:
  assumes "reader_yields r rest fin" and "0 < wanted"
  shows "\<exists>x r'. reader_read wanted r = Inr (x, r') \<and>
    (if rest = [] then x = (case fin of Inl e \<Rightarrow> Inl e | Inr _ \<Rightarrow> Inr []) \<and> reader_yields r' [] fin
     else (\<exists>bytes. x = Inr bytes \<and> bytes \<noteq> [] \<and> length bytes \<le> wanted \<and>
       rest = bytes @ drop (length bytes) rest \<and> reader_yields r' (drop (length bytes) rest) fin))"
proof (cases "rd_status r")
  case Reading
  then obtain p where p: "rd_pipe r = Some p" "ck_offset p \<le> length (ck_bytes p)"
    and r: "rd_result r" "rd_worker r" "fin = thread_end (rd_thread r)"
      "rest = drop (ck_offset p) (ck_bytes p) @ thread_output (rd_thread r)"
    using assms(1) by (auto simp: reader_yields_def split: option.splits)
  have deliver: ?thesis
    if c: "pipe_read wanted p (rd_thread r) = pipe_copy wanted c t" "ck_offset c < length (ck_bytes c)"
      "fin = thread_end t" "rest = drop (ck_offset c) (ck_bytes c) @ thread_output t" for c t
  proof -
    obtain bytes c' where "pipe_copy wanted c t = Inr (bytes, c', t)" "bytes \<noteq> []" "length bytes \<le> wanted"
      "ck_offset c' \<le> length (ck_bytes c')" "drop (ck_offset c) (ck_bytes c) = bytes @ drop (ck_offset c') (ck_bytes c')"
      using pipe_copy_spec [OF c(2) assms(2)] by blast
    then show ?thesis using Reading p(1) r(1,2) c assms(2)
      by (simp add: reader_read.simps reader_yields_def)
  qed
  show ?thesis
  proof (cases "ck_offset p = length (ck_bytes p)")
    case True
    obtain c t where t: "recv_chunk (rd_thread r) = (c, t)" by force
    show ?thesis
    proof (cases c)
      case None
      then have "pipe_read wanted p (rd_thread r) = Inr ([], p, t)" using t True assms(2) by (simp add: pipe_read_def)
      moreover have "rest = []" "fin = thread_end t" "t = Panics \<or> (\<exists>x. t = Returns x)"
        using recv_chunk_spec [of "rd_thread r"] t None r True by auto
      ultimately show ?thesis using reader_read_end [OF Reading r(1,2) assms(2) p(1)] by metis
    next
      case (Some ck)
      then show ?thesis using recv_chunk_spec [of "rd_thread r"] t r True assms(2)
        by (intro deliver [of ck t]) (simp_all add: pipe_read_def)
    qed
  next
    case False
    then show ?thesis using p(2) r assms(2) by (intro deliver [of p "rd_thread r"]) (simp_all add: pipe_read_def)
  qed
qed (use assms in \<open>auto simp: reader_yields_def reader_read.simps\<close>)

section \<open>Properties\<close>

text \<open>C38. Refinement: however a decoder cuts its output into chunks, however large the buffers are that
  the caller reads into, and whatever the decoder's end, a sequence of reads returns exactly the bytes the
  decoder wrote, in order and without loss; after the last byte every read reports how the decoder ended: a
  clean end of file only when it returned success, its own error when it failed (again at every later
  read), an error when it panicked. No read panics or waits for ever.\<close>

theorem reader_delivers:
  "outcome (\<lambda>_. False) (delivers (thread_output thread) (thread_end thread) ws)
     (read_each ws (reader_of thread stale))"
proof -
  have "\<exists>xs. read_each ws r = Inr xs \<and> delivers rest fin ws xs" if "reader_yields r rest fin" for r rest fin
    using that
  proof (induction ws arbitrary: r rest)
    case (Cons wanted ws)
    show ?case
    proof (cases "wanted = 0")
      case True
      then show ?thesis using Cons by (fastforce simp: reader_read.simps)
    next
      case False
      then obtain x r' where step: "reader_read wanted r = Inr (x, r')"
        "if rest = [] then x = (case fin of Inl e \<Rightarrow> Inl e | Inr _ \<Rightarrow> Inr []) \<and> reader_yields r' [] fin
         else (\<exists>bytes. x = Inr bytes \<and> bytes \<noteq> [] \<and> length bytes \<le> wanted \<and>
           rest = bytes @ drop (length bytes) rest \<and> reader_yields r' (drop (length bytes) rest) fin)"
        using reader_read_step [OF Cons.prems] by blast
      then show ?thesis using False Cons.IH [of r'] by (cases "rest = []") fastforce+
    qed
  qed simp
  moreover have "reader_yields (reader_of thread stale) (thread_output thread) (thread_end thread)"
    by (simp add: reader_yields_def reader_of_def empty_pipe_def)
  ultimately show ?thesis by (fastforce simp: outcome_simps)
qed

end
