(* ===== verification/Streams.thy ===== *)
theory Streams
  imports Lz4_Encoder Bz2_Encoder Deflate_Encode Bz2_Assembly Gzip_Parallel Output_Pipe
begin

text \<open>
  The format-independent layer: detection and the unified decoder of \<open>src/stream.rs\<close>, the unified
  encoder of \<open>src/encode.rs\<close>, and \<open>Reader::open\<close> of \<open>src/reader.rs\<close>. What the codecs take as parameters
  (hash functions, processors, schedules) is collected in two records.
\<close>

section \<open>Formats\<close>

datatype stream_format = Bzip2 | Gzip | Lz4 | Zip

datatype decode_format = Auto | ExplicitBzip2 | ExplicitGzip | ExplicitLz4

fun explicit_format :: "decode_format \<Rightarrow> stream_format option" where
  "explicit_format Auto = None"
| "explicit_format ExplicitBzip2 = Some Bzip2"
| "explicit_format ExplicitGzip = Some Gzip"
| "explicit_format ExplicitLz4 = Some Lz4"

definition starts_with :: "bytes \<Rightarrow> bytes \<Rightarrow> bool" where
  "starts_with data magic \<longleftrightarrow> take (length magic) data = magic"

definition from_magic :: "bytes \<Rightarrow> stream_format option" where
  "from_magic data =
     (if starts_with data [0x42, 0x5a, 0x68] then Some Bzip2
      else if starts_with data [0x1f, 0x8b] then Some Gzip
      else if starts_with data [0x04, 0x22, 0x4d, 0x18] \<or>
        (case get_range data 0 4 of None \<Rightarrow> False
         | Some magic \<Rightarrow> 0x184d2a50 \<le> u32_from_le magic \<and> u32_from_le magic \<le> 0x184d2a5f) then Some Lz4
      else if starts_with data [0x50, 0x4b, 3, 4] \<or> starts_with data [0x50, 0x4b, 5, 6] \<or>
        starts_with data [0x50, 0x4b, 7, 8] then Some Zip
      else None)"

text \<open>
  \<open>Path::extension\<close> of a file name: what follows the last dot, unless there is none or nothing stands
  before it. \<open>to_ascii_lowercase\<close> changes the letters A to Z only.
\<close>

definition ascii_lower :: "char \<Rightarrow> char" where
  "ascii_lower c = (let n = of_char c :: nat in if 65 \<le> n \<and> n \<le> 90 then char_of (n + 32) else c)"

definition path_extension :: "string \<Rightarrow> string option" where
  "path_extension name =
     (let after = takeWhile (\<lambda>c. c \<noteq> CHR ''.'') (rev name); before = drop (Suc (length after)) (rev name) in
      if name = ''..'' \<or> CHR ''.'' \<notin> set name \<or> before = [] then None else Some (rev after))"

definition from_path :: "string option \<Rightarrow> stream_format option" where
  "from_path file_name =
     (case file_name of None \<Rightarrow> None
      | Some name \<Rightarrow>
          (case path_extension name of None \<Rightarrow> None
           | Some extension \<Rightarrow> let extension = map ascii_lower extension in
               if extension \<in> {''bz2'', ''bzip2'', ''tbz'', ''tbz2''} then Some Bzip2
               else if extension \<in> {''gz'', ''gzip'', ''tgz''} then Some Gzip
               else if extension = ''lz4'' then Some Lz4
               else if extension = ''zip'' then Some Zip
               else None))"

definition detect :: "string option \<Rightarrow> bytes \<Rightarrow> error + stream_format" where
  "detect file_name data =
     (case from_magic data of
        Some format \<Rightarrow> Inr format
      | None \<Rightarrow> ok_or (from_path file_name) (UnsupportedFormat UnknownFormat))"

definition detect_data :: "decode_format \<Rightarrow> bytes \<Rightarrow> error + stream_format" where
  "detect_data format data =
     ok_or (case explicit_format format of Some f \<Rightarrow> Some f | None \<Rightarrow> from_magic data) (UnsupportedFormat UnknownFormat)"

definition detect_path :: "decode_format \<Rightarrow> string option \<Rightarrow> bytes \<Rightarrow> error + stream_format" where
  "detect_path format file_name data =
     (case explicit_format format of Some f \<Rightarrow> Inr f | None \<Rightarrow> detect file_name data)"

section \<open>The unified decoder\<close>

record decode_env =
  dv_xxh :: "bytes \<Rightarrow> u32"
  dv_crc :: "bytes \<Rightarrow> u32"
  dv_blake3 :: "bytes \<Rightarrow> bytes"
  dv_available :: "nat option"
  dv_cancelled :: "nat \<Rightarrow> bool"

definition decode_stream :: "decode_env \<Rightarrow> stream_format \<Rightarrow> bytes \<Rightarrow> decode_options \<Rightarrow> error + bytes" where
  "decode_stream env format data options =
     (case format of
        Bzip2 \<Rightarrow> bz2_decompress (dv_blake3 env) (dv_available env) (dv_cancelled env) data options
      | Gzip \<Rightarrow> and_then (gzip_decompress (dv_crc env) (dv_available env) data options) (\<lambda>s. Inr (gs_output s))
      | Lz4 \<Rightarrow> and_then (lz4_decompress (dv_xxh env) (dv_available env) options data) (\<lambda>r. Inr (fst r))
      | Zip \<Rightarrow> Inl (UnsupportedFormat ArchiveFormat))"

definition stream_decompress :: "decode_env \<Rightarrow> decode_format \<Rightarrow> bytes \<Rightarrow> decode_options \<Rightarrow> error + bytes" where
  "stream_decompress env format data options =
     and_then (detect_data format data) (\<lambda>f. decode_stream env f data options)"

section \<open>The unified encoder\<close>

datatype encode_format = ToBzip2 | ToGzip | ToLz4

record encode_env =
  ev_xxh :: "bytes \<Rightarrow> u32"
  ev_crc :: "bytes \<Rightarrow> u32"
  ev_available :: "nat option"
  ev_bz2_pick :: "bz2_encoded schedule"
  ev_deflate_pick :: "deflate_segment schedule"
  ev_lz4_pick :: "lz4_encoded schedule"

record encode_report =
  cr_format :: encode_format
  cr_input_len :: nat
  cr_output_len :: nat

datatype stream_encoder = EncBzip2 bz2_encoder | EncGzip deflate_encoder | EncLz4 lz4_encoder

definition encoder_new :: "encode_env \<Rightarrow> encode_format \<Rightarrow> encode_options \<Rightarrow> error + stream_encoder" where
  "encoder_new env format options =
     (case format of
        ToBzip2 \<Rightarrow> and_then (bz2_new (ev_available env) options) (\<lambda>e. Inr (EncBzip2 e))
      | ToGzip \<Rightarrow> and_then (gzip_new (ev_available env) options) (\<lambda>e. Inr (EncGzip e))
      | ToLz4 \<Rightarrow> and_then (lz4_new (ev_xxh env) (ev_available env) options) (\<lambda>e. Inr (EncLz4 e)))"

text \<open>An error of a \<open>write\<close> travels as an \<open>io::Error\<close> (\<open>Error::into_io\<close>).\<close>

definition into_io :: "error \<Rightarrow> error" where
  "into_io e = (case e of Io k \<Rightarrow> Io k | Panic \<Rightarrow> Panic | Unending \<Rightarrow> Unending | _ \<Rightarrow> Io OtherIo)"

definition through_io :: "error + 'a \<Rightarrow> error + 'a" where
  "through_io r = (case r of Inl e \<Rightarrow> Inl (into_io e) | Inr x \<Rightarrow> Inr x)"

definition encoder_write :: "encode_env \<Rightarrow> bytes \<Rightarrow> stream_encoder \<Rightarrow> error + stream_encoder" where
  "encoder_write env bytes e =
     through_io (case e of
        EncBzip2 e \<Rightarrow> and_then (bz2_write (ev_bz2_pick env) bytes e) (\<lambda>e. Inr (EncBzip2 e))
      | EncGzip e \<Rightarrow> and_then (deflate_write (ev_deflate_pick env) e bytes) (\<lambda>e. Inr (EncGzip e))
      | EncLz4 e \<Rightarrow> and_then (lz4_write (ev_lz4_pick env) bytes e) (\<lambda>e. Inr (EncLz4 e)))"

definition encoder_flush :: "encode_env \<Rightarrow> stream_encoder \<Rightarrow> error + stream_encoder" where
  "encoder_flush env e =
     through_io (case e of
        EncBzip2 e \<Rightarrow> Inr (EncBzip2 (bz2_flush e))
      | EncGzip e \<Rightarrow> and_then (flush_segments (ev_deflate_pick env) e) (\<lambda>e. Inr (EncGzip e))
      | EncLz4 e \<Rightarrow> and_then (lz4_flush_blocks (ev_lz4_pick env) e) (\<lambda>e. Inr (EncLz4 e)))"

definition encoder_finish :: "encode_env \<Rightarrow> stream_encoder \<Rightarrow> error + bytes \<times> encode_report" where
  "encoder_finish env e =
     (case e of
        EncBzip2 e \<Rightarrow> and_then (bz2_finish (ev_bz2_pick env) e) (\<lambda>(out, r).
          Inr (out, \<lparr>cr_format = ToBzip2, cr_input_len = zr_input_len r, cr_output_len = zr_output_len r\<rparr>))
      | EncGzip e \<Rightarrow> and_then (gzip_finish (ev_crc env) (ev_deflate_pick env) e) (\<lambda>(out, r).
          Inr (out, \<lparr>cr_format = ToGzip, cr_input_len = der_input_len r, cr_output_len = der_output_len r\<rparr>))
      | EncLz4 e \<Rightarrow> and_then (lz4_finish (ev_xxh env) (ev_lz4_pick env) e) (\<lambda>(out, r).
          Inr (out, \<lparr>cr_format = ToLz4, cr_input_len = er_input_len r, cr_output_len = er_output_len r\<rparr>)))"

text \<open>What the counting writer behind the encoder has received.\<close>

definition encoder_written :: "stream_encoder \<Rightarrow> bytes" where
  "encoder_written e =
     (case e of
        EncBzip2 e \<Rightarrow> zw_output (snd (ze_pool e))
      | EncGzip e \<Rightarrow> dw_output (snd (de_pool e))
      | EncLz4 e \<Rightarrow> lw_output (snd (le_pool e)))"

text \<open>The loop of \<open>compress_to_writer_with_progress\<close> over what the reads deliver; an empty read is the end.\<close>

fun compress_loop ::
  "encode_env \<Rightarrow> bytes list \<Rightarrow> nat \<Rightarrow> stream_encoder \<Rightarrow> (nat \<times> nat) list \<Rightarrow> error + stream_encoder \<times> (nat \<times> nat) list" where
  "compress_loop env [] input_bytes e events = Inr (e, events)"
| "compress_loop env (chunk # chunks) input_bytes e events =
     (if chunk = [] then Inr (e, events)
      else and_then (encoder_write env chunk e) (\<lambda>e.
        let input_bytes = input_bytes + length chunk in
        compress_loop env chunks input_bytes e (events @ [(input_bytes, length (encoder_written e))])))"

definition stream_compress ::
  "encode_env \<Rightarrow> encode_format \<Rightarrow> encode_options \<Rightarrow> bytes list \<Rightarrow> error + bytes \<times> encode_report \<times> (nat \<times> nat) list" where
  "stream_compress env format options chunks =
     and_then (encoder_new env format options) (\<lambda>e.
     and_then (compress_loop env chunks 0 e []) (\<lambda>(e, events).
     and_then (encoder_finish env e) (\<lambda>(out, report).
     Inr (out, report, events @ [(cr_input_len report, cr_output_len report)]))))"

section \<open>Opening a reader\<close>

text \<open>
  \<open>Source::open\<close> and the thread's creation are the system's; \<open>decode\<close> is the decoder running against the
  pipe, with the interactions of \<open>decode_stream\<close>.
\<close>

definition reader_open ::
  "(stream_format \<Rightarrow> bytes \<Rightarrow> decode_options \<Rightarrow> decoder_thread) \<Rightarrow> error + unit \<Rightarrow> decode_format \<Rightarrow> decode_options \<Rightarrow>
   string option \<Rightarrow> error + bytes \<Rightarrow> nat \<Rightarrow> error + reader" where
  "reader_open decode spawned format options file_name source stale =
     and_then (decode_validate options) (\<lambda>options.
     and_then source (\<lambda>data.
     and_then (detect_path format file_name data) (\<lambda>f.
     if f \<notin> {Bzip2, Gzip, Lz4} then Inl (UnsupportedFormat ReaderFormat)
     else and_then spawned (\<lambda>_. Inr (reader_of (decode f data options) stale)))))"

section \<open>Properties\<close>

text \<open>With one thread nothing depends on the memory limit or the processors.\<close>

lemma one_thread_stream:
  assumes "do_threads options = 1" and "do_threads options' = 1"
  shows "decompress_deflate_stream crc available data stream out options ev =
    decompress_deflate_stream crc available' data stream out options' ev"
  using assms by (simp add: decompress_deflate_stream_def decode_resolved_threads_def Let_def cong: if_cong)

lemma one_thread_members:
  assumes "do_threads options = 1" and "do_threads options' = 1"
  shows "gzip_members crc available data options pos s = gzip_members crc available' data options' pos s"
  using assms
proof (induction crc available data options pos s rule: gzip_members.induct)
  case (1 crc available data options pos s)
  have "decode_member crc available data options pos s = decode_member crc available' data options' pos s"
    by (simp only: decode_member_def one_thread_stream [OF 1(2,3), of crc available data _ _ _ available'])
  then have unfolded: "gzip_members crc available' data options' pos s =
     (if pos \<ge> length data then Inr s
      else if gs_members s \<noteq> [] \<and> (\<forall>b\<in>set (drop pos data). b = 0) then Inr s
      else and_then (decode_member crc available data options pos s) (\<lambda>r.
        if snd r \<le> pos then Inl Unending else gzip_members crc available' data options' (snd r) (fst r)))"
    by (subst gzip_members.simps) simp
  show ?case
  proof (cases "pos \<ge> length data \<or> gs_members s \<noteq> [] \<and> (\<forall>b\<in>set (drop pos data). b = 0)")
    case True
    then show ?thesis by (subst unfolded, subst gzip_members.simps) argo
  next
    case False
    have "and_then (decode_member crc available data options pos s) (\<lambda>r.
        if snd r \<le> pos then Inl Unending else gzip_members crc available data options (snd r) (fst r)) =
      and_then (decode_member crc available data options pos s) (\<lambda>r.
        if snd r \<le> pos then Inl Unending else gzip_members crc available' data options' (snd r) (fst r))"
      using 1(1) [OF _ _ _ _ 1(2,3)] False by (intro and_then_cong refl) auto
    then show ?thesis using False by (subst unfolded, subst gzip_members.simps) argo
  qed
qed

lemma one_thread_result:
  assumes "gzip_decompress crc available data (options\<lparr>do_threads := 1\<rparr>) = Inr s"
    and "gzip_decompress crc available' data (options'\<lparr>do_threads := 1\<rparr>) = Inr s'"
  shows "gs_output s = gs_output s'"
  using assms one_thread_members [of "options\<lparr>do_threads := 1\<rparr>" "options'\<lparr>do_threads := 1\<rparr>" crc available data 0
      gzip_start available']
  by (auto simp: gzip_decompress_def decode_validate_def and_then_Inr_iff split: if_splits)

lemma decode_stream_same:
  assumes "length data < 2 ^ 60" and "dv_available env \<noteq> Some 0" and "available \<noteq> Some 0"
    and "decode_stream env format data options = Inr out"
    and "decode_stream (env\<lparr>dv_available := available, dv_cancelled := cancelled\<rparr>) format data options' = Inr out'"
  shows "out = out'"
proof (cases format)
  case Bzip2
  obtain s where "decode_serial data = Inr s" "se_output s = out"
    using bz2_serial_result [OF assms(1,2), of "dv_blake3 env" "dv_cancelled env" options out] assms(4) Bzip2 by (auto simp: decode_stream_def)
  moreover obtain s' where "decode_serial data = Inr s'" "se_output s' = out'"
    using bz2_serial_result [OF assms(1,3), of "dv_blake3 env" cancelled options' out'] assms(5) Bzip2 by (auto simp: decode_stream_def)
  ultimately show ?thesis by simp
next
  case Gzip
  obtain s where "gzip_decompress (dv_crc env) (dv_available env) data options = Inr s" "gs_output s = out"
    using assms(4) Gzip by (auto simp: decode_stream_def and_then_Inr_iff)
  moreover obtain s' where "gzip_decompress (dv_crc env) available data options' = Inr s'" "gs_output s' = out'"
    using assms(5) Gzip by (auto simp: decode_stream_def and_then_Inr_iff)
  ultimately show ?thesis
    using gzip_serial_result [OF assms(1)] one_thread_result by metis
next
  case Lz4
  then show ?thesis
    using assms(4,5) lz4_same_result [of options options' "dv_xxh env" "dv_available env" data available]
    by (auto simp: decode_stream_def and_then_Inr_iff lz4_decompress_def decode_validate_def split: if_splits)
qed (use assms(4) in \<open>simp add: decode_stream_def\<close>)

text \<open>C2. Parallelism is invisible in every format: two runs of the unified decoder on the same bytes, with any
  thread counts, memory limits, processor counts and (on bzip2) cancellations that did not strike, that both
  return, return the same decoded bytes, whether the format was given or found by its magic.\<close>

theorem stream_threads_irrelevant:
  assumes "length data < 2 ^ 60" and "dv_available env \<noteq> Some 0" and "available \<noteq> Some 0"
    and "stream_decompress env format data options = Inr out"
    and "stream_decompress (env\<lparr>dv_available := available, dv_cancelled := cancelled\<rparr>) format data options' = Inr out'"
  shows "out = out'"
  using assms(4,5) by (auto simp: stream_decompress_def and_then_Inr_iff dest: decode_stream_same [OF assms(1-3)])

definition plain_env :: decode_env where
  "plain_env = \<lparr>dv_xxh = (\<lambda>_. 7), dv_crc = (\<lambda>_. 7), dv_blake3 = (\<lambda>_. []), dv_available = Some 8, dv_cancelled = (\<lambda>_. False)\<rparr>"

lemma plain_env_result:
  "stream_decompress plain_env Auto stored_member \<lparr>do_threads = 8, do_memory_limit = 2 ^ 40\<rparr> = Inr [0x68, 0x69]"
  by code_simp

lemma plain_env_single:
  "stream_decompress (plain_env\<lparr>dv_available := None, dv_cancelled := (\<lambda>_. False)\<rparr>) Auto stored_member
     \<lparr>do_threads = 1, do_memory_limit = 2 ^ 30\<rparr> = Inr [0x68, 0x69]"
  by code_simp

theorem stream_threads_irrelevant_witness:
  "\<exists>out. stream_decompress plain_env Auto stored_member \<lparr>do_threads = 8, do_memory_limit = 2 ^ 40\<rparr> = Inr out \<and>
    out = [0x68, 0x69]"
proof -
  have "length stored_member < 2 ^ 60" by (simp add: stored_member_def)
  moreover have "dv_available plain_env \<noteq> Some 0" by (simp add: plain_env_def)
  ultimately have "[0x68, 0x69] = [0x68, 0x69 :: byte]"
    using stream_threads_irrelevant [OF _ _ _ plain_env_result plain_env_single] by blast
  then show ?thesis using plain_env_result by blast
qed

end
