(* ===== verification/Zip_Extract.thy ===== *)
theory Zip_Extract
  imports Streams Zip_Writer "HOL-Library.Sublist"
begin

text \<open>
  ZIP extraction, \<open>src/bin/fbz/zip_extract.rs\<close>: what is checked before anything is decoded (\<open>parse\<close>,
  \<open>validate_layout\<close>), decoding one entry behind a sink that bounds its size, the order in which entries
  run and the progress they report, and extraction into a staging tree. The \<open>zip\<close> crate, which reads the
  central directory, is the parameter \<open>open_zip\<close>: its view of an archive is a record. A path that
  \<open>enclosed_name\<close> returns is the list of its components. The staging tree is a map from paths to nodes.
\<close>

definition MULTI_ENTRY_INTRA_THRESHOLD :: nat where "MULTI_ENTRY_INTRA_THRESHOLD = 64 * 1024 * 1024"
definition SINGLE_ENTRY_INTRA_THRESHOLD :: nat where "SINGLE_ENTRY_INTRA_THRESHOLD = 16 * 1024 * 1024"

section \<open>The archive as the zip crate shows it\<close>

datatype extra_time = ExtendedTimestamp "u32 option" | NtfsTime nat

record zip_file =
  zf_encrypted :: bool
  zf_enclosed_name :: "bytes list option"
  zf_data_start :: "nat option"
  zf_compressed_size :: nat
  zf_size :: nat
  zf_crc :: u32
  zf_is_dir :: bool
  zf_is_symlink :: bool
  zf_method :: nat
  zf_unix_mode :: "u32 option"
  zf_times :: "extra_time list"

record zip_view =
  zv_central_start :: nat
  zv_files :: "(error + zip_file) list"

record unpack_entry =
  ue_path :: "bytes list"
  ue_compressed_size :: nat
  ue_decoded_size :: nat
  ue_crc :: u32
  ue_method :: nat
  ue_data_start :: nat
  ue_data_end :: nat
  ue_mode :: "u32 option"
  ue_modified :: "int option"
  ue_kind :: entry_kind

record unpack_report =
  ur_source_len :: nat
  ur_decoded_len :: nat
  ur_entries :: "unpack_entry list"

text \<open>Times are nanoseconds from the Unix epoch.\<close>

definition ntfs_time :: "nat \<Rightarrow> int option" where
  "ntfs_time ticks =
     (let epoch = 116444736000000000; diff = (if ticks \<ge> epoch then ticks - epoch else epoch - ticks) in
      map_option (\<lambda>nanos. if ticks \<ge> epoch then int nanos else - int nanos) (checked_mul diff 100))"

fun modified_time :: "extra_time list \<Rightarrow> int option" where
  "modified_time [] = None"
| "modified_time (field # fs) =
     (case (case field of ExtendedTimestamp t \<Rightarrow> map_option (\<lambda>t. 1000000000 * uint t) t | NtfsTime ticks \<Rightarrow> ntfs_time ticks) of
        Some t \<Rightarrow> Some t | None \<Rightarrow> modified_time fs)"

section \<open>Checks before decoding\<close>

text \<open>Every header the loop counts is 46 bytes or more, so it moves on.\<close>

function count_central :: "bytes \<Rightarrow> nat \<Rightarrow> nat \<Rightarrow> error + nat" where
  "count_central data pos found =
     (if get_range data pos (pos + 4) = Some [0x50, 0x4b, 1, 2]
      then (case get_range data pos (pos + 46) of
             None \<Rightarrow> Inl (InvalidZip CentralTruncated)
           | Some header \<Rightarrow>
               let after = pos + 46 + unat (u16_from_le (slice_of header 28 30)) + unat (u16_from_le (slice_of header 30 32)) +
                     unat (u16_from_le (slice_of header 32 34)) in
               if after \<le> usize_max \<and> after \<le> length data then count_central data after (found + 1)
               else Inl (InvalidZip CentralExceedsArchive))
      else Inr found)"
  by pat_completeness auto
termination
  by (relation "measure (\<lambda>(data, pos, _). length data - pos)") (auto simp: get_range_Some_iff)

declare count_central.simps [simp del]

definition central_entry_count :: "bytes \<Rightarrow> nat \<Rightarrow> error + nat" where
  "central_entry_count data start = count_central data start 0"

definition parse_entry :: "bytes \<Rightarrow> nat \<Rightarrow> nat option \<Rightarrow> zip_file \<Rightarrow> nat \<Rightarrow> error + unpack_entry \<times> nat" where
  "parse_entry data central_start max_output file decoded_len =
     (if zf_encrypted file then Inl (InvalidZip EncryptedEntry)
      else and_then (ok_or (zf_enclosed_name file) (InvalidZip UnsafeEntryPath)) (\<lambda>path.
        if path = [] then Inl (InvalidZip EmptyEntryPath)
        else and_then (ok_or (zf_data_start file) (InvalidZip EntryNotLocated)) (\<lambda>data_start.
        and_then (ok_or (checked_add data_start (zf_compressed_size file)) (InvalidZip EntryRangeOverflow)) (\<lambda>data_end.
        if data_end > central_start \<or> data_end > length data then Inl (InvalidZip EntryRangeExceeds)
        else let kind = (if zf_is_dir file then DirectoryEntry else if zf_is_symlink file then SymlinkEntry else FileEntry) in
          and_then (ok_or (checked_add decoded_len (zf_size file)) (InvalidZip DecodedLengthOverflow)) (\<lambda>decoded_len.
          if (case max_output of None \<Rightarrow> False | Some limit \<Rightarrow> decoded_len > limit) then Inl (InvalidZip OutputLimitExceeded)
          else Inr (\<lparr>ue_path = path, ue_compressed_size = zf_compressed_size file, ue_decoded_size = zf_size file,
                 ue_crc = zf_crc file, ue_method = zf_method file, ue_data_start = data_start, ue_data_end = data_end,
                 ue_mode = zf_unix_mode file, ue_modified = modified_time (zf_times file), ue_kind = kind\<rparr>, decoded_len))))))"

fun parse_entries :: "bytes \<Rightarrow> nat \<Rightarrow> nat option \<Rightarrow> (error + zip_file) list \<Rightarrow> nat \<Rightarrow> error + unpack_entry list \<times> nat" where
  "parse_entries data central_start max_output [] decoded_len = Inr ([], decoded_len)"
| "parse_entries data central_start max_output (file # files) decoded_len =
     and_then file (\<lambda>file.
     and_then (parse_entry data central_start max_output file decoded_len) (\<lambda>(entry, decoded_len).
     and_then (parse_entries data central_start max_output files decoded_len) (\<lambda>(entries, decoded_len).
     Inr (entry # entries, decoded_len))))"

text \<open>\<open>Path::ancestors\<close> without the path itself and without the empty path: the proper prefixes.\<close>

definition ancestors :: "bytes list \<Rightarrow> bytes list list" where
  "ancestors path = map (\<lambda>n. take n path) (rev [1..<length path])"

fun insert_paths :: "unpack_entry list \<Rightarrow> (bytes list \<rightharpoonup> entry_kind) \<Rightarrow> error + (bytes list \<rightharpoonup> entry_kind)" where
  "insert_paths [] paths = Inr paths"
| "insert_paths (e # es) paths =
     (if paths (ue_path e) \<noteq> None then Inl (InvalidZip DuplicateEntryPath) else insert_paths es (paths(ue_path e \<mapsto> ue_kind e)))"

definition blocked :: "(bytes list \<rightharpoonup> entry_kind) \<Rightarrow> unpack_entry \<Rightarrow> bool" where
  "blocked paths e \<longleftrightarrow>
     (\<exists>a\<in>set (ancestors (ue_path e)). case paths a of None \<Rightarrow> False | Some kind \<Rightarrow> kind \<noteq> DirectoryEntry)"

definition data_ranges :: "unpack_entry list \<Rightarrow> (nat \<times> nat) list" where
  "data_ranges entries = sort_key fst (map (\<lambda>e. (ue_data_start e, ue_data_end e)) (filter (\<lambda>e. ue_compressed_size e \<noteq> 0) entries))"

fun overlapping :: "(nat \<times> nat) list \<Rightarrow> bool" where
  "overlapping (r # r' # rs) \<longleftrightarrow> snd r > fst r' \<or> overlapping (r' # rs)"
| "overlapping _ \<longleftrightarrow> False"

definition validate_layout :: "unpack_entry list \<Rightarrow> error + unit" where
  "validate_layout entries =
     and_then (insert_paths entries (\<lambda>_. None)) (\<lambda>paths.
     if \<exists>e\<in>set entries. blocked paths e then Inl (InvalidZip NonDirectoryAncestor)
     else if overlapping (data_ranges entries) then Inl (InvalidZip OverlappingData)
     else Inr ())"

definition parse_archive :: "(bytes \<Rightarrow> error + zip_view) \<Rightarrow> bytes \<Rightarrow> nat option \<Rightarrow> error + unpack_report" where
  "parse_archive open_zip data max_output =
     and_then (open_zip data) (\<lambda>archive.
     and_then (central_entry_count data (zv_central_start archive)) (\<lambda>found.
     if found \<noteq> length (zv_files archive) then Inl (InvalidZip DuplicateNames)
     else and_then (parse_entries data (zv_central_start archive) max_output (zv_files archive) 0) (\<lambda>(entries, decoded_len).
       and_then (validate_layout entries) (\<lambda>_.
       Inr \<lparr>ur_source_len = length data, ur_decoded_len = decoded_len, ur_entries = entries\<rparr>))))"

section \<open>A sink that bounds its size\<close>

record 's expected_output =
  xo_inner :: 's
  xo_expected :: nat
  xo_written :: nat

definition expected_new :: "'s \<Rightarrow> nat \<Rightarrow> 's expected_output" where
  "expected_new inner expected = \<lparr>xo_inner = inner, xo_expected = expected, xo_written = 0\<rparr>"

definition expected_check :: "nat \<Rightarrow> 's expected_output \<Rightarrow> unit io" where
  "expected_check extra s =
     (if sat_add (xo_written s) extra > xo_expected s
      then Inl \<lparr>ie_kind = InvalidData, ie_message = Reported (InvalidZip EntrySizeMismatch)\<rparr> else Inr ())"

definition expected_write_borrowed :: "(bytes \<Rightarrow> 's \<Rightarrow> 's io) \<Rightarrow> bytes \<Rightarrow> 's expected_output \<Rightarrow> 's expected_output io" where
  "expected_write_borrowed borrowed bytes s =
     and_then (expected_check (length bytes) s) (\<lambda>_.
     and_then (borrowed bytes (xo_inner s)) (\<lambda>inner.
     Inr (s\<lparr>xo_inner := inner, xo_written := xo_written s + length bytes\<rparr>)))"

definition expected_write_owned ::
  "(bytes \<Rightarrow> nat \<Rightarrow> 's \<Rightarrow> 's io) \<Rightarrow> bytes \<Rightarrow> nat \<Rightarrow> 's expected_output \<Rightarrow> 's expected_output io" where
  "expected_write_owned owned bytes start s =
     and_then (owned_suffix bytes start) (\<lambda>suffix.
     and_then (expected_check (length suffix) s) (\<lambda>_.
     and_then (owned bytes start (xo_inner s)) (\<lambda>inner.
     Inr (s\<lparr>xo_inner := inner, xo_written := xo_written s + length suffix\<rparr>))))"

section \<open>Decoding an entry\<close>

text \<open>
  The decoder writes through the bounding sink; its writes are taken together here, so a chunk that
  exceeds the declared size and an error behind it are both the entry's decode error.
\<close>

definition decode_entry ::
  "decode_env \<Rightarrow> bytes \<Rightarrow> unpack_entry \<Rightarrow> decode_options \<Rightarrow> error + bytes \<times> (nat \<times> nat) list" where
  "decode_entry env data e options =
     and_then (index_range data (ue_data_start e) (ue_data_end e)) (\<lambda>compressed.
     and_then (if ue_method e = METHOD_STORED
       then (if ue_compressed_size e \<noteq> ue_decoded_size e then Inl (InvalidZip StoredSizesDiffer)
             else (case expected_write_borrowed writer_write_borrowed compressed (expected_new [] (ue_decoded_size e)) of
                 Inl err \<Rightarrow> Inl (Io (ie_kind err))
               | Inr out \<Rightarrow> Inr (xo_inner out, [(ue_compressed_size e, ue_decoded_size e)], length compressed, dv_crc env compressed)))
       else if ue_method e = METHOD_DEFLATE
       then (case deflate_decompress (dv_crc env) (dv_available env) compressed options of
               Inl _ \<Rightarrow> Inl (InvalidZip EntryDecode)
             | Inr r \<Rightarrow>
                 (case expected_write_borrowed writer_write_borrowed (sr_output r) (expected_new [] (ue_decoded_size e)) of
                    Inl _ \<Rightarrow> Inl (InvalidZip EntryDecode)
                  | Inr out \<Rightarrow> Inr (xo_inner out, sr_progress r, dr_decoded_len (sr_report r), dr_crc (sr_report r))))
       else Inl (InvalidZip UnsupportedMethod)) (\<lambda>(out, events, decoded_size, crc).
     if decoded_size \<noteq> ue_decoded_size e then Inl (InvalidZip EntrySizeMismatch)
     else if crc \<noteq> ue_crc e then Inl (InvalidZip EntryCrcMismatch)
     else Inr (out, events)))"

definition uses_intra_entry :: "unpack_entry \<Rightarrow> nat \<Rightarrow> bool" where
  "uses_intra_entry e entry_count \<longleftrightarrow>
     ue_method e = METHOD_DEFLATE \<and>
     ue_compressed_size e \<ge> (if entry_count = 1 then SINGLE_ENTRY_INTRA_THRESHOLD else MULTI_ENTRY_INTRA_THRESHOLD)"

section \<open>Running the entries\<close>

text \<open>The counters the entries share, and the progress reported to the caller.\<close>

record run_counters =
  rc_compressed :: nat
  rc_decoded :: nat
  rc_completed :: nat
  rc_events :: "(nat \<times> nat) list"

text \<open>One report of an entry's decoder: \<open>seen\<close> is what this entry had reported before.\<close>

definition count_update :: "nat \<times> nat \<Rightarrow> (nat \<times> nat) \<times> run_counters \<Rightarrow> (nat \<times> nat) \<times> run_counters" where
  "count_update event = (\<lambda>(seen, rc).
     let compressed = rc_compressed rc + (fst event - fst seen); decoded = rc_decoded rc + (snd event - snd seen) in
     (event, rc\<lparr>rc_compressed := compressed, rc_decoded := decoded, rc_events := rc_events rc @ [(compressed, decoded)]\<rparr>))"

definition count_finished :: "nat \<Rightarrow> nat \<Rightarrow> unpack_entry \<Rightarrow> nat \<times> nat \<Rightarrow> run_counters \<Rightarrow> run_counters" where
  "count_finished entry_count source_len e seen rc =
     (let compressed = rc_compressed rc + (ue_compressed_size e - fst seen); decoded = rc_decoded rc + (ue_decoded_size e - snd seen);
          completed = rc_completed rc + 1 in
      rc\<lparr>rc_compressed := compressed, rc_decoded := decoded, rc_completed := completed,
         rc_events := rc_events rc @ [(if completed = entry_count then source_len else compressed, decoded)]\<rparr>)"

text \<open>
  Large DEFLATE entries run one after the other with all threads, the others on a pool with one thread
  each, in an order that the parameter \<open>order\<close> chooses (a permutation). \<open>run\<close> is the handler of an entry; it
  transforms the state \<open>'s\<close> and returns the reports of its decoder.
\<close>

definition run_entry ::
  "nat \<Rightarrow> nat \<Rightarrow> (unpack_entry \<Rightarrow> decode_options \<Rightarrow> 's \<Rightarrow> error + 's \<times> (nat \<times> nat) list) \<Rightarrow> decode_options \<Rightarrow> unpack_entry \<Rightarrow>
   's \<times> run_counters \<Rightarrow> error + 's \<times> run_counters" where
  "run_entry entry_count source_len run options e = (\<lambda>(s, rc).
     and_then (run e options s) (\<lambda>(s, events).
     let (seen, rc) = fold count_update events ((0, 0), rc) in
     Inr (s, count_finished entry_count source_len e seen rc)))"

definition run_entries ::
  "nat option \<Rightarrow> (unpack_entry list \<Rightarrow> unpack_entry list) \<Rightarrow> unpack_entry list \<Rightarrow> nat \<Rightarrow> decode_options \<Rightarrow>
   (unpack_entry \<Rightarrow> decode_options \<Rightarrow> 's \<Rightarrow> error + 's \<times> (nat \<times> nat) list) \<Rightarrow> 's \<Rightarrow> error + 's \<times> run_counters" where
  "run_entries available order entries source_len options run s =
     (let threads = decode_resolved_threads available options; n = length entries;
          within = filter (\<lambda>e. uses_intra_entry e n) entries; across = filter (\<lambda>e. \<not> uses_intra_entry e n) entries in
      and_then (try_each (run_entry n source_len run (options\<lparr>do_threads := threads\<rparr>)) within
          (s, \<lparr>rc_compressed = 0, rc_decoded = 0, rc_completed = 0, rc_events = []\<rparr>)) (\<lambda>st.
      if across = [] then Inr st
      else try_each (run_entry n source_len run (options\<lparr>do_threads := 1\<rparr>)) (order across) st))"

definition validate_archive ::
  "decode_env \<Rightarrow> (bytes \<Rightarrow> error + zip_view) \<Rightarrow> (unpack_entry list \<Rightarrow> unpack_entry list) \<Rightarrow> bytes \<Rightarrow> decode_options \<Rightarrow> nat option \<Rightarrow>
   error + unpack_report \<times> (nat \<times> nat) list" where
  "validate_archive env open_zip order data options max_output =
     and_then (parse_archive open_zip data max_output) (\<lambda>report.
     and_then (run_entries (dv_available env) order (ur_entries report) (ur_source_len report) options
       (\<lambda>e options _. and_then (decode_entry env data e options) (\<lambda>(_, events). Inr ((), events))) ()) (\<lambda>(_, rc).
     Inr (report, rc_events rc)))"

section \<open>Extraction\<close>

record node_times =
  nt_mode :: "u32 option"
  nt_modified :: "int option"

datatype node = FileNode bytes node_times | DirectoryNode node_times | SymlinkNode bytes

type_synonym tree = "bytes list \<rightharpoonup> node"

definition plain_times :: node_times where
  "plain_times = \<lparr>nt_mode = None, nt_modified = None\<rparr>"

text \<open>\<open>create_dir_all\<close>: every prefix becomes a directory unless it is one; anything else there is an error.\<close>

fun create_dirs :: "bytes list list \<Rightarrow> tree \<Rightarrow> error + tree" where
  "create_dirs [] tree = Inr tree"
| "create_dirs (path # paths) tree =
     (case tree path of
        None \<Rightarrow> create_dirs paths (tree(path \<mapsto> DirectoryNode plain_times))
      | Some (DirectoryNode _) \<Rightarrow> create_dirs paths tree
      | Some _ \<Rightarrow> Inl (Io OtherIo))"

definition create_dir_all :: "bytes list \<Rightarrow> tree \<Rightarrow> error + tree" where
  "create_dir_all path tree = create_dirs (map (\<lambda>n. take n path) [1..<Suc (length path)]) tree"

definition prepare_directory :: "unpack_entry \<Rightarrow> tree \<Rightarrow> error + tree" where
  "prepare_directory e tree = create_dir_all (if ue_kind e = DirectoryEntry then ue_path e else butlast (ue_path e)) tree"

definition prepare_directories :: "unpack_entry list \<Rightarrow> tree \<Rightarrow> error + tree" where
  "prepare_directories = try_each prepare_directory"

text \<open>The components of a link's target (bytes between slashes; \<open>Path::components\<close> drops empty ones and inner dots).\<close>

lemma shorter_rest: "dropWhile P xs \<noteq> [] \<Longrightarrow> length (tl (dropWhile P xs)) < length xs"
  by (metis diff_less length_dropWhile_le length_greater_0_conv length_tl less_le_trans zero_less_one)

function split_slash :: "bytes \<Rightarrow> bytes list" where
  "split_slash bs =
     (let part = takeWhile (\<lambda>b. b \<noteq> 0x2f) bs; rest = dropWhile (\<lambda>b. b \<noteq> 0x2f) bs in
      if rest = [] then [part] else part # split_slash (tl rest))"
  by pat_completeness auto
termination
  by (relation "measure length") (simp_all only: in_measure wf_measure shorter_rest not_False_eq_True)

declare split_slash.simps [simp del]

definition target_components :: "bytes \<Rightarrow> path_component list" where
  "target_components target =
     (let parts = filter (\<lambda>part. part \<noteq> []) (split_slash target) in
      map (\<lambda>part. if part = [0x2e, 0x2e] then ParentDir else if part = [0x2e] then CurDir else Normal part)
        (take 1 parts @ filter (\<lambda>part. part \<noteq> [0x2e]) (drop 1 parts)))"

fun target_depth :: "path_component list \<Rightarrow> nat \<Rightarrow> nat option" where
  "target_depth [] depth = Some depth"
| "target_depth (Normal _ # cs) depth = target_depth cs (depth + 1)"
| "target_depth (CurDir # cs) depth = target_depth cs depth"
| "target_depth (ParentDir # cs) depth = (if depth = 0 then None else target_depth cs (depth - 1))"
| "target_depth (_ # cs) depth = None"

definition create_symlink :: "unpack_entry \<Rightarrow> bytes \<Rightarrow> tree \<Rightarrow> error + tree" where
  "create_symlink e target tree =
     (if take 1 target = [0x2f] then Inl (InvalidZip AbsoluteTarget)
      else if target_depth (target_components target) (length (ue_path e) - 1) = None then Inl (InvalidZip EscapingTarget)
      else if tree (ue_path e) \<noteq> None then Inl (Io OtherIo)
      else Inr (tree(ue_path e \<mapsto> SymlinkNode target)))"

definition extract_entry ::
  "decode_env \<Rightarrow> bytes \<Rightarrow> unpack_entry \<Rightarrow> decode_options \<Rightarrow> tree \<Rightarrow> error + tree \<times> (nat \<times> nat) list" where
  "extract_entry env data e options tree =
     (case ue_kind e of
        DirectoryEntry \<Rightarrow> Inr (tree, [])
      | SymlinkEntry \<Rightarrow>
          if ue_decoded_size e > 64 * 1024 then Inl (InvalidZip TargetTooLarge)
          else and_then (decode_entry env data e options) (\<lambda>(target, events).
            and_then (create_symlink e target tree) (\<lambda>tree. Inr (tree, events)))
      | FileEntry \<Rightarrow>
          if tree (ue_path e) \<noteq> None then Inl (Io OtherIo)
          else and_then (decode_entry env data e options) (\<lambda>(content, events).
            Inr (tree(ue_path e \<mapsto> FileNode content \<lparr>nt_mode = map_option (\<lambda>m. m AND 0xfff) (ue_mode e), nt_modified = ue_modified e\<rparr>),
              events)))"

text \<open>The directories' own modes and times are set last, the deepest first.\<close>

definition finish_directory :: "unpack_entry \<Rightarrow> tree \<Rightarrow> tree" where
  "finish_directory e tree =
     tree(ue_path e \<mapsto> DirectoryNode \<lparr>nt_mode = map_option (\<lambda>m. m AND 0xfff) (ue_mode e), nt_modified = ue_modified e\<rparr>)"

definition finish_directories :: "unpack_entry list \<Rightarrow> tree \<Rightarrow> tree" where
  "finish_directories entries tree =
     fold finish_directory (rev (sort_key (\<lambda>e. length (ue_path e)) (filter (\<lambda>e. ue_kind e = DirectoryEntry) entries))) tree"

definition unpack_archive ::
  "decode_env \<Rightarrow> (bytes \<Rightarrow> error + zip_view) \<Rightarrow> (unpack_entry list \<Rightarrow> unpack_entry list) \<Rightarrow> bytes \<Rightarrow> decode_options \<Rightarrow> nat option \<Rightarrow>
   error + tree \<times> unpack_report \<times> (nat \<times> nat) list" where
  "unpack_archive env open_zip order data options max_output =
     and_then (parse_archive open_zip data max_output) (\<lambda>report.
     and_then (prepare_directories (ur_entries report) (\<lambda>_. None)) (\<lambda>tree.
     and_then (run_entries (dv_available env) order (ur_entries report) (ur_source_len report) options
       (extract_entry env data) tree) (\<lambda>(tree, rc).
     Inr (finish_directories (ur_entries report) tree, report, rc_events rc))))"

section \<open>What the layout check accepts\<close>

lemma insert_paths_accepts:
  "(\<exists>m. insert_paths es paths = Inr m) \<longleftrightarrow> distinct (map ue_path es) \<and> (\<forall>e\<in>set es. paths (ue_path e) = None)"
proof (induction es arbitrary: paths)
  case (Cons e es)
  then show ?case by (auto simp: image_iff split: if_splits) (metis+)?
qed simp

lemma insert_paths_lookup:
  "insert_paths es paths = Inr m \<Longrightarrow> m p = Some k \<longleftrightarrow> paths p = Some k \<or> (\<exists>e\<in>set es. ue_path e = p \<and> ue_kind e = k)"
  by (induction es arbitrary: paths) (auto split: if_splits)

lemma set_ancestors: "a \<in> set (ancestors path) \<longleftrightarrow> a \<noteq> [] \<and> strict_prefix a path"
proof
  assume "a \<noteq> [] \<and> strict_prefix a path"
  then obtain zs where "a \<noteq> []" "path = a @ zs" "zs \<noteq> []" by (auto simp: strict_prefix_def prefix_def)
  then have "a = take (length a) path" "1 \<le> length a" "length a < length path" by (auto simp: Suc_le_eq)
  then show "a \<in> set (ancestors path)" by (force simp: ancestors_def)
next
  assume "a \<in> set (ancestors path)"
  then obtain n where n: "a = take n path" "1 \<le> n" "n < length path" by (auto simp: ancestors_def)
  moreover have "length a = n" using n by simp
  ultimately show "a \<noteq> [] \<and> strict_prefix a path"
    by (auto simp: strict_prefix_def take_is_prefix)
qed

lemma blocked_iff:
  assumes "insert_paths es (\<lambda>_. None) = Inr m"
  shows "blocked m e \<longleftrightarrow> (\<exists>a\<in>set es. ue_path a \<noteq> [] \<and> strict_prefix (ue_path a) (ue_path e) \<and> ue_kind a \<noteq> DirectoryEntry)"
proof -
  have "blocked m e \<longleftrightarrow> (\<exists>p k. p \<noteq> [] \<and> strict_prefix p (ue_path e) \<and> m p = Some k \<and> k \<noteq> DirectoryEntry)"
    by (auto simp: blocked_def set_ancestors split: option.splits)
  then show ?thesis using insert_paths_lookup [OF assms] by auto
qed

text \<open>Ranges ordered by their start overlap pairwise exactly when neighbours do.\<close>

definition range_set :: "nat \<times> nat \<Rightarrow> nat set" where
  "range_set r = {fst r..<snd r}"

lemma overlapping_sorted:
  assumes "sorted (map fst rs)" and "list_all (\<lambda>r. fst r < snd r) rs"
  shows "\<not> overlapping rs \<longleftrightarrow> sorted_wrt (\<lambda>r r'. disjnt (range_set r) (range_set r')) rs"
  using assms
proof (induction rs rule: overlapping.induct)
  case (1 r r' rs)
  have next_iff: "snd r \<le> fst q \<longleftrightarrow> disjnt (range_set r) (range_set q)" if "q \<in> set (r' # rs)" for q
  proof -
    have "fst r \<le> fst q" "fst q < snd q" using 1(2,3) that by (auto simp: list_all_iff)
    then show ?thesis
      by (cases "snd r \<le> fst q") (auto simp: disjnt_def range_set_def disjoint_iff not_le)
  qed
  have "snd r \<le> fst r' \<Longrightarrow> \<forall>q\<in>set (r' # rs). snd r \<le> fst q" using 1(2) by (auto intro: order_trans)
  then have "snd r \<le> fst r' \<longleftrightarrow> (\<forall>q\<in>set (r' # rs). disjnt (range_set r) (range_set q))" using next_iff by auto
  then show ?case using 1 by (auto simp: not_less)
qed simp_all

lemma sorted_wrt_insort:
  assumes "\<And>x y. P x y \<Longrightarrow> P y x"
  shows "sorted_wrt P (insort_key f x xs) \<longleftrightarrow> sorted_wrt P (x # xs)"
  using assms by (induction xs) (auto simp: set_insort_key)

lemma sorted_wrt_sort:
  assumes "\<And>x y. P x y \<Longrightarrow> P y x"
  shows "sorted_wrt P (sort_key f xs) \<longleftrightarrow> sorted_wrt P xs"
  using assms sorted_wrt_insort [of P f] by (induction xs) auto

definition entry_range :: "unpack_entry \<Rightarrow> nat set" where
  "entry_range e = {ue_data_start e..<ue_data_end e}"

definition layout_ok :: "unpack_entry list \<Rightarrow> bool" where
  "layout_ok entries \<longleftrightarrow>
     distinct (map ue_path entries) \<and>
     (\<forall>e\<in>set entries. \<forall>a\<in>set entries. ue_path a \<noteq> [] \<and> strict_prefix (ue_path a) (ue_path e) \<longrightarrow> ue_kind a = DirectoryEntry) \<and>
     sorted_wrt (\<lambda>a b. disjnt (entry_range a) (entry_range b)) entries"

lemma data_ranges_disjoint:
  assumes "list_all (\<lambda>e. ue_data_end e = ue_data_start e + ue_compressed_size e) entries"
  shows "\<not> overlapping (data_ranges entries) \<longleftrightarrow> sorted_wrt (\<lambda>a b. disjnt (entry_range a) (entry_range b)) entries"
proof -
  let ?full = "filter (\<lambda>e. ue_compressed_size e \<noteq> 0) entries"
  have "sorted (map fst (data_ranges entries))" "list_all (\<lambda>r. fst r < snd r) (data_ranges entries)"
    using assms by (auto simp: data_ranges_def list_all_iff)
  then have "\<not> overlapping (data_ranges entries) \<longleftrightarrow>
      sorted_wrt (\<lambda>r r'. disjnt (range_set r) (range_set r')) (data_ranges entries)"
    by (rule overlapping_sorted)
  also have "\<dots> \<longleftrightarrow> sorted_wrt (\<lambda>a b. disjnt (entry_range a) (entry_range b)) ?full"
    unfolding data_ranges_def
    by (subst sorted_wrt_sort) (simp_all add: sorted_wrt_map range_set_def entry_range_def disjnt_sym)
  also have "\<dots> \<longleftrightarrow> sorted_wrt (\<lambda>a b. disjnt (entry_range a) (entry_range b)) entries"
    using assms
  proof (induction entries)
    case (Cons e es)
    have zero: "disjnt (entry_range e) (entry_range x)" if "x \<in> set es" "ue_compressed_size x = 0" for x
      using that Cons.prems by (auto simp: entry_range_def list_all_iff)
    have empty: "ue_compressed_size e = 0 \<Longrightarrow> disjnt (entry_range e) X" for X
      using Cons.prems by (simp add: entry_range_def)
    have "(\<forall>x\<in>set (filter (\<lambda>e. ue_compressed_size e \<noteq> 0) es). disjnt (entry_range e) (entry_range x)) \<longleftrightarrow>
        (\<forall>x\<in>set es. disjnt (entry_range e) (entry_range x))"
      using zero by auto
    then show ?case using Cons.IH Cons.prems empty by (cases "ue_compressed_size e = 0") (simp_all del: set_filter)
  qed simp
  finally show ?thesis .
qed

section \<open>Properties\<close>

text \<open>C39. The layout check accepts exactly the lists of entries whose paths are distinct, where nothing but a
  directory stands above another entry (so that no file is ever written through a link or a file), and whose
  compressed data do not overlap.\<close>

theorem validate_layout_exact:
  assumes "list_all (\<lambda>e. ue_data_end e = ue_data_start e + ue_compressed_size e) entries"
  shows "validate_layout entries = Inr () \<longleftrightarrow> layout_ok entries"
proof (cases "insert_paths entries (\<lambda>_. None)")
  case (Inl e)
  then show ?thesis using insert_paths_accepts [of entries "\<lambda>_. None"] by (auto simp: validate_layout_def layout_ok_def)
next
  case (Inr m)
  then have "distinct (map ue_path entries)" using insert_paths_accepts [of entries "\<lambda>_. None"] by auto
  moreover have "validate_layout entries = Inr () \<longleftrightarrow> (\<forall>e\<in>set entries. \<not> blocked m e) \<and> \<not> overlapping (data_ranges entries)"
    using Inr by (auto simp: validate_layout_def)
  ultimately show ?thesis
    unfolding layout_ok_def data_ranges_disjoint [OF assms] blocked_iff [OF Inr] by blast
qed

definition sample_entry :: "bytes list \<Rightarrow> entry_kind \<Rightarrow> nat \<Rightarrow> nat \<Rightarrow> unpack_entry" where
  "sample_entry path kind start len = \<lparr>ue_path = path, ue_compressed_size = len, ue_decoded_size = len, ue_crc = 0,
     ue_method = METHOD_STORED, ue_data_start = start, ue_data_end = start + len, ue_mode = None, ue_modified = None, ue_kind = kind\<rparr>"

theorem validate_layout_exact_witness:
  "validate_layout [sample_entry [[1], [2]] FileEntry 90 10, sample_entry [[1]] DirectoryEntry 60 0,
     sample_entry [[3]] SymlinkEntry 40 20] = Inr ()"
  by (subst validate_layout_exact)
    (simp_all add: sample_entry_def layout_ok_def entry_range_def disjnt_def)

text \<open>
  Following a path inside a tree, links included; \<open>None\<close> is a path that leaves the root. A name that is
  not in the tree is followed as a directory.
\<close>

fun resolve :: "nat \<Rightarrow> tree \<Rightarrow> bytes list \<Rightarrow> path_component list \<Rightarrow> bytes list option" where
  "resolve fuel tree here [] = Some here"
| "resolve 0 tree here (c # cs) = Some here"
| "resolve (Suc fuel) tree here (c # cs) =
     (case c of
        Normal part \<Rightarrow>
          (case tree (here @ [part]) of
             Some (SymlinkNode target) \<Rightarrow> resolve fuel tree here (target_components target @ cs)
           | _ \<Rightarrow> resolve fuel tree (here @ [part]) cs)
      | CurDir \<Rightarrow> resolve fuel tree here cs
      | ParentDir \<Rightarrow> if here = [] then None else resolve fuel tree (butlast here) cs
      | _ \<Rightarrow> None)"

definition no_links :: "tree \<Rightarrow> bool" where
  "no_links tree \<longleftrightarrow> (\<forall>path target. tree path \<noteq> Some (SymlinkNode target))"

lemma target_depth_resolve:
  assumes "no_links tree"
  shows "target_depth cs (length here) = None \<longleftrightarrow> resolve (length cs) tree here cs = None"
proof (induction cs arbitrary: here)
  case (Cons c cs)
  show ?case
  proof (cases c)
    case (Normal part)
    have "resolve (length (c # cs)) tree here (c # cs) = resolve (length cs) tree (here @ [part]) cs"
      using assms Normal by (auto simp: no_links_def split: option.split node.split)
    then show ?thesis using Cons.IH [of "here @ [part]"] Normal by simp
  next
    case ParentDir
    then show ?thesis using Cons.IH [of "butlast here"] by (cases "here = []") auto
  qed (use Cons.IH in auto)
qed simp

definition first_link :: unpack_entry where
  "first_link = sample_entry [[100], [101], [102]] SymlinkEntry 0 5"

definition second_link :: unpack_entry where
  "second_link = sample_entry [[103]] SymlinkEntry 5 8"

definition two_links :: "error + tree" where
  "two_links =
     and_then (create_symlink first_link [0x2e, 0x2e, 0x2f, 0x2e, 0x2e] (\<lambda>_. None))
       (create_symlink second_link [100, 0x2f, 101, 0x2f, 102, 0x2f, 0x2e, 0x2e])"

text \<open>C40. A link is created exactly when its target, followed from the directory of the link through a tree
  without other links, stays inside the destination; otherwise the error is that it escapes, and nothing is
  created. The check does not look at other links: two links that are accepted one after the other
  (\<open>d/e/f\<close> to \<open>../..\<close> and \<open>g\<close> to \<open>d/e/f/..\<close>) lead out of the destination together.\<close>

theorem link_check_is_lexical:
  assumes "ue_path e \<noteq> []" and "tree (ue_path e) = None" and "take 1 target \<noteq> [0x2f]" and "no_links tree"
  shows "create_symlink e target tree =
      (case resolve (length (target_components target)) tree (butlast (ue_path e)) (target_components target) of
         None \<Rightarrow> Inl (InvalidZip EscapingTarget)
       | Some _ \<Rightarrow> Inr (tree(ue_path e \<mapsto> SymlinkNode target))) \<and>
    (case two_links of Inl _ \<Rightarrow> False | Inr tree' \<Rightarrow> resolve 10 tree' [] [Normal [103]] = None)"
proof
  show "create_symlink e target tree =
      (case resolve (length (target_components target)) tree (butlast (ue_path e)) (target_components target) of
         None \<Rightarrow> Inl (InvalidZip EscapingTarget)
       | Some _ \<Rightarrow> Inr (tree(ue_path e \<mapsto> SymlinkNode target)))"
    using target_depth_resolve [OF assms(4), of "target_components target" "butlast (ue_path e)"] assms(2,3)
    by (auto simp: create_symlink_def split: option.split)
  show "case two_links of Inl _ \<Rightarrow> False | Inr tree' \<Rightarrow> resolve 10 tree' [] [Normal [103]] = None"
    by code_simp
qed

theorem link_check_is_lexical_witness:
  "create_symlink second_link [0x2e, 0x2e] (\<lambda>_. None) = Inl (InvalidZip EscapingTarget) \<and>
   create_symlink first_link [0x2e, 0x2e] (\<lambda>_. None) = Inr ((\<lambda>_. None)([[100], [101], [102]] \<mapsto> SymlinkNode [0x2e, 0x2e]))"
proof -
  have c: "target_components [0x2e, 0x2e] = [ParentDir]" by code_simp
  show ?thesis
    using link_check_is_lexical [of second_link "\<lambda>_. None" "[0x2e, 0x2e]"]
      link_check_is_lexical [of first_link "\<lambda>_. None" "[0x2e, 0x2e]"]
    by (simp add: c second_link_def first_link_def sample_entry_def no_links_def)
qed

end
