(* ===== verification/Spec2Isabelle.thy ===== *)
theory Spec2Isabelle
  imports Lz4_Encoder Bit_Reader Bit_Writer Crc Format Bwt_Inverse Bz2_Encoder Gzip Deflate_Encode Indexed_Access Gzip_Parallel Zip_Format Zip_Extract
begin

text \<open>
  A model of fbz (\<open>src/\<close>), a parallel decompressor and compressor for bzip2, gzip, LZ4 and ZIP written
  in Rust, with the theorems that make it correct.

  \<^bold>\<open>The program.\<close> A decoder maps its input into memory, finds places where decoding can start in
  parallel (block markers in bzip2, block headers in LZ4, dynamic blocks in DEFLATE), lets workers
  decode there and commits their results in order to an output sink. The three encoders cut their input
  into blocks or segments, encode them on an ordered pool and write them in order. The workers are
  either a budgeted pipeline (\<open>src/pipeline.rs\<close>, \<open>run_ordered\<close> and \<open>run_staged_ordered\<close>) or the ordered
  pool \<open>StreamingOrdered\<close> of the same file.

  \<^bold>\<open>How code is modelled.\<close> Rust's \<open>Result\<close> is a sum (\<open>Prelude\<close>, \<open>Errors\<close>): every error return is an \<open>Inl\<close>
  of the source's constructor with a reason, a panic (index out of range, overflow, \<open>unwrap\<close>, \<open>unreachable!\<close>) is
  \<open>Inl Panic\<close>, and a loop that would not end, or a wait for something that cannot happen, is
  \<open>Inl Unending\<close>. Structs are records, enums datatypes, machine integers words where they wrap or are
  used bitwise, and \<open>usize\<close> offsets natural numbers with the code's checked and saturating operations.
  \<open>u32\<close> counters of symbols and lengths are exact numbers, the same below \<open>2 ^ 32\<close> of them.
  A \<open>Read\<close> is the list of chunks it delivers; in the codecs a sink or \<open>Write\<close> is the bytes it has received
  and never fails (\<open>Output_Pipe\<close> models sinks that do). Concurrency is a parameter for the order of completion (\<open>pick\<close>, in \<open>Streaming\<close>) or a step
  relation (\<open>pipe_step\<close>, in \<open>Pipeline\<close>), and theorems hold for every order. Code that is not under
  \<open>src/\<close> is a parameter: xxHash32 (\<open>xxh\<close>), crc32fast (\<open>crc\<close>), BLAKE3 (\<open>blake3\<close>), the number of processors
  (\<open>available\<close>). A hasher of such a function is the list of the bytes it has been fed.

  \<^bold>\<open>Theories.\<close>
  \<^item> \<open>Prelude\<close>, \<open>Errors\<close>, \<open>Options\<close>: results, outcomes, slices, little-endian integers, error values
    (\<open>error.rs\<close>), encode and decode options (\<open>encode.rs\<close>, \<open>decode.rs\<close>).
  \<^item> \<open>History\<close> (\<open>history.rs\<close>), \<open>Match_Finder\<close> (\<open>matchfinder.rs\<close>): the overlapping copy equals the
    bytewise one; a reported match repeats earlier input.
  \<^item> \<open>Lz4_Block\<close>, \<open>Lz4_Frame\<close>, \<open>Lz4_Encoder\<close> (\<open>lz4.rs\<close>, \<open>lz4_encode.rs\<close>): blocks, frames, serial,
    batched and linked decoding, the streaming encoder; round trips, safety, independence of threads.
  \<^item> \<open>Streaming\<close>, \<open>Pipeline\<close> (\<open>pipeline.rs\<close>): the ordered pool refines a queue (locale
    \<open>ordered_commit\<close>, interpreted by the encoders); the pipeline keeps its budget, a consumer
    that takes every result in order gets all of them in \<open>4 * length jobs\<close> steps under every schedule, and one
    that skips results can stall.
  \<^item> \<open>Msb_Bits\<close>, \<open>Bit_Reader\<close>, \<open>Bit_Writer\<close>, \<open>Crc\<close>, \<open>Format\<close> (\<open>bitreader.rs\<close>, \<open>bitwriter.rs\<close>, \<open>crc.rs\<close>,
    \<open>format.rs\<close>): bits most significant first, the bzip2 CRC, the marker scan.
  \<^item> \<open>Canonical\<close>, \<open>Bz2_Huffman\<close>, \<open>Bz2_Decoder\<close> (\<open>decoder.rs\<close>): canonical codes and their decoder, the
    block decoder.
  \<^item> \<open>Rle1\<close>, \<open>Mtf\<close>, \<open>Bwt\<close>, \<open>Bwt_Inverse\<close>, \<open>Package_Merge\<close>, \<open>Huffman_Encode\<close>, \<open>Bz2_Encoder\<close>
    (\<open>bz2_encode/\<close>): the stages of the bzip2 encoder and the inverse of each by the decoder.
  \<^item> \<open>Bz2_Parallel\<close>, \<open>Bz2_Limits\<close>, \<open>Bz2_Assembly\<close> (\<open>decode.rs\<close>): marker lists, candidates, assembly
    and the index; a parallel result is the serial decoder's.
  \<^item> \<open>Block_Index\<close>, \<open>Indexed_Reader\<close>, \<open>Indexed_Access\<close> (\<open>index.rs\<close>, \<open>indexed.rs\<close>): the index format and
    its validation; the index that is built describes the decoded bytes, and the reader on it refines an
    array of them (locale \<open>block_cache_laws\<close>, interpreted by the cache).
  \<^item> \<open>Inflate\<close>, \<open>Gzip_Output\<close>, \<open>Gzip\<close> (\<open>gzip.rs\<close>, \<open>deflate.rs\<close>): the DEFLATE decoder, its two
    outputs, segments and the parallel stream, members.
  \<^item> \<open>Gzip_Safe\<close>, \<open>Gzip_Parallel\<close>: the serial decoder always returns (locale \<open>inflate_output\<close>, interpreted
    by both outputs); a parallel result is the serial one (locale \<open>deflate_simulation\<close>, interpreted for
    markers against plain bytes and plain bytes against the serial output).
  \<^item> \<open>Deflate_Codes\<close>, \<open>Deflate_Encode\<close> (\<open>deflate_encode.rs\<close>, \<open>gzip.rs\<close>): the DEFLATE and gzip encoders.
  \<^item> \<open>Streams\<close> (\<open>stream.rs\<close>, \<open>encode.rs\<close>): format detection, the unified decoder and encoder; runs with
    different threads agree in every format.
  \<^item> \<open>Output_Pipe\<close> (\<open>output.rs\<close>, \<open>reader.rs\<close>): sinks (locale \<open>output_sink\<close>), the pipe and the reader on a decoder
    thread, which refines reading from the bytes the thread writes.
  \<^item> \<open>Zip_Writer\<close>, \<open>Zip_Format\<close> (\<open>zip.rs\<close>): the archive writer, and a reader of the format as its specification.
  \<^item> \<open>Zip_Extract\<close> (\<open>bin/fbz/zip_extract.rs\<close>): layout checks, entry decoding, extraction.

  \<^bold>\<open>Fuel.\<close> \<open>inf_symbols\<close> has one step for every bit of the input and one more: a step consumes at
  least a bit. \<open>lengths_loop\<close> has 33 rounds: after 32 halvings every 32-bit frequency is at most one.
  \<open>walk_tree\<close> has a step for every node. The bzip2 decoder's loops consume bits or are structural.

  \<^bold>\<open>Not modelled.\<close> The command line and tar (\<open>bin/fbz.rs\<close>, \<open>bin/fbz/\<close> beside ZIP extraction), the Python
  bindings (\<open>py/\<close>), memory mapping (\<open>source.rs\<close>) and the text of error messages are I/O or glue. The \<open>zip\<close>
  crate and the file system are parameters; the rename of the staging directory at the end of an
  extraction is left out.
\<close>

end
